(* ===== verification/Prelude.thy ===== *)
theory Prelude
  imports Main "HOL-Library.Word" "HOL-Library.Signed_Division"
begin

text \<open>
  Shared vocabulary of the development.  The C code is modelled for the LP64 data model of the
  64-bit Linux build (\<open>BITS = 64\<close> of the Makefile): \<open>int\<close> has 32 bits, \<open>size_t\<close> and
  \<open>ssize_t\<close> have 64 bits, \<open>sizeof(size_t) = sizeof(void *) = 8\<close>.

  \<^item> Signed C integers are \<open>int\<close>, with the conversions that can lose bits written out
    (\<open>to_int32\<close>, \<open>to_ssize\<close>); C's truncating division and remainder are \<open>sdiv\<close> and
    \<open>smod\<close> of the library.
  \<^item> \<open>size_t\<close> values are \<open>nat\<close>, with the wrap-around modulo \<open>2 ^ 64\<close> written out
    where the code computes with them.
  \<^item> Bytes are \<open>8 word\<close>, memory blocks are lists of bytes.
  \<^item> C strings are \<open>char list\<close> without the terminating NUL.

  The collections \<open>ring_simps\<close> (offset arithmetic of both ring buffers) and
  \<open>mem_simps\<close> (reading and writing blocks of bytes) are filled by the component theories.
\<close>

named_theorems ring_simps
named_theorems mem_simps

type_synonym byte = "8 word"

section \<open>Machine integers\<close>

text \<open>Conversion of a wider value to a 32-bit \<open>int\<close> (two's complement truncation, as GCC does).\<close>

definition to_int32 :: "int \<Rightarrow> int" where
  "to_int32 x = (x + 2147483648) mod 4294967296 - 2147483648"

lemma to_int32_id [simp]: "-2147483648 \<le> x \<Longrightarrow> x < 2147483648 \<Longrightarrow> to_int32 x = x"
  by (simp add: to_int32_def)

lemma to_int32_range: "-2147483648 \<le> to_int32 x \<and> to_int32 x < 2147483648"
  by (simp add: to_int32_def)

text \<open>\<open>(ssize_t) n\<close> for a \<open>size_t\<close> value.\<close>

definition to_ssize :: "nat \<Rightarrow> int" where
  "to_ssize n = (if n < 9223372036854775808 then int n else int n - 18446744073709551616)"

lemma to_ssize_id [simp]: "n < 9223372036854775808 \<Longrightarrow> to_ssize n = int n"
  by (simp add: to_ssize_def)

definition size_wrap :: "nat \<Rightarrow> nat" where
  "size_wrap n = n mod 18446744073709551616"

lemma size_wrap_id [simp]: "n < 18446744073709551616 \<Longrightarrow> size_wrap n = n"
  by (simp add: size_wrap_def)

lemma size_wrap_less: "size_wrap n < 18446744073709551616"
  by (simp add: size_wrap_def)

lemma sdiv_nonneg [simp]: "0 \<le> a \<Longrightarrow> 0 < b \<Longrightarrow> (a::int) sdiv b = a div b"
  by (auto simp: signed_divide_int_def sgn_if zero_less_mult_iff)

lemma smod_nonneg [simp]: "0 \<le> a \<Longrightarrow> 0 < b \<Longrightarrow> (a::int) smod b = a mod b"
  by (cases "a = 0") (simp_all add: signed_modulo_int_def signed_divide_int_def sgn_if
    zero_less_mult_iff minus_div_mult_eq_mod)

section \<open>Alignment (\<open>memapi.h\<close>)\<close>

text \<open>\<open>memapi_align_bsize\<close> and \<open>memapi_align_psize\<close>.\<close>

definition memapi_align_bsize :: "nat \<Rightarrow> nat \<Rightarrow> nat" where
  "memapi_align_bsize bsz alignsize = size_wrap (size_wrap (bsz + (alignsize - 1)) div alignsize * alignsize)"

definition memapi_align_psize :: "nat \<Rightarrow> nat" where
  "memapi_align_psize psz = memapi_align_bsize psz 8"

lemma align_bsize_eq:
  assumes "0 < a" "bsz + (a - 1) < 18446744073709551616"
  shows "memapi_align_bsize bsz a = (bsz + (a - 1)) div a * a"
proof -
  have "(bsz + (a - 1)) div a * a \<le> bsz + (a - 1)" by (rule div_times_less_eq_dividend)
  with assms(2) have "(bsz + (a - 1)) div a * a < 18446744073709551616" by linarith
  with assms(2) show ?thesis by (simp only: memapi_align_bsize_def size_wrap_id)
qed

lemma align_bsize_bounds:
  assumes "0 < a" "bsz + (a - 1) < 18446744073709551616"
  shows "bsz \<le> memapi_align_bsize bsz a" "memapi_align_bsize bsz a < bsz + a"
    "a dvd memapi_align_bsize bsz a"
proof -
  let ?x = "bsz + (a - 1)"
  have e: "memapi_align_bsize bsz a = ?x div a * a" by (rule align_bsize_eq [OF assms])
  have m: "?x div a * a = ?x - ?x mod a" by (simp add: minus_mod_eq_div_mult)
  have l: "?x mod a < a" using assms(1) by simp
  show "bsz \<le> memapi_align_bsize bsz a" using e m l by linarith
  show "memapi_align_bsize bsz a < bsz + a" using e m assms(1) by linarith
  show "a dvd memapi_align_bsize bsz a" using e by simp
qed

section \<open>Blocks of memory\<close>

text \<open>\<open>get_bytes b o n\<close> reads \<open>n\<close> cells at offset \<open>o\<close>; \<open>put_bytes b o bs\<close> is \<open>memcpy(b + o, bs, |bs|)\<close>.\<close>

definition get_bytes :: "'a list \<Rightarrow> nat \<Rightarrow> nat \<Rightarrow> 'a list" where
  "get_bytes b off n = take n (drop off b)"

definition put_bytes :: "'a list \<Rightarrow> nat \<Rightarrow> 'a list \<Rightarrow> 'a list" where
  "put_bytes b off bs = take off b @ bs @ drop (off + length bs) b"

lemma length_get_bytes [mem_simps]: "off + n \<le> length b \<Longrightarrow> length (get_bytes b off n) = n"
  by (simp add: get_bytes_def)

lemma length_put_bytes [mem_simps]:
  "off + length bs \<le> length b \<Longrightarrow> length (put_bytes b off bs) = length b"
  by (simp add: put_bytes_def)

lemma nth_put_bytes:
  assumes "off + length bs \<le> length b"
  shows "put_bytes b off bs ! i =
    (if i < off then b ! i else if i < off + length bs then bs ! (i - off) else b ! i)"
proof (cases "i < off + length bs")
  case True
  then show ?thesis using assms by (auto simp: put_bytes_def nth_append)
next
  case False
  then have l: "\<not> i < length (take off b @ bs)" and e: "length (take off b @ bs) = off + length bs"
    using assms by auto
  have "put_bytes b off bs ! i = drop (off + length bs) b ! (i - (off + length bs))"
    using l e unfolding put_bytes_def append_assoc [symmetric] by (simp only: nth_append if_False)
  then show ?thesis using False assms by simp
qed

lemma get_put_same [mem_simps]:
  "off + length bs \<le> length b \<Longrightarrow> get_bytes (put_bytes b off bs) off (length bs) = bs"
  by (simp add: get_bytes_def put_bytes_def)

text \<open>\<open>agree\<close>: two blocks hold the same cells on \<open>[lo, hi)\<close>.\<close>

definition agree :: "'a list \<Rightarrow> 'a list \<Rightarrow> nat \<Rightarrow> nat \<Rightarrow> bool" where
  "agree b b' lo hi \<longleftrightarrow> length b = length b' \<and> hi \<le> length b \<and> (\<forall>i. lo \<le> i \<and> i < hi \<longrightarrow> b ! i = b' ! i)"

lemma agree_get:
  assumes "agree b b' lo hi" "lo \<le> off" "off + n \<le> hi"
  shows "get_bytes b off n = get_bytes b' off n"
proof (rule nth_equalityI)
  show "length (get_bytes b off n) = length (get_bytes b' off n)"
    using assms by (simp add: get_bytes_def agree_def)
  fix i assume "i < length (get_bytes b off n)"
  then have "i < n" using assms by (simp add: get_bytes_def)
  with assms show "get_bytes b off n ! i = get_bytes b' off n ! i"
    by (auto simp: get_bytes_def agree_def)
qed

lemma agree_put_below: "off + length bs \<le> lo \<Longrightarrow> hi \<le> length b \<Longrightarrow> lo \<le> hi \<Longrightarrow> agree b (put_bytes b off bs) lo hi"
  by (auto simp: agree_def nth_put_bytes mem_simps)

lemma agree_put_above:
  "hi \<le> off \<Longrightarrow> off + length bs \<le> length b \<Longrightarrow> agree b (put_bytes b off bs) lo hi"
  by (auto simp: agree_def nth_put_bytes mem_simps)

lemma agree_trans: "agree a b lo hi \<Longrightarrow> agree b c lo hi \<Longrightarrow> agree a c lo hi"
  by (auto simp: agree_def)

lemma agree_mono: "agree a b lo hi \<Longrightarrow> lo \<le> lo' \<Longrightarrow> hi' \<le> hi \<Longrightarrow> agree a b lo' hi'"
  by (auto simp: agree_def)

lemma agree_sym: "agree a b lo hi \<Longrightarrow> agree b a lo hi"
  by (auto simp: agree_def)

section \<open>Little-endian 64-bit words in memory\<close>

text \<open>The in-memory form of a \<open>size_t\<close> field on the little-endian targets of the build.\<close>

primrec le_bytes :: "nat \<Rightarrow> nat \<Rightarrow> byte list" where
  "le_bytes 0 n = []"
| "le_bytes (Suc k) n = word_of_nat (n mod 256) # le_bytes k (n div 256)"

primrec le_value :: "byte list \<Rightarrow> nat" where
  "le_value [] = 0"
| "le_value (b # bs) = unat b + 256 * le_value bs"

lemma length_le_bytes [simp]: "length (le_bytes k n) = k"
  by (induction k arbitrary: n) auto

lemma le_value_bytes: "le_value (le_bytes k n) = n mod 256 ^ k"
proof (induction k arbitrary: n)
  case 0
  then show ?case by simp
next
  case (Suc k)
  have "unat (word_of_nat (n mod 256) :: byte) = n mod 256"
    by (simp add: unat_of_nat)
  with Suc show ?case by (simp add: mod_mult2_eq)
qed

lemma le_value_bytes_id [simp]: "n < 256 ^ k \<Longrightarrow> le_value (le_bytes k n) = n"
  by (simp add: le_value_bytes)

lemma le_value_zero [simp]: "le_value (replicate k 0) = 0"
  by (induction k) auto

lemma le_value_bound: "le_value bs < 256 ^ length bs"
proof (induction bs)
  case Nil
  then show ?case by simp
next
  case (Cons b bs)
  have "unat b < 256" using unsigned_less [of b] by simp
  with Cons show ?case by simp
qed

end
