(* ===== verification/Fifo_Spec.thy ===== *)
theory Fifo_Spec
  imports Prelude
begin

text \<open>
  The contract of the two ring buffers, as their clients see it.  A queue offers \<open>enq\<close>, which
  reports whether it accepted the element, and \<open>deq\<close>, which returns an element or nothing.
  Nothing is said about \<^emph>\<open>when\<close> an operation succeeds: both rings may refuse (a lock is taken,
  no room, a wrap in progress).  What is promised is the order and the conservation of elements.
  \<open>reliable_fifo\<close> adds when a refusal is allowed.
\<close>

locale fifo_queue =
  fixes invar :: "'q \<Rightarrow> bool"
    and content :: "'q \<Rightarrow> 'a list"
    and enq :: "'e \<Rightarrow> 'q \<Rightarrow> bool \<times> 'q"
    and deq :: "'q \<Rightarrow> 'a option \<times> 'q"
    and stored :: "'e \<Rightarrow> 'q \<Rightarrow> 'a"
    and ok :: "'e \<Rightarrow> 'q \<Rightarrow> bool"
  assumes enq_invar: "invar q \<Longrightarrow> ok e q \<Longrightarrow> invar (snd (enq e q))"
    and deq_invar: "invar q \<Longrightarrow> invar (snd (deq q))"
    and enq_content: "invar q \<Longrightarrow> ok e q \<Longrightarrow>
      content (snd (enq e q)) = (if fst (enq e q) then content q @ [stored e q] else content q)"
    and deq_content: "invar q \<Longrightarrow>
      content q = (case fst (deq q) of None \<Rightarrow> [] | Some a \<Rightarrow> [a]) @ content (snd (deq q))"
begin

text \<open>A client's run: \<open>Inl e\<close> tries to enqueue \<open>e\<close>, \<open>Inr ()\<close> tries to dequeue.\<close>

fun run :: "('e + unit) list \<Rightarrow> 'q \<Rightarrow> 'a list \<times> 'a list \<times> 'q" where
  "run [] q = ([], [], q)"
| "run (Inl e # ops) q =
     (case enq e q of (b, q') \<Rightarrow> case run ops q' of (i, out, q'') \<Rightarrow>
        (if b then stored e q # i else i, out, q''))"
| "run (Inr u # ops) q =
     (case deq q of (r, q') \<Rightarrow> case run ops q' of (i, out, q'') \<Rightarrow>
        (i, (case r of None \<Rightarrow> out | Some a \<Rightarrow> a # out), q''))"

fun run_ok :: "('e + unit) list \<Rightarrow> 'q \<Rightarrow> bool" where
  "run_ok [] q = True"
| "run_ok (Inl e # ops) q = (ok e q \<and> run_ok ops (snd (enq e q)))"
| "run_ok (Inr u # ops) q = run_ok ops (snd (deq q))"

lemma run_conserves:
  assumes "invar q" "run_ok ops q" "run ops q = (i, out, q')"
  shows "invar q' \<and> content q @ i = out @ content q'"
  using assms
proof (induction ops arbitrary: q i out q')
  case Nil
  then show ?case by simp
next
  case (Cons x ops)
  show ?case
  proof (cases x)
    case (Inl e)
    obtain b q1 where b: "enq e q = (b, q1)" by force
    obtain i1 out1 q2 where r: "run ops q1 = (i1, out1, q2)" by (metis prod_cases3)
    have "invar q1" "content q1 = (if b then content q @ [stored e q] else content q)"
      using enq_invar [of q e] enq_content [of q e] Cons.prems b Inl by auto
    moreover have "run_ok ops q1" using Cons.prems(2) Inl b by simp
    ultimately show ?thesis using Cons.IH [of q1 i1 out1 q2] r Cons.prems(3) Inl b
      by (auto split: if_splits)
  next
    case (Inr u)
    obtain a q1 where b: "deq q = (a, q1)" by force
    obtain i1 out1 q2 where r: "run ops q1 = (i1, out1, q2)" by (metis prod_cases3)
    have "invar q1" "content q = (case a of None \<Rightarrow> [] | Some a \<Rightarrow> [a]) @ content q1"
      using deq_invar [of q] deq_content [of q] Cons.prems b by auto
    moreover have "run_ok ops q1" using Cons.prems(2) Inr b by simp
    ultimately show ?thesis using Cons.IH [of q1 i1 out1 q2] r Cons.prems(3) Inr b
      by (auto split: option.splits)
  qed
qed

text \<open>Started empty, what comes out is a prefix of what went in, in the same order.\<close>

lemma run_fifo_prefix:
  assumes "invar q" "content q = []" "run_ok ops q" "run ops q = (i, out, q')"
  shows "\<exists>rest. i = out @ rest \<and> content q' = rest"
  using run_conserves [OF assms(1,3,4)] assms(2) by auto

end

text \<open>A queue with a capacity: it refuses only when full, and yields nothing only when empty.\<close>

locale reliable_fifo = fifo_queue invar content enq deq stored ok
  for invar :: "'q \<Rightarrow> bool" and content :: "'q \<Rightarrow> 'a list"
    and enq :: "'e \<Rightarrow> 'q \<Rightarrow> bool \<times> 'q" and deq :: "'q \<Rightarrow> 'a option \<times> 'q"
    and stored :: "'e \<Rightarrow> 'q \<Rightarrow> 'a" and ok :: "'e \<Rightarrow> 'q \<Rightarrow> bool" +
  fixes capacity :: "'q \<Rightarrow> nat"
  assumes enq_accepts: "invar q \<Longrightarrow> ok e q \<Longrightarrow> fst (enq e q) \<longleftrightarrow> length (content q) < capacity q"
    and deq_yields: "invar q \<Longrightarrow> fst (deq q) = None \<longleftrightarrow> content q = []"
    and enq_capacity: "capacity (snd (enq e q)) = capacity q"
    and deq_capacity: "capacity (snd (deq q)) = capacity q"
begin

lemma run_capacity: "run ops q = (i, out, q') \<Longrightarrow> capacity q' = capacity q"
proof (induction ops q arbitrary: i out rule: run.induct)
  case (2 e ops q)
  then show ?case using enq_capacity [of e q] by (auto split: prod.splits)
next
  case (3 u ops q)
  then show ?case using deq_capacity [of q] by (auto split: prod.splits)
qed simp

lemma enq_full: "invar q \<Longrightarrow> ok e q \<Longrightarrow> length (content q) = capacity q \<Longrightarrow> \<not> fst (enq e q)"
  by (simp add: enq_accepts)

lemma deq_head:
  assumes "invar q" "content q = a # as"
  shows "fst (deq q) = Some a \<and> content (snd (deq q)) = as"
  using deq_content [of q] deq_yields [of q] assms by (auto split: option.splits)

lemma enq_then_deq:
  assumes "invar q" "ok e q" "content q = []" "0 < capacity q"
  shows "fst (deq (snd (enq e q))) = Some (stored e q)"
  using deq_head [of "snd (enq e q)" "stored e q" "[]"] enq_content [of q e] enq_invar [of q e]
    enq_accepts [of q e] assms by auto

end

end
