(* ===== verification/RingBuf.thy ===== *)
theory RingBuf
  imports Fifo_Spec "HOL-Library.Multiset"
begin

text \<open>
  \<open>source/common/ringbuf.h\<close>: the ring of message buffers.  The logger keeps its pool of
  formatting buffers in it (\<open>mempool\<close>): \<open>ringbuf_pop\<close> takes a buffer out, \<open>ringbuf_push\<close>
  gives it back.  Offsets run over two laps, \<open>[0, 2L)\<close>, so that equal positions on the same lap
  mean empty and on different laps mean full.  This theory holds the sequential operations, the
  ring invariant and the FIFO contract; \<open>RingBuf_Conc\<close> has the interleavings.
\<close>

section \<open>Offset arithmetic on two laps\<close>

text \<open>\<open>RINGBUF_RESTORE_STATE\<close> (the wrap flag) and \<open>RINGBUF_NORMALIZE_OFFSET\<close>.\<close>

definition ringbuf_restore_wrap :: "int \<Rightarrow> int \<Rightarrow> int \<Rightarrow> int" where
  "ringbuf_restore_wrap Ro Wo L = (if Ro sdiv L = Wo sdiv L then 0 else 1)"

definition ringbuf_normalize_offset :: "int \<Rightarrow> int \<Rightarrow> int" where
  "ringbuf_normalize_offset Ao L = ((Ao sdiv L) smod 2) * L + Ao smod L"

text \<open>\<open>Sr = f*L + W - R\<close>, the readable amount the code computes from the two offsets.\<close>

definition ring_used :: "int \<Rightarrow> int \<Rightarrow> int \<Rightarrow> int" where
  "ring_used Ro Wo L = ringbuf_restore_wrap Ro Wo L * L + Wo smod L - Ro smod L"

lemma normalize_mod2 [ring_simps]:
  assumes "0 \<le> A" "0 < L"
  shows "ringbuf_normalize_offset A L = A mod (2 * L)"
proof -
  have "A mod (L * 2) = L * (A div L mod 2) + A mod L" using assms(2) by (intro zmod_zmult2_eq) simp
  moreover have "A smod L = A mod L" "A sdiv L = A div L" "A div L smod 2 = A div L mod 2"
    using assms by (simp_all add: pos_imp_zdiv_nonneg_iff)
  ultimately show ?thesis unfolding ringbuf_normalize_offset_def by (simp only: ac_simps)
qed

lemma normalize_id: "0 \<le> A \<Longrightarrow> A < 2 * L \<Longrightarrow> ringbuf_normalize_offset A L = A"
  by (simp add: normalize_mod2)

text \<open>
  With ghost counters \<open>r \<le> w \<le> r + L\<close> that never wrap, the readable amount is \<open>w - r\<close>:
  two laps are enough to tell an empty ring from a full one.
\<close>

lemma lap_div_mod:
  fixes x :: int
  assumes "0 \<le> x" "x < 2 * L"
  shows "(x div L = 0 \<and> x mod L = x \<and> x < L) \<or> (x div L = 1 \<and> x mod L = x - L \<and> L \<le> x)"
proof (cases "x < L")
  case True
  then show ?thesis using assms by simp
next
  case False
  then have "(x - L) div L = 0" "(x - L) mod L = x - L"
    using assms by (intro div_pos_pos_trivial mod_pos_pos_trivial; linarith)+
  moreover have "x div L = (x - L) div L + 1"
    using div_add_self2 [of L "x - L"] False assms by simp
  moreover have "x mod L = (x - L) mod L" by (rule minus_mod_self2 [symmetric])
  ultimately show ?thesis using False by linarith
qed

lemma used_offsets:
  assumes "0 \<le> Ro" "Ro < 2 * L" "0 \<le> Wo" "Wo < 2 * L"
  shows "ring_used Ro Wo L =
    (if Ro < L \<or> L \<le> Wo then Wo - Ro else Wo + 2 * L - Ro)"
proof -
  have L: "0 < L" using assms by linarith
  show ?thesis using lap_div_mod [OF assms(1,2)] lap_div_mod [OF assms(3,4)] assms L
    by (auto simp: ring_used_def ringbuf_restore_wrap_def)
qed

lemma mod2_cases:
  fixes r w :: int
  assumes "r \<le> w" "w \<le> r + L" "0 < L"
  shows "w mod (2 * L) = r mod (2 * L) + (w - r) \<or> w mod (2 * L) = r mod (2 * L) + (w - r) - 2 * L"
proof -
  let ?m = "r mod (2 * L) + (w - r)"
  have b: "0 \<le> r mod (2 * L)" "r mod (2 * L) < 2 * L" using assms(3) by simp_all
  have e: "w mod (2 * L) = ?m mod (2 * L)" by (simp add: mod_add_left_eq)
  show ?thesis
  proof (cases "?m < 2 * L")
    case True
    then have "?m mod (2 * L) = ?m" using b assms by (intro mod_pos_pos_trivial; linarith)
    with e show ?thesis by simp
  next
    case False
    then have "(?m - 2 * L) mod (2 * L) = ?m - 2 * L" using b assms
      by (intro mod_pos_pos_trivial; linarith)
    moreover have "(?m - 2 * L) mod (2 * L) = ?m mod (2 * L)" by simp
    ultimately show ?thesis using e by linarith
  qed
qed

lemma used_counters [ring_simps]:
  assumes "r \<le> w" "w \<le> r + L" "0 < L"
  shows "ring_used (r mod (2 * L)) (w mod (2 * L)) L = w - r"
proof -
  let ?R = "r mod (2 * L)" and ?W = "w mod (2 * L)"
  have b: "0 \<le> ?R" "?R < 2 * L" "0 \<le> ?W" "?W < 2 * L" using assms(3) by simp_all
  have u: "ring_used ?R ?W L = (if ?R < L \<or> L \<le> ?W then ?W - ?R else ?W + 2 * L - ?R)"
    by (rule used_offsets [OF b])
  from mod2_cases [OF assms] show ?thesis
    unfolding u using b assms by (elim disjE; simp only: split: if_split; linarith)
qed

lemma used_step_write:
  assumes "0 \<le> Ro" "Ro < 2 * L" "0 \<le> Wo" "Wo < 2 * L" "0 \<le> ring_used Ro Wo L"
    "ring_used Ro Wo L + n \<le> L" "0 \<le> n"
  shows "ring_used Ro ((Wo + n) mod (2 * L)) L = ring_used Ro Wo L + n"
proof -
  let ?u = "ring_used Ro Wo L"
  have L: "0 < L" using assms by linarith
  have w: "(Ro + ?u) mod (2 * L) = Wo"
  proof -
    have "Ro + ?u = Wo \<or> Ro + ?u = Wo + 2 * L" using used_offsets [OF assms(1-4)] by auto
    then show ?thesis using assms(3,4) by auto
  qed
  then have "(Wo + n) mod (2 * L) = (Ro + (?u + n)) mod (2 * L)"
    by (metis add.assoc mod_add_left_eq)
  with used_counters [of Ro "Ro + (?u + n)" L] assms L show ?thesis by simp
qed

lemma used_step_read:
  assumes "0 \<le> Ro" "Ro < 2 * L" "0 \<le> Wo" "Wo < 2 * L" "ring_used Ro Wo L \<le> L"
    "n \<le> ring_used Ro Wo L" "0 \<le> n"
  shows "ring_used ((Ro + n) mod (2 * L)) Wo L = ring_used Ro Wo L - n"
proof -
  let ?u = "ring_used Ro Wo L"
  have L: "0 < L" using assms by linarith
  have "Ro + ?u = Wo \<or> Ro + ?u = Wo + 2 * L" using used_offsets [OF assms(1-4)] by auto
  then have "(Ro + ?u) mod (2 * L) = Wo" using assms(3,4) by auto
  with used_counters [of "Ro + n" "Ro + ?u" L] assms L show ?thesis by simp
qed

section \<open>State\<close>

text \<open>
  \<open>ringbuf_t\<close>.  The buffer holds pointers to elements, \<open>None\<close> is NULL.  The locks are the
  integers the code swaps; \<open>rb_L\<close> is the number of slots.
\<close>

record 'a ringbuf_t =
  rb_RLock :: int
  rb_WLock :: int
  rb_W :: int
  rb_R :: int
  rb_L :: int
  rb_B :: "'a option list"

text \<open>\<open>ringbuf_elt_t\<close>: what \<open>ringbuf_elt_new\<close> allocates (zeroed data of \<open>datasize\<close> bytes).\<close>

record ringbuf_elt_t =
  elt_free_cb :: bool
  elt_size :: nat
  elt_data :: "byte list"

definition ringbuf_elt_new :: "nat \<Rightarrow> bool \<Rightarrow> ringbuf_elt_t" where
  "ringbuf_elt_new datasize free_cb =
     \<lparr> elt_free_cb = free_cb, elt_size = datasize, elt_data = replicate (datasize + 1) 0 \<rparr>"

definition ringbuf_init :: "int \<Rightarrow> 'a ringbuf_t" where
  "ringbuf_init len =
     (let len1 = (if len < 2 then 2 else len);
          len2 = (if len1 > 131071 then 131071 else len1)
      in \<lparr> rb_RLock = 0, rb_WLock = 0, rb_W = 0, rb_R = 0, rb_L = len2, rb_B = replicate (nat len2) None \<rparr>)"

text \<open>
  \<open>ringbuf_uninit\<close> takes both locks for ever, clears the slots from the last to the first and
  hands every element with a free callback to that callback; the result lists those calls in order.
\<close>

fun uninit_slots :: "('a \<Rightarrow> bool) \<Rightarrow> nat \<Rightarrow> 'a option list \<Rightarrow> 'a list \<times> 'a option list" where
  "uninit_slots has_free 0 B = ([], B)"
| "uninit_slots has_free (Suc i) B =
     (case B ! i of
        None \<Rightarrow> uninit_slots has_free i B
      | Some elt \<Rightarrow>
          (case uninit_slots has_free i (B[i := None]) of (freed, B') \<Rightarrow>
             (if has_free elt then elt # freed else freed, B')))"

definition ringbuf_uninit :: "('a \<Rightarrow> bool) \<Rightarrow> 'a ringbuf_t \<Rightarrow> 'a list \<times> 'a ringbuf_t" where
  "ringbuf_uninit has_free rb =
     (case uninit_slots has_free (nat (rb_L rb)) (rb_B rb) of (freed, B') \<Rightarrow>
        (freed, rb\<lparr> rb_RLock := 1, rb_WLock := 1, rb_B := B' \<rparr>))"

section \<open>Push and pop\<close>

definition ringbuf_push :: "'a ringbuf_t \<Rightarrow> 'a option \<Rightarrow> int \<times> 'a ringbuf_t" where
  "ringbuf_push rb elt =
     (if rb_WLock rb = 0 then
        (let rb1 = rb\<lparr> rb_WLock := 1 \<rparr>;
             L = rb_L rb1; Ro = rb_R rb1; Wo = rb_W rb1;
             wrap = ringbuf_restore_wrap Ro Wo L; R = Ro smod L; W = Wo smod L
         in if L + R - wrap * L - W > 0 then
              (1, rb1\<lparr> rb_B := (rb_B rb1)[nat W := elt],
                       rb_W := ringbuf_normalize_offset (Wo + 1) L,
                       rb_WLock := 0 \<rparr>)
            else (0, rb1\<lparr> rb_WLock := 0 \<rparr>))
      else (0, rb))"

text \<open>The popped pointer is \<open>None\<close> (NULL) when the pop fails: \<open>*eltp\<close> is then not written.\<close>

definition ringbuf_pop :: "'a ringbuf_t \<Rightarrow> int \<times> 'a option \<times> 'a ringbuf_t" where
  "ringbuf_pop rb =
     (if rb_RLock rb = 0 then
        (let rb1 = rb\<lparr> rb_RLock := 1 \<rparr>;
             L = rb_L rb1; Wo = rb_W rb1; Ro = rb_R rb1;
             wrap = ringbuf_restore_wrap Ro Wo L; R = Ro smod L; W = Wo smod L
         in if wrap * L + W - R > 0 then
              (1, rb_B rb1 ! nat R,
               rb1\<lparr> rb_B := (rb_B rb1)[nat R := None],
                    rb_R := ringbuf_normalize_offset (Ro + 1) L,
                    rb_RLock := 0 \<rparr>)
            else (0, None, rb1\<lparr> rb_RLock := 0 \<rparr>))
      else (0, None, rb))"

section \<open>The ring invariant and its content\<close>

definition ringbuf_count :: "'a ringbuf_t \<Rightarrow> nat" where
  "ringbuf_count rb = nat (ring_used (rb_R rb) (rb_W rb) (rb_L rb))"

definition slot_at :: "'a ringbuf_t \<Rightarrow> nat \<Rightarrow> nat" where
  "slot_at rb i = nat ((rb_R rb + int i) mod rb_L rb)"

definition ringbuf_slots :: "'a ringbuf_t \<Rightarrow> 'a option list" where
  "ringbuf_slots rb = map (\<lambda>i. rb_B rb ! slot_at rb i) [0..<ringbuf_count rb]"

text \<open>The elements in the order they will be popped.\<close>

definition ringbuf_content :: "'a ringbuf_t \<Rightarrow> 'a list" where
  "ringbuf_content rb = map the (ringbuf_slots rb)"

definition ringbuf_offsets_ok :: "'a ringbuf_t \<Rightarrow> bool" where
  "ringbuf_offsets_ok rb \<longleftrightarrow> 2 \<le> rb_L rb \<and> rb_L rb \<le> 131071 \<and> length (rb_B rb) = nat (rb_L rb) \<and>
     0 \<le> rb_R rb \<and> rb_R rb < 2 * rb_L rb \<and> 0 \<le> rb_W rb \<and> rb_W rb < 2 * rb_L rb \<and>
     0 \<le> ring_used (rb_R rb) (rb_W rb) (rb_L rb) \<and> ring_used (rb_R rb) (rb_W rb) (rb_L rb) \<le> rb_L rb"

text \<open>
  The invariant: the locks are free, the offsets are on two laps with at most \<open>L\<close> elements
  between them, and a slot holds an element exactly when it is between the offsets.
\<close>

definition ringbuf_inv :: "'a ringbuf_t \<Rightarrow> bool" where
  "ringbuf_inv rb \<longleftrightarrow> rb_RLock rb = 0 \<and> rb_WLock rb = 0 \<and> ringbuf_offsets_ok rb \<and>
     (\<forall>j < nat (rb_L rb). rb_B rb ! j \<noteq> None \<longleftrightarrow> j \<in> slot_at rb ` {0..<ringbuf_count rb})"

lemma slot_at_less: "0 < rb_L rb \<Longrightarrow> slot_at rb i < nat (rb_L rb)"
  by (simp add: slot_at_def)

lemma slot_at_inj:
  assumes "slot_at rb i = slot_at rb j" "i < nat (rb_L rb)" "j < nat (rb_L rb)" "0 < rb_L rb"
  shows "i = j"
proof -
  let ?L = "rb_L rb"
  have "(rb_R rb + int i) mod ?L = (rb_R rb + int j) mod ?L"
    using assms(1,4) by (simp add: slot_at_def eq_nat_nat_iff)
  then have "int i mod ?L = int j mod ?L"
    by (metis add.commute add_diff_cancel_left' mod_diff_left_eq)
  with assms(2-4) show ?thesis by simp
qed

lemma ringbuf_count_le: "ringbuf_offsets_ok rb \<Longrightarrow> ringbuf_count rb \<le> nat (rb_L rb)"
  by (auto simp: ringbuf_offsets_ok_def ringbuf_count_def)

lemma length_content [simp]: "length (ringbuf_content rb) = ringbuf_count rb"
  by (simp add: ringbuf_content_def ringbuf_slots_def)


lemma content_empty_iff: "ringbuf_content rb = [] \<longleftrightarrow> ringbuf_count rb = 0"
  using length_content [of rb] by (metis length_0_conv)

text \<open>The write slot is the slot just after the content.\<close>

lemma write_slot:
  assumes "ringbuf_offsets_ok rb"
  shows "nat (rb_W rb mod rb_L rb) = slot_at rb (ringbuf_count rb)"
proof -
  let ?u = "ring_used (rb_R rb) (rb_W rb) (rb_L rb)"
  have u: "int (ringbuf_count rb) = ?u" using assms by (simp add: ringbuf_offsets_ok_def ringbuf_count_def)
  have "rb_R rb + ?u = rb_W rb \<or> rb_R rb + ?u = rb_W rb + 2 * rb_L rb"
    using assms used_offsets [of "rb_R rb" "rb_L rb" "rb_W rb"] by (auto simp: ringbuf_offsets_ok_def)
  moreover have "(rb_W rb + 2 * rb_L rb) mod rb_L rb = rb_W rb mod rb_L rb" by simp
  ultimately have "(rb_R rb + ?u) mod rb_L rb = rb_W rb mod rb_L rb" by metis
  then show ?thesis by (simp add: slot_at_def u)
qed

lemma read_slot: "0 \<le> rb_R rb \<Longrightarrow> nat (rb_R rb mod rb_L rb) = slot_at rb 0"
  by (simp add: slot_at_def)

text \<open>What the two operations do, over the invariant's vocabulary.\<close>

lemma ringbuf_push_eq:
  assumes "ringbuf_inv rb"
  shows "ringbuf_push rb e =
    (if int (ringbuf_count rb) < rb_L rb
     then (1, rb\<lparr> rb_B := (rb_B rb)[slot_at rb (ringbuf_count rb) := e],
                   rb_W := (rb_W rb + 1) mod (2 * rb_L rb) \<rparr>)
     else (0, rb))"
proof -
  have ok: "ringbuf_offsets_ok rb" using assms by (simp add: ringbuf_inv_def)
  then have "int (ringbuf_count rb) = ring_used (rb_R rb) (rb_W rb) (rb_L rb)"
    by (simp add: ringbuf_offsets_ok_def ringbuf_count_def)
  then show ?thesis
    using assms ok write_slot [OF ok]
    by (auto simp: ringbuf_push_def ringbuf_inv_def ringbuf_offsets_ok_def ring_used_def Let_def ring_simps)
qed

lemma ringbuf_pop_eq:
  assumes "ringbuf_inv rb"
  shows "ringbuf_pop rb =
    (if 0 < ringbuf_count rb
     then (1, rb_B rb ! slot_at rb 0,
           rb\<lparr> rb_B := (rb_B rb)[slot_at rb 0 := None], rb_R := (rb_R rb + 1) mod (2 * rb_L rb) \<rparr>)
     else (0, None, rb))"
proof -
  have ok: "ringbuf_offsets_ok rb" using assms by (simp add: ringbuf_inv_def)
  then have "int (ringbuf_count rb) = ring_used (rb_R rb) (rb_W rb) (rb_L rb)"
    by (simp add: ringbuf_offsets_ok_def ringbuf_count_def)
  then show ?thesis
    using assms ok read_slot [of rb]
    by (auto simp: ringbuf_pop_def ringbuf_inv_def ringbuf_offsets_ok_def ring_used_def Let_def ring_simps)
qed

lemma count_push:
  assumes "ringbuf_offsets_ok rb" "int (ringbuf_count rb) < rb_L rb"
  shows "ring_used (rb_R rb) ((rb_W rb + 1) mod (2 * rb_L rb)) (rb_L rb) = int (ringbuf_count rb) + 1"
  using used_step_write [of "rb_R rb" "rb_L rb" "rb_W rb" 1] assms
  by (simp add: ringbuf_offsets_ok_def ringbuf_count_def)

lemma count_pop:
  assumes "ringbuf_offsets_ok rb" "0 < ringbuf_count rb"
  shows "ring_used ((rb_R rb + 1) mod (2 * rb_L rb)) (rb_W rb) (rb_L rb) = int (ringbuf_count rb) - 1"
  using used_step_read [of "rb_R rb" "rb_L rb" "rb_W rb" 1] assms
  by (simp add: ringbuf_offsets_ok_def ringbuf_count_def)

lemma slot_at_next:
  assumes "0 \<le> rb_R rb" "0 < rb_L rb"
  shows "nat (((rb_R rb + 1) mod (2 * rb_L rb) + int i) mod rb_L rb) = slot_at rb (Suc i)"
proof -
  have "(rb_R rb + 1) mod (2 * rb_L rb) mod rb_L rb = (rb_R rb + 1) mod rb_L rb"
    by (rule mod_mod_cancel) simp
  then have "((rb_R rb + 1) mod (2 * rb_L rb) + int i) mod rb_L rb = (rb_R rb + 1 + int i) mod rb_L rb"
    by (metis mod_add_left_eq)
  then show ?thesis by (simp add: slot_at_def ac_simps)
qed

text \<open>Counts and slots after a push or a pop, whatever the slots hold.\<close>

lemma push_count:
  assumes "ringbuf_offsets_ok rb" "int (ringbuf_count rb) < rb_L rb"
  shows "ringbuf_count (rb\<lparr> rb_B := B, rb_W := (rb_W rb + 1) mod (2 * rb_L rb) \<rparr>) = Suc (ringbuf_count rb)"
  unfolding ringbuf_count_def [of "rb\<lparr> rb_B := B, rb_W := (rb_W rb + 1) mod (2 * rb_L rb) \<rparr>"]
  using count_push [OF assms] by simp

lemma pop_count:
  assumes "ringbuf_offsets_ok rb" "0 < ringbuf_count rb"
  shows "Suc (ringbuf_count (rb\<lparr> rb_B := B, rb_R := (rb_R rb + 1) mod (2 * rb_L rb) \<rparr>)) = ringbuf_count rb"
  unfolding ringbuf_count_def [of "rb\<lparr> rb_B := B, rb_R := (rb_R rb + 1) mod (2 * rb_L rb) \<rparr>"]
  using count_pop [OF assms] assms(2) by simp

lemma slot_at_push [simp]: "slot_at (rb\<lparr> rb_B := B, rb_W := w \<rparr>) = slot_at rb"
  by (rule ext) (simp add: slot_at_def)

lemma slot_at_pop:
  assumes "0 \<le> rb_R rb" "0 < rb_L rb"
  shows "slot_at (rb\<lparr> rb_B := B, rb_R := (rb_R rb + 1) mod (2 * rb_L rb) \<rparr>) i = slot_at rb (Suc i)"
  using slot_at_next [OF assms, of i] by (simp add: slot_at_def)

lemma push_inv:
  assumes "ringbuf_inv rb" "e \<noteq> None"
  shows "ringbuf_inv (snd (ringbuf_push rb e))"
proof (cases "int (ringbuf_count rb) < rb_L rb")
  case False
  then show ?thesis using assms by (simp add: ringbuf_push_eq)
next
  case True
  let ?c = "ringbuf_count rb" and ?rb = "snd (ringbuf_push rb e)"
  have ok: "ringbuf_offsets_ok rb" using assms by (simp add: ringbuf_inv_def)
  have rb': "?rb = rb\<lparr> rb_B := (rb_B rb)[slot_at rb ?c := e], rb_W := (rb_W rb + 1) mod (2 * rb_L rb) \<rparr>"
    using True by (simp add: ringbuf_push_eq [OF assms(1)])
  have c: "ringbuf_count ?rb = Suc ?c" unfolding rb' by (rule push_count [OF ok True])
  have s: "slot_at ?rb = slot_at rb" unfolding rb' by simp
  have "ringbuf_offsets_ok ?rb"
    using ok count_push [OF ok True] True by (simp add: rb' ringbuf_offsets_ok_def)
  moreover have "rb_B ?rb ! j \<noteq> None \<longleftrightarrow> j \<in> slot_at ?rb ` {0..<ringbuf_count ?rb}"
    if j: "j < nat (rb_L rb)" for j
  proof -
    have "rb_B ?rb ! j = (if j = slot_at rb ?c then e else rb_B rb ! j)"
      using j ok by (auto simp: rb' nth_list_update ringbuf_offsets_ok_def)
    moreover have "rb_B rb ! j \<noteq> None \<longleftrightarrow> j \<in> slot_at rb ` {0..<?c}"
      using assms(1) j by (simp add: ringbuf_inv_def)
    ultimately show ?thesis using assms(2) unfolding c s by (auto simp: atLeast0_lessThan_Suc)
  qed
  ultimately show ?thesis using assms by (simp add: ringbuf_inv_def rb')
qed

lemma push_content:
  assumes "ringbuf_inv rb"
  shows "ringbuf_content (snd (ringbuf_push rb (Some x))) =
    (if fst (ringbuf_push rb (Some x)) = 1 then ringbuf_content rb @ [x] else ringbuf_content rb)"
proof (cases "int (ringbuf_count rb) < rb_L rb")
  case False
  then show ?thesis using assms by (simp add: ringbuf_push_eq)
next
  case True
  let ?c = "ringbuf_count rb" and ?rb = "snd (ringbuf_push rb (Some x))"
  have ok: "ringbuf_offsets_ok rb" using assms by (simp add: ringbuf_inv_def)
  have rb': "?rb = rb\<lparr> rb_B := (rb_B rb)[slot_at rb ?c := Some x], rb_W := (rb_W rb + 1) mod (2 * rb_L rb) \<rparr>"
    using True by (simp add: ringbuf_push_eq [OF assms(1)])
  have c: "ringbuf_count ?rb = Suc ?c" unfolding rb' by (rule push_count [OF ok True])
  have s: "slot_at ?rb = slot_at rb" unfolding rb' by simp
  have L: "0 < rb_L rb" "length (rb_B rb) = nat (rb_L rb)" using ok by (simp_all add: ringbuf_offsets_ok_def)
  have same: "rb_B ?rb ! slot_at rb i = rb_B rb ! slot_at rb i" if "i < ?c" for i
  proof -
    have "?c < nat (rb_L rb)" using True by linarith
    with that have "slot_at rb i \<noteq> slot_at rb ?c" using slot_at_inj [of rb i ?c] L(1) by auto
    then show ?thesis by (simp add: rb')
  qed
  have new: "rb_B ?rb ! slot_at rb ?c = Some x" using L by (simp add: rb' slot_at_less)
  have "ringbuf_content ?rb = ringbuf_content rb @ [x]"
    using same new by (simp add: ringbuf_content_def ringbuf_slots_def c s)
  then show ?thesis using True assms by (simp add: ringbuf_push_eq)
qed

lemma pop_inv:
  assumes "ringbuf_inv rb"
  shows "ringbuf_inv (snd (snd (ringbuf_pop rb)))"
proof (cases "0 < ringbuf_count rb")
  case False
  then show ?thesis using assms by (simp add: ringbuf_pop_eq)
next
  case True
  let ?c = "ringbuf_count rb" and ?rb = "snd (snd (ringbuf_pop rb))"
  have ok: "ringbuf_offsets_ok rb" using assms by (simp add: ringbuf_inv_def)
  have L: "0 < rb_L rb" "0 \<le> rb_R rb" "length (rb_B rb) = nat (rb_L rb)"
    using ok by (simp_all add: ringbuf_offsets_ok_def)
  have rb': "?rb = rb\<lparr> rb_B := (rb_B rb)[slot_at rb 0 := None], rb_R := (rb_R rb + 1) mod (2 * rb_L rb) \<rparr>"
    using True by (simp add: ringbuf_pop_eq [OF assms])
  have c: "Suc (ringbuf_count ?rb) = ?c" unfolding rb' by (rule pop_count [OF ok True])
  have s: "slot_at ?rb i = slot_at rb (Suc i)" for i unfolding rb' by (rule slot_at_pop [OF L(2,1)])
  have "ringbuf_offsets_ok ?rb"
    using ok count_pop [OF ok True] True ringbuf_count_le [OF ok]
    by (simp add: rb' ringbuf_offsets_ok_def)
  moreover have "rb_B ?rb ! j \<noteq> None \<longleftrightarrow> j \<in> slot_at ?rb ` {0..<ringbuf_count ?rb}"
    if j: "j < nat (rb_L rb)" for j
  proof -
    have split: "{0..<?c} = insert 0 (Suc ` {0..<ringbuf_count ?rb})"
      unfolding c [symmetric] by (simp add: atLeast0_lessThan_Suc_eq_insert_0)
    have "slot_at rb 0 \<notin> slot_at rb ` Suc ` {0..<ringbuf_count ?rb}"
      using slot_at_inj [of rb 0] L ringbuf_count_le [OF ok] c by fastforce
    moreover have "slot_at ?rb ` {0..<ringbuf_count ?rb} = slot_at rb ` Suc ` {0..<ringbuf_count ?rb}"
      by (auto simp add: image_image s simp del: image_Suc_atLeastLessThan)
    moreover have "rb_B rb ! j \<noteq> None \<longleftrightarrow> j \<in> insert (slot_at rb 0) (slot_at rb ` Suc ` {0..<ringbuf_count ?rb})"
      using assms j unfolding ringbuf_inv_def split by simp
    moreover have "rb_B ?rb ! j = (if j = slot_at rb 0 then None else rb_B rb ! j)"
      using j L by (simp add: rb' nth_list_update)
    ultimately show ?thesis by auto
  qed
  ultimately show ?thesis using assms by (simp add: ringbuf_inv_def rb')
qed

lemma pop_cases:
  assumes "ringbuf_inv rb"
  shows "(fst (snd (ringbuf_pop rb)) = None \<longleftrightarrow> ringbuf_count rb = 0) \<and> ringbuf_content rb =
    (case fst (snd (ringbuf_pop rb)) of None \<Rightarrow> [] | Some x \<Rightarrow> [x]) @ ringbuf_content (snd (snd (ringbuf_pop rb)))"
proof (cases "0 < ringbuf_count rb")
  case False
  then show ?thesis using assms by (simp add: ringbuf_pop_eq)
next
  case True
  let ?c = "ringbuf_count rb" and ?rb = "snd (snd (ringbuf_pop rb))"
  have ok: "ringbuf_offsets_ok rb" using assms by (simp add: ringbuf_inv_def)
  have L: "0 < rb_L rb" "0 \<le> rb_R rb" "length (rb_B rb) = nat (rb_L rb)"
    using ok by (simp_all add: ringbuf_offsets_ok_def)
  have rb': "?rb = rb\<lparr> rb_B := (rb_B rb)[slot_at rb 0 := None], rb_R := (rb_R rb + 1) mod (2 * rb_L rb) \<rparr>"
    using True by (simp add: ringbuf_pop_eq [OF assms])
  have c: "?c = Suc (ringbuf_count ?rb)" unfolding rb' by (rule pop_count [OF ok True, symmetric])
  have s: "slot_at ?rb i = slot_at rb (Suc i)" for i unfolding rb' by (rule slot_at_pop [OF L(2,1)])
  have "rb_B rb ! slot_at rb 0 \<noteq> None"
    using assms True slot_at_less [OF L(1)] by (auto simp: ringbuf_inv_def)
  then obtain x where x: "rb_B rb ! slot_at rb 0 = Some x" by auto
  have same: "rb_B ?rb ! slot_at rb (Suc i) = rb_B rb ! slot_at rb (Suc i)" if "i < ringbuf_count ?rb" for i
    using slot_at_inj [of rb 0 "Suc i"] that L c ringbuf_count_le [OF ok]
    by (auto simp: rb' nth_list_update slot_at_less)
  have "ringbuf_content rb = x # ringbuf_content ?rb"
    unfolding ringbuf_content_def ringbuf_slots_def
    by (subst c) (simp add: upt_conv_Cons map_Suc_upt [symmetric] x s same del: upt_Suc)
  then show ?thesis using True x by (simp add: ringbuf_pop_eq [OF assms])
qed


lemmas pop_none_iff = pop_cases [THEN conjunct1]
lemmas pop_content = pop_cases [THEN conjunct2]

section \<open>Initialisation and teardown\<close>

lemma init_inv: "ringbuf_inv (ringbuf_init len)"
  by (auto simp: ringbuf_inv_def ringbuf_init_def ringbuf_offsets_ok_def ringbuf_count_def
      ring_used_def ringbuf_restore_wrap_def Let_def)

lemma init_content: "ringbuf_content (ringbuf_init len) = []"
  by (simp add: ringbuf_content_def ringbuf_slots_def ringbuf_init_def ringbuf_count_def
      ring_used_def ringbuf_restore_wrap_def Let_def)

lemma init_length: "rb_L (ringbuf_init len) = max 2 (min 131071 len)"
  by (simp add: ringbuf_init_def Let_def)

definition live :: "'a option list \<Rightarrow> 'a list" where
  "live B = map the (filter (\<lambda>b. b \<noteq> None) B)"

lemma uninit_slots_eq:
  "n \<le> length B \<Longrightarrow> uninit_slots has_free n B =
     (filter has_free (rev (live (take n B))), replicate n None @ drop n B)"
proof (induction n arbitrary: B)
  case 0
  then show ?case by (simp add: live_def)
next
  case (Suc n)
  have t: "take (Suc n) B = take n B @ [B ! n]" using Suc.prems by (simp add: take_Suc_conv_app_nth)
  have d: "drop n B = B ! n # drop (Suc n) B" using Suc.prems by (simp add: Cons_nth_drop_Suc)
  have r: "replicate n x @ x # xs = replicate (Suc n) x @ xs" for x :: "'a option" and xs
    by (simp add: replicate_app_Cons_same)
  show ?case
  proof (cases "B ! n")
    case None
    then show ?thesis using Suc.IH [of B] Suc.prems by (simp add: t d live_def replicate_app_Cons_same)
  next
    case (Some x)
    have "drop n (B[n := None]) = None # drop (Suc n) B"
      using Suc.prems by (simp add: drop_update_swap d)
    then show ?thesis using Suc.IH [of "B[n := None]"] Suc.prems Some
      by (simp add: t live_def replicate_app_Cons_same)
  qed
qed

text \<open>The elements in the slots are the content, each once.\<close>

lemma mset_live_content:
  assumes "ringbuf_inv rb"
  shows "mset (live (rb_B rb)) = mset (ringbuf_content rb)"
proof -
  let ?B = "rb_B rb" and ?c = "ringbuf_count rb"
  have ok: "ringbuf_offsets_ok rb" using assms by (simp add: ringbuf_inv_def)
  have L: "0 < rb_L rb" "length ?B = nat (rb_L rb)" using ok by (simp_all add: ringbuf_offsets_ok_def)
  have inj: "inj_on (slot_at rb) {0..<?c}"
    using slot_at_inj [of rb] ringbuf_count_le [OF ok] L by (auto intro!: inj_onI)
  have idx: "{i \<in> {0..<length ?B}. ?B ! i \<noteq> None} = slot_at rb ` {0..<?c}"
    using assms slot_at_less [OF L(1)] L(2) unfolding ringbuf_inv_def by auto
  have "mset ?B = image_mset (nth ?B) (mset_set {0..<length ?B})"
    by (metis map_nth mset_map mset_upt)
  then have "filter_mset (\<lambda>b. b \<noteq> None) (mset ?B) = image_mset (nth ?B) (mset_set (slot_at rb ` {0..<?c}))"
    using idx by (simp add: filter_mset_image_mset)
  also have "\<dots> = mset (ringbuf_slots rb)"
    by (simp add: ringbuf_slots_def image_mset_mset_set [OF inj, symmetric] image_mset.compositionality comp_def)
  finally show ?thesis by (simp add: live_def ringbuf_content_def)
qed

section \<open>The FIFO contract\<close>

text \<open>The operations in the shape of the contract: the integer result as a flag.\<close>

definition rb_enq :: "'a \<Rightarrow> 'a ringbuf_t \<Rightarrow> bool \<times> 'a ringbuf_t" where
  "rb_enq x rb = (fst (ringbuf_push rb (Some x)) = 1, snd (ringbuf_push rb (Some x)))"

definition rb_deq :: "'a ringbuf_t \<Rightarrow> 'a option \<times> 'a ringbuf_t" where
  "rb_deq rb = snd (ringbuf_pop rb)"

lemma push_accepts: "ringbuf_inv rb \<Longrightarrow> fst (ringbuf_push rb e) = 1 \<longleftrightarrow> ringbuf_count rb < nat (rb_L rb)"
  by (auto simp: ringbuf_push_eq)

lemma push_L: "rb_L (snd (ringbuf_push rb e)) = rb_L rb"
  by (simp add: ringbuf_push_def Let_def)

lemma pop_L: "rb_L (snd (snd (ringbuf_pop rb))) = rb_L rb"
  by (simp add: ringbuf_pop_def Let_def)

interpretation rbq: reliable_fifo ringbuf_inv ringbuf_content rb_enq rb_deq "\<lambda>x rb. x" "\<lambda>x rb. True"
  "\<lambda>rb. nat (rb_L rb)"
proof unfold_locales
  fix q :: "'a ringbuf_t" and e :: 'a
  assume inv: "ringbuf_inv q"
  show "ringbuf_inv (snd (rb_deq q))" using pop_inv [OF inv] by (simp add: rb_deq_def)
  show "ringbuf_content q =
      (case fst (rb_deq q) of None \<Rightarrow> [] | Some a \<Rightarrow> [a]) @ ringbuf_content (snd (rb_deq q))"
    using pop_content [OF inv] by (simp add: rb_deq_def)
  show "(fst (rb_deq q) = None) = (ringbuf_content q = [])"
    unfolding content_empty_iff rb_deq_def by (rule pop_none_iff [OF inv])
  show "ringbuf_inv (snd (rb_enq e q))" using push_inv [OF inv] by (simp add: rb_enq_def)
  show "ringbuf_content (snd (rb_enq e q)) =
      (if fst (rb_enq e q) then ringbuf_content q @ [e] else ringbuf_content q)"
    using push_content [OF inv] by (simp add: rb_enq_def)
  show "fst (rb_enq e q) = (length (ringbuf_content q) < nat (rb_L q))"
    using push_accepts [OF inv] by (simp add: rb_enq_def)
qed (simp_all add: rb_enq_def rb_deq_def push_L pop_L)


section \<open>Properties\<close>

text \<open>
  C1.  The ring is a FIFO queue of bounded capacity.  From \<open>ringbuf_init\<close>, any sequence of
  \<open>ringbuf_push\<close> and \<open>ringbuf_pop\<close> calls keeps the ring invariant; the elements popped,
  followed by the elements still stored, are exactly the elements whose push returned 1, in
  order.  In the state reached, a further push succeeds exactly when fewer than \<open>L\<close> elements are
  stored (all \<open>L\<close> slots are usable, thanks to the two laps), and a pop fails exactly when none is.
\<close>

theorem ringbuf_fifo:
  assumes "rbq.run ops (ringbuf_init len) = (pushed, popped, rb)"
  shows "ringbuf_inv rb \<and> pushed = popped @ ringbuf_content rb
    \<and> (fst (ringbuf_push rb (Some x)) = 1 \<longleftrightarrow> length (ringbuf_content rb) < nat (max 2 (min 131071 len)))
    \<and> (fst (snd (ringbuf_pop rb)) = None \<longleftrightarrow> ringbuf_content rb = [])"
proof -
  have ok: "rbq.run_ok ops rb'" for ops and rb' :: "'a ringbuf_t"
    by (induction ops rb' rule: rbq.run_ok.induct) auto
  have "ringbuf_inv rb \<and> ringbuf_content (ringbuf_init len) @ pushed = popped @ ringbuf_content rb"
    by (rule rbq.run_conserves [OF init_inv ok assms])
  moreover have "nat (rb_L rb) = nat (max 2 (min 131071 len))"
    using rbq.run_capacity [OF assms] by (simp only: init_length)
  ultimately show ?thesis using push_accepts [of rb "Some x"] pop_none_iff [of rb]
    by (simp add: init_content content_empty_iff)
qed

lemma ringbuf_fifo_witness:
  "\<exists>rb. rbq.run [Inl (7::nat), Inl 8, Inl 9, Inr (), Inl 9] (ringbuf_init 2) = ([7, 8, 9], [7], rb)
     \<and> ringbuf_content rb = [8, 9] \<and> fst (ringbuf_push rb (Some 5)) = 0"
proof -
  have r: "rbq.run [Inl (7::nat), Inl 8, Inl 9, Inr (), Inl 9] (ringbuf_init 2)
    = ([7, 8, 9], [7], \<lparr> rb_RLock = 0, rb_WLock = 0, rb_W = 3, rb_R = 1, rb_L = 2, rb_B = [Some 9, Some 8] \<rparr>)"
    by (simp add: rb_enq_def rb_deq_def ringbuf_push_def ringbuf_pop_def ringbuf_init_def
        ringbuf_restore_wrap_def ringbuf_normalize_offset_def Let_def numeral_2_eq_2)
  let ?rb = "\<lparr> rb_RLock = 0, rb_WLock = 0, rb_W = 3, rb_R = 1, rb_L = 2, rb_B = [Some 9, Some (8::nat)] \<rparr>"
  have "ringbuf_content ?rb = [8, 9]" using ringbuf_fifo [OF r, of 5] by simp
  moreover have "fst (ringbuf_push ?rb (Some 5)) = 0"
    by (simp add: ringbuf_push_def ringbuf_restore_wrap_def Let_def)
  ultimately show ?thesis using r by blast
qed

text \<open>
  Teardown is leak-free and frees nothing twice: on a ring that satisfies the invariant,
  \<open>ringbuf_uninit\<close> calls the free callback on exactly the stored elements that have one (as a
  multiset, so each exactly once), leaves every slot NULL and both locks taken, so that every
  later push or pop on the dead ring fails without touching it.
\<close>

theorem ringbuf_uninit_frees_content:
  assumes "ringbuf_inv rb" "ringbuf_uninit has_free rb = (freed, rb')"
  shows "mset freed = filter_mset has_free (mset (ringbuf_content rb))
    \<and> rb_B rb' = replicate (nat (rb_L rb)) None
    \<and> ringbuf_push rb' e = (0, rb') \<and> ringbuf_pop rb' = (0, None, rb')"
proof -
  have "length (rb_B rb) = nat (rb_L rb)" using assms(1) by (simp add: ringbuf_inv_def ringbuf_offsets_ok_def)
  then have "freed = filter has_free (rev (live (rb_B rb)))"
    "rb' = rb\<lparr> rb_RLock := 1, rb_WLock := 1, rb_B := replicate (nat (rb_L rb)) None \<rparr>"
    using assms(2) by (simp_all add: ringbuf_uninit_def uninit_slots_eq)
  then show ?thesis using mset_live_content [OF assms(1)]
    by (simp add: ringbuf_push_def ringbuf_pop_def)
qed

lemma ringbuf_uninit_frees_content_witness:
  "\<exists>freed rb'. ringbuf_uninit (\<lambda>x. x < 5) (snd (ringbuf_push (snd (ringbuf_push (ringbuf_init 3) (Some 4))) (Some (9::nat))))
      = (freed, rb') \<and> mset freed = {#4#}"
proof -
  let ?rb = "snd (ringbuf_push (snd (ringbuf_push (ringbuf_init 3) (Some 4))) (Some (9::nat)))"
  have inv: "ringbuf_inv ?rb" by (intro push_inv init_inv) simp_all
  have c: "ringbuf_content ?rb = [4, 9]"
    by (simp add: push_content push_inv init_inv init_content init_length push_accepts push_L
        flip: length_content)
  obtain freed rb' where u: "ringbuf_uninit (\<lambda>x. x < 5) ?rb = (freed, rb')" by force
  from ringbuf_uninit_frees_content [OF inv u, of None] c u show ?thesis by auto
qed

end
