(* ===== verification/RingBuf_Conc.thy ===== *)
theory RingBuf_Conc
  imports RingBuf
begin

text \<open>
  \<open>ringbuf.h\<close> under concurrency: any number of threads call \<open>ringbuf_push\<close> and \<open>ringbuf_pop\<close>
  on one ring.  A step of the relation \<open>cstep\<close> is one access of a thread to the shared ring, in the
  order of the code: take the lock, snapshot the other side's offset, read the own offset, access
  the slot, publish the new offset, release the lock.  Memory is sequentially consistent: on x86-64
  the operations of \<open>uatomic.h\<close> are locked instructions (the \<open>__sync\<close> documentation promises
  less for \<open>uatomic_int_set\<close>).  Pushers and poppers hold different locks and run concurrently;
  the snapshot a thread works with may be stale.
  The ghost lists \<open>pushed\<close> and \<open>popped\<close> grow when an offset is published.
\<close>

section \<open>Threads and steps\<close>

datatype 'a pc =
    Idle
  | PushLocked 'a
  | PushGotR 'a int
  | PushReady 'a int int
  | PushStored 'a int
  | PushUnlock int
  | PopLocked
  | PopGotW int
  | PopReady int int
  | PopTaken "'a option" int
  | PopCleared "'a option" int
  | PopUnlock "'a option"

record 'a conc =
  ring :: "'a ringbuf_t"
  pcs :: "nat \<Rightarrow> 'a pc"
  pushed :: "'a list"
  popped :: "'a list"

abbreviation goto :: "'a conc \<Rightarrow> nat \<Rightarrow> 'a pc \<Rightarrow> 'a conc" where
  "goto s t p \<equiv> s\<lparr> pcs := (pcs s)(t := p) \<rparr>"

text \<open>The two tests of the code on the offsets it has read.\<close>

definition push_room :: "int \<Rightarrow> int \<Rightarrow> int \<Rightarrow> bool" where
  "push_room Ro Wo L \<longleftrightarrow> L + Ro smod L - ringbuf_restore_wrap Ro Wo L * L - Wo smod L > 0"

definition pop_avail :: "int \<Rightarrow> int \<Rightarrow> int \<Rightarrow> bool" where
  "pop_avail Ro Wo L \<longleftrightarrow> ringbuf_restore_wrap Ro Wo L * L + Wo smod L - Ro smod L > 0"

inductive cstep :: "'a conc \<Rightarrow> 'a conc \<Rightarrow> bool" where
  push_lock: "pcs s t = Idle \<Longrightarrow> rb_WLock (ring s) = 0 \<Longrightarrow>
    cstep s (goto (s\<lparr> ring := (ring s)\<lparr> rb_WLock := 1 \<rparr> \<rparr>) t (PushLocked e))"
| push_get_R: "pcs s t = PushLocked e \<Longrightarrow> cstep s (goto s t (PushGotR e (rb_R (ring s))))"
| push_get_W: "pcs s t = PushGotR e Ro \<Longrightarrow> cstep s (goto s t (PushReady e Ro (rb_W (ring s))))"
| push_store: "pcs s t = PushReady e Ro Wo \<Longrightarrow> push_room Ro Wo (rb_L (ring s)) \<Longrightarrow>
    cstep s (goto (s\<lparr> ring := (ring s)\<lparr> rb_B := (rb_B (ring s))[nat (Wo smod rb_L (ring s)) := Some e] \<rparr> \<rparr>)
      t (PushStored e Wo))"
| push_full: "pcs s t = PushReady e Ro Wo \<Longrightarrow> \<not> push_room Ro Wo (rb_L (ring s)) \<Longrightarrow>
    cstep s (goto s t (PushUnlock 0))"
| push_publish: "pcs s t = PushStored e Wo \<Longrightarrow>
    cstep s (goto (s\<lparr> ring := (ring s)\<lparr> rb_W := ringbuf_normalize_offset (Wo + 1) (rb_L (ring s)) \<rparr>,
      pushed := pushed s @ [e] \<rparr>) t (PushUnlock 1))"
| push_unlock: "pcs s t = PushUnlock ret \<Longrightarrow>
    cstep s (goto (s\<lparr> ring := (ring s)\<lparr> rb_WLock := 0 \<rparr> \<rparr>) t Idle)"
| pop_lock: "pcs s t = Idle \<Longrightarrow> rb_RLock (ring s) = 0 \<Longrightarrow>
    cstep s (goto (s\<lparr> ring := (ring s)\<lparr> rb_RLock := 1 \<rparr> \<rparr>) t PopLocked)"
| pop_get_W: "pcs s t = PopLocked \<Longrightarrow> cstep s (goto s t (PopGotW (rb_W (ring s))))"
| pop_get_R: "pcs s t = PopGotW Wo \<Longrightarrow> cstep s (goto s t (PopReady Wo (rb_R (ring s))))"
| pop_take: "pcs s t = PopReady Wo Ro \<Longrightarrow> pop_avail Ro Wo (rb_L (ring s)) \<Longrightarrow>
    cstep s (goto s t (PopTaken (rb_B (ring s) ! nat (Ro smod rb_L (ring s))) Ro))"
| pop_empty: "pcs s t = PopReady Wo Ro \<Longrightarrow> \<not> pop_avail Ro Wo (rb_L (ring s)) \<Longrightarrow>
    cstep s (goto s t (PopUnlock None))"
| pop_clear: "pcs s t = PopTaken e Ro \<Longrightarrow>
    cstep s (goto (s\<lparr> ring := (ring s)\<lparr> rb_B := (rb_B (ring s))[nat (Ro smod rb_L (ring s)) := None] \<rparr> \<rparr>)
      t (PopCleared e Ro))"
| pop_publish: "pcs s t = PopCleared e Ro \<Longrightarrow>
    cstep s (goto (s\<lparr> ring := (ring s)\<lparr> rb_R := ringbuf_normalize_offset (Ro + 1) (rb_L (ring s)) \<rparr>,
      popped := popped s @ (case e of None \<Rightarrow> [] | Some x \<Rightarrow> [x]) \<rparr>) t (PopUnlock e))"
| pop_unlock: "pcs s t = PopUnlock e \<Longrightarrow>
    cstep s (goto (s\<lparr> ring := (ring s)\<lparr> rb_RLock := 0 \<rparr> \<rparr>) t Idle)"

definition conc_init :: "int \<Rightarrow> 'a conc" where
  "conc_init len = \<lparr> ring = ringbuf_init len, pcs = (\<lambda>t. Idle), pushed = [], popped = [] \<rparr>"

section \<open>Mutual exclusion\<close>

primrec in_push :: "'a pc \<Rightarrow> bool" where
  "in_push Idle = False"
| "in_push (PushLocked e) = True"
| "in_push (PushGotR e Ro) = True"
| "in_push (PushReady e Ro Wo) = True"
| "in_push (PushStored e Wo) = True"
| "in_push (PushUnlock r) = True"
| "in_push PopLocked = False"
| "in_push (PopGotW Wo) = False"
| "in_push (PopReady Wo Ro) = False"
| "in_push (PopTaken x Ro) = False"
| "in_push (PopCleared x Ro) = False"
| "in_push (PopUnlock x) = False"

definition in_pop :: "'a pc \<Rightarrow> bool" where
  "in_pop p \<longleftrightarrow> p \<noteq> Idle \<and> \<not> in_push p"

definition mutex :: "('a pc \<Rightarrow> bool) \<Rightarrow> int \<Rightarrow> (nat \<Rightarrow> 'a pc) \<Rightarrow> bool" where
  "mutex region lock p \<longleftrightarrow> (lock = 0 \<longrightarrow> (\<forall>t. \<not> region (p t))) \<and> (lock \<noteq> 0 \<longrightarrow> (\<exists>!t. region (p t)))"

lemma mutex_enter: "mutex region 0 p \<Longrightarrow> region x \<Longrightarrow> mutex region 1 (p(t := x))"
  by (auto simp: mutex_def)

lemma mutex_stay: "mutex region lk p \<Longrightarrow> region (p t) \<Longrightarrow> region x \<Longrightarrow> mutex region lk (p(t := x))"
  by (auto simp: mutex_def Ex1_def)

lemma mutex_leave: "mutex region lk p \<Longrightarrow> region (p t) \<Longrightarrow> \<not> region x \<Longrightarrow> mutex region 0 (p(t := x))"
  by (auto simp: mutex_def)

lemma mutex_away: "mutex region lk p \<Longrightarrow> \<not> region (p t) \<Longrightarrow> \<not> region x \<Longrightarrow> mutex region lk (p(t := x))"
  by (auto simp: mutex_def Ex1_def)

lemma mutex_unique: "mutex region lk p \<Longrightarrow> region (p t) \<Longrightarrow> region (p t') \<Longrightarrow> t = t'"
  by (auto simp: mutex_def)

definition locks_ok :: "'a conc \<Rightarrow> bool" where
  "locks_ok s \<longleftrightarrow> mutex in_push (rb_WLock (ring s)) (pcs s) \<and> mutex in_pop (rb_RLock (ring s)) (pcs s)"

lemma step_locks:
  assumes "cstep s s'" "locks_ok s"
  shows "locks_ok s'"
  using assms
  by (cases rule: cstep.cases)
    (auto simp: locks_ok_def in_pop_def intro: mutex_enter mutex_stay mutex_leave mutex_away)

section \<open>The invariant\<close>

text \<open>
  With \<open>r\<close> and \<open>w\<close> the numbers of published pops and pushes, the offsets are \<open>r\<close> and \<open>w\<close> modulo
  \<open>2L\<close>, and slot \<open>i mod L\<close> holds the \<open>i\<close>-th pushed element for \<open>r \<le> i < w\<close>.
\<close>

abbreviation rcount :: "'a conc \<Rightarrow> nat" where "rcount s \<equiv> length (popped s)"
abbreviation wcount :: "'a conc \<Rightarrow> nat" where "wcount s \<equiv> length (pushed s)"
abbreviation slots :: "'a conc \<Rightarrow> nat" where "slots s \<equiv> nat (rb_L (ring s))"

definition lap_offset :: "nat \<Rightarrow> int \<Rightarrow> int" where
  "lap_offset n L = int n mod (2 * L)"

definition offsets_ok :: "'a conc \<Rightarrow> bool" where
  "offsets_ok s \<longleftrightarrow> 0 < rb_L (ring s) \<and> length (rb_B (ring s)) = slots s
     \<and> rb_R (ring s) = lap_offset (rcount s) (rb_L (ring s)) \<and> rb_W (ring s) = lap_offset (wcount s) (rb_L (ring s))
     \<and> rcount s \<le> wcount s \<and> wcount s \<le> rcount s + slots s"

text \<open>A pusher's view of the read offset and a popper's view of the write offset may be old.\<close>

definition old_R :: "'a conc \<Rightarrow> int \<Rightarrow> bool" where
  "old_R s Ro \<longleftrightarrow> (\<exists>n \<le> rcount s. Ro = lap_offset n (rb_L (ring s)) \<and> wcount s \<le> n + slots s)"

definition old_W :: "'a conc \<Rightarrow> int \<Rightarrow> bool" where
  "old_W s Wo \<longleftrightarrow> (\<exists>n \<ge> rcount s. Wo = lap_offset n (rb_L (ring s)) \<and> n \<le> wcount s)"

lemma old_goto [simp]: "old_R (s\<lparr> pcs := p \<rparr>) = old_R s" "old_W (s\<lparr> pcs := p \<rparr>) = old_W s"
  by (simp_all add: old_R_def old_W_def fun_eq_iff)

lemma old_now: "offsets_ok s \<Longrightarrow> old_R s (rb_R (ring s))" "offsets_ok s \<Longrightarrow> old_W s (rb_W (ring s))"
  by (auto simp: offsets_ok_def old_R_def old_W_def)

primrec view_ok :: "'a conc \<Rightarrow> 'a pc \<Rightarrow> bool" where
  "view_ok s Idle = True"
| "view_ok s (PushLocked e) = True"
| "view_ok s (PushGotR e Ro) = old_R s Ro"
| "view_ok s (PushReady e Ro Wo) = (old_R s Ro \<and> Wo = rb_W (ring s))"
| "view_ok s (PushStored e Wo) = (Wo = rb_W (ring s) \<and> wcount s < rcount s + slots s
     \<and> rb_B (ring s) ! (wcount s mod slots s) = Some e)"
| "view_ok s (PushUnlock ret) = True"
| "view_ok s PopLocked = True"
| "view_ok s (PopGotW Wo) = old_W s Wo"
| "view_ok s (PopReady Wo Ro) = (old_W s Wo \<and> Ro = rb_R (ring s))"
| "view_ok s (PopTaken x Ro) = (Ro = rb_R (ring s) \<and> rcount s < wcount s \<and> x = Some (pushed s ! rcount s))"
| "view_ok s (PopCleared x Ro) = (Ro = rb_R (ring s) \<and> rcount s < wcount s \<and> x = Some (pushed s ! rcount s))"
| "view_ok s (PopUnlock x) = True"

definition storing :: "'a conc \<Rightarrow> bool" where
  "storing s \<longleftrightarrow> (\<exists>t e Wo. pcs s t = PushStored e Wo)"

definition clearing :: "'a conc \<Rightarrow> bool" where
  "clearing s \<longleftrightarrow> (\<exists>t x Ro. pcs s t = PopCleared x Ro)"

text \<open>
  The filled window \<open>[r, w)\<close> and the free window \<open>[w, r + n)\<close> of the slots, apart from the slot being
  stored (\<open>st\<close>) or cleared (\<open>cl\<close>) at their edges.
\<close>

definition windows :: "'a option list \<Rightarrow> nat \<Rightarrow> nat \<Rightarrow> 'a list \<Rightarrow> bool \<Rightarrow> bool \<Rightarrow> bool" where
  "windows B n r ps st cl \<longleftrightarrow>
     (\<forall>i. r \<le> i \<and> i < length ps \<and> \<not> (i = r \<and> cl) \<longrightarrow> B ! (i mod n) = Some (ps ! i))
   \<and> (\<forall>i. length ps \<le> i \<and> i < r + n \<and> \<not> (i = length ps \<and> st) \<longrightarrow> B ! (i mod n) = None)
   \<and> (cl \<longrightarrow> r < length ps \<and> B ! (r mod n) = None)"

definition slots_ok :: "'a conc \<Rightarrow> bool" where
  "slots_ok s \<longleftrightarrow> windows (rb_B (ring s)) (slots s) (rcount s) (pushed s) (storing s) (clearing s)"

definition conc_inv :: "'a conc \<Rightarrow> bool" where
  "conc_inv s \<longleftrightarrow> locks_ok s \<and> offsets_ok s \<and> (\<forall>t. view_ok s (pcs s t)) \<and> slots_ok s
     \<and> popped s = take (rcount s) (pushed s)"

subsection \<open>Offset facts\<close>

lemma lap_slot:
  assumes "0 < L"
  shows "nat (lap_offset n L smod L) = n mod nat L"
proof -
  have "lap_offset n L mod L = int n mod L" by (simp add: lap_offset_def mod_mod_cancel)
  moreover have "0 \<le> lap_offset n L" using assms by (simp add: lap_offset_def)
  ultimately have "lap_offset n L smod L = int n mod int (nat L)" using assms by simp
  also have "\<dots> = int (n mod nat L)" by (rule zmod_int [symmetric])
  finally show ?thesis by simp
qed

lemma lap_next:
  assumes "0 < L"
  shows "ringbuf_normalize_offset (lap_offset n L + 1) L = lap_offset (Suc n) L"
  using assms by (simp add: normalize_mod2 lap_offset_def mod_add_right_eq add.commute)

lemma room_iff:
  assumes "0 < L" "r \<le> w" "w \<le> r + nat L"
  shows "push_room (lap_offset r L) (lap_offset w L) L \<longleftrightarrow> w < r + nat L"
    "pop_avail (lap_offset r L) (lap_offset w L) L \<longleftrightarrow> r < w"
proof -
  have "ring_used (lap_offset r L) (lap_offset w L) L = int w - int r"
    unfolding lap_offset_def using assms by (intro used_counters) auto
  then show "push_room (lap_offset r L) (lap_offset w L) L \<longleftrightarrow> w < r + nat L"
    "pop_avail (lap_offset r L) (lap_offset w L) L \<longleftrightarrow> r < w"
    using assms by (auto simp: push_room_def pop_avail_def ring_used_def)
qed

lemma mod_slot_inj:
  fixes a b n :: nat
  assumes "a mod n = b mod n" "a \<le> b" "b < a + n"
  shows "a = b"
proof -
  have "n dvd b - a" using assms(1,2) by (metis mod_eq_dvd_iff_nat)
  then show ?thesis using assms by (metis dvd_imp_le diff_is_0_eq le_antisym less_diff_conv2 not_less zero_less_iff_neq_zero add.commute)
qed

text \<open>
  A stale snapshot errs on the safe side: a pusher that sees room has room, a popper that sees an
  element has one.
\<close>

lemma room_safe:
  assumes "offsets_ok s" "old_R s Ro" "push_room Ro (rb_W (ring s)) (rb_L (ring s))"
  shows "wcount s < rcount s + slots s"
proof -
  obtain n where n: "n \<le> rcount s" "Ro = lap_offset n (rb_L (ring s))" "wcount s \<le> n + slots s"
    using assms(2) by (auto simp: old_R_def)
  then have "wcount s < n + slots s"
    using room_iff(1) [of "rb_L (ring s)" n "wcount s"] assms(1,3) by (auto simp: offsets_ok_def)
  with n(1) show ?thesis by simp
qed

lemma avail_safe:
  assumes "offsets_ok s" "old_W s Wo" "pop_avail (rb_R (ring s)) Wo (rb_L (ring s))"
  shows "rcount s < wcount s"
proof -
  obtain n where n: "rcount s \<le> n" "Wo = lap_offset n (rb_L (ring s))" "n \<le> wcount s"
    using assms(2) by (auto simp: old_W_def)
  then have "rcount s < n"
    using room_iff(2) [of "rb_L (ring s)" "rcount s" n] assms(1,3) by (auto simp: offsets_ok_def)
  with n(3) show ?thesis by simp
qed

subsection \<open>Preservation\<close>

lemma view_push_side:
  assumes "view_ok s p" "\<not> in_push p" "rb_L (ring s') = rb_L (ring s)" "rb_R (ring s') = rb_R (ring s)"
    "pushed s' = pushed s @ ext" "popped s' = popped s"
  shows "view_ok s' p"
  using assms by (cases p) (auto simp: old_W_def nth_append)

lemma view_pop_side:
  assumes "view_ok s p" "\<not> in_pop p" "rb_L (ring s') = rb_L (ring s)" "rb_W (ring s') = rb_W (ring s)"
    "pushed s' = pushed s" "rcount s \<le> rcount s'"
    "wcount s < rcount s + slots s \<Longrightarrow> rb_B (ring s') ! (wcount s mod slots s) = rb_B (ring s) ! (wcount s mod slots s)"
  shows "view_ok s' p"
proof -
  have "old_R s' Ro" if old: "old_R s Ro" for Ro
  proof -
    obtain n where "n \<le> rcount s" "Ro = lap_offset n (rb_L (ring s))" "wcount s \<le> n + slots s"
      using old by (auto simp: old_R_def)
    then show ?thesis using assms(3,5,6) by (auto simp: old_R_def intro!: exI [of _ n])
  qed
  then show ?thesis using assms by (cases p) (auto simp: in_pop_def)
qed

lemma view_same:
  assumes "view_ok s p" "rb_L (ring s') = rb_L (ring s)" "rb_R (ring s') = rb_R (ring s)"
    "rb_W (ring s') = rb_W (ring s)" "rb_B (ring s') = rb_B (ring s)" "pushed s' = pushed s" "popped s' = popped s"
  shows "view_ok s' p"
  using assms by (cases p) (simp_all add: old_R_def old_W_def)

lemma step_offsets:
  assumes "cstep s s'" "conc_inv s"
  shows "offsets_ok s'"
  using assms(1)
proof (cases rule: cstep.cases)
  case (push_publish t e Wo)
  then have "view_ok s (PushStored e Wo)" using assms(2) by (metis conc_inv_def)
  then show ?thesis using assms(2) push_publish by (auto simp: conc_inv_def offsets_ok_def lap_next)
next
  case (pop_publish t x Ro)
  then have "view_ok s (PopCleared x Ro)" using assms(2) by (metis conc_inv_def)
  then show ?thesis using assms(2) pop_publish by (auto simp: conc_inv_def offsets_ok_def lap_next)
qed (use assms(2) in \<open>auto simp: conc_inv_def offsets_ok_def\<close>)

lemma step_popped:
  assumes "cstep s s'" "conc_inv s"
  shows "popped s' = take (rcount s') (pushed s')"
  using assms(1)
proof (cases rule: cstep.cases)
  case (push_publish t e Wo)
  then show ?thesis using assms(2) by (simp add: conc_inv_def offsets_ok_def)
next
  case (pop_publish t x Ro)
  then have "view_ok s (PopCleared x Ro)" using assms(2) by (metis conc_inv_def)
  then show ?thesis using assms(2) pop_publish by (simp add: conc_inv_def take_Suc_conv_app_nth)
qed (use assms(2) in \<open>auto simp: conc_inv_def\<close>)

lemma others_out:
  assumes "conc_inv s" "t' \<noteq> t"
  shows "in_push (pcs s t) \<Longrightarrow> \<not> in_push (pcs s t')" "in_pop (pcs s t) \<Longrightarrow> \<not> in_pop (pcs s t')"
  using assms mutex_unique unfolding conc_inv_def locks_ok_def by metis+

lemma step_view:
  assumes "cstep s s'" "conc_inv s"
  shows "view_ok s' (pcs s' t')"
proof -
  have ok: "offsets_ok s" "view_ok s (pcs s t)" "slots_ok s" for t using assms(2) by (auto simp: conc_inv_def)
  note out = others_out [OF assms(2)]
  have Lpos: "0 < rb_L (ring s)" using ok(1) by (simp add: offsets_ok_def)
  have push_side: "view_ok s' (pcs s t')" if "t' \<noteq> t" "in_push (pcs s t)" "rb_L (ring s') = rb_L (ring s)"
      "rb_R (ring s') = rb_R (ring s)" "pushed s' = pushed s @ ext" "popped s' = popped s" for t ext
    by (rule view_push_side [OF ok(2) out(1) [OF that(1,2)] that(3-6)])
  have pop_side: "view_ok s' (pcs s t')" if "t' \<noteq> t" "in_pop (pcs s t)" "rb_L (ring s') = rb_L (ring s)"
      "rb_W (ring s') = rb_W (ring s)" "pushed s' = pushed s" "rcount s \<le> rcount s'"
      "wcount s < rcount s + slots s \<Longrightarrow> rb_B (ring s') ! (wcount s mod slots s) = rb_B (ring s) ! (wcount s mod slots s)" for t
    by (rule view_pop_side [OF ok(2) out(2) [OF that(1,2)] that(3-7)])
  from assms(1) show ?thesis
  proof (cases rule: cstep.cases)
    case (push_store t e Ro Wo)
    have v: "old_R s Ro" "Wo = rb_W (ring s)" using ok(2) [of t] push_store by auto
    then have room: "wcount s < rcount s + slots s" using room_safe [OF ok(1)] push_store by simp
    have slot: "nat (Wo smod rb_L (ring s)) = wcount s mod slots s"
      using v ok(1) lap_slot by (simp add: offsets_ok_def)
    show ?thesis
    proof (cases "t' = t")
      case True
      then show ?thesis using push_store v room ok(1) slot Lpos by (simp add: offsets_ok_def)
    next
      case False
      have "view_ok s' (pcs s t')" by (rule push_side [OF False, of "[]"]) (simp_all add: push_store)
      then show ?thesis using False push_store by simp
    qed
  next
    case (pop_clear t x Ro)
    have v: "Ro = rb_R (ring s)" "rcount s < wcount s" "x = Some (pushed s ! rcount s)" using ok(2) [of t] pop_clear by auto
    have slot: "nat (Ro smod rb_L (ring s)) = rcount s mod slots s"
      using v ok(1) lap_slot by (simp add: offsets_ok_def)
    show ?thesis
    proof (cases "t' = t")
      case True
      then show ?thesis using pop_clear v by simp
    next
      case False
      have "rcount s mod slots s \<noteq> wcount s mod slots s" if "wcount s < rcount s + slots s"
        using mod_slot_inj [of "rcount s" "slots s" "wcount s"] v(2) that by auto
      then have "view_ok s' (pcs s t')"
        by (intro pop_side [OF False]) (simp_all add: pop_clear slot in_pop_def slot [unfolded pop_clear])
      then show ?thesis using False pop_clear by simp
    qed
  next
    case (push_publish t e Wo)
    have "view_ok s' (pcs s t')" if "t' \<noteq> t"
      by (rule push_side [OF that, of "[e]"]) (simp_all add: push_publish in_pop_def)
    then show ?thesis using push_publish by auto
  next
    case (pop_publish t x Ro)
    have "view_ok s' (pcs s t')" if "t' \<noteq> t"
      by (rule pop_side [OF that]) (simp_all add: pop_publish in_pop_def)
    then show ?thesis using pop_publish by auto
  next
    case (push_get_R t e)
    have "view_ok s' (pcs s t')" if "t' \<noteq> t"
      by (rule push_side [OF that, of "[]"]) (simp_all add: push_get_R in_pop_def)
    then show ?thesis using push_get_R old_now(1) [OF ok(1)] by simp
  next
    case (push_get_W t e Ro)
    have "view_ok s' (pcs s t')" if "t' \<noteq> t"
      by (rule push_side [OF that, of "[]"]) (simp_all add: push_get_W in_pop_def)
    then show ?thesis using push_get_W ok(2) [of t] by simp
  next
    case (pop_get_W t)
    have "view_ok s' (pcs s t')" if "t' \<noteq> t"
      by (rule pop_side [OF that]) (simp_all add: pop_get_W in_pop_def)
    then show ?thesis using pop_get_W old_now(2) [OF ok(1)] by simp
  next
    case (pop_get_R t Wo)
    have "view_ok s' (pcs s t')" if "t' \<noteq> t"
      by (rule pop_side [OF that]) (simp_all add: pop_get_R in_pop_def)
    then show ?thesis using pop_get_R ok(2) [of t] by simp
  next
    case (pop_take t Wo Ro)
    have "view_ok s' (pcs s t')" if "t' \<noteq> t"
      by (rule pop_side [OF that]) (simp_all add: pop_take in_pop_def)
    moreover have v: "old_W s Wo" "Ro = rb_R (ring s)" using ok(2) [of t] pop_take by auto
    moreover have "rcount s < wcount s" using avail_safe [OF ok(1) v(1)] pop_take v by simp
    moreover have "nat (Ro smod rb_L (ring s)) = rcount s mod slots s"
      using v ok(1) lap_slot by (simp add: offsets_ok_def)
    moreover have "\<not> clearing s"
    proof
      assume "clearing s"
      then obtain u y Q where "pcs s u = PopCleared y Q" by (auto simp: clearing_def)
      then show False using out(2) [of u t] pop_take by (cases "u = t") (auto simp: in_pop_def)
    qed
    ultimately show ?thesis using pop_take ok(3) by (auto simp: slots_ok_def windows_def)
  qed (auto intro: view_same [OF ok(2)])
qed

subsection \<open>The slots\<close>

lemma windows_store:
  assumes "windows B n r ps False cl" "length ps < r + n" "r \<le> length ps" "length B = n"
  shows "windows (B[length ps mod n := Some e]) n r ps True cl"
proof -
  have "0 < n" using assms(2,3) by linarith
  moreover have "i = length ps" if "i mod n = length ps mod n" "r \<le> i" "i < r + n" for i
    using mod_slot_inj [of i n "length ps"] mod_slot_inj [of "length ps" n i] that assms(2,3) by linarith
  ultimately show ?thesis using assms unfolding windows_def
    by (simp add: nth_list_update) (metis le_less_trans less_imp_le nat_less_le order_refl)
qed

lemma windows_push:
  assumes "windows B n r ps True cl" "B ! (length ps mod n) = Some e"
  shows "windows B n r (ps @ [e]) False cl"
  using assms unfolding windows_def by (auto simp: nth_append less_Suc_eq)

lemma windows_clear:
  assumes "windows B n r ps st False" "r < length ps" "length ps \<le> r + n" "length B = n"
  shows "windows (B[r mod n := None]) n r ps st True"
proof -
  have "0 < n" using assms(2,3) by linarith
  moreover have "i = r" if "i mod n = r mod n" "r \<le> i" "i < r + n" for i
    using mod_slot_inj [of r n i] that by linarith
  ultimately show ?thesis using assms unfolding windows_def by (auto simp: nth_list_update)
qed

lemma windows_pop:
  assumes "windows B n r ps st True"
  shows "windows B n (Suc r) ps st False"
proof -
  have "B ! (i mod n) = None" if "length ps \<le> i" "i < Suc r + n" "\<not> (i = length ps \<and> st)" for i
  proof (cases "i < r + n")
    case True
    then show ?thesis using assms that unfolding windows_def by blast
  next
    case False
    then have "i = r + n" using that by simp
    then show ?thesis using assms by (simp add: windows_def)
  qed
  then show ?thesis using assms unfolding windows_def by auto
qed

lemma flag_only:
  assumes "conc_inv s"
  shows "in_push (pcs s t) \<Longrightarrow> storing s \<longleftrightarrow> (\<exists>e Wo. pcs s t = PushStored e Wo)"
    "in_pop (pcs s t) \<Longrightarrow> clearing s \<longleftrightarrow> (\<exists>x Ro. pcs s t = PopCleared x Ro)"
proof -
  assume p: "in_push (pcs s t)"
  have "u = t" if "pcs s u = PushStored e Wo" for u e Wo
    using others_out(1) [OF assms, of u t] p that by auto
  then show "storing s \<longleftrightarrow> (\<exists>e Wo. pcs s t = PushStored e Wo)" by (auto simp: storing_def)
next
  assume p: "in_pop (pcs s t)"
  have "u = t" if "pcs s u = PopCleared x Ro" for u x Ro
    using others_out(2) [OF assms, of u t] p that by (auto simp: in_pop_def)
  then show "clearing s \<longleftrightarrow> (\<exists>x Ro. pcs s t = PopCleared x Ro)" by (auto simp: clearing_def)
qed

lemma flag_after:
  assumes "conc_inv s" "pcs s' = (pcs s)(t := p)"
  shows "in_push (pcs s t) \<Longrightarrow> storing s' \<longleftrightarrow> (\<exists>e Wo. p = PushStored e Wo)"
    "in_pop (pcs s t) \<Longrightarrow> clearing s' \<longleftrightarrow> (\<exists>x Ro. p = PopCleared x Ro)"
proof -
  assume *: "in_push (pcs s t)"
  have "pcs s' u = PushStored e Wo \<longleftrightarrow> u = t \<and> p = PushStored e Wo" for u e Wo
    using others_out(1) [OF assms(1), of u t] * by (auto simp: assms(2))
  then show "storing s' \<longleftrightarrow> (\<exists>e Wo. p = PushStored e Wo)" by (simp add: storing_def)
next
  assume *: "in_pop (pcs s t)"
  have "pcs s' u = PopCleared x Ro \<longleftrightarrow> u = t \<and> p = PopCleared x Ro" for u x Ro
    using others_out(2) [OF assms(1), of u t] * by (auto simp: assms(2) in_pop_def)
  then show "clearing s' \<longleftrightarrow> (\<exists>x Ro. p = PopCleared x Ro)" by (simp add: clearing_def)
qed

lemma flag_other:
  assumes "pcs s' = (pcs s)(t := p)"
  shows "\<not> in_push (pcs s t) \<Longrightarrow> \<not> in_push p \<Longrightarrow> storing s' = storing s"
    "\<not> in_pop (pcs s t) \<Longrightarrow> \<not> in_pop p \<Longrightarrow> clearing s' = clearing s"
proof -
  assume *: "\<not> in_push (pcs s t)" "\<not> in_push p"
  have "pcs s' u = PushStored e Wo \<longleftrightarrow> pcs s u = PushStored e Wo" for u e Wo using * by (auto simp: assms)
  then show "storing s' = storing s" by (simp add: storing_def)
next
  assume *: "\<not> in_pop (pcs s t)" "\<not> in_pop p"
  have "pcs s' u = PopCleared x Ro \<longleftrightarrow> pcs s u = PopCleared x Ro" for u x Ro using * by (auto simp: assms in_pop_def)
  then show "clearing s' = clearing s" by (simp add: clearing_def)
qed

definition at_edge :: "'a pc \<Rightarrow> bool" where
  "at_edge p \<longleftrightarrow> (case p of PushStored e Wo \<Rightarrow> True | PopCleared x Ro \<Rightarrow> True | _ \<Rightarrow> False)"

lemma quiet_slots:
  assumes "slots_ok s" "pcs s' = (pcs s)(t := p)" "\<not> at_edge (pcs s t)" "\<not> at_edge p"
    "rb_L (ring s') = rb_L (ring s)" "rb_B (ring s') = rb_B (ring s)" "pushed s' = pushed s" "popped s' = popped s"
  shows "slots_ok s'"
proof -
  have "pcs s' u = PushStored e Wo \<longleftrightarrow> pcs s u = PushStored e Wo"
    "pcs s' u = PopCleared x Ro \<longleftrightarrow> pcs s u = PopCleared x Ro" for u e Wo x Ro
    using assms(3,4) by (auto simp: assms(2) at_edge_def)
  then have "storing s' = storing s" "clearing s' = clearing s" by (simp_all add: storing_def clearing_def)
  then show ?thesis using assms by (simp add: slots_ok_def)
qed

lemma step_slots:
  assumes "cstep s s'" "conc_inv s"
  shows "slots_ok s'"
proof -
  have ok: "offsets_ok s" "view_ok s (pcs s t)" "slots_ok s" for t using assms(2) by (auto simp: conc_inv_def)
  note fl = flag_only [OF assms(2)] flag_after [OF assms(2), of s'] flag_other [of s' s]
  have B: "rcount s \<le> wcount s" "wcount s \<le> rcount s + slots s" "length (rb_B (ring s)) = slots s"
    "0 < rb_L (ring s)" "rb_R (ring s) = lap_offset (rcount s) (rb_L (ring s))"
    "rb_W (ring s) = lap_offset (wcount s) (rb_L (ring s))"
    using ok(1) by (simp_all add: offsets_ok_def)
  from assms(1) show ?thesis
  proof (cases rule: cstep.cases)
    case (push_store t e Ro Wo)
    have v: "old_R s Ro" "Wo = rb_W (ring s)" using ok(2) [of t] push_store by auto
    then have "wcount s < rcount s + slots s" using room_safe [OF ok(1)] push_store by simp
    moreover have "nat (Wo smod rb_L (ring s)) = wcount s mod slots s" using v B lap_slot by simp
    moreover have "\<not> storing s" "storing s'" "clearing s' = clearing s"
      using fl [of t] push_store by (simp_all add: in_pop_def)
    ultimately show ?thesis using push_store ok(3) B by (simp add: slots_ok_def windows_store)
  next
    case (push_publish t e Wo)
    moreover have "rb_B (ring s) ! (wcount s mod slots s) = Some e" using ok(2) [of t] push_publish by simp
    moreover have "storing s" "\<not> storing s'" "clearing s' = clearing s"
      using fl [of t] push_publish by (simp_all add: in_pop_def)
    ultimately show ?thesis using ok(3) by (simp add: slots_ok_def windows_push)
  next
    case (pop_clear t x Ro)
    have v: "Ro = rb_R (ring s)" "rcount s < wcount s" using ok(2) [of t] pop_clear by auto
    moreover have "nat (Ro smod rb_L (ring s)) = rcount s mod slots s" using v B lap_slot by simp
    moreover have "\<not> clearing s" "clearing s'" "storing s' = storing s"
      using fl [of t] pop_clear by (simp_all add: in_pop_def)
    ultimately show ?thesis using pop_clear ok(3) B by (simp add: slots_ok_def windows_clear)
  next
    case (pop_publish t x Ro)
    moreover have "x = Some (pushed s ! rcount s)" using ok(2) [of t] pop_publish by simp
    moreover have "clearing s" "\<not> clearing s'" "storing s' = storing s"
      using fl [of t] pop_publish by (simp_all add: in_pop_def)
    ultimately show ?thesis using ok(3) by (simp add: slots_ok_def windows_pop)
  qed (rule quiet_slots [OF ok(3)], simp, simp_all add: at_edge_def)+
qed

lemma step_inv: "cstep s s' \<Longrightarrow> conc_inv s \<Longrightarrow> conc_inv s'"
  using step_locks step_offsets step_view step_slots step_popped by (meson conc_inv_def)

lemma init_conc_inv: "conc_inv (conc_init len)"
proof -
  have "length (rb_B (ring (conc_init len))) = slots (conc_init len)" "0 < rb_L (ring (conc_init len))"
    by (simp_all add: conc_init_def ringbuf_init_def Let_def)
  moreover have "rb_B (ring (conc_init len)) ! i = None" if "i < slots (conc_init len)" for i
    using that by (simp add: conc_init_def ringbuf_init_def Let_def)
  ultimately show ?thesis
    by (auto simp: conc_inv_def locks_ok_def mutex_def in_pop_def offsets_ok_def slots_ok_def windows_def
        storing_def clearing_def lap_offset_def conc_init_def)
      (auto simp: ringbuf_init_def Let_def)
qed

abbreviation reachable :: "int \<Rightarrow> 'a conc \<Rightarrow> bool" where
  "reachable len s \<equiv> cstep\<^sup>*\<^sup>* (conc_init len) s"

lemma reachable_inv: "reachable len s \<Longrightarrow> conc_inv s"
  by (induction rule: rtranclp_induct) (auto intro: init_conc_inv step_inv)

lemma reachable_L: "reachable len s \<Longrightarrow> rb_L (ring s) = max 2 (min 131071 len)"
proof (induction rule: rtranclp_induct)
  case base
  show ?case by (simp add: conc_init_def init_length)
next
  case (step s s')
  from step.hyps(2) have "rb_L (ring s') = rb_L (ring s)" by (cases rule: cstep.cases) simp_all
  with step.IH show ?case by simp
qed

section \<open>Quiescent states\<close>

text \<open>When no thread is inside an operation, the ring is one of the sequential development.\<close>

lemma lap_sum:
  assumes "0 < L"
  shows "nat ((lap_offset r L + int i) mod L) = (r + i) mod nat L"
proof -
  have "(lap_offset r L + int i) mod L = (int r mod (2 * L) mod L + int i) mod L"
    by (simp add: lap_offset_def mod_add_left_eq)
  also have "\<dots> = (int r + int i) mod L" by (simp add: mod_mod_cancel mod_add_left_eq)
  also have "\<dots> = int ((r + i) mod nat L)" using assms by (simp add: zmod_int)
  finally show ?thesis by simp
qed

lemma residue_in_window:
  fixes r n j :: nat
  assumes "j < n"
  shows "\<exists>i < n. (r + i) mod n = j"
proof (intro exI conjI)
  let ?i = "(j + (n - r mod n)) mod n"
  show "?i < n" using assms by simp
  have "(r + ?i) mod n = (r mod n + (j + (n - r mod n))) mod n" by (simp add: mod_add_eq mod_add_left_eq mod_add_right_eq)
  also have "r mod n + (j + (n - r mod n)) = j + n" using mod_less_divisor [of n r] assms by linarith
  finally show "(r + ?i) mod n = j" using assms by simp
qed

lemma quiescent_ring:
  assumes "conc_inv s" "\<forall>t. pcs s t = Idle" "2 \<le> rb_L (ring s)" "rb_L (ring s) \<le> 131071"
  shows "ringbuf_inv (ring s) \<and> ringbuf_content (ring s) = drop (rcount s) (pushed s)"
proof -
  let ?r = "rcount s" and ?w = "wcount s" and ?n = "slots s" and ?L = "rb_L (ring s)"
  have o: "offsets_ok s" "slots_ok s" "locks_ok s" using assms(1) by (simp_all add: conc_inv_def)
  have B: "?r \<le> ?w" "?w \<le> ?r + ?n" "length (rb_B (ring s)) = ?n" "0 < ?L"
    "rb_R (ring s) = lap_offset ?r ?L" "rb_W (ring s) = lap_offset ?w ?L"
    using o(1) by (simp_all add: offsets_ok_def)
  have used: "ring_used (rb_R (ring s)) (rb_W (ring s)) ?L = int ?w - int ?r"
    unfolding B(5,6) lap_offset_def using B by (intro used_counters) auto
  then have c: "ringbuf_count (ring s) = ?w - ?r" using B by (simp add: ringbuf_count_def)
  have sl: "slot_at (ring s) i = (?r + i) mod ?n" for i using B by (simp add: slot_at_def lap_sum)
  have "windows (rb_B (ring s)) ?n ?r (pushed s) False False"
    using o(2) assms(2) by (simp add: slots_ok_def storing_def clearing_def)
  then have full: "rb_B (ring s) ! ((?r + i) mod ?n) = Some (pushed s ! (?r + i))" if "i < ?w - ?r" for i
    using that B by (simp add: windows_def)
  have free: "rb_B (ring s) ! ((?r + i) mod ?n) = None" if "?w - ?r \<le> i" "i < ?n" for i
    using \<open>windows _ _ _ _ False False\<close> that B by (simp add: windows_def)
  have "rb_B (ring s) ! j \<noteq> None \<longleftrightarrow> j \<in> slot_at (ring s) ` {0..<ringbuf_count (ring s)}" if j: "j < ?n" for j
  proof -
    obtain i where i: "i < ?n" "(?r + i) mod ?n = j" using residue_in_window [OF j] by blast
    show ?thesis
    proof (cases "i < ?w - ?r")
      case True
      then show ?thesis using full i by (auto simp: sl c)
    next
      case False
      have "(?r + k) mod ?n \<noteq> j" if "k < ?w - ?r" for k
        using full [OF that] free [of i] False i by auto
      then have "j \<notin> slot_at (ring s) ` {0..<ringbuf_count (ring s)}" by (force simp: sl c)
      then show ?thesis using False free [of i] i by simp
    qed
  qed
  moreover have "ringbuf_offsets_ok (ring s)"
    using assms(3,4) B used by (simp add: ringbuf_offsets_ok_def) (simp add: lap_offset_def)
  moreover have "rb_WLock (ring s) = 0" "rb_RLock (ring s) = 0"
    using o(3) assms(2) by (auto simp: locks_ok_def mutex_def in_pop_def)
  moreover have "ringbuf_content (ring s) = drop ?r (pushed s)"
    unfolding ringbuf_content_def ringbuf_slots_def
    by (rule nth_equalityI) (use full B in \<open>simp_all add: c sl\<close>)
  ultimately show ?thesis by (simp add: ringbuf_inv_def)
qed

section \<open>The steps against the sequential operations\<close>

lemma step_into: "cstep\<^sup>*\<^sup>* s s' \<Longrightarrow> cstep s' s'' \<Longrightarrow> cstep\<^sup>*\<^sup>* s s''"
  by (rule rtranclp.rtrancl_into_rtrancl)

lemma push_to_ready:
  assumes "pcs s t = Idle" "rb_WLock (ring s) = 0"
  shows "cstep\<^sup>*\<^sup>* s (goto (s\<lparr> ring := (ring s)\<lparr> rb_WLock := 1 \<rparr> \<rparr>) t (PushReady e (rb_R (ring s)) (rb_W (ring s))))"
proof -
  let ?g = "\<lambda>p. goto (s\<lparr> ring := (ring s)\<lparr> rb_WLock := 1 \<rparr> \<rparr>) t p"
  have "cstep s (?g (PushLocked e))" by (rule push_lock [OF assms])
  moreover have "cstep (?g (PushLocked e)) (?g (PushGotR e (rb_R (ring s))))"
    using push_get_R [of "?g (PushLocked e)" t e] by simp
  moreover have "cstep (?g (PushGotR e (rb_R (ring s)))) (?g (PushReady e (rb_R (ring s)) (rb_W (ring s))))"
    using push_get_W [of "?g (PushGotR e (rb_R (ring s)))" t e] by simp
  ultimately show ?thesis by (rule step_into [OF step_into [OF r_into_rtranclp]])
qed

lemma pop_to_ready:
  assumes "pcs s t = Idle" "rb_RLock (ring s) = 0"
  shows "cstep\<^sup>*\<^sup>* s (goto (s\<lparr> ring := (ring s)\<lparr> rb_RLock := 1 \<rparr> \<rparr>) t (PopReady (rb_W (ring s)) (rb_R (ring s))))"
proof -
  let ?g = "\<lambda>p. goto (s\<lparr> ring := (ring s)\<lparr> rb_RLock := 1 \<rparr> \<rparr>) t p"
  have "cstep s (?g PopLocked)" by (rule pop_lock [OF assms])
  moreover have "cstep (?g PopLocked) (?g (PopGotW (rb_W (ring s))))"
    using pop_get_W [of "?g PopLocked" t] by simp
  moreover have "cstep (?g (PopGotW (rb_W (ring s)))) (?g (PopReady (rb_W (ring s)) (rb_R (ring s))))"
    using pop_get_R [of "?g (PopGotW (rb_W (ring s)))" t] by simp
  ultimately show ?thesis by (rule step_into [OF step_into [OF r_into_rtranclp]])
qed

lemma solo_push:
  assumes "pcs s t = Idle" "rb_WLock (ring s) = 0" "ringbuf_push (ring s) (Some e) = (ret, rb)"
  shows "cstep\<^sup>*\<^sup>* s (s\<lparr> ring := rb, pushed := pushed s @ (if ret = 1 then [e] else []) \<rparr>)"
proof -
  let ?L = "rb_L (ring s)" and ?R = "rb_R (ring s)" and ?W = "rb_W (ring s)"
  let ?B = "(rb_B (ring s))[nat (?W smod ?L) := Some e]"
  let ?s1 = "goto (s\<lparr> ring := (ring s)\<lparr> rb_WLock := 1 \<rparr> \<rparr>) t (PushReady e ?R ?W)"
  have idem: "(pcs s)(t := Idle) = pcs s" using assms(1) by (rule fun_upd_idem)
  note to1 = push_to_ready [OF assms(1,2), of e]
  show ?thesis
  proof (cases "push_room ?R ?W ?L")
    case True
    let ?s2 = "goto (s\<lparr> ring := (ring s)\<lparr> rb_WLock := 1, rb_B := ?B \<rparr> \<rparr>) t (PushStored e ?W)"
    let ?s3 = "goto (s\<lparr> ring := (ring s)\<lparr> rb_WLock := 1, rb_B := ?B,
      rb_W := ringbuf_normalize_offset (?W + 1) ?L \<rparr>, pushed := pushed s @ [e] \<rparr>) t (PushUnlock 1)"
    have "cstep ?s1 ?s2" using push_store [of ?s1 t e ?R ?W] True by simp
    moreover have "cstep ?s2 ?s3" using push_publish [of ?s2 t e ?W] by simp
    moreover have "ret = 1 \<and> rb = (ring s)\<lparr> rb_B := ?B, rb_W := ringbuf_normalize_offset (?W + 1) ?L \<rparr>"
      using assms(2,3) True by (auto simp: ringbuf_push_def push_room_def Let_def)
    then have fin: "goto (?s3\<lparr> ring := (ring ?s3)\<lparr> rb_WLock := 0 \<rparr> \<rparr>) t Idle =
        s\<lparr> ring := rb, pushed := pushed s @ (if ret = 1 then [e] else []) \<rparr>"
      using assms(2) idem by (auto intro!: conc.equality ringbuf_t.equality)
    have "cstep ?s3 (goto (?s3\<lparr> ring := (ring ?s3)\<lparr> rb_WLock := 0 \<rparr> \<rparr>) t Idle)"
      by (rule push_unlock [of _ _ 1]) simp
    ultimately show ?thesis unfolding fin by (rule step_into [OF step_into [OF step_into [OF to1]]])
  next
    case False
    let ?s2 = "goto (s\<lparr> ring := (ring s)\<lparr> rb_WLock := 1 \<rparr> \<rparr>) t (PushUnlock 0)"
    have "cstep ?s1 ?s2" using push_full [of ?s1 t e ?R ?W] False by simp
    moreover have "ret = 0 \<and> rb = ring s"
      using assms(2,3) False by (auto simp: ringbuf_push_def push_room_def Let_def)
    then have fin: "goto (?s2\<lparr> ring := (ring ?s2)\<lparr> rb_WLock := 0 \<rparr> \<rparr>) t Idle =
        s\<lparr> ring := rb, pushed := pushed s @ (if ret = 1 then [e] else []) \<rparr>"
      using assms(2) idem by (auto intro!: conc.equality ringbuf_t.equality)
    have "cstep ?s2 (goto (?s2\<lparr> ring := (ring ?s2)\<lparr> rb_WLock := 0 \<rparr> \<rparr>) t Idle)"
      by (rule push_unlock [of _ _ 0]) simp
    ultimately show ?thesis unfolding fin by (rule step_into [OF step_into [OF to1]])
  qed
qed

lemma solo_pop:
  assumes "pcs s t = Idle" "rb_RLock (ring s) = 0" "ringbuf_pop (ring s) = (ret, x, rb)"
  shows "cstep\<^sup>*\<^sup>* s (s\<lparr> ring := rb, popped := popped s @ (case x of None \<Rightarrow> [] | Some y \<Rightarrow> [y]) \<rparr>)"
proof -
  let ?L = "rb_L (ring s)" and ?R = "rb_R (ring s)" and ?W = "rb_W (ring s)"
  let ?B = "(rb_B (ring s))[nat (?R smod ?L) := None]" and ?x = "rb_B (ring s) ! nat (?R smod ?L)"
  let ?s1 = "goto (s\<lparr> ring := (ring s)\<lparr> rb_RLock := 1 \<rparr> \<rparr>) t (PopReady ?W ?R)"
  have idem: "(pcs s)(t := Idle) = pcs s" using assms(1) by (rule fun_upd_idem)
  note to1 = pop_to_ready [OF assms(1,2)]
  show ?thesis
  proof (cases "pop_avail ?R ?W ?L")
    case True
    let ?s2 = "goto (s\<lparr> ring := (ring s)\<lparr> rb_RLock := 1 \<rparr> \<rparr>) t (PopTaken ?x ?R)"
    let ?s3 = "goto (s\<lparr> ring := (ring s)\<lparr> rb_RLock := 1, rb_B := ?B \<rparr> \<rparr>) t (PopCleared ?x ?R)"
    let ?s4 = "goto (s\<lparr> ring := (ring s)\<lparr> rb_RLock := 1, rb_B := ?B,
      rb_R := ringbuf_normalize_offset (?R + 1) ?L \<rparr>,
      popped := popped s @ (case ?x of None \<Rightarrow> [] | Some y \<Rightarrow> [y]) \<rparr>) t (PopUnlock ?x)"
    have "cstep ?s1 ?s2" using pop_take [of ?s1 t ?W ?R] True by simp
    moreover have "cstep ?s2 ?s3" using pop_clear [of ?s2 t ?x ?R] by simp
    moreover have "cstep ?s3 ?s4" using pop_publish [of ?s3 t ?x ?R] by simp
    moreover have "x = ?x \<and> rb = (ring s)\<lparr> rb_B := ?B, rb_R := ringbuf_normalize_offset (?R + 1) ?L \<rparr>"
      using assms(2,3) True by (auto simp: ringbuf_pop_def pop_avail_def Let_def)
    then have fin: "goto (?s4\<lparr> ring := (ring ?s4)\<lparr> rb_RLock := 0 \<rparr> \<rparr>) t Idle =
        s\<lparr> ring := rb, popped := popped s @ (case x of None \<Rightarrow> [] | Some y \<Rightarrow> [y]) \<rparr>"
      using assms(2) idem by (auto intro!: conc.equality ringbuf_t.equality)
    have "cstep ?s4 (goto (?s4\<lparr> ring := (ring ?s4)\<lparr> rb_RLock := 0 \<rparr> \<rparr>) t Idle)"
      by (rule pop_unlock [of _ _ ?x]) simp
    ultimately show ?thesis unfolding fin by (rule step_into [OF step_into [OF step_into [OF step_into [OF to1]]]])
  next
    case False
    let ?s2 = "goto (s\<lparr> ring := (ring s)\<lparr> rb_RLock := 1 \<rparr> \<rparr>) t (PopUnlock None)"
    have "cstep ?s1 ?s2" using pop_empty [of ?s1 t ?W ?R] False by simp
    moreover have "x = None \<and> rb = ring s"
      using assms(2,3) False by (auto simp: ringbuf_pop_def pop_avail_def Let_def)
    then have fin: "goto (?s2\<lparr> ring := (ring ?s2)\<lparr> rb_RLock := 0 \<rparr> \<rparr>) t Idle =
        s\<lparr> ring := rb, popped := popped s @ (case x of None \<Rightarrow> [] | Some y \<Rightarrow> [y]) \<rparr>"
      using assms(2) idem by (auto intro!: conc.equality ringbuf_t.equality)
    have "cstep ?s2 (goto (?s2\<lparr> ring := (ring ?s2)\<lparr> rb_RLock := 0 \<rparr> \<rparr>) t Idle)"
      by (rule pop_unlock [of _ _ None]) simp
    ultimately show ?thesis unfolding fin by (rule step_into [OF step_into [OF to1]])
  qed
qed

section \<open>Progress\<close>

text \<open>The number of own steps a thread still needs to finish its operation.\<close>

primrec steps_left :: "'a pc \<Rightarrow> nat" where
  "steps_left Idle = 0"
| "steps_left (PushLocked e) = 5"
| "steps_left (PushGotR e Ro) = 4"
| "steps_left (PushReady e Ro Wo) = 3"
| "steps_left (PushStored e Wo) = 2"
| "steps_left (PushUnlock ret) = 1"
| "steps_left PopLocked = 6"
| "steps_left (PopGotW Wo) = 5"
| "steps_left (PopReady Wo Ro) = 4"
| "steps_left (PopTaken x Ro) = 3"
| "steps_left (PopCleared x Ro) = 2"
| "steps_left (PopUnlock x) = 1"

lemma step_enabled:
  assumes "pcs s t \<noteq> Idle"
  shows "\<exists>s'. cstep s s' \<and> steps_left (pcs s' t) < steps_left (pcs s t)"
proof (cases "pcs s t")
  case (PushReady e Ro Wo)
  then show ?thesis using push_store [of s t e Ro Wo] push_full [of s t e Ro Wo]
    by (cases "push_room Ro Wo (rb_L (ring s))") (force+)
next
  case (PopReady Wo Ro)
  then show ?thesis using pop_take [of s t Wo Ro] pop_empty [of s t Wo Ro]
    by (cases "pop_avail Ro Wo (rb_L (ring s))") (force+)
qed (use assms in \<open>force dest: push_get_R push_get_W push_publish push_unlock pop_get_W pop_get_R
    pop_clear pop_publish pop_unlock\<close>)+

lemma step_decreases:
  assumes "cstep s s'" "pcs s t \<noteq> Idle"
  shows "pcs s' t = pcs s t \<or> steps_left (pcs s' t) < steps_left (pcs s t)"
  using assms by (cases rule: cstep.cases) auto

section \<open>Properties\<close>

text \<open>
  C3.  The ring is a linearizable FIFO queue under any interleaving of any number of pushing and
  popping threads.  In every reachable state at most one thread is inside a push and at most one
  inside a pop, the elements popped so far are a prefix of the elements pushed so far (nothing is
  lost, duplicated or reordered), and at most \<open>L\<close> elements are in between.  Whenever no thread is
  inside an operation, the ring satisfies the sequential invariant and its content is exactly what
  has been pushed and not yet popped.
\<close>

theorem ringbuf_conc_linearizable:
  assumes "reachable len s"
  shows "(\<forall>t t'. in_push (pcs s t) \<and> in_push (pcs s t') \<longrightarrow> t = t')
    \<and> (\<forall>t t'. in_pop (pcs s t) \<and> in_pop (pcs s t') \<longrightarrow> t = t')
    \<and> popped s = take (length (popped s)) (pushed s)
    \<and> length (pushed s) - length (popped s) \<le> nat (max 2 (min 131071 len))
    \<and> ((\<forall>t. pcs s t = Idle) \<longrightarrow> ringbuf_inv (ring s) \<and> pushed s = popped s @ ringbuf_content (ring s))"
proof -
  have i: "conc_inv s" by (rule reachable_inv [OF assms])
  have L: "rb_L (ring s) = max 2 (min 131071 len)" by (rule reachable_L [OF assms])
  have p: "popped s = take (length (popped s)) (pushed s)" using i by (simp add: conc_inv_def)
  have "length (pushed s) \<le> length (popped s) + nat (max 2 (min 131071 len))"
    using i L by (simp add: conc_inv_def offsets_ok_def)
  moreover have "ringbuf_inv (ring s) \<and> pushed s = popped s @ ringbuf_content (ring s)" if "\<forall>t. pcs s t = Idle"
    using quiescent_ring [OF i that] L p append_take_drop_id [of "rcount s" "pushed s"] by simp
  moreover have "t = t'" if "in_push (pcs s t) \<and> in_push (pcs s t') \<or> in_pop (pcs s t) \<and> in_pop (pcs s t')" for t t'
    using others_out [OF i, of t' t] that by blast
  ultimately show ?thesis using p by auto
qed

lemma one_push_reachable:
  "reachable 2 ((conc_init 2)\<lparr> ring := snd (ringbuf_push (ringbuf_init 2) (Some 7)), pushed := [7::nat] \<rparr>)"
proof -
  have r: "ringbuf_push (ring (conc_init 2)) (Some (7::nat)) = (1, snd (ringbuf_push (ringbuf_init 2) (Some 7)))"
    by (simp add: conc_init_def ringbuf_push_def ringbuf_init_def ringbuf_restore_wrap_def Let_def)
  have "pcs (conc_init 2 :: nat conc) 0 = Idle" "rb_WLock (ring (conc_init 2 :: nat conc)) = 0"
    "pushed (conc_init 2 :: nat conc) = []"
    by (simp_all add: conc_init_def ringbuf_init_def Let_def)
  with solo_push [OF this(1,2) r] show ?thesis by simp
qed

lemma ringbuf_conc_linearizable_witness:
  "ringbuf_content (snd (ringbuf_push (ringbuf_init 2) (Some (7::nat)))) = [7]"
proof -
  let ?s = "(conc_init 2)\<lparr> ring := snd (ringbuf_push (ringbuf_init 2) (Some 7)), pushed := [7::nat] \<rparr>"
  have "(\<forall>t. pcs ?s t = Idle)" "popped ?s = []" "pushed ?s = [7]" by (simp_all add: conc_init_def)
  with ringbuf_conc_linearizable [OF one_push_reachable] show ?thesis by simp
qed

text \<open>
  Acting on a stale snapshot is safe, and a refusal is never spurious.  In every reachable
  state, a pusher whose test succeeds writes into a NULL slot (it never overwrites an element); a
  popper whose test succeeds takes the oldest element not yet popped (never NULL, never an element
  still being written).  When a pusher's test fails the ring was full, with \<open>n + L\<close> pushes for \<open>n\<close>
  pops, when it took its snapshot; when a popper's test fails the ring was empty at its snapshot.
\<close>

theorem ringbuf_conc_safe:
  assumes "reachable len s"
  shows "(pcs s t = PushReady e Ro Wo \<and> push_room Ro Wo (rb_L (ring s)) \<longrightarrow>
       rb_B (ring s) ! nat (Wo smod rb_L (ring s)) = None)
    \<and> (pcs s t = PopReady Wo Ro \<and> pop_avail Ro Wo (rb_L (ring s)) \<longrightarrow>
       rb_B (ring s) ! nat (Ro smod rb_L (ring s)) = Some (pushed s ! length (popped s)))
    \<and> (pcs s t = PushReady e Ro Wo \<and> \<not> push_room Ro Wo (rb_L (ring s)) \<longrightarrow>
       (\<exists>n \<le> length (popped s). length (pushed s) = n + nat (rb_L (ring s))))
    \<and> (pcs s t = PopReady Wo Ro \<and> \<not> pop_avail Ro Wo (rb_L (ring s)) \<longrightarrow>
       Wo = lap_offset (length (popped s)) (rb_L (ring s)))"
proof -
  have i: "conc_inv s" by (rule reachable_inv [OF assms])
  have o: "offsets_ok s" "view_ok s (pcs s t)" using i by (simp_all add: conc_inv_def)
  have win: "windows (rb_B (ring s)) (slots s) (rcount s) (pushed s) (storing s) (clearing s)"
    using i by (simp add: conc_inv_def slots_ok_def)
  have B: "rcount s \<le> wcount s" "wcount s \<le> rcount s + slots s" "0 < rb_L (ring s)"
    "rb_R (ring s) = lap_offset (rcount s) (rb_L (ring s))" "rb_W (ring s) = lap_offset (wcount s) (rb_L (ring s))"
    using o(1) by (simp_all add: offsets_ok_def)
  have push: "rb_B (ring s) ! nat (Wo smod rb_L (ring s)) = None"
    if "pcs s t = PushReady e Ro Wo" "push_room Ro Wo (rb_L (ring s))"
  proof -
    have v: "old_R s Ro" "Wo = rb_W (ring s)" using o(2) that(1) by auto
    have "wcount s < rcount s + slots s" using room_safe [OF o(1) v(1)] that(2) v(2) by simp
    moreover have "\<not> storing s" using flag_only(1) [OF i, of t] that(1) by simp
    ultimately show ?thesis using win B v(2) lap_slot [OF B(3)] by (simp add: windows_def)
  qed
  have pop: "rb_B (ring s) ! nat (Ro smod rb_L (ring s)) = Some (pushed s ! rcount s)"
    if "pcs s t = PopReady Wo Ro" "pop_avail Ro Wo (rb_L (ring s))"
  proof -
    have v: "old_W s Wo" "Ro = rb_R (ring s)" using o(2) that(1) by auto
    have "rcount s < wcount s" using avail_safe [OF o(1) v(1)] that(2) v(2) by simp
    moreover have "\<not> clearing s" using flag_only(2) [OF i, of t] that(1) by (simp add: in_pop_def)
    ultimately show ?thesis using win B v(2) lap_slot [OF B(3)] by (simp add: windows_def)
  qed
  have "\<exists>n \<le> rcount s. wcount s = n + slots s"
    if pr: "pcs s t = PushReady e Ro Wo" "\<not> push_room Ro Wo (rb_L (ring s))"
  proof -
    obtain n where n: "n \<le> rcount s" "Ro = lap_offset n (rb_L (ring s))" "wcount s \<le> n + slots s"
      using o(2) pr(1) by (auto simp: old_R_def)
    then have "\<not> wcount s < n + slots s"
      using room_iff(1) [OF B(3), of n "wcount s"] B pr o(2) by auto
    then show ?thesis using n by (intro exI [of _ n]) simp
  qed
  moreover have "Wo = lap_offset (rcount s) (rb_L (ring s))"
    if pr: "pcs s t = PopReady Wo Ro" "\<not> pop_avail Ro Wo (rb_L (ring s))"
  proof -
    obtain n where n: "rcount s \<le> n" "Wo = lap_offset n (rb_L (ring s))" "n \<le> wcount s"
      using o(2) pr(1) by (auto simp: old_W_def)
    then have "\<not> rcount s < n"
      using room_iff(2) [OF B(3), of "rcount s" n] B pr o(2) by auto
    then show ?thesis using n by simp
  qed
  ultimately show ?thesis using push pop by (intro conjI impI; elim conjE; simp)
qed

lemma ringbuf_conc_safe_witness:
  "\<exists>s. reachable 2 s \<and> pcs s 0 = PushReady (7::nat) 0 0 \<and> push_room 0 0 (rb_L (ring s))
     \<and> rb_B (ring s) ! nat (0 smod rb_L (ring s)) = None"
proof -
  let ?s = "goto ((conc_init 2)\<lparr> ring := (ring (conc_init 2))\<lparr> rb_WLock := 1 \<rparr> \<rparr>) 0 (PushReady (7::nat) 0 0)"
  have "pcs (conc_init 2 :: nat conc) 0 = Idle" "rb_WLock (ring (conc_init 2 :: nat conc)) = 0"
    "rb_R (ring (conc_init 2 :: nat conc)) = 0" "rb_W (ring (conc_init 2 :: nat conc)) = 0"
    by (simp_all add: conc_init_def ringbuf_init_def Let_def)
  then have r: "reachable 2 ?s" using push_to_ready [of "conc_init 2" 0 "7::nat"] by simp
  moreover have p: "pcs ?s 0 = PushReady 7 0 0" by simp
  moreover have "push_room 0 0 (rb_L (ring ?s))"
    by (simp add: push_room_def conc_init_def ringbuf_init_def ringbuf_restore_wrap_def Let_def)
  ultimately show ?thesis using ringbuf_conc_safe [OF r, of 0 7 0 0] by blast
qed



text \<open>
  The small steps implement the sequential operations.  From any state in which thread \<open>t\<close> is
  outside and the lock is free, the steps of \<open>t\<close> alone lead to exactly the ring that
  \<open>ringbuf_push\<close> (resp. \<open>ringbuf_pop\<close>) computes, with the same result recorded in the history.
\<close>

theorem ringbuf_conc_solo:
  assumes "pcs s t = Idle"
  shows "(rb_WLock (ring s) = 0 \<and> ringbuf_push (ring s) (Some e) = (ret, rb) \<longrightarrow>
      cstep\<^sup>*\<^sup>* s (s\<lparr> ring := rb, pushed := pushed s @ (if ret = 1 then [e] else []) \<rparr>))
    \<and> (rb_RLock (ring s) = 0 \<and> ringbuf_pop (ring s) = (ret', x, rb') \<longrightarrow>
      cstep\<^sup>*\<^sup>* s (s\<lparr> ring := rb', popped := popped s @ (case x of None \<Rightarrow> [] | Some y \<Rightarrow> [y]) \<rparr>))"
  using solo_push [OF assms] solo_pop [OF assms] by simp

lemma ringbuf_conc_solo_witness:
  "\<exists>s. reachable 2 s \<and> pushed s = [7::nat] \<and> rb_W (ring s) = 1"
proof -
  have r: "ringbuf_push (ring (conc_init 2)) (Some (7::nat)) = (1, snd (ringbuf_push (ringbuf_init 2) (Some 7)))"
    by (simp add: conc_init_def ringbuf_push_def ringbuf_init_def ringbuf_restore_wrap_def Let_def)
  have i: "pcs (conc_init 2 :: nat conc) 0 = Idle" "rb_WLock (ring (conc_init 2 :: nat conc)) = 0"
    by (simp_all add: conc_init_def ringbuf_init_def Let_def)
  from ringbuf_conc_solo [OF i(1), of 7 1 "snd (ringbuf_push (ringbuf_init 2) (Some 7))"] i(2) r
  show ?thesis
    by (intro exI [of _ "(conc_init 2)\<lparr> ring := snd (ringbuf_push (ringbuf_init 2) (Some 7)), pushed := [7] \<rparr>"])
      (simp add: conc_init_def ringbuf_push_def ringbuf_init_def ringbuf_restore_wrap_def ringbuf_normalize_offset_def Let_def)
qed

end
