(* ===== verification/CStr.thy ===== *)
theory CStr
  imports Prelude "HOL-Library.Sublist"
begin

text \<open>
  \<open>source/common/cstrbuf.h\<close>, the string helpers (case, trimming, searching, comparing,
  splitting, replacing) and the functions of the C library they use, in the C locale.  A C string is
  the list of its characters before the NUL; a \<open>char *\<close> that may be NULL is a \<open>string option\<close>; a
  pointer into a string is an index.  Where the code reads at an index the terminating NUL is
  readable: \<open>chr_at\<close>.  A function that changes its argument in place returns the new string.
\<close>

section \<open>Characters\<close>

abbreviation code :: "char \<Rightarrow> nat" where
  "code c \<equiv> of_char c"

definition isspace :: "char \<Rightarrow> bool" where
  "isspace c \<longleftrightarrow> code c = 32 \<or> (9 \<le> code c \<and> code c \<le> 13)"

definition isdigit :: "char \<Rightarrow> bool" where
  "isdigit c \<longleftrightarrow> 48 \<le> code c \<and> code c \<le> 57"

definition toupper :: "char \<Rightarrow> char" where
  "toupper c = (if 97 \<le> code c \<and> code c \<le> 122 then char_of (code c - 32) else c)"

definition tolower :: "char \<Rightarrow> char" where
  "tolower c = (if 65 \<le> code c \<and> code c \<le> 90 then char_of (code c + 32) else c)"

definition NUL :: char where
  "NUL = CHR 0x00"

definition chr_at :: "string \<Rightarrow> nat \<Rightarrow> char" where
  "chr_at s i = (if i < length s then s ! i else NUL)"

text \<open>A C string has no NUL inside.\<close>

definition c_string :: "string \<Rightarrow> bool" where
  "c_string s \<longleftrightarrow> NUL \<notin> set s"

text \<open>The macro \<open>cstr_length(str, maxlen)\<close>; \<open>strnlen\<close> with a negative bound is unbounded.\<close>

definition cstr_length :: "string option \<Rightarrow> int \<Rightarrow> int" where
  "cstr_length str maxlen =
     (case str of None \<Rightarrow> 0
      | Some s \<Rightarrow> if maxlen < 0 then int (length s) else min (int (length s)) maxlen)"

text \<open>\<open>cstr_copybuf\<close> and \<open>cstr_copybuf_len\<close>: what ends up in a buffer of \<open>size\<close> bytes.\<close>

definition cstr_copybuf :: "nat \<Rightarrow> string \<Rightarrow> string" where
  "cstr_copybuf bufsize src = take (min (length src) (bufsize - 1)) src"

definition cstr_copybuf_len :: "nat \<Rightarrow> string \<Rightarrow> int \<Rightarrow> string" where
  "cstr_copybuf_len bufsize src srclen =
     take (nat (if srclen < int bufsize then srclen else int bufsize - 1)) src"

section \<open>Case and trimming\<close>

fun cstr_toupper :: "string \<Rightarrow> int \<Rightarrow> string" where
  "cstr_toupper [] num = []"
| "cstr_toupper (c # s) num = (if num > 0 then toupper c # cstr_toupper s (num - 1) else c # s)"

fun cstr_tolower :: "string \<Rightarrow> int \<Rightarrow> string" where
  "cstr_tolower [] num = []"
| "cstr_tolower (c # s) num = (if num > 0 then tolower c # cstr_tolower s (num - 1) else c # s)"

text \<open>\<open>cstr_trim_chr\<close>: \<open>f\<close> is what the write pointer has left behind, then the rest to read.\<close>

fun trim_chr_loop :: "char \<Rightarrow> string \<Rightarrow> string \<Rightarrow> string" where
  "trim_chr_loop c f [] = f"
| "trim_chr_loop c f (p # ps) = (if p \<noteq> c then trim_chr_loop c (f @ [p]) ps else trim_chr_loop c f ps)"

definition cstr_trim_chr :: "string \<Rightarrow> char \<Rightarrow> string" where
  "cstr_trim_chr s c = trim_chr_loop c [] s"

fun trim_chrs_loop :: "string \<Rightarrow> string \<Rightarrow> nat \<Rightarrow> string" where
  "trim_chrs_loop str chrs 0 = str"
| "trim_chrs_loop str chrs (Suc num) = trim_chrs_loop (cstr_trim_chr str (chr_at chrs num)) chrs num"

definition cstr_trim_chrs :: "string \<Rightarrow> string \<Rightarrow> int \<Rightarrow> string" where
  "cstr_trim_chrs str chrs num = trim_chrs_loop str chrs (nat num)"

fun cstr_Ltrim_chr :: "string \<Rightarrow> char \<Rightarrow> string" where
  "cstr_Ltrim_chr [] ch = []"
| "cstr_Ltrim_chr (p # ps) ch = (if p = ch then cstr_Ltrim_chr ps ch else p # ps)"

text \<open>\<open>cstr_Rtrim_chr\<close>: \<open>q\<close> ends at the last character different from \<open>ch\<close> (0 when there is none).\<close>

fun rtrim_scan :: "string \<Rightarrow> char \<Rightarrow> nat \<Rightarrow> nat \<Rightarrow> nat" where
  "rtrim_scan [] ch p q = q"
| "rtrim_scan (c # s) ch p q = rtrim_scan s ch (Suc p) (if c \<noteq> ch then p else q)"

definition cstr_Rtrim_chr :: "string \<Rightarrow> char \<Rightarrow> string \<times> nat" where
  "cstr_Rtrim_chr str ch =
     (let q = rtrim_scan str ch 0 0 + 1
      in if q \<le> length str then (take q str, q) else (str, 0))"

definition cstr_LRtrim_chr :: "string \<Rightarrow> char \<Rightarrow> string \<times> nat" where
  "cstr_LRtrim_chr str c = cstr_Rtrim_chr (cstr_Ltrim_chr str c) c"

fun cstr_Ltrim_whitespace :: "string \<Rightarrow> string" where
  "cstr_Ltrim_whitespace [] = []"
| "cstr_Ltrim_whitespace (p # ps) = (if isspace p then cstr_Ltrim_whitespace ps else p # ps)"

text \<open>\<open>cstr_Rtrim_whitespace(str, len)\<close>: the string cut before its trailing white space, the length.\<close>

fun rtrim_ws_loop :: "string \<Rightarrow> nat \<Rightarrow> string \<times> int" where
  "rtrim_ws_loop str 0 = (str, 0)"
| "rtrim_ws_loop str (Suc len) =
     (if isspace (chr_at str len) then rtrim_ws_loop (take len str) len else (str, int len + 1))"

definition cstr_Rtrim_whitespace :: "string \<Rightarrow> int \<Rightarrow> string \<times> int" where
  "cstr_Rtrim_whitespace str len = (if len > 0 then rtrim_ws_loop str (nat len) else (str, len))"

definition cstr_LRtrim_whitespace :: "string \<Rightarrow> string" where
  "cstr_LRtrim_whitespace str =
     (let p = cstr_Ltrim_whitespace str in fst (cstr_Rtrim_whitespace p (cstr_length (Some p) (-1))))"

text \<open>\<open>cstr_shrink_whitespace\<close>: the bounds, inclusive, of the part without outer white space.\<close>

function shrink_start :: "string \<Rightarrow> int \<Rightarrow> int \<Rightarrow> int" where
  "shrink_start str s e = (if s < e \<and> isspace (chr_at str (nat s)) then shrink_start str (s + 1) e else s)"
  by auto
termination by (relation "measure (\<lambda>(str, s, e). nat (e - s))") auto

function shrink_stop :: "string \<Rightarrow> int \<Rightarrow> int \<Rightarrow> int" where
  "shrink_stop str s e = (if s \<le> e \<and> isspace (chr_at str (nat e)) then shrink_stop str s (e - 1) else e)"
  by auto
termination by (relation "measure (\<lambda>(str, s, e). nat (e - s + 1))") auto

declare shrink_start.simps [simp del] shrink_stop.simps [simp del]

definition cstr_shrink_whitespace :: "string \<Rightarrow> int \<Rightarrow> int \<Rightarrow> int \<times> int \<times> int" where
  "cstr_shrink_whitespace str start stop =
     (let s = shrink_start str start stop; e = shrink_stop str s stop in (s, e, e - s + 1))"

text \<open>
  \<open>cstr_trim_whitespace\<close>, one nested conditional expression that calls itself up to three times
  on the rest of the string.  The result: the memory from \<open>s\<close> to the NUL as the calls leave it, and
  how far the returned pointer is from \<open>s\<close>.  The first argument is the length of the memory.
\<close>

fun trim_ws :: "nat \<Rightarrow> string \<Rightarrow> string \<times> nat" where
  "trim_ws 0 m = (m, 0)"
| "trim_ws (Suc n) m =
     (let c = hd m
      in if \<not> isspace c then
           (case trim_ws n (tl m) of (m1, k1) \<Rightarrow>
              if k1 = 0 then (c # m1, 0)
              else (case trim_ws n m1 of (m2, k2) \<Rightarrow>
                      (case trim_ws n (m2[k2 - 1 := c]) of (m3, k3) \<Rightarrow> (CHR '' '' # m3, k3 + 1))))
         else (case trim_ws n (tl m) of (m1, k1) \<Rightarrow> (c # m1, k1 + 1)))"

definition cstr_trim_whitespace :: "string \<Rightarrow> string" where
  "cstr_trim_whitespace s = (case trim_ws (length s) s of (m, k) \<Rightarrow> drop k m)"

definition cstr_replace_chr :: "string \<Rightarrow> char \<Rightarrow> char \<Rightarrow> string" where
  "cstr_replace_chr str ch rpl = map (\<lambda>p. if p = ch then rpl else p) str"

subsection \<open>What they compute\<close>

lemma trim_chr_loop_eq: "trim_chr_loop c f s = f @ filter (\<lambda>p. p \<noteq> c) s"
  by (induction s arbitrary: f) auto

lemma trim_chr_eq [simp]: "cstr_trim_chr s c = filter (\<lambda>p. p \<noteq> c) s"
  by (simp add: cstr_trim_chr_def trim_chr_loop_eq)

lemma trim_chrs_loop_eq:
  "num \<le> length chrs \<Longrightarrow> trim_chrs_loop str chrs num = filter (\<lambda>p. p \<notin> set (take num chrs)) str"
proof (induction num arbitrary: str)
  case (Suc num)
  then have "set (take (Suc num) chrs) = insert (chr_at chrs num) (set (take num chrs))"
    by (simp add: take_Suc_conv_app_nth chr_at_def)
  with Suc show ?case by (auto intro: filter_cong)
qed simp

lemma Ltrim_chr_eq: "cstr_Ltrim_chr s ch = dropWhile (\<lambda>c. c = ch) s"
  by (induction s) auto

lemma Ltrim_whitespace_eq: "cstr_Ltrim_whitespace s = dropWhile isspace s"
  by (induction s) auto

definition rdrop_while :: "('a \<Rightarrow> bool) \<Rightarrow> 'a list \<Rightarrow> 'a list" where
  "rdrop_while P xs = rev (dropWhile P (rev xs))"

lemma rdrop_while_snoc [simp]:
  "rdrop_while P (xs @ [x]) = (if P x then rdrop_while P xs else xs @ [x])" "rdrop_while P [] = []"
  by (simp_all add: rdrop_while_def)

lemma rtrim_ws_loop_eq:
  "rtrim_ws_loop s (length s) = (rdrop_while isspace s, int (length (rdrop_while isspace s)))"
  by (induction s rule: rev_induct) (simp_all add: chr_at_def)

lemma Rtrim_whitespace_eq:
  "cstr_Rtrim_whitespace s (int (length s)) = (rdrop_while isspace s, int (length (rdrop_while isspace s)))"
  by (cases "s = []") (simp_all add: cstr_Rtrim_whitespace_def rtrim_ws_loop_eq)

lemma LRtrim_whitespace_eq: "cstr_LRtrim_whitespace s = rdrop_while isspace (dropWhile isspace s)"
  by (simp add: cstr_LRtrim_whitespace_def Let_def Ltrim_whitespace_eq cstr_length_def Rtrim_whitespace_eq)

lemma rdrop_while_Nil: "rdrop_while P xs = [] \<longleftrightarrow> (\<forall>x \<in> set xs. P x)"
  by (simp add: rdrop_while_def)

lemma rdrop_while_Cons:
  "rdrop_while P (x # xs) = (if rdrop_while P xs = [] then if P x then [] else [x] else x # rdrop_while P xs)"
  by (auto simp: rdrop_while_def dropWhile_append)

lemma rdrop_while_split: "\<exists>zs. xs = rdrop_while P xs @ zs \<and> (\<forall>z \<in> set zs. P z)"
proof -
  have "xs = rdrop_while P xs @ rev (takeWhile P (rev xs))"
    unfolding rdrop_while_def by (metis rev_append rev_rev_ident takeWhile_dropWhile_id)
  then show ?thesis using set_takeWhileD by fastforce
qed

lemma rdrop_while_prefix: "rdrop_while P xs = take (length (rdrop_while P xs)) xs"
  using rdrop_while_split [of xs P] by (metis append_eq_conv_conj)

lemma rtrim_scan_eq:
  "rtrim_scan s ch p q = (if rdrop_while (\<lambda>c. c = ch) s = [] then q
     else p + length (rdrop_while (\<lambda>c. c = ch) s) - 1)"
  by (induction s arbitrary: p q) (auto simp: rdrop_while_Cons)

lemma rdrop_while_le: "length (rdrop_while P xs) \<le> length xs"
  by (metis length_take min.cobounded1 rdrop_while_prefix)

lemma Rtrim_chr_eq:
  "cstr_Rtrim_chr s ch =
     (if s \<noteq> [] \<and> (\<forall>c \<in> set s. c = ch) then ([ch], 1)
      else (rdrop_while (\<lambda>c. c = ch) s, length (rdrop_while (\<lambda>c. c = ch) s)))"
proof (cases "rdrop_while (\<lambda>c. c = ch) s = []")
  case True
  then have "\<forall>c \<in> set s. c = ch" by (simp add: rdrop_while_Nil)
  then show ?thesis using True by (cases s) (auto simp: cstr_Rtrim_chr_def Let_def rtrim_scan_eq)
next
  case False
  then have "\<not> (\<forall>c \<in> set s. c = ch)" "0 < length (rdrop_while (\<lambda>c. c = ch) s)" by (simp_all add: rdrop_while_Nil)
  then show ?thesis using rdrop_while_le [of "\<lambda>c. c = ch" s] rdrop_while_prefix [of "\<lambda>c. c = ch" s] False
    by (auto simp: cstr_Rtrim_chr_def Let_def rtrim_scan_eq)
qed

text \<open>The compaction towards the end of the string, for any memory contents.\<close>

lemma trim_ws_compacts:
  assumes "length m = n" "trim_ws n m = (m', k)"
  shows "length m' = n \<and> k \<le> n \<and> drop k m' = filter (\<lambda>c. \<not> isspace c) m \<and> (\<forall>c \<in> set (take k m'). isspace c)"
  using assms
proof (induction n arbitrary: m m' k)
  case (Suc n)
  obtain c r where m: "m = c # r" "length r = n" using Suc.prems(1) by (cases m) auto
  obtain m1 k1 where t1: "trim_ws n r = (m1, k1)" by force
  note i1 = Suc.IH [OF m(2) t1]
  show ?case
  proof (cases "isspace c")
    case True
    then show ?thesis using Suc.prems(2) m t1 i1 by auto
  next
    case False
    show ?thesis
    proof (cases k1)
      case 0
      then show ?thesis using Suc.prems(2) m t1 i1 False by auto
    next
      case (Suc j)
      obtain m2 k2 where t2: "trim_ws n m1 = (m2, k2)" by force
      have l1: "length m1 = n" using i1 by simp
      note i2 = Suc.IH [OF l1 t2]
      have "filter (\<lambda>c. \<not> isspace c) m1 = filter (\<lambda>c. \<not> isspace c) r"
        by (subst append_take_drop_id [of k1 m1, symmetric]) (simp add: i1 del: append_take_drop_id)
      then have d2: "drop k2 m2 = filter (\<lambda>c. \<not> isspace c) r" using i2 by simp
      then have k2: "k2 = k1" using i1 i2 by (metis diff_diff_cancel length_drop)
      let ?m3 = "m2[k2 - 1 := c]"
      have split: "?m3 = take j m2 @ c # drop k1 m2"
        using i2 k2 \<open>k1 = Suc j\<close> by (simp add: upd_conv_take_nth_drop)
      have sp: "\<forall>x \<in> set (take j m2). isspace x" 
        using i2 k2 \<open>k1 = Suc j\<close> set_take_subset_set_take [of j k2 m2] by auto
      obtain m3 k3 where t3: "trim_ws n ?m3 = (m3, k3)" by force
      have l3: "length ?m3 = n" using i2 by simp
      note i3 = Suc.IH [OF l3 t3]
      have "filter (\<lambda>c. \<not> isspace c) ?m3 = filter (\<lambda>c. \<not> isspace c) m"
        unfolding split using sp d2 k2 False m by simp
      then show ?thesis using i3 t1 t2 t3 Suc.prems(2) m False \<open>k1 = Suc j\<close> by (auto simp: isspace_def)
    qed
  qed
qed simp

lemma trim_whitespace_eq: "cstr_trim_whitespace s = filter (\<lambda>c. \<not> isspace c) s"
  using trim_ws_compacts [OF refl] by (auto simp: cstr_trim_whitespace_def split: prod.splits)

section \<open>Properties\<close>

text \<open>
  \<open>cstr_trim_whitespace\<close> removes every white-space character, inside the string as well as at
  its ends, and nothing else: the nested in-place expression, which moves the characters towards the
  end of the string and calls itself three times on what it has already moved, computes the filter.
\<close>

theorem cstr_trim_whitespace_filters: "cstr_trim_whitespace s = filter (\<lambda>c. \<not> isspace c) s"
  by (rule trim_whitespace_eq)

text \<open>
  Trimming a character at the ends.  \<open>cstr_Rtrim_chr\<close> removes the trailing \<open>ch\<close> and reports the
  new length, except that a non-empty string made of \<open>ch\<close> only keeps one \<open>ch\<close>; after
  \<open>cstr_Ltrim_chr\<close> that case cannot arise, so \<open>cstr_LRtrim_chr\<close> removes exactly the \<open>ch\<close> at both
  ends.
\<close>

theorem cstr_trim_chr_ends:
  "cstr_Rtrim_chr s ch = (if s \<noteq> [] \<and> (\<forall>c \<in> set s. c = ch) then ([ch], 1)
     else (rdrop_while (\<lambda>c. c = ch) s, length (rdrop_while (\<lambda>c. c = ch) s)))
   \<and> fst (cstr_LRtrim_chr s ch) = rdrop_while (\<lambda>c. c = ch) (dropWhile (\<lambda>c. c = ch) s)
   \<and> snd (cstr_LRtrim_chr s ch) = length (fst (cstr_LRtrim_chr s ch))"
proof -
  let ?t = "dropWhile (\<lambda>c. c = ch) s"
  have nt: "\<not> (?t \<noteq> [] \<and> (\<forall>c \<in> set ?t. c = ch))"
  proof
    assume h: "?t \<noteq> [] \<and> (\<forall>c \<in> set ?t. c = ch)"
    have "hd ?t = ch" by (rule bspec [OF conjunct2 [OF h] hd_in_set [OF conjunct1 [OF h]]])
    then show False using hd_dropWhile [OF conjunct1 [OF h]] by simp
  qed
  show ?thesis
    by (simp only: cstr_LRtrim_chr_def Ltrim_chr_eq Rtrim_chr_eq if_not_P [OF nt] fst_conv snd_conv simp_thms)
qed

lemma cstr_trim_chr_ends_witness:
  "cstr_Rtrim_chr ''//'' (CHR ''/'') = (''/'', 1) \<and> fst (cstr_LRtrim_chr ''/a/b//'' (CHR ''/'')) = ''a/b''"
  using cstr_trim_chr_ends [of "''//''" "CHR ''/''"] cstr_trim_chr_ends [of "''/a/b//''" "CHR ''/''"]
  by (simp add: rdrop_while_def)

end
