(* ===== verification/CStrScan.thy ===== *)
theory CStrScan
  imports CStr
begin

text \<open>
  \<open>source/common/cstrbuf.h\<close>, continued: searching, comparing, splitting, replacing and copying.
  Comparison results of the C library are given by their sign.  A \<open>bool\<close> argument \<open>same\<close> stands for
  the pointer comparison \<open>str == start\<close> of the code.
\<close>

section \<open>Searching\<close>

text \<open>The loop of \<open>cstr_Lfind_chr\<close> and \<open>cstr_find_chrs\<close>: \<open>i\<close> is \<open>p - str\<close>, the rest is ahead of \<open>p\<close>.\<close>

fun find_loop :: "(char \<Rightarrow> bool) \<Rightarrow> string \<Rightarrow> nat \<Rightarrow> nat \<Rightarrow> nat option" where
  "find_loop hit [] i len = None"
| "find_loop hit (c # s) i len =
     (if i < len then (if hit c then Some i else find_loop hit s (i + 1) len) else None)"

definition cstr_Lfind_chr :: "string option \<Rightarrow> int \<Rightarrow> char \<Rightarrow> nat option" where
  "cstr_Lfind_chr str len c =
     (case str of None \<Rightarrow> None
      | Some s \<Rightarrow> if len \<le> 0 then None else find_loop (\<lambda>p. p = c) s 0 (nat len))"

definition cstr_find_chrs :: "string option \<Rightarrow> int \<Rightarrow> string \<Rightarrow> nat \<Rightarrow> nat option" where
  "cstr_find_chrs str len chrs nch =
     (case str of None \<Rightarrow> None
      | Some s \<Rightarrow> if len \<le> 0 then None
          else find_loop (\<lambda>p. p \<in> set (map (chr_at chrs) [0..<nch])) s 0 (nat len))"

fun rfind_loop :: "string \<Rightarrow> char \<Rightarrow> nat \<Rightarrow> nat option" where
  "rfind_loop s c 0 = None"
| "rfind_loop s c (Suc len) = (if chr_at s len = c then Some len else rfind_loop s c len)"

definition cstr_Rfind_chr :: "string option \<Rightarrow> int \<Rightarrow> char \<Rightarrow> nat option" where
  "cstr_Rfind_chr str len c =
     (case str of None \<Rightarrow> None | Some s \<Rightarrow> if len \<le> 0 then None else rfind_loop s c (nat len))"

text \<open>\<open>strstr\<close> of the C library: the first position where \<open>pat\<close> occurs.\<close>

fun strstr :: "string \<Rightarrow> string \<Rightarrow> nat option" where
  "strstr s pat =
     (if take (length pat) s = pat then Some 0
      else case s of [] \<Rightarrow> None | c # s' \<Rightarrow> map_option Suc (strstr s' pat))"

declare strstr.simps [simp del]

lemma strstr_empty: "strstr s [] = Some 0"
  by (simp add: strstr.simps [of s])

lemma find_loop_Some:
  "find_loop hit s i len = Some j \<longleftrightarrow>
     (i \<le> j \<and> j < len \<and> j - i < length s \<and> hit (s ! (j - i)) \<and> (\<forall>k < j - i. \<not> hit (s ! k)))"
proof (induction s arbitrary: i)
  case (Cons c s)
  show ?case
  proof (cases "i < len \<and> \<not> hit c")
    case True
    have "(\<forall>k < j - i. \<not> hit ((c # s) ! k)) \<longleftrightarrow> (\<forall>k < j - Suc i. \<not> hit (s ! k))" if "Suc i \<le> j"
    proof -
      have "j - i = Suc (j - Suc i)" using that by simp
      then show ?thesis using True by (simp add: All_less_Suc2)
    qed
    moreover have "\<not> (i = j \<and> hit ((c # s) ! (j - i)))" using True by auto
    ultimately show ?thesis using True Cons.IH [of "Suc i"]
      by (cases "Suc i \<le> j") (auto simp: nth_Cons' Suc_le_eq)
  next
    case False
    then show ?thesis by (cases "i < len") (auto simp: nth_Cons' split: if_splits)
  qed
qed simp

lemma find_loop_None:
  "find_loop hit s i len = None \<longleftrightarrow> (\<forall>k < length s. i + k < len \<longrightarrow> \<not> hit (s ! k))"
  by (induction s arbitrary: i) (auto simp: All_less_Suc2)

lemma strstr_Some: "strstr s pat = Some n \<Longrightarrow> s = take n s @ pat @ drop (n + length pat) s \<and> n + length pat \<le> length s"
proof (induction s arbitrary: n)
  case Nil
  then show ?case by (cases pat) (simp_all add: strstr.simps)
next
  case (Cons c s)
  show ?case
  proof (cases "take (length pat) (c # s) = pat")
    case True
    then have "n = 0" using Cons.prems by (simp add: strstr.simps)
    moreover have "length pat \<le> length (c # s)" using True by (metis length_take min.cobounded1)
    ultimately show ?thesis using True by (metis add_0 append_Nil append_take_drop_id take0)
  next
    case False
    then obtain m where "strstr s pat = Some m" "n = Suc m" using Cons.prems by (auto simp: strstr.simps [of "c # s"])
    then show ?thesis using Cons.IH by simp
  qed
qed

lemma strstr_None: "strstr s pat = None \<longleftrightarrow> \<not> sublist pat s"
proof (induction s)
  case Nil
  then show ?case by (cases pat) (simp_all add: strstr.simps)
next
  case (Cons c s)
  have "take (length pat) (c # s) = pat \<longleftrightarrow> prefix pat (c # s)"
    by (metis append_eq_conv_conj prefix_def)
  then show ?case using Cons by (simp add: strstr.simps [of "c # s"] sublist_Cons_right del: take_Cons')
qed

lemma strstr_first: "strstr s pat = Some n \<Longrightarrow> k < n \<Longrightarrow> take (length pat) (drop k s) \<noteq> pat"
proof (induction s arbitrary: n k)
  case Nil
  then show ?case by (cases pat) (simp_all add: strstr.simps)
next
  case (Cons c s)
  then show ?case by (cases k) (auto simp: strstr.simps [of "c # s"] split: if_splits)
qed

section \<open>Replacing\<close>

text \<open>
  \<open>cstr_replace_new\<close>: one loop counts the occurrences, one copies.  Both move on by \<open>patlen\<close> after
  a hit, so they need not end: \<open>None\<close> is a call that does not return.  The result is the returned
  length and, when something was replaced, the size allocated with the string written there.
\<close>

partial_function (option) count_loop :: "string \<Rightarrow> string \<Rightarrow> nat \<Rightarrow> nat option" where
  "count_loop oriptr pat patcnt =
     (case strstr oriptr pat of None \<Rightarrow> Some patcnt
      | Some n \<Rightarrow> count_loop (drop (n + length pat) oriptr) pat (patcnt + 1))"

partial_function (option) copy_loop :: "string \<Rightarrow> string \<Rightarrow> string \<Rightarrow> string \<Rightarrow> string option" where
  "copy_loop oriptr pat rpl res =
     (case strstr oriptr pat of None \<Rightarrow> Some (res @ oriptr)
      | Some n \<Rightarrow> copy_loop (drop (n + length pat) oriptr) pat rpl (res @ take n oriptr @ rpl))"

definition replaced_len :: "nat \<Rightarrow> nat \<Rightarrow> nat \<Rightarrow> nat \<Rightarrow> nat" where
  "replaced_len orilen patcnt replen patlen =
     nat ((int orilen + int patcnt * (int replen - int patlen)) mod 18446744073709551616)"

definition cstr_replace_new :: "string \<Rightarrow> string \<Rightarrow> string \<Rightarrow> (int \<times> (nat \<times> string) option) option" where
  "cstr_replace_new original pattern replacement =
     (case count_loop original pattern 0 of
        None \<Rightarrow> None
      | Some patcnt \<Rightarrow>
          if patcnt \<noteq> 0 then
            (let len = replaced_len (length original) patcnt (length replacement) (length pattern)
             in case copy_loop original pattern replacement [] of
                  None \<Rightarrow> None
                | Some result \<Rightarrow> Some (to_int32 (int len), Some (size_wrap (len + 1), result)))
          else Some (0, None))"

text \<open>The specification: leftmost occurrences, not overlapping.\<close>

function replace_all :: "string \<Rightarrow> string \<Rightarrow> string \<Rightarrow> string" where
  "replace_all s pat rpl =
     (if pat = [] then s
      else if take (length pat) s = pat then rpl @ replace_all (drop (length pat) s) pat rpl
      else case s of [] \<Rightarrow> [] | c # s' \<Rightarrow> c # replace_all s' pat rpl)"
  by auto
termination
proof (relation "measure (\<lambda>(s, pat, rpl). length s)", goal_cases)
  case (2 s pat rpl)
  then show ?case by (cases s) auto
qed auto

declare replace_all.simps [simp del]

lemma replace_all_strstr:
  assumes "pat \<noteq> []"
  shows "replace_all s pat rpl =
    (case strstr s pat of None \<Rightarrow> s
     | Some n \<Rightarrow> take n s @ rpl @ replace_all (drop (n + length pat) s) pat rpl)"
proof (induction s)
  case Nil
  then show ?case using assms by (simp add: strstr.simps [of "[]"] replace_all.simps [of "[]"])
next
  case (Cons c s)
  show ?case
  proof (cases "take (length pat) (c # s) = pat")
    case True
    then show ?thesis using assms by (simp add: strstr.simps [of "c # s"] replace_all.simps [of "c # s"])
  next
    case False
    then show ?thesis using Cons assms
      by (simp add: strstr.simps [of "c # s"] replace_all.simps [of "c # s"] split: option.splits)
  qed
qed

lemma shorter_rest: "strstr s pat = Some n \<Longrightarrow> pat \<noteq> [] \<Longrightarrow> length (drop (n + length pat) s) < length s"
  using strstr_Some [of s pat n] by (cases "length pat") auto

lemma copy_loop_eq:
  assumes "pat \<noteq> []"
  shows "copy_loop s pat rpl res = Some (res @ replace_all s pat rpl)"
proof (induction s arbitrary: res rule: length_induct)
  case (1 s)
  then show ?case using shorter_rest [OF _ assms] replace_all_strstr [OF assms, of s rpl]
    by (subst copy_loop.simps) (auto split: option.splits)
qed

lemma count_loop_eq:
  assumes "pat \<noteq> []"
  shows "\<exists>k. count_loop s pat m = Some (m + k) \<and> (k = 0 \<longleftrightarrow> \<not> sublist pat s) \<and>
    int (length (replace_all s pat rpl)) = int (length s) + int k * (int (length rpl) - int (length pat))"
proof (induction s arbitrary: m rule: length_induct)
  case (1 s)
  show ?case
  proof (cases "strstr s pat")
    case None
    then show ?thesis using strstr_None [of s pat] replace_all_strstr [OF assms, of s rpl]
      by (intro exI [of _ 0]) (subst count_loop.simps, simp)
  next
    case (Some n)
    let ?r = "drop (n + length pat) s"
    from 1 shorter_rest [OF Some assms] obtain k where k: "count_loop ?r pat (m + 1) = Some (m + 1 + k)"
      "int (length (replace_all ?r pat rpl)) = int (length ?r) + int k * (int (length rpl) - int (length pat))"
      by blast
    have "sublist pat s" using Some strstr_None [of s pat] by auto
    moreover have "count_loop s pat m = Some (m + Suc k)" using k(1) Some by (subst count_loop.simps) simp
    moreover have "int (length (replace_all s pat rpl)) = int (length s) + int (Suc k) * (int (length rpl) - int (length pat))"
      using k(2) Some strstr_Some [OF Some] by (simp add: replace_all_strstr [OF assms, of s] algebra_simps)
    ultimately show ?thesis by (intro exI [of _ "Suc k"]) simp
  qed
qed

text \<open>With an empty pattern the counting loop never advances.\<close>

lemma count_loop_returns:
  assumes "count_loop s pat m = Some y"
  shows "pat \<noteq> []"
proof (rule count_loop.raw_induct [of "\<lambda>s pat m y. pat \<noteq> []", OF _ assms])
  fix rest oriptr pat :: string and f patcnt r
  assume ih: "\<And>oriptr pat patcnt r. f oriptr pat patcnt = Some r \<Longrightarrow> pat \<noteq> []"
    and step: "(case strstr oriptr pat of None \<Rightarrow> Some patcnt
      | Some n \<Rightarrow> f (drop (n + length pat) oriptr) pat (patcnt + 1)) = Some r"
  show "pat \<noteq> []"
  proof
    assume "pat = []"
    then have "strstr oriptr pat = Some 0" by (simp add: strstr.simps)
    with step ih show False using \<open>pat = []\<close> by force
  qed
qed

lemma count_loop_empty: "count_loop s [] m = None"
  using count_loop_returns [of s "[]" m] by (cases "count_loop s [] m") auto

section \<open>Splitting\<close>

text \<open>\<open>cstr_split_substr\<close>: the strings that start at the returned pointers.\<close>

fun cstr_split_substr :: "string option \<Rightarrow> string \<Rightarrow> nat \<Rightarrow> nat \<Rightarrow> string list" where
  "cstr_split_substr None sepstr seplen maxsubs = []"
| "cstr_split_substr (Some s) sepstr seplen 0 = []"
| "cstr_split_substr (Some s) sepstr seplen (Suc maxsubs) =
     (case strstr s sepstr of
        None \<Rightarrow> [s]
      | Some n \<Rightarrow> take n s # cstr_split_substr (Some (drop (n + seplen) s)) sepstr seplen maxsubs)"

text \<open>
  \<open>cstr_slpit_chr_nodup\<close>: the pairs \<open>(outstrs[i] - str, outstrslen[i])\<close> it writes, in order.  The
  entry after the loop is written whether or not there is room for it.
\<close>

function slpit_loop :: "string \<Rightarrow> nat \<Rightarrow> char \<Rightarrow> nat \<Rightarrow> (nat \<times> nat) list \<Rightarrow> nat \<Rightarrow> nat \<Rightarrow> (nat \<times> nat) list \<times> nat \<times> nat" where
  "slpit_loop str len delim maxoutnum outs start stop =
     (if length outs < maxoutnum \<and> stop < len then
        if chr_at str stop = delim
        then slpit_loop str len delim maxoutnum (outs @ [(start, stop - start)]) (stop + 1) (stop + 1)
        else slpit_loop str len delim maxoutnum outs start (stop + 1)
      else (outs, start, stop))"
  by auto
termination by (relation "measure (\<lambda>(str, len, delim, maxoutnum, outs, start, stop). len - stop)") auto

declare slpit_loop.simps [simp del]

definition cstr_slpit_chr_nodup :: "string \<Rightarrow> nat \<Rightarrow> char \<Rightarrow> nat \<Rightarrow> (nat \<times> nat) list" where
  "cstr_slpit_chr_nodup str len delim maxoutnum =
     (case slpit_loop str len delim maxoutnum [] 0 0 of (outs, start, stop) \<Rightarrow>
        if chr_at str start \<noteq> NUL then outs @ [(start, stop - start)] else outs)"

text \<open>
  \<open>cstr_split_multi_chrs\<close>: the strings it allocates.  At a separator past \<open>start\<close> the part between
  them is kept when something is left of it, and \<open>start = end\<close> moves on to the separator itself.
  The flag of the loop says that the function returned from inside it.
\<close>

definition add_sub :: "string \<Rightarrow> nat \<Rightarrow> nat \<Rightarrow> string list \<Rightarrow> string list" where
  "add_sub str start stop outsubs =
     (case cstr_shrink_whitespace str (int start) (int stop - 1) of (substart, subend, sublen) \<Rightarrow>
        if sublen > 0 then outsubs @ [take (nat sublen) (drop (nat substart) str)] else outsubs)"

fun multi_loop :: "string \<Rightarrow> string \<Rightarrow> nat \<Rightarrow> nat \<Rightarrow> nat \<Rightarrow> nat \<Rightarrow> string list \<Rightarrow> string list \<times> nat \<times> bool" where
  "multi_loop str sepchrs maxsubs 0 i start outsubs = (outsubs, start, False)"
| "multi_loop str sepchrs maxsubs (Suc left) i start outsubs =
     (if chr_at str i \<in> set sepchrs \<and> i > start \<and> length outsubs < maxsubs then
        let outs = add_sub str start i outsubs
        in if outs \<noteq> outsubs \<and> length outs = maxsubs then (outs, i, True)
           else multi_loop str sepchrs maxsubs left (i + 1) i outs
      else multi_loop str sepchrs maxsubs left (i + 1) start outsubs)"

definition cstr_split_multi_chrs :: "string \<Rightarrow> nat \<Rightarrow> string \<Rightarrow> nat \<Rightarrow> string list" where
  "cstr_split_multi_chrs str slen sepchrs maxsubs =
     (case multi_loop str sepchrs maxsubs slen 0 0 [] of (outs, start, returned) \<Rightarrow>
        if returned then outs
        else if length outs < maxsubs \<and> slen > start then add_sub str start slen outs
        else outs)"

subsection \<open>Splitting by a substring\<close>

text \<open>Putting the separator back between the parts.\<close>

fun join :: "string \<Rightarrow> string list \<Rightarrow> string" where
  "join sep [] = []"
| "join sep [s] = s"
| "join sep (s # t # ss) = s @ sep @ join sep (t # ss)"

lemma split_substr_join:
  assumes "length (cstr_split_substr (Some s) sep (length sep) maxsubs) < maxsubs"
  shows "join sep (cstr_split_substr (Some s) sep (length sep) maxsubs) = s"
  using assms
proof (induction maxsubs arbitrary: s)
  case (Suc n)
  show ?case
  proof (cases "strstr s sep")
    case (Some k)
    let ?r = "cstr_split_substr (Some (drop (k + length sep) s)) sep (length sep) n"
    have len: "length ?r < n" using Suc.prems Some by simp
    then have j: "join sep ?r = drop (k + length sep) s" by (rule Suc.IH)
    obtain n' where "n = Suc n'" using len by (cases n) auto
    then obtain x xs where "?r = x # xs" by (cases "strstr (drop (k + length sep) s) sep") auto
    then have "join sep (take k s # ?r) = take k s @ sep @ join sep ?r" by simp
    then show ?thesis using Some strstr_Some [OF Some] j by simp
  qed simp
qed simp

text \<open>An empty separator always fills all \<open>maxsubs\<close> places.\<close>

lemma split_empty_sep: "length (cstr_split_substr (Some s) [] 0 maxsubs) = maxsubs"
  by (induction maxsubs arbitrary: s) (simp_all add: strstr_empty)

lemma split_substr_clean:
  assumes "length (cstr_split_substr (Some s) sep (length sep) maxsubs) < maxsubs"
    "x \<in> set (cstr_split_substr (Some s) sep (length sep) maxsubs)"
  shows "\<not> sublist sep x"
  using assms
proof (induction maxsubs arbitrary: s)
  case (Suc n)
  show ?case
  proof (cases "strstr s sep")
    case None
    then show ?thesis using Suc.prems strstr_None [of s sep] by simp
  next
    case (Some k)
    have "\<not> sublist sep (take k s)"
    proof
      assume "sublist sep (take k s)"
      then obtain a b where ab: "take k s = a @ sep @ b" by (auto simp: sublist_def)
      have k: "k + length sep \<le> length s" using strstr_Some [OF Some] by simp
      have la: "length a + length sep \<le> k" using ab k by (metis (no_types, opaque_lifting) add.assoc le_add1 length_append length_take min.absorb2 add_leD1)
      have "length (cstr_split_substr (Some s) [] 0 (Suc n)) = Suc n" by (rule split_empty_sep)
      then have sep: "sep \<noteq> []" using Suc.prems(1) by (intro notI) (simp only: list.size less_irrefl)
      then have "length a < k" using la by (cases sep) auto
      moreover have "take (length sep) (drop (length a) s) = sep"
      proof -
        have "take (length sep) (drop (length a) (take k s)) = sep" by (simp add: ab)
        moreover have "length sep \<le> k - length a" using la by linarith
        ultimately show ?thesis by (simp add: drop_take min_def)
      qed
      ultimately show False using strstr_first [OF Some] by blast
    qed
    then show ?thesis using Suc Some by auto
  qed
qed simp

subsection \<open>Splitting at characters\<close>

abbreviation trim :: "string \<Rightarrow> string" where
  "trim s \<equiv> rdrop_while isspace (dropWhile isspace s)"

text \<open>What the loop cuts: the first character, separator or not, and what follows up to a separator.\<close>

function segs :: "(char \<Rightarrow> bool) \<Rightarrow> string \<Rightarrow> string list" where
  "segs P [] = []"
| "segs P (c # s) = (c # takeWhile (\<lambda>x. \<not> P x) s) # segs P (dropWhile (\<lambda>x. \<not> P x) s)"
  by pat_completeness auto
termination by (relation "measure (\<lambda>(P, s). length s)") (auto simp: length_dropWhile_le le_imp_less_Suc)

definition words :: "(char \<Rightarrow> bool) \<Rightarrow> string \<Rightarrow> string list" where
  "words P s = filter (\<lambda>w. w \<noteq> []) (map trim (segs P s))"

lemma shrink_start_eq:
  assumes "a \<le> b" "b \<le> length str"
  shows "shrink_start str (int a) (int b) = int (a + length (takeWhile isspace (take (b - a) (drop a str))))"
  using assms
proof (induction "b - a" arbitrary: a)
  case 0
  then show ?case by (subst shrink_start.simps) simp
next
  case (Suc n)
  then have l: "a < b" "n = b - Suc a" "Suc a \<le> b" "a < length str" by auto
  have "take (b - a) (drop a str) = str ! a # take (b - Suc a) (drop (Suc a) str)"
    using l by (simp add: Cons_nth_drop_Suc [symmetric] Suc_diff_Suc [symmetric])
  then show ?case using Suc.hyps(1) [OF l(2,3) Suc.prems(2)] l
    by (subst shrink_start.simps) (simp add: chr_at_def add.commute)
qed

lemma shrink_stop_eq:
  assumes "a \<le> b" "b \<le> length str"
  shows "shrink_stop str (int a) (int b - 1) =
    int a + int (length (rdrop_while isspace (take (b - a) (drop a str)))) - 1"
  using assms
proof (induction "b - a" arbitrary: b)
  case 0
  then show ?case by (subst shrink_stop.simps) simp
next
  case (Suc n)
  then obtain b' where b: "b = Suc b'" by (cases b) auto
  then have l: "a \<le> b'" "n = b' - a" "b' < length str" using Suc by auto
  have "take (b - a) (drop a str) = take (b' - a) (drop a str) @ [str ! b']"
    using l b by (simp add: Suc_diff_le take_Suc_conv_app_nth)
  then show ?case using Suc.hyps(1) [of b'] l b
    by (subst shrink_stop.simps) (simp add: chr_at_def)
qed

lemma rdrop_take_butlast:
  assumes "seg \<noteq> []"
  shows "rdrop_while isspace (drop (length (takeWhile isspace (butlast seg))) seg) = trim seg"
proof -
  obtain xs x where seg: "seg = xs @ [x]" using assms by (cases seg rule: rev_cases) auto
  show ?thesis
  proof (cases "\<forall>y \<in> set xs. isspace y")
    case True
    then show ?thesis by (simp add: seg dropWhile_append takeWhile_eq_all_conv [THEN iffD2] rdrop_while_def)
  next
    case False
    then have "dropWhile isspace seg = drop (length (takeWhile isspace xs)) seg"
      by (auto simp: seg dropWhile_append dropWhile_eq_drop length_takeWhile_le)
    then show ?thesis by (simp add: seg)
  qed
qed

lemma take_rdrop_while: "take (length (rdrop_while P (take n xs))) xs = rdrop_while P (take n xs)"
proof -
  let ?m = "length (rdrop_while P (take n xs))"
  have "?m \<le> length (take n xs)" by (rule rdrop_while_le)
  then have "take ?m xs = take ?m (take n xs)" by (simp add: min_absorb1)
  also have "\<dots> = rdrop_while P (take n xs)" by (rule rdrop_while_prefix [symmetric])
  finally show ?thesis .
qed

lemma add_sub_eq:
  assumes "start < stop" "stop \<le> length str"
  shows "add_sub str start stop outs =
    (let t = trim (take (stop - start) (drop start str)) in if t = [] then outs else outs @ [t])"
proof -
  let ?seg = "take (stop - start) (drop start str)"
  obtain e where e: "stop = Suc e" using assms by (cases stop) auto
  have bl: "take (e - start) (drop start str) = butlast ?seg"
    using assms e by (simp add: butlast_take Suc_diff_le)
  let ?k = "length (takeWhile isspace (butlast ?seg))" and ?s = "start + length (takeWhile isspace (butlast ?seg))"
  have k: "?s \<le> e" using length_takeWhile_le [of isspace "butlast ?seg"] assms e by simp
  have start: "shrink_start str (int start) (int stop - 1) = int ?s"
    using shrink_start_eq [of start e str] assms e bl by simp
  let ?r = "rdrop_while isspace (take (stop - ?s) (drop ?s str))"
  have stop: "shrink_stop str (int ?s) (int stop - 1) = int ?s + int (length ?r) - 1"
    using k e assms by (intro shrink_stop_eq) auto
  have "take (stop - ?s) (drop ?s str) = drop ?k ?seg"
    by (simp add: drop_take add.commute)
  moreover have "?seg \<noteq> []" using assms by simp
  ultimately have r: "?r = trim ?seg" using rdrop_take_butlast by metis
  have "take (length ?r) (drop ?s str) = ?r" by (rule take_rdrop_while)
  then show ?thesis unfolding add_sub_def cstr_shrink_whitespace_def Let_def start stop using r
    by (auto simp: nat_add_distrib)
qed

lemma segs_cut:
  assumes "start < i" "i < length str" "P (str ! i)" "\<And>j. start < j \<Longrightarrow> j < i \<Longrightarrow> \<not> P (str ! j)"
  shows "segs P (drop start str) = take (i - start) (drop start str) # segs P (drop i str)"
proof -
  have d: "drop start str = str ! start # drop (Suc start) str" using assms by (simp add: Cons_nth_drop_Suc)
  let ?t = "drop (Suc start) str" and ?n = "i - Suc start"
  have "takeWhile (\<lambda>x. \<not> P x) ?t = take ?n ?t" using assms by (intro takeWhile_eq_take_P_nth) auto
  moreover from this have "dropWhile (\<lambda>x. \<not> P x) ?t = drop i str"
    using assms by (simp add: dropWhile_eq_drop)
  moreover have "take (i - start) (drop start str) = str ! start # take ?n ?t"
    using assms(1) by (simp add: d Suc_diff_Suc [symmetric])
  ultimately show ?thesis by (simp add: d)
qed

lemma segs_last:
  assumes "start < length str" "\<And>j. start < j \<Longrightarrow> j < length str \<Longrightarrow> \<not> P (str ! j)"
  shows "segs P (drop start str) = [drop start str]"
proof -
  have d: "drop start str = str ! start # drop (Suc start) str" using assms by (simp add: Cons_nth_drop_Suc)
  have "\<forall>x \<in> set (drop (Suc start) str). \<not> P x" using assms(2) by (auto simp: in_set_conv_nth)
  then show ?thesis by (simp add: d takeWhile_eq_all_conv [THEN iffD2] dropWhile_eq_Nil_conv [THEN iffD2])
qed

definition multi_finish :: "string \<Rightarrow> nat \<Rightarrow> string list \<times> nat \<times> bool \<Rightarrow> string list" where
  "multi_finish str maxsubs r = (case r of (outs, start, returned) \<Rightarrow>
     if returned then outs
     else if length outs < maxsubs \<and> length str > start then add_sub str start (length str) outs else outs)"

lemma multi_loop_spec:
  assumes "left = length str - i" "start \<le> i" "i \<le> length str" "length outs \<le> maxsubs"
    "\<And>j. start < j \<Longrightarrow> j < i \<Longrightarrow> str ! j \<notin> set sepchrs"
  shows "multi_finish str maxsubs (multi_loop str sepchrs maxsubs left i start outs) =
    take maxsubs (outs @ words (\<lambda>c. c \<in> set sepchrs) (drop start str))"
  using assms
proof (induction left arbitrary: i start outs)
  case 0
  then have i: "i = length str" by simp
  show ?case
  proof (cases "length outs < maxsubs \<and> start < length str")
    case True
    then have "segs (\<lambda>c. c \<in> set sepchrs) (drop start str) = [drop start str]"
      using 0 i by (intro segs_last) auto
    then show ?thesis using True by (auto simp: multi_finish_def words_def add_sub_eq Let_def)
  next
    case False
    then show ?thesis using 0 i by (auto simp: multi_finish_def words_def)
  qed
next
  case (Suc left)
  then have l: "left = length str - (i + 1)" "i < length str" "i + 1 \<le> length str" by auto
  have ci: "chr_at str i = str ! i" using l by (simp add: chr_at_def)
  show ?case
  proof (cases "chr_at str i \<in> set sepchrs \<and> i > start \<and> length outs < maxsubs")
    case False
    have "str ! j \<notin> set sepchrs" if "start < j" "j < i + 1" "length outs < maxsubs" for j
      using that False Suc.prems(5) ci by (cases "j = i") auto
    then have "multi_finish str maxsubs (multi_loop str sepchrs maxsubs left (i + 1) start outs) =
        take maxsubs (outs @ words (\<lambda>c. c \<in> set sepchrs) (drop start str))" if "length outs < maxsubs"
      using Suc.IH [OF l(1) _ l(3), of start outs] Suc.prems that by auto
    moreover have "multi_finish str maxsubs (multi_loop str sepchrs maxsubs left j start outs) = outs"
      if "length outs = maxsubs" for j
      using that by (induction left arbitrary: j) (auto simp: multi_finish_def)
    ultimately show ?thesis using False Suc.prems(4) by (cases "length outs < maxsubs") auto
  next
    case True
    let ?outs = "add_sub str start i outs"
    have cut: "segs (\<lambda>c. c \<in> set sepchrs) (drop start str) =
        take (i - start) (drop start str) # segs (\<lambda>c. c \<in> set sepchrs) (drop i str)"
      using True l ci Suc.prems(5) by (intro segs_cut) auto
    have o: "?outs @ words (\<lambda>c. c \<in> set sepchrs) (drop i str) = outs @ words (\<lambda>c. c \<in> set sepchrs) (drop start str)"
      using True l by (simp add: words_def cut add_sub_eq Let_def)
    have len: "length ?outs \<le> maxsubs" using True l by (simp add: add_sub_eq Let_def)
    show ?thesis
    proof (cases "?outs \<noteq> outs \<and> length ?outs = maxsubs")
      case ret: True
      then have "multi_finish str maxsubs (multi_loop str sepchrs maxsubs (Suc left) i start outs) = ?outs"
        using True by (simp add: Let_def multi_finish_def)
      then show ?thesis using ret by (simp flip: o)
    next
      case False
      then have "multi_loop str sepchrs maxsubs (Suc left) i start outs = multi_loop str sepchrs maxsubs left (i + 1) i ?outs"
        using True by (auto simp: Let_def)
      then show ?thesis using Suc.IH [OF l(1) _ l(3) len, of i] by (simp add: o)
    qed
  qed
qed

lemma split_multi_eq:
  "cstr_split_multi_chrs str (length str) sepchrs maxsubs = take maxsubs (words (\<lambda>c. c \<in> set sepchrs) str)"
  using multi_loop_spec [of "length str" str 0 0 "[]" maxsubs sepchrs]
  by (simp add: cstr_split_multi_chrs_def multi_finish_def)

section \<open>Comparing\<close>

text \<open>\<open>strcmp\<close> and its relatives, by sign, on the bytes as \<open>unsigned char\<close>.\<close>

fun strcmp :: "string \<Rightarrow> string \<Rightarrow> int" where
  "strcmp [] [] = 0"
| "strcmp [] (b # bs) = -1"
| "strcmp (a # as) [] = 1"
| "strcmp (a # as) (b # bs) =
     (if code a < code b then -1 else if code b < code a then 1 else strcmp as bs)"

definition strncmp :: "string \<Rightarrow> string \<Rightarrow> nat \<Rightarrow> int" where
  "strncmp a b n = strcmp (take n a) (take n b)"

definition strcasecmp :: "string \<Rightarrow> string \<Rightarrow> int" where
  "strcasecmp a b = strcmp (map tolower a) (map tolower b)"

definition strncasecmp :: "string \<Rightarrow> string \<Rightarrow> nat \<Rightarrow> int" where
  "strncasecmp a b n = strcasecmp (take n a) (take n b)"

text \<open>\<open>! memcmp(a, b, n)\<close>.\<close>

definition mem_eq :: "string \<Rightarrow> string \<Rightarrow> nat \<Rightarrow> bool" where
  "mem_eq a b n \<longleftrightarrow> map (chr_at a) [0..<n] = map (chr_at b) [0..<n]"

definition cstr_notequal :: "string option \<Rightarrow> string option \<Rightarrow> bool" where
  "cstr_notequal str1 str2 =
     (case (str1, str2) of
        (None, None) \<Rightarrow> False
      | (Some a, Some b) \<Rightarrow> strcmp a b \<noteq> 0
      | _ \<Rightarrow> True)"

definition cstr_notequal_len :: "string option \<Rightarrow> int \<Rightarrow> string option \<Rightarrow> int \<Rightarrow> bool" where
  "cstr_notequal_len Astr Alen Bstr Blen =
     (if Alen \<noteq> Blen then True
      else case (Astr, Bstr) of
        (None, None) \<Rightarrow> False
      | (Some a, Some b) \<Rightarrow> strncmp a b (if Alen < 0 then max (length a) (length b) else nat Alen) \<noteq> 0
      | _ \<Rightarrow> True)"

definition cstr_compare_len :: "string option \<Rightarrow> int \<Rightarrow> string option \<Rightarrow> int \<Rightarrow> bool \<Rightarrow> int" where
  "cstr_compare_len Astr Alen Bstr Blen caseignore =
     (case (Astr, Bstr) of
        (None, None) \<Rightarrow> 0
      | (None, Some b) \<Rightarrow> -1
      | (Some a, None) \<Rightarrow> 1
      | (Some a, Some b) \<Rightarrow>
          if Alen = 0 \<and> Blen = 0 then 0
          else if Alen < 0 \<and> Blen < 0 then (if caseignore then strcasecmp a b else strcmp a b)
          else
            (let Alen = (if Alen < 0 then cstr_length Astr (-1) else Alen);
                 Blen = (if Blen < 0 then cstr_length Bstr (-1) else Blen)
             in if Alen > Blen then 1
                else if Alen < Blen then -1
                else if caseignore then strncasecmp a b (nat Alen) else strncmp a b (nat Alen)))"

definition cstr_startwith :: "bool \<Rightarrow> string option \<Rightarrow> int \<Rightarrow> string option \<Rightarrow> int \<Rightarrow> bool" where
  "cstr_startwith same str count start startlen =
     (if same then True
      else case (str, start) of
        (Some s, Some t) \<Rightarrow> startlen \<le> count \<and> mem_eq s t (nat startlen)
      | _ \<Rightarrow> False)"

definition cstr_endwith :: "bool \<Rightarrow> string option \<Rightarrow> int \<Rightarrow> string option \<Rightarrow> int \<Rightarrow> bool" where
  "cstr_endwith same str count tail endlen =
     (if same then True
      else case (str, tail) of
        (Some s, Some t) \<Rightarrow> endlen \<le> count \<and>
          \<not> cstr_notequal_len (Some (drop (nat (count - endlen)) s)) endlen (Some t) endlen
      | _ \<Rightarrow> False)"

fun contain_loop :: "string \<Rightarrow> string \<Rightarrow> nat \<Rightarrow> nat \<Rightarrow> nat \<Rightarrow> int" where
  "contain_loop s t sublen i 0 = -1"
| "contain_loop s t sublen i (Suc left) =
     (if mem_eq (drop i s) t sublen then int i else contain_loop s t sublen (i + 1) left)"

definition cstr_containwith :: "bool \<Rightarrow> string option \<Rightarrow> int \<Rightarrow> string option \<Rightarrow> int \<Rightarrow> int" where
  "cstr_containwith same str count sub sublen =
     (if same then 0
      else case (str, sub) of
        (Some s, Some t) \<Rightarrow>
          if sublen \<le> count then contain_loop s t (nat sublen) 0 (nat (count - sublen + 1)) else -1
      | _ \<Rightarrow> -1)"

text \<open>
  \<open>cstr_startwith_mul\<close> and \<open>cstr_endwith_mul\<close> try the strings from the last to the first;
  \<open>startslen\<close> may be NULL.  The argument \<open>num\<close> counts down.
\<close>

fun cstr_startwith_mul :: "string \<Rightarrow> int \<Rightarrow> string option list \<Rightarrow> int list option \<Rightarrow> nat \<Rightarrow> int" where
  "cstr_startwith_mul str count starts startslen 0 = -1"
| "cstr_startwith_mul str count starts startslen (Suc num) =
     (case starts ! num of
        None \<Rightarrow> cstr_startwith_mul str count starts startslen num
      | Some s \<Rightarrow>
          (let len = (case startslen of None \<Rightarrow> int (length s) | Some ls \<Rightarrow> ls ! num)
           in if cstr_startwith False (Some str) count (Some s) len then int num
              else cstr_startwith_mul str count starts startslen num))"

fun cstr_endwith_mul :: "string \<Rightarrow> int \<Rightarrow> string option list \<Rightarrow> int list option \<Rightarrow> nat \<Rightarrow> int" where
  "cstr_endwith_mul str count tails endslen 0 = -1"
| "cstr_endwith_mul str count tails endslen (Suc num) =
     (case tails ! num of
        None \<Rightarrow> cstr_endwith_mul str count tails endslen num
      | Some s \<Rightarrow>
          (let len = (case endslen of None \<Rightarrow> int (length s) | Some ls \<Rightarrow> ls ! num)
           in if cstr_endwith False (Some str) count (Some s) len then int num
              else cstr_endwith_mul str count tails endslen num))"

text \<open>\<open>cstr_findstr_in\<close>: \<open>i\<close> counts up over the list that is left.\<close>

fun findstr_loop :: "string option \<Rightarrow> nat \<Rightarrow> bool \<Rightarrow> string option list \<Rightarrow> nat \<Rightarrow> int" where
  "findstr_loop str szcnt caseignore [] i = -1"
| "findstr_loop str szcnt caseignore (dest # dests) i =
     (case (dest, str) of
        (None, None) \<Rightarrow> int i
      | (Some d, Some s) \<Rightarrow>
          (if cstr_length (Some d) (int szcnt + 1) = int szcnt \<and>
              (if caseignore then strncasecmp s d szcnt else strncmp s d szcnt) = 0
           then int i else findstr_loop str szcnt caseignore dests (i + 1))
      | _ \<Rightarrow> findstr_loop str szcnt caseignore dests (i + 1))"

definition cstr_findstr_in :: "string option \<Rightarrow> int \<Rightarrow> string option list \<Rightarrow> bool \<Rightarrow> int" where
  "cstr_findstr_in str count dests caseignore =
     findstr_loop str (nat (if count < 0 then cstr_length str (-1) else count)) caseignore dests 0"

subsection \<open>What the comparisons decide\<close>

lemma code_inj: "code a = code b \<Longrightarrow> a = b"
  by (metis char_of_char)

lemma strcmp_zero [simp]: "strcmp a b = 0 \<longleftrightarrow> a = b"
proof (induction a b rule: strcmp.induct)
  case (4 a as b bs)
  then show ?case using code_inj [of a b] by (cases "code a < code b"; cases "code b < code a"; auto)
qed simp_all

lemma strcmp_sign: "strcmp a b = -1 \<or> strcmp a b = 0 \<or> strcmp a b = 1"
  by (induction a b rule: strcmp.induct) auto

lemma strcmp_antisym: "strcmp a b = - strcmp b a"
  by (induction a b rule: strcmp.induct) auto

lemma strcmp_trans: "strcmp a b \<le> 0 \<Longrightarrow> strcmp b c \<le> 0 \<Longrightarrow> strcmp a c \<le> 0"
proof (induction a b arbitrary: c rule: strcmp.induct)
  case (4 a as b bs)
  show ?case
  proof (cases c)
    case (Cons d ds)
    have le: "code a \<le> code b" "code b \<le> code d" using 4 Cons by (auto split: if_splits)
    show ?thesis
    proof (cases "code a < code d")
      case False
      then have "a = b" "b = d" using le code_inj [of a b] code_inj [of b d] by linarith+
      then show ?thesis using 4 Cons by simp
    qed (use Cons in simp)
  qed (use 4 in simp)
next
  case (3 a as)
  then show ?case by simp
next
  case (2 b bs)
  then show ?case by (cases c) simp_all
next
  case 1
  then show ?case by (cases c) simp_all
qed

lemma mem_eq_iff: "n \<le> length a \<Longrightarrow> n \<le> length b \<Longrightarrow> mem_eq a b n \<longleftrightarrow> take n a = take n b"
  by (auto simp: mem_eq_def chr_at_def list_eq_iff_nth_eq)

section \<open>Copying\<close>

text \<open>\<open>cstr_safecopy\<close>: the result and the destination buffer afterwards.\<close>

definition cstr_safecopy :: "string \<Rightarrow> nat \<Rightarrow> nat \<Rightarrow> string \<Rightarrow> nat \<Rightarrow> int \<times> string" where
  "cstr_safecopy dstbuf dstbufsize dstoffset source sourcelen =
     (if size_wrap (dstoffset + sourcelen) < dstbufsize then
        (1, put_bytes (put_bytes dstbuf dstoffset (take sourcelen source)) (dstoffset + sourcelen) [NUL])
      else
        (let buf1 =
           (if dstoffset < dstbufsize then
              (let cplen = dstbufsize - dstoffset; buf = put_bytes dstbuf dstoffset (take cplen source)
               in if dstbufsize > 3 then put_bytes buf (dstbufsize - 4) ''...'' else buf)
            else dstbuf)
         in (0, put_bytes buf1 (dstbufsize - 1) [NUL])))"

section \<open>Properties\<close>

text \<open>
  C20.  \<open>cstr_replace_new\<close> with a non-empty pattern returns, for any replacement, longer or shorter
  (the size computation wraps around in \<open>size_t\<close> for a shorter one and still comes out right):
  nothing when the pattern does not occur, else the original with all leftmost non-overlapping
  occurrences replaced, in an allocation that fits it exactly with its NUL, and its length.  With an
  empty pattern it never returns.
\<close>

theorem cstr_replace_new_spec:
  assumes "pattern \<noteq> []" "length (replace_all original pattern replacement) < 2147483648"
  shows "cstr_replace_new original pattern replacement = Some
      (if sublist pattern original
       then (int (length (replace_all original pattern replacement)),
             Some (length (replace_all original pattern replacement) + 1, replace_all original pattern replacement))
       else (0, None))
    \<and> cstr_replace_new original [] replacement = None"
proof -
  let ?r = "replace_all original pattern replacement"
  obtain k where k: "count_loop original pattern 0 = Some k" "k = 0 \<longleftrightarrow> \<not> sublist pattern original"
    "int (length ?r) = int (length original) + int k * (int (length replacement) - int (length pattern))"
    using count_loop_eq [OF assms(1), of original 0 replacement] by auto
  have "replaced_len (length original) k (length replacement) (length pattern) = length ?r"
    unfolding replaced_len_def k(3) [symmetric] using assms(2) by simp
  then show ?thesis using k(1,2) assms
    by (simp add: cstr_replace_new_def copy_loop_eq count_loop_empty Let_def)
qed

lemma cstr_replace_new_spec_witness:
  "cstr_replace_new ''a%%b'' ''%'' ''xyz'' = Some (8, Some (9, ''axyzxyzb''))"
proof -
  have r: "replace_all ''a%%b'' ''%'' ''xyz'' = ''axyzxyzb''" by (simp add: replace_all.simps)
  have "sublist ''%'' ''a%%b''" unfolding sublist_def by (intro exI [of _ "''a''"] exI [of _ "''%b''"]) simp
  with r cstr_replace_new_spec [of "''%''" "''a%%b''" "''xyz''"] show ?thesis by simp
qed

text \<open>
  \<open>cstr_split_substr\<close> loses nothing: when fewer than \<open>maxsubs\<close> parts come out, joining them with
  the separator gives the string back, and no part contains the separator.
\<close>

theorem cstr_split_substr_roundtrip:
  assumes "length (cstr_split_substr (Some s) sep (length sep) maxsubs) < maxsubs"
  shows "join sep (cstr_split_substr (Some s) sep (length sep) maxsubs) = s
    \<and> (\<forall>x \<in> set (cstr_split_substr (Some s) sep (length sep) maxsubs). \<not> sublist sep x)"
  using split_substr_join [OF assms] split_substr_clean [OF assms] by blast

lemma cstr_split_substr_roundtrip_witness:
  "join ''::'' (cstr_split_substr (Some ''a::b'') ''::'' 2 9) = ''a::b''"
proof -
  have "length (cstr_split_substr (Some ''a::b'') ''::'' (length ''::'') 9) < 9"
    by (simp add: strstr.simps eval_nat_numeral)
  from cstr_split_substr_roundtrip [OF this] show ?thesis by (simp add: numeral_2_eq_2)
qed

lemma seg_no_sep:
  assumes "\<forall>c. P c \<longrightarrow> isspace c" "seg \<in> set (segs P s)" "c \<in> set (trim seg)"
  shows "\<not> P c"
  using assms(2)
proof (induction s rule: length_induct)
  case (1 s)
  show ?case
  proof (cases s)
    case (Cons x t)
    show ?thesis
    proof (cases "seg = x # takeWhile (\<lambda>y. \<not> P y) t")
      case True
      have "c \<in> set (dropWhile isspace seg)"
        using assms(3) rdrop_while_split [of "dropWhile isspace seg" isspace] by (metis Un_iff set_append)
      then show ?thesis using assms(1) True
        by (cases "isspace x") (auto dest: set_dropWhileD set_takeWhileD split: if_splits)
    next
      case False
      then have "seg \<in> set (segs P (dropWhile (\<lambda>y. \<not> P y) t))" using 1(2) Cons by simp
      moreover have "length (dropWhile (\<lambda>y. \<not> P y) t) < length s"
        using Cons length_dropWhile_le [of "\<lambda>y. \<not> P y" t] by simp
      ultimately show ?thesis using 1(1) by blast
    qed
  qed (use 1 in simp)
qed

text \<open>
  What \<open>cstr_split_multi_chrs\<close> returns, for every string and separator set: at most
  \<open>maxsubs\<close> parts, trimmed and not empty, cut before each separator.  The parts are free of
  separators when all separators are white space; but a separator that is not white space stays at
  the front of the part it introduces, so that \<open>a,b\<close> split at a comma gives \<open>a\<close> and \<open>,b\<close>.
\<close>

theorem cstr_split_multi_chrs_spec:
  "cstr_split_multi_chrs str (length str) sepchrs maxsubs = take maxsubs (words (\<lambda>c. c \<in> set sepchrs) str)
   \<and> ((\<forall>c \<in> set sepchrs. isspace c) \<longrightarrow>
       (\<forall>w \<in> set (cstr_split_multi_chrs str (length str) sepchrs maxsubs). set w \<inter> set sepchrs = {}))
   \<and> (c \<in> set sepchrs \<and> \<not> isspace c \<and> a \<noteq> [] \<and> (\<forall>x \<in> set (a @ b). x \<notin> set sepchrs \<and> \<not> isspace x) \<longrightarrow>
       cstr_split_multi_chrs (a @ c # b) (length (a @ c # b)) sepchrs 2 = [a, c # b])"
proof -
  let ?P = "\<lambda>c. c \<in> set sepchrs"
  have "set w \<inter> set sepchrs = {}"
    if sp: "\<forall>c \<in> set sepchrs. isspace c" and w: "w \<in> set (take maxsubs (words ?P str))" for w
  proof -
    obtain seg where seg: "w = trim seg" "seg \<in> set (segs ?P str)"
      using in_set_takeD [OF w] by (auto simp: words_def)
    have "x \<notin> set sepchrs" if "x \<in> set w" for x
      using seg_no_sep [of ?P seg str x] sp seg that by simp
    then show ?thesis by blast
  qed
  moreover have "take 2 (words ?P (a @ c # b)) = [a, c # b]"
    if c: "c \<in> set sepchrs" "\<not> isspace c" "a \<noteq> []" "\<forall>x \<in> set (a @ b). x \<notin> set sepchrs \<and> \<not> isspace x"
  proof -
    obtain x t where a: "a = x # t" using c(3) by (cases a) auto
    have t: "\<not> ?P y" if "y \<in> set t" for y using c(4) that by (simp add: a)
    have b: "\<not> ?P y" if "y \<in> set b" for y using c(4) that by simp
    have "takeWhile (\<lambda>x. \<not> ?P x) (t @ c # b) = t" "dropWhile (\<lambda>x. \<not> ?P x) (t @ c # b) = c # b"
      using c(1) t by (simp_all add: takeWhile_append2 dropWhile_append2)
    moreover have "takeWhile (\<lambda>x. \<not> ?P x) b = b" using b by (simp add: takeWhile_eq_all_conv)
    moreover have "segs ?P (dropWhile (\<lambda>x. \<not> ?P x) b) = []" using b by (simp add: dropWhile_eq_Nil_conv [THEN iffD2])
    ultimately have "segs ?P (a @ c # b) = [a, c # b]" by (simp add: a)
    moreover have "trim s = s" if ns: "\<forall>x \<in> set s. \<not> isspace x" for s
    proof -
      have "dropWhile isspace s = s" using ns by (cases s) simp_all
      moreover have "rdrop_while isspace s = s" using ns by (cases s rule: rev_cases) simp_all
      ultimately show ?thesis by simp
    qed
    ultimately show ?thesis using c by (simp add: words_def)
  qed
  ultimately show ?thesis unfolding split_multi_eq by blast
qed

lemma cstr_split_multi_chrs_spec_witness:
  "cstr_split_multi_chrs ''a b'' (length ''a b'') '' '' 9 = [''a'', ''b'']
   \<and> cstr_split_multi_chrs ''a,b'' (length ''a,b'') '' ,;|'' 2 = [''a'', '',b'']"
proof -
  have "words (\<lambda>c. c \<in> set '' '') ''a b'' = [''a'', ''b'']"
    by (simp add: words_def rdrop_while_def isspace_def)
  moreover have "cstr_split_multi_chrs ''a,b'' (length ''a,b'') '' ,;|'' 2 = [''a'', '',b'']"
    using cstr_split_multi_chrs_spec [of "''a,b''" "'' ,;|''" 2 "CHR '',''" "''a''" "''b''", THEN conjunct2, THEN conjunct2]
    by (simp add: isspace_def)
  ultimately show ?thesis using cstr_split_multi_chrs_spec [of "''a b''" "'' ''" 9] by simp
qed

end
