(* ===== verification/CNum.thy ===== *)
theory CNum
  imports CStrScan
begin

text \<open>
  Numbers as text: the decimal conversions of \<open>printf\<close>, \<open>atoi\<close>, \<open>strtoll\<close> and \<open>strtoull\<close> as far
  as the sources use them, and the number functions of \<open>source/common/cstrbuf.h\<close>
  (\<open>cstr_isnumeric\<close>, \<open>cstr_isdigit\<close>, \<open>cstr_to_sb8\<close>, \<open>cstr_to_ub8\<close>).
\<close>

section \<open>Printing\<close>

definition digit :: "nat \<Rightarrow> char" where
  "digit n = char_of (48 + n mod 10)"

fun dec :: "nat \<Rightarrow> string" where
  "dec n = (if n < 10 then [digit n] else dec (n div 10) @ [digit n])"

declare dec.simps [simp del]

text \<open>\<open>%0wd\<close> (\<open>%d\<close> for width 0), and what \<open>snprintf_chkd_V1\<close> leaves in a buffer of \<open>n > 0\<close> bytes.\<close>

definition fmt_d :: "nat \<Rightarrow> int \<Rightarrow> string" where
  "fmt_d w n = (let s = dec (nat \<bar>n\<bar>) in
     if n < 0 then ''-'' @ replicate (w - 1 - length s) (CHR ''0'') @ s
     else replicate (w - length s) (CHR ''0'') @ s)"

definition snprintf_chkd :: "nat \<Rightarrow> string \<Rightarrow> string" where
  "snprintf_chkd n s = take (n - 1) s"

section \<open>Reading\<close>

definition digit_val :: "char \<Rightarrow> nat" where
  "digit_val c = (if isdigit c then code c - 48
     else if 97 \<le> code c \<and> code c \<le> 122 then code c - 87
     else if 65 \<le> code c \<and> code c \<le> 90 then code c - 55 else 99)"

definition number :: "nat \<Rightarrow> string \<Rightarrow> nat" where
  "number base ds = foldl (\<lambda>n c. n * base + digit_val c) 0 ds"

text \<open>
  The common part of the \<open>strto\<close> functions for a base from 2 to 36: white space, a sign, \<open>0x\<close> in
  base 16, digits.  \<open>None\<close> when there are no digits (\<open>endptr == str\<close>), else the sign and magnitude.
\<close>

definition strto_scan :: "nat \<Rightarrow> string \<Rightarrow> (bool \<times> nat) option" where
  "strto_scan base str =
     (let s = dropWhile isspace str;
          neg = (s \<noteq> [] \<and> hd s = CHR ''-'');
          t = (if s \<noteq> [] \<and> (hd s = CHR ''-'' \<or> hd s = CHR ''+'') then tl s else s);
          u = (if base = 16 \<and> (take 2 t = ''0x'' \<or> take 2 t = ''0X'') \<and> length t > 2 \<and> digit_val (t ! 2) < 16
               then drop 2 t else t);
          ds = takeWhile (\<lambda>c. digit_val c < base) u
      in if ds = [] then None else Some (neg, number base ds))"

text \<open>The value and whether \<open>errno\<close> was set (out of range).\<close>

definition strtoll :: "nat \<Rightarrow> string \<Rightarrow> int \<times> bool" where
  "strtoll base str =
     (case strto_scan base str of None \<Rightarrow> (0, False)
      | Some (neg, n) \<Rightarrow>
          (let v = (if neg then - int n else int n)
           in if v < -9223372036854775808 then (-9223372036854775808, True)
              else if v > 9223372036854775807 then (9223372036854775807, True) else (v, False)))"

definition strtoull :: "nat \<Rightarrow> string \<Rightarrow> nat \<times> bool" where
  "strtoull base str =
     (case strto_scan base str of None \<Rightarrow> (0, False)
      | Some (neg, n) \<Rightarrow>
          if n > 18446744073709551615 then (18446744073709551615, True)
          else if neg then (nat ((- int n) mod 18446744073709551616), False) else (n, False))"

definition atoi :: "string \<Rightarrow> int" where
  "atoi str = to_int32 (fst (strtoll 10 str))"

text \<open>
  The number functions of \<open>cstrbuf.h\<close>.  The text read is \<open>str\<close> itself when the size is invalid or
  \<open>str[slen]\<close> is the NUL, else its first \<open>slen\<close> bytes.
\<close>

definition num_text :: "string \<Rightarrow> nat \<Rightarrow> string" where
  "num_text str slen =
     (if slen = 18446744073709551615 \<or> chr_at str slen = NUL then str else take slen str)"

definition cstr_to_sb8 :: "nat \<Rightarrow> string option \<Rightarrow> nat \<Rightarrow> int \<times> int" where
  "cstr_to_sb8 base str slen =
     (case str of
        None \<Rightarrow> (0, 0)
      | Some s \<Rightarrow>
          if slen = 0 then (0, 0)
          else
            (let sbuf = num_text s slen; (val, errno) = strtoll base sbuf
             in if strto_scan base sbuf = None then (-1, val)
                else if errno then (-1, val) else (1, val)))"

definition cstr_to_ub8 :: "nat \<Rightarrow> string option \<Rightarrow> nat \<Rightarrow> int \<times> nat" where
  "cstr_to_ub8 base str slen =
     (case str of
        None \<Rightarrow> (0, 0)
      | Some s \<Rightarrow>
          if slen = 0 then (0, 0)
          else
            (let sbuf = num_text s slen; (val, errno) = strtoull base sbuf
             in if strto_scan base sbuf = None then (-1, val)
                else if errno then (-1, val) else (1, val)))"

text \<open>\<open>cstr_isdigit\<close> looks at the \<open>len\<close> characters from the last to the first.\<close>

fun cstr_isdigit :: "string \<Rightarrow> nat \<Rightarrow> bool" where
  "cstr_isdigit str 0 = True"
| "cstr_isdigit str (Suc len) = (isdigit (chr_at str len) \<and> cstr_isdigit str len)"

fun isnumeric_loop :: "string \<Rightarrow> nat \<Rightarrow> bool" where
  "isnumeric_loop [] dots = True"
| "isnumeric_loop (c # s) dots =
     (if \<not> isdigit c then
        if c = CHR ''.'' then (if dots + 1 > 1 then False else isnumeric_loop s (dots + 1))
        else False
      else isnumeric_loop s dots)"

definition cstr_isnumeric :: "string \<Rightarrow> int \<Rightarrow> bool" where
  "cstr_isnumeric numeric len =
     (let str = cstr_LRtrim_whitespace numeric; len = cstr_length (Some str) len
      in if len < 1 \<or> len > 40 then False
         else isnumeric_loop
           (drop (if chr_at str 0 = CHR ''+'' \<or> chr_at str 0 = CHR ''-'' then 1 else 0) (take (nat len) str)) 0)"

section \<open>Facts about digits\<close>

lemma code_digit [simp]: "code (digit n) = 48 + n mod 10"
  by (simp add: digit_def)

lemma isdigit_digit [simp]: "isdigit (digit n)"
  by (simp add: isdigit_def)

lemma isspace_digit [simp]: "\<not> isspace (digit n)"
  by (simp add: isspace_def)

lemma digit_val_digit [simp]: "digit_val (digit n) = n mod 10"
  by (simp add: digit_val_def)

lemma digit_neq:
  assumes "\<not> isdigit c"
  shows "digit n \<noteq> c" "c \<noteq> digit n"
  using assms isdigit_digit by metis+

lemma digit_val_less10 [simp]: "digit_val c < 10 \<longleftrightarrow> isdigit c"
  by (auto simp: digit_val_def isdigit_def)

lemma length_dec: "0 < length (dec n)"
  by (subst dec.simps) simp

lemma dec_digits: "c \<in> set (dec n) \<Longrightarrow> isdigit c"
proof (induction n rule: dec.induct)
  case (1 n)
  then show ?case by (subst (asm) (2) dec.simps) (auto split: if_splits)
qed

lemma number_snoc: "number base (ds @ [c]) = number base ds * base + digit_val c"
  by (simp add: number_def)

lemma number_dec [simp]: "number 10 (dec n) = n"
proof (induction n rule: dec.induct)
  case (1 n)
  show ?case
  proof (cases "n < 10")
    case True
    then show ?thesis by (subst dec.simps) (simp add: number_def)
  next
    case False
    then show ?thesis using 1 by (subst dec.simps) (simp add: number_snoc)
  qed
qed

lemma number_zeros: "number 10 (replicate k (CHR ''0'') @ ds) = number 10 ds"
proof -
  have "foldl (\<lambda>n c. n * 10 + digit_val c) 0 (replicate k (CHR ''0'')) = 0"
    by (induction k) (simp_all add: digit_val_def isdigit_def)
  then show ?thesis by (simp add: number_def)
qed

lemma strto_scan_digits:
  assumes "ds \<noteq> []" "\<forall>c \<in> set ds. isdigit c"
  shows "strto_scan 10 ds = Some (False, number 10 ds)"
proof -
  obtain c r where ds: "ds = c # r" using assms(1) by (cases ds) auto
  have "\<not> isspace c" "c \<noteq> CHR ''-''" "c \<noteq> CHR ''+''"
    using assms(2) ds by (auto simp: isdigit_def isspace_def)
  moreover have "takeWhile (\<lambda>c. digit_val c < 10) ds = ds" using assms(2) by (simp add: takeWhile_eq_all_conv)
  ultimately show ?thesis using ds by (simp add: strto_scan_def Let_def)
qed

lemma isdigit_0: "isdigit (CHR ''0'')"
  by (simp add: isdigit_def)

lemma atoi_digits:
  assumes "ds \<noteq> []" "\<forall>c \<in> set ds. isdigit c" "number 10 ds < 2147483648"
  shows "atoi ds = int (number 10 ds)"
  using assms by (simp add: atoi_def strtoll_def strto_scan_digits)

text \<open>Signed numbers: a minus sign in front of the digits.\<close>

lemma strto_scan_minus:
  assumes "ds \<noteq> []" "\<forall>c \<in> set ds. isdigit c"
  shows "strto_scan 10 (CHR ''-'' # ds) = Some (True, number 10 ds)"
proof -
  have tw: "takeWhile isdigit ds = ds" using assms(2) by (simp add: takeWhile_eq_all_conv)
  show ?thesis using assms(1) by (simp add: strto_scan_def Let_def isspace_def tw)
qed

lemma c_string_dec: "c_string (dec n)"
  using dec_digits [of NUL n] by (auto simp: c_string_def NUL_def isdigit_def)

lemma num_text_all [simp]: "num_text s (length s) = s"
  by (simp add: num_text_def chr_at_def)

lemma fmt_d_0: "fmt_d 0 i = (if i < 0 then CHR ''-'' # dec (nat (- i)) else dec (nat i))"
  by (simp add: fmt_d_def Let_def)

text \<open>The language of \<open>cstr_isnumeric\<close>.\<close>

lemma isnumeric_loop_iff:
  "isnumeric_loop s dots \<longleftrightarrow> (\<forall>c \<in> set s. isdigit c) \<or>
     dots = 0 \<and> (\<exists>a b. s = a @ ''.'' @ b \<and> (\<forall>c \<in> set (a @ b). isdigit c))"
proof (induction s arbitrary: dots)
  case (Cons c s)
  have nd: "\<not> isdigit (CHR ''.'')" by (simp add: isdigit_def)
  show ?case
  proof (cases "isdigit c")
    case True
    have "(\<exists>a b. c # s = a @ ''.'' @ b \<and> (\<forall>c \<in> set (a @ b). isdigit c)) \<longleftrightarrow>
        (\<exists>a b. s = a @ ''.'' @ b \<and> (\<forall>c \<in> set (a @ b). isdigit c))" (is "?l \<longleftrightarrow> ?r")
    proof
      assume ?l
      then obtain a b where ab: "c # s = a @ ''.'' @ b" "\<forall>c \<in> set (a @ b). isdigit c" by blast
      then obtain a' where "a = c # a'" using True nd by (cases a) auto
      with ab show ?r by auto
    next
      assume ?r
      then obtain a b where "s = a @ ''.'' @ b" "\<forall>c \<in> set (a @ b). isdigit c" by blast
      then show ?l using True by (intro exI [of _ "c # a"] exI [of _ b]) simp
    qed
    then show ?thesis using True Cons by simp
  next
    case False
    have "(\<exists>a b. c # s = a @ ''.'' @ b \<and> (\<forall>c \<in> set (a @ b). isdigit c)) \<longleftrightarrow>
        c = CHR ''.'' \<and> (\<forall>c \<in> set s. isdigit c)" (is "?l \<longleftrightarrow> ?r")
    proof
      assume ?l
      then obtain a b where ab: "c # s = a @ ''.'' @ b" "\<forall>c \<in> set (a @ b). isdigit c" by blast
      then have "a = []" using False by (cases a) auto
      with ab show ?r by simp
    next
      assume ?r
      then show ?l by (intro exI [of _ "[]"] exI [of _ s]) simp
    qed
    then show ?thesis using False Cons [of 1] by auto
  qed
qed simp

section \<open>Properties\<close>

text \<open>
  Printing a number in decimal and reading it back is the identity on the whole range of the
  type, and a number beyond the range is reported, not wrapped: \<open>cstr_to_ub8\<close> and \<open>cstr_to_sb8\<close>
  in base 10, on the text of the number alone and on the text followed by anything.
\<close>

theorem cstr_number_roundtrip:
  assumes "n \<le> 18446744073709551615" "-9223372036854775808 \<le> i" "i \<le> 9223372036854775807"
    "18446744073709551616 \<le> big" "length (dec n) < 18446744073709551615"
  shows "cstr_to_ub8 10 (Some (dec n)) (length (dec n)) = (1, n)
    \<and> (c \<noteq> NUL \<longrightarrow> cstr_to_ub8 10 (Some (dec n @ c # rest)) (length (dec n)) = (1, n))
    \<and> cstr_to_sb8 10 (Some (fmt_d 0 i)) (length (fmt_d 0 i)) = (1, i)
    \<and> cstr_to_ub8 10 (Some (dec big)) (length (dec big)) = (-1, 18446744073709551615)"
proof -
  have d: "dec k \<noteq> []" "\<forall>c \<in> set (dec k). isdigit c" for k using length_dec [of k] dec_digits by auto
  have scan: "strto_scan 10 (dec k) = Some (False, k)" for k using strto_scan_digits [OF d] by simp
  have cut: "num_text (dec n @ c # rest) (length (dec n)) = dec n" if "c \<noteq> NUL"
    using that assms(5) by (simp add: num_text_def chr_at_def nth_append)
  have "strto_scan 10 (fmt_d 0 i) = Some (i < 0, nat \<bar>i\<bar>)"
    using scan strto_scan_minus [OF d] by (simp add: fmt_d_0)
  then have "strtoll 10 (fmt_d 0 i) = (i, False)" using assms(2,3) by (simp add: strtoll_def)
  moreover have "fmt_d 0 i \<noteq> []" using d by (simp add: fmt_d_0)
  ultimately show ?thesis using scan cut d(1) assms \<open>strto_scan 10 (fmt_d 0 i) = _\<close>
    by (simp add: cstr_to_ub8_def cstr_to_sb8_def strtoull_def Let_def)
qed

lemma cstr_number_roundtrip_witness:
  "cstr_to_ub8 10 (Some ''42 x'') 2 = (1, 42) \<and> cstr_to_sb8 10 (Some ''-7'') 2 = (1, -7)"
proof -
  have d: "dec 42 = ''42''" "fmt_d 0 (-7) = ''-7''"
    by code_simp+
  have "CHR '' '' \<noteq> NUL" by (simp add: NUL_def)
  with cstr_number_roundtrip [of 42 "-7" 18446744073709551616 "CHR '' ''" "''x''"] show ?thesis
    by (simp add: d numeral_2_eq_2)
qed

text \<open>
  The texts \<open>cstr_isnumeric\<close> accepts: after trimming white space, 1 to 40 characters made of an
  optional sign and decimal digits with at most one point among them.  Nothing requires a digit: a
  lone sign and a lone point are accepted.
\<close>

theorem cstr_isnumeric_language:
  "(cstr_isnumeric numeric (-1) \<longleftrightarrow>
     (let t = trim numeric in 1 \<le> length t \<and> length t \<le> 40 \<and>
        (\<exists>sgn body. t = sgn @ body \<and> sgn \<in> {[], ''+'', ''-''} \<and>
           (list_all isdigit body \<or> (\<exists>a b. body = a @ ''.'' @ b \<and> list_all isdigit (a @ b))))))
   \<and> cstr_isnumeric ''+'' (-1) \<and> cstr_isnumeric ''.'' (-1)"
proof -
  have lang: "cstr_isnumeric s (-1) \<longleftrightarrow>
     (let t = trim s in 1 \<le> length t \<and> length t \<le> 40 \<and>
        (\<exists>sgn body. t = sgn @ body \<and> sgn \<in> {[], ''+'', ''-''} \<and> isnumeric_loop body 0))" for s
  proof (cases "trim s")
    case Nil
    then show ?thesis by (simp add: cstr_isnumeric_def LRtrim_whitespace_eq cstr_length_def)
  next
    case (Cons c r)
    have sg: "\<not> isdigit (CHR ''+'')" "\<not> isdigit (CHR ''-'')" by (simp_all add: isdigit_def)
    have "(\<exists>sgn body. t = sgn @ body \<and> sgn \<in> {[], ''+'', ''-''} \<and> P body) \<longleftrightarrow>
        P t \<or> (\<exists>u. (t = CHR ''+'' # u \<or> t = CHR ''-'' # u) \<and> P u)" (is "?l \<longleftrightarrow> ?r")
      for t and P :: "string \<Rightarrow> bool"
    proof
      assume ?r
      then consider "P t" | u where "t = ''+'' @ u" "P u" | u where "t = ''-'' @ u" "P u" by auto
      then show ?l by cases blast+
    qed auto
    then have "(\<exists>sgn body. c # r = sgn @ body \<and> sgn \<in> {[], ''+'', ''-''} \<and> isnumeric_loop body 0) \<longleftrightarrow>
        isnumeric_loop (if c = CHR ''+'' \<or> c = CHR ''-'' then r else c # r) 0"
      using sg by auto
    then show ?thesis using Cons
      by (simp add: cstr_isnumeric_def LRtrim_whitespace_eq cstr_length_def chr_at_def Let_def)
  qed
  have "cstr_isnumeric ''+'' (-1)" "cstr_isnumeric ''.'' (-1)"
    by (simp_all add: cstr_isnumeric_def LRtrim_whitespace_eq cstr_length_def chr_at_def isspace_def isdigit_def
        rdrop_while_def)
  then show ?thesis unfolding lang isnumeric_loop_iff list_all_iff by simp
qed

end
