(* ===== verification/CDate.thy ===== *)
theory CDate
  imports CNum
begin

text \<open>
  Dates of \<open>source/common/cstrbuf.h\<close>: printing a \<open>cstr_datetime_t\<close> into its 30-byte buffer, the
  validity test, and the two conversions between a time stamp and text.  \<open>mktime\<close> and
  \<open>localtime_r\<close> depend on the time zone of the machine and are parameters.
\<close>

section \<open>Printing\<close>

record cstr_datetime_t =
  dt_year :: int
  dt_month :: int
  dt_day :: int
  dt_hour :: int
  dt_minute :: int
  dt_second :: int
  dt_millisecond :: int
  dt_timezone :: int

text \<open>
  \<open>snprintf_chkd_V1(buf + off, n, ...)\<close> whose untruncated output is \<open>s\<close>: the returned length and
  the whole buffer afterwards (for \<open>n = 0\<close> it stores the NUL at \<open>buf + off - 1\<close> and returns -1).
\<close>

definition snprintf_buf :: "string \<Rightarrow> nat \<Rightarrow> nat \<Rightarrow> string \<Rightarrow> int \<times> string" where
  "snprintf_buf buf off n s =
     (if n \<le> length s then
        (int n - 1, if n = 0 then buf[off - 1 := NUL] else put_bytes buf off (take (n - 1) s @ [NUL]))
      else (int (length s), put_bytes buf off (s @ [NUL])))"

definition CSTR_DATETIME_SIZE_MAX :: nat where
  "CSTR_DATETIME_SIZE_MAX = 30"

definition date_fields :: "cstr_datetime_t \<Rightarrow> string" where
  "date_fields dt = fmt_d 4 (dt_year dt) @ ''-'' @ fmt_d 2 (dt_month dt) @ ''-'' @ fmt_d 2 (dt_day dt)"

definition time_fields :: "cstr_datetime_t \<Rightarrow> string" where
  "time_fields dt = fmt_d 2 (dt_hour dt) @ '':'' @ fmt_d 2 (dt_minute dt) @ '':'' @ fmt_d 2 (dt_second dt)"

definition tz_fields :: "int \<Rightarrow> string" where
  "tz_fields tz = (if tz < 0 then ''W'' @ fmt_d 2 ((- tz) sdiv 100) @ '':'' @ fmt_d 2 ((- tz) smod 100)
     else ''+'' @ fmt_d 2 (tz sdiv 100) @ '':'' @ fmt_d 2 (tz smod 100))"

text \<open>
  \<open>pos\<close> is the sum of the lengths so far (\<open>dlen\<close>, \<open>dlen + tlen\<close>, \<open>dlen + tlen + mlen\<close>): each
  call writes at \<open>outfmt + pos\<close> with the room that is left.
\<close>

definition print_at :: "int \<times> string \<Rightarrow> string \<Rightarrow> int \<times> string" where
  "print_at st s = (case st of (pos, buf) \<Rightarrow>
     (case snprintf_buf buf (nat pos) (nat (int CSTR_DATETIME_SIZE_MAX - pos)) s of (l, buf') \<Rightarrow> (pos + l, buf')))"

definition print_space :: "int \<times> string \<Rightarrow> int \<times> string" where
  "print_space st = (case st of (pos, buf) \<Rightarrow>
     if pos \<noteq> 0 then (pos + 1, buf[nat pos := CHR '' '']) else (pos, buf))"

definition cstr_datetime_print :: "cstr_datetime_t \<Rightarrow> string \<Rightarrow> string" where
  "cstr_datetime_print dt outfmt =
     (let st0 = (0, outfmt[0 := NUL]);
          st1 = (if dt_year dt \<noteq> -1 then print_at st0 (date_fields dt) else st0);
          st2 = (if dt_hour dt \<noteq> -1 then print_at (print_space st1) (time_fields dt) else st1);
          st3 = (if dt_millisecond dt \<noteq> -1 then print_at st2 (''.'' @ fmt_d 3 (dt_millisecond dt)) else st2);
          st4 = (if dt_timezone dt \<noteq> -1 then print_at st3 (tz_fields (dt_timezone dt)) else st3)
      in snd st4)"

text \<open>The C string at the start of a buffer.\<close>

definition buf_string :: "string \<Rightarrow> string" where
  "buf_string buf = takeWhile (\<lambda>c. c \<noteq> NUL) buf"

section \<open>Validity\<close>

definition TM_YEAR_IS_LEAP :: "int \<Rightarrow> bool" where
  "TM_YEAR_IS_LEAP year =
     (if year smod 4 \<noteq> 0 then False else if year smod 100 \<noteq> 0 then True
      else if year smod 400 \<noteq> 0 then False else True)"

definition time_is_valid :: "int \<Rightarrow> int \<Rightarrow> int \<Rightarrow> int \<Rightarrow> int \<Rightarrow> int \<Rightarrow> bool" where
  "time_is_valid year mon day hour minu sec =
     (if year < 1900 \<or> year > 9999 \<or> mon \<le> 0 \<or> mon > 12 \<or> day \<le> 0 \<or> day > 31 \<or> hour < 0 \<or> hour > 24
         \<or> minu < 0 \<or> minu > 59 \<or> sec < 0 \<or> sec > 60 then False
      else if mon = 1 \<or> mon = 3 \<or> mon = 5 \<or> mon = 7 \<or> mon = 8 \<or> mon = 10 \<or> mon = 12 then True
      else if mon = 4 \<or> mon = 6 \<or> mon = 9 \<or> mon = 11 then (if day < 31 then True else False)
      else (if day > 29 then False else if day < 29 then True else TM_YEAR_IS_LEAP year))"

section \<open>Parsing\<close>

definition strchr :: "string \<Rightarrow> char \<Rightarrow> nat option" where
  "strchr s c = find_loop (\<lambda>p. p = c) s 0 (length s)"

definition strrchr :: "string \<Rightarrow> char \<Rightarrow> nat option" where
  "strrchr s c = rfind_loop s c (length s)"

definition cstr_parse_timezone :: "string \<Rightarrow> int" where
  "cstr_parse_timezone tz =
     (let sign = (if chr_at tz 0 = CHR ''+'' \<or> chr_at tz 0 = CHR ''E'' then 1
                  else if chr_at tz 0 = CHR ''-'' \<or> chr_at tz 0 = CHR ''W'' then -1 else (0::int))
      in if sign = 0 then -1
         else if isdigit (chr_at tz 1) \<and> isdigit (chr_at tz 2) \<and> (chr_at tz 3 = CHR '':'' \<or> chr_at tz 3 = CHR ''.'')
           \<and> isdigit (chr_at tz 4) \<and> isdigit (chr_at tz 5) \<and> chr_at tz 6 = NUL then
           (let h = atoi [chr_at tz 1, chr_at tz 2]; mi = atoi [chr_at tz 4, chr_at tz 5]
            in if h > 23 then -1 else if mi > 59 then -1 else (h * 100 + mi) * sign)
         else -1)"

text \<open>The position of the time zone in the text, if there is one.\<close>

definition find_timezone :: "string \<Rightarrow> nat option" where
  "find_timezone timestr =
     (case strchr timestr (CHR ''+'') of Some k \<Rightarrow> Some k
      | None \<Rightarrow>
        (case strchr timestr (CHR ''E'') of Some k \<Rightarrow> Some k
         | None \<Rightarrow>
           (case strchr timestr (CHR ''W'') of Some k \<Rightarrow> Some k
            | None \<Rightarrow>
              (case strrchr timestr (CHR ''-'') of None \<Rightarrow> None
               | Some k \<Rightarrow>
                   if chr_at timestr (k + 1) \<noteq> NUL \<and> chr_at timestr (k + 2) \<noteq> NUL \<and>
                     (chr_at timestr (k + 3) = CHR '':'' \<or> chr_at timestr (k + 3) = CHR ''.'')
                   then Some k else None))))"

text \<open>
  Two equal separators at fixed places, three apart: \<open>2019-12-22\<close> and \<open>12:36:59\<close>.  The three parts,
  the last one up to the end of the string.
\<close>

definition split_fields :: "string \<Rightarrow> char \<Rightarrow> nat \<Rightarrow> (string \<times> string \<times> string) option" where
  "split_fields str c k =
     (case (strchr str c, strrchr str c) of
        (Some a, Some b) \<Rightarrow>
          if a = k \<and> int b - int a = 3
          then Some (take k str, take 2 (drop (a + 1) (take b str)), drop (b + 1) str) else None
      | _ \<Rightarrow> None)"

text \<open>Year, month, day, hour, minute, second, millisecond; then the flags \<open>HMS\<close> and \<open>MMM\<close>.\<close>

type_synonym stamp_fields = "string list \<times> bool \<times> bool"

definition parse_fields :: "string \<Rightarrow> int \<Rightarrow> stamp_fields option" where
  "parse_fields str len =
     (if len = 10 then
        (case split_fields str (CHR ''-'') 4 of None \<Rightarrow> None
         | Some (y, mo, d) \<Rightarrow> Some ([y, mo, take 2 d, ''00'', ''00'', ''00'', ''000''], False, False))
      else if len = 19 \<or> len = 23 then
        (case strchr str (CHR '' '') of
           None \<Rightarrow> None
         | Some a \<Rightarrow>
             if a \<noteq> 10 then None
             else
               (case split_fields (take a str) (CHR ''-'') 4 of None \<Rightarrow> None
                | Some (y, mo, d) \<Rightarrow>
                    (case split_fields (drop (a + 1) str) (CHR '':'') 2 of None \<Rightarrow> None
                     | Some (h, mi, se) \<Rightarrow>
                         if len = 19 then Some ([y, mo, take 2 d, h, mi, take 2 se, ''000''], True, False)
                         else
                           (case strchr se (CHR ''.'') of None \<Rightarrow> None
                            | Some dot \<Rightarrow>
                                if dot \<noteq> 2 then None
                                else
                                  (let ms = take 3 (drop (dot + 1) se)
                                   in Some ([y, mo, take 2 d, h, mi, take 2 (take dot se),
                                             ms @ replicate (3 - length ms) (CHR ''0'')], True, True))))))
      else None)"

text \<open>The fields of \<open>struct tm\<close> that the code fills: years since 1900 and months from 0.\<close>

record tm =
  tm_year :: int
  tm_mon :: int
  tm_mday :: int
  tm_hour :: int
  tm_min :: int
  tm_sec :: int

datatype parse_result = Parse_Error | Parse_Crash | Parsed nat "cstr_datetime_t option"

definition parsed_datetime :: "string list \<Rightarrow> bool \<Rightarrow> bool \<Rightarrow> int \<Rightarrow> cstr_datetime_t" where
  "parsed_datetime f HMS MMM tz =
     \<lparr> dt_year = atoi (f ! 0), dt_month = atoi (f ! 1), dt_day = atoi (f ! 2),
       dt_hour = (if HMS then atoi (f ! 3) else -1), dt_minute = (if HMS then atoi (f ! 4) else 0),
       dt_second = (if HMS then atoi (f ! 5) else 0), dt_millisecond = (if MMM then atoi (f ! 6) else -1),
       dt_timezone = tz \<rparr>"

text \<open>
  \<open>cstr_parse_timestamp\<close>; \<open>hasout\<close> says that \<open>outdt\<close> is not NULL.  \<open>Parse_Error\<close> is the result
  \<open>(ub8) -1\<close>; \<open>Parse_Crash\<close> is the store through a NULL \<open>outdt\<close> when the text has no time or no
  milliseconds.
\<close>

definition cstr_parse_timestamp :: "(tm \<Rightarrow> nat) \<Rightarrow> string \<Rightarrow> bool \<Rightarrow> parse_result" where
  "cstr_parse_timestamp mktime timestr hasout =
     (let tzpos = find_timezone timestr;
          timezone = (case tzpos of None \<Rightarrow> -1 | Some k \<Rightarrow> cstr_parse_timezone (drop k timestr))
      in if tzpos \<noteq> None \<and> timezone = -1 then Parse_Error
         else
           (let str = cstr_LRtrim_whitespace (case tzpos of None \<Rightarrow> timestr | Some k \<Rightarrow> take k timestr);
                (str', len) =
                  (case (strchr str (CHR 0x27), strrchr str (CHR 0x27)) of
                     (Some a, Some b) \<Rightarrow> (take (b - a - 1) (drop (a + 1) str), int b - int a - 1)
                   | _ \<Rightarrow> (str, cstr_length (Some str) 30))
            in case parse_fields str' len of
                 None \<Rightarrow> Parse_Error
               | Some (f, HMS, MMM) \<Rightarrow>
                   if cstr_isdigit (f ! 0) 4 \<and> cstr_isdigit (f ! 1) 2 \<and> cstr_isdigit (f ! 2) 2 \<and>
                      cstr_isdigit (f ! 3) 2 \<and> cstr_isdigit (f ! 4) 2 \<and> cstr_isdigit (f ! 5) 2 \<and>
                      cstr_isdigit (f ! 6) 3 then
                     if \<not> time_is_valid (atoi (f ! 0)) (atoi (f ! 1)) (atoi (f ! 2)) (atoi (f ! 3)) (atoi (f ! 4)) (atoi (f ! 5))
                     then Parse_Error
                     else
                       (let tsec = mktime \<lparr> tm_year = atoi (f ! 0) - 1900, tm_mon = atoi (f ! 1) - 1,
                              tm_mday = atoi (f ! 2), tm_hour = atoi (f ! 3), tm_min = atoi (f ! 4), tm_sec = atoi (f ! 5) \<rparr>
                        in if tsec = 18446744073709551615 then Parse_Error
                           else if \<not> hasout \<and> (\<not> HMS \<or> \<not> MMM) then Parse_Crash
                           else Parsed (size_wrap (size_wrap (tsec * 1000) + nat (atoi (f ! 6))))
                                  (if hasout then Some (parsed_datetime f HMS MMM timezone) else None))
                   else Parse_Error))"

text \<open>
  \<open>cstr_timestamp_to_datetime\<close>: the text, or \<open>None\<close> for NULL.  A failed \<open>cstr_to_ub8\<close> returns -1,
  which the test \<open>!cstr_to_ub8(...)\<close> takes for success.
\<close>

definition cstr_timestamp_to_datetime :: "(int \<Rightarrow> tm option) \<Rightarrow> string \<Rightarrow> int \<Rightarrow> string option" where
  "cstr_timestamp_to_datetime localtime stampms mslen =
     (let mslen' = (if mslen = -1 then cstr_length (Some stampms) 20 else mslen);
          (ret, stamp) = cstr_to_ub8 10 (Some stampms) (nat (mslen' mod 18446744073709551616))
      in if ret = 0 then None
         else
           (case localtime (int (stamp div 1000)) of
              None \<Rightarrow> None
            | Some t \<Rightarrow>
                (let y = tm_year t + 1900; mo = tm_mon t + 1; msec = int (stamp mod 1000)
                 in if \<not> time_is_valid y mo (tm_mday t) (tm_hour t) (tm_min t) (tm_sec t) then None
                    else
                      (let ymdhms = fmt_d 4 y @ ''-'' @ fmt_d 2 mo @ ''-'' @ fmt_d 2 (tm_mday t) @ '' '' @
                             fmt_d 2 (tm_hour t) @ '':'' @ fmt_d 2 (tm_min t) @ '':'' @ fmt_d 2 (tm_sec t)
                       in if msec \<noteq> 0 then Some (snprintf_chkd 24 (ymdhms @ ''.'' @ fmt_d 3 msec))
                          else Some (snprintf_chkd 20 ymdhms)))))"

section \<open>The print buffer\<close>

text \<open>Positions stay inside: \<open>room k st\<close> says that \<open>st\<close> has a 30-byte buffer and a position up to \<open>k\<close>.\<close>

definition room :: "int \<Rightarrow> int \<times> string \<Rightarrow> bool" where
  "room k st \<longleftrightarrow> length (snd st) = CSTR_DATETIME_SIZE_MAX \<and> 0 \<le> fst st \<and> fst st \<le> k"

lemma room_print_at: "room 30 st \<Longrightarrow> room 29 (print_at st s)"
  by (cases st) (auto simp: room_def print_at_def snprintf_buf_def CSTR_DATETIME_SIZE_MAX_def mem_simps split: prod.splits)

lemma room_space: "room 29 st \<Longrightarrow> room 30 (print_space st)"
  by (cases st) (auto simp: room_def print_space_def)

lemma room_mono: "room 29 st \<Longrightarrow> room 30 st"
  by (simp add: room_def)

lemma print_length:
  assumes "length outfmt = CSTR_DATETIME_SIZE_MAX"
  shows "length (cstr_datetime_print dt outfmt) = CSTR_DATETIME_SIZE_MAX"
proof -
  have st0: "room 29 (0, outfmt[0 := NUL])" using assms by (simp add: room_def)
  have step: "room 29 (if b then print_at st s else st)" if "room 29 st" for b st s
    using that room_print_at [OF room_mono] by simp
  have step2: "room 29 (if b then print_at (print_space st) s else st)" if "room 29 st" for b st s
    using that room_print_at [OF room_space] by simp
  show ?thesis unfolding cstr_datetime_print_def Let_def
    using step [OF step [OF step2 [OF step [OF st0]]], unfolded room_def] by blast
qed

text \<open>The text written so far.\<close>

definition buf_pre :: "int \<times> string \<Rightarrow> string \<Rightarrow> bool" where
  "buf_pre st t \<longleftrightarrow> length (snd st) = CSTR_DATETIME_SIZE_MAX \<and> fst st = int (length t) \<and>
     take (length t) (snd st) = t"

definition buf_text :: "int \<times> string \<Rightarrow> string \<Rightarrow> bool" where
  "buf_text st t \<longleftrightarrow> buf_pre st t \<and> length t < CSTR_DATETIME_SIZE_MAX \<and> snd st ! length t = NUL"

lemma buf_print_at:
  assumes "buf_pre st t" "length (t @ s) < 30"
  shows "buf_text (print_at st s) (t @ s)"
proof -
  have n: "nat (30 - int (length t)) = 30 - length t" by simp
  have "\<not> 30 - length t \<le> length s" using assms(2) by simp
  then show ?thesis using assms n
    by (cases st) (auto simp: buf_text_def buf_pre_def print_at_def snprintf_buf_def CSTR_DATETIME_SIZE_MAX_def
        put_bytes_def nth_append)
qed

lemma buf_print_space:
  assumes "buf_text st t"
  shows "buf_pre (print_space st) (if t = [] then [] else t @ '' '')"
  using assms
  by (cases st) (auto simp: buf_text_def buf_pre_def print_space_def CSTR_DATETIME_SIZE_MAX_def take_Suc_conv_app_nth nat_add_distrib)

lemma buf_text_pre: "buf_text st t \<Longrightarrow> buf_pre st t"
  by (simp add: buf_text_def)

lemma buf_text_string:
  assumes "buf_text st t" "c_string t"
  shows "buf_string (snd st) = t"
proof -
  obtain pos buf where st: "st = (pos, buf)" by force
  have "buf = t @ NUL # drop (Suc (length t)) buf"
    using assms st by (auto simp: buf_text_def buf_pre_def) (metis Cons_nth_drop_Suc append_take_drop_id)
  then have "buf_string buf = buf_string (t @ NUL # drop (Suc (length t)) buf)" by simp
  also have "\<dots> = t" using assms(2) by (auto simp: buf_string_def c_string_def takeWhile_append)
  finally show ?thesis using st by simp
qed

text \<open>The text of a date, and its parts.\<close>

definition dt_text :: "cstr_datetime_t \<Rightarrow> string" where
  "dt_text dt =
     (if dt_year dt \<noteq> -1 then date_fields dt else []) @
     (if dt_hour dt \<noteq> -1 then (if dt_year dt \<noteq> -1 then '' '' else []) @ time_fields dt else []) @
     (if dt_millisecond dt \<noteq> -1 then ''.'' @ fmt_d 3 (dt_millisecond dt) else []) @
     (if dt_timezone dt \<noteq> -1 then tz_fields (dt_timezone dt) else [])"

lemma c_string_append [simp]: "c_string (a @ b) \<longleftrightarrow> c_string a \<and> c_string b"
  by (auto simp: c_string_def)

lemma c_string_fmt [simp]: "c_string (fmt_d w n)"
  using c_string_dec by (auto simp: fmt_d_def Let_def c_string_def NUL_def)

lemma c_string_literals [simp]: "c_string []" "c_string (c # s) \<longleftrightarrow> c \<noteq> NUL \<and> c_string s"
  by (auto simp: c_string_def)

lemma c_string_dt_text: "c_string (dt_text dt)"
  by (simp add: dt_text_def date_fields_def time_fields_def tz_fields_def) (simp add: NUL_def)

lemma print_text:
  assumes "length outfmt = CSTR_DATETIME_SIZE_MAX" "length (dt_text dt) < CSTR_DATETIME_SIZE_MAX"
  shows "buf_string (cstr_datetime_print dt outfmt) = dt_text dt"
proof -
  let ?d = "if dt_year dt \<noteq> -1 then date_fields dt else []"
  let ?t = "if dt_hour dt \<noteq> -1 then (if dt_year dt \<noteq> -1 then '' '' else []) @ time_fields dt else []"
  let ?m = "if dt_millisecond dt \<noteq> -1 then ''.'' @ fmt_d 3 (dt_millisecond dt) else []"
  let ?z = "if dt_timezone dt \<noteq> -1 then tz_fields (dt_timezone dt) else []"
  have len: "length (?d @ ?t @ ?m @ ?z) < 30" using assms(2) by (simp only: dt_text_def CSTR_DATETIME_SIZE_MAX_def)
  have add: "buf_text (if b then print_at st s else st) (t @ (if b then s else []))"
    if "buf_text st t" "length (t @ (if b then s else [])) < 30" for b st s t
    using that buf_print_at [OF buf_text_pre [OF that(1)], of s] by (cases b) simp_all
  have s0: "buf_text (0, outfmt[0 := NUL]) []"
    using assms(1) by (simp add: buf_text_def buf_pre_def CSTR_DATETIME_SIZE_MAX_def)
  have s1: "buf_text (if dt_year dt \<noteq> -1 then print_at (0, outfmt[0 := NUL]) (date_fields dt) else (0, outfmt[0 := NUL])) ?d"
    (is "buf_text ?s1 _") using add [OF s0, of "dt_year dt \<noteq> -1" "date_fields dt"] len by simp
  have nz: "?d = [] \<longleftrightarrow> dt_year dt = -1" by (simp add: date_fields_def)
  have s2: "buf_text (if dt_hour dt \<noteq> -1 then print_at (print_space ?s1) (time_fields dt) else ?s1) (?d @ ?t)"
    (is "buf_text ?s2 _")
  proof (cases "dt_hour dt = -1")
    case False
    have "(if ?d = [] then [] else ?d @ '' '') @ time_fields dt = ?d @ ?t" using False nz by simp
    moreover have "length (?d @ ?t) < 30" using len by simp
    ultimately show ?thesis using buf_print_at [OF buf_print_space [OF s1], of "time_fields dt"] False by simp
  qed (use s1 in simp)
  have s3: "buf_text (if dt_millisecond dt \<noteq> -1 then print_at ?s2 (''.'' @ fmt_d 3 (dt_millisecond dt)) else ?s2) ((?d @ ?t) @ ?m)"
    (is "buf_text ?s3 _") by (rule add [OF s2]) (use len in simp)
  have "buf_text (if dt_timezone dt \<noteq> -1 then print_at ?s3 (tz_fields (dt_timezone dt)) else ?s3) (((?d @ ?t) @ ?m) @ ?z)"
    by (rule add [OF s3]) (use len in simp)
  from buf_text_string [OF this] show ?thesis
    unfolding cstr_datetime_print_def Let_def dt_text_def append_assoc
    using c_string_dt_text [of dt, unfolded dt_text_def append_assoc] by blast
qed

section \<open>Fixed-width numbers\<close>

lemma digit_0: "CHR ''0'' = digit 0"
  by code_simp

lemma dec_small:
  "n < 10 \<Longrightarrow> dec n = [digit n]"
  "10 \<le> n \<Longrightarrow> n < 100 \<Longrightarrow> dec n = [digit (n div 10), digit n]"
  "100 \<le> n \<Longrightarrow> n < 1000 \<Longrightarrow> dec n = [digit (n div 100), digit (n div 10), digit n]"
  "1000 \<le> n \<Longrightarrow> n < 10000 \<Longrightarrow> dec n = [digit (n div 1000), digit (n div 100), digit (n div 10), digit n]"
proof -
  have one: "dec k = [digit k]" if "k < 10" for k using that by (simp add: dec.simps)
  have two: "dec k = [digit (k div 10), digit k]" if "10 \<le> k" "k < 100" for k
    using that one [of "k div 10"] by (simp add: dec.simps [of k])
  have three: "dec k = [digit (k div 100), digit (k div 10), digit k]" if "100 \<le> k" "k < 1000" for k
  proof -
    have "10 \<le> k div 10" "k div 10 < 100" using that by auto
    from two [OF this] that show ?thesis by (simp add: dec.simps [of k] div_mult2_eq [symmetric])
  qed
  show "n < 10 \<Longrightarrow> dec n = [digit n]" by (rule one)
  show "10 \<le> n \<Longrightarrow> n < 100 \<Longrightarrow> dec n = [digit (n div 10), digit n]" by (rule two)
  show "100 \<le> n \<Longrightarrow> n < 1000 \<Longrightarrow> dec n = [digit (n div 100), digit (n div 10), digit n]" by (rule three)
  assume n: "1000 \<le> n" "n < 10000"
  then have "100 \<le> n div 10" "n div 10 < 1000" by auto
  from three [OF this] n show "dec n = [digit (n div 1000), digit (n div 100), digit (n div 10), digit n]"
    by (simp add: dec.simps [of n] div_mult2_eq [symmetric])
qed

lemma digit_div0: "n < k \<Longrightarrow> digit (n div k) = CHR ''0''"
  by (simp add: digit_0)

lemma fmt_d_2: "0 \<le> i \<Longrightarrow> i < 100 \<Longrightarrow> fmt_d 2 i = [digit (nat i div 10), digit (nat i)]"
  using dec_small [of "nat i"]
  by (cases "nat i < 10") (auto simp: fmt_d_def Let_def digit_div0 numeral_2_eq_2 digit_0)

lemma fmt_d_3: "0 \<le> i \<Longrightarrow> i < 1000 \<Longrightarrow> fmt_d 3 i = [digit (nat i div 100), digit (nat i div 10), digit (nat i)]"
  using dec_small [of "nat i"]
  by (cases "nat i < 10"; cases "nat i < 100") (auto simp: fmt_d_def Let_def digit_div0 numeral_3_eq_3 digit_0)

lemma fmt_d_4:
  "1000 \<le> i \<Longrightarrow> i < 10000 \<Longrightarrow>
   fmt_d 4 i = [digit (nat i div 1000), digit (nat i div 100), digit (nat i div 10), digit (nat i)]"
  using dec_small(4) [of "nat i"] by (simp add: fmt_d_def Let_def)

lemma number_digits:
  "number 10 [digit (n div 10), digit n] = n mod 100"
  "number 10 [digit (n div 100), digit (n div 10), digit n] = n mod 1000"
  "number 10 [digit (n div 1000), digit (n div 100), digit (n div 10), digit n] = n mod 10000"
proof -
  show two: "number 10 [digit (n div 10), digit n] = n mod 100"
    using mod_mult2_eq [of n 10 10] by (simp add: number_def)
  show three: "number 10 [digit (n div 100), digit (n div 10), digit n] = n mod 1000"
    using mod_mult2_eq [of n 10 100] mod_mult2_eq [of "n div 10" 10 10] by (simp add: number_def div_mult2_eq [symmetric])
  show "number 10 [digit (n div 1000), digit (n div 100), digit (n div 10), digit n] = n mod 10000"
    using mod_mult2_eq [of n 10 1000] mod_mult2_eq [of "n div 10" 10 100] mod_mult2_eq [of "n div 100" 10 10]
    by (simp add: number_def div_mult2_eq [symmetric])
qed

lemma atoi_fmt:
  "0 \<le> i \<Longrightarrow> i < 100 \<Longrightarrow> atoi [digit (nat i div 10), digit (nat i)] = i"
  "0 \<le> i \<Longrightarrow> i < 1000 \<Longrightarrow> atoi [digit (nat i div 100), digit (nat i div 10), digit (nat i)] = i"
  "0 \<le> i \<Longrightarrow> i < 10000 \<Longrightarrow>
   atoi [digit (nat i div 1000), digit (nat i div 100), digit (nat i div 10), digit (nat i)] = i"
  by (subst atoi_digits; simp add: number_digits)+

section \<open>Finding separators\<close>

lemma strchr_eq: "strchr s c = (if c \<in> set s then Some (length (takeWhile (\<lambda>x. x \<noteq> c) s)) else None)"
proof (cases "c \<in> set s")
  case True
  then obtain a b where s: "s = a @ c # b" "c \<notin> set a" by (meson split_list_first)
  have "find_loop (\<lambda>p. p = c) s 0 (length s) = Some (length a)"
    using s by (auto simp: find_loop_Some nth_append)
  then show ?thesis using s by (auto simp: strchr_def takeWhile_append)
next
  case False
  then show ?thesis by (auto simp: strchr_def find_loop_None)
qed

lemma strchr_append: "c \<notin> set a \<Longrightarrow> strchr (a @ c # b) c = Some (length a)"
  by (auto simp: strchr_eq takeWhile_append)

lemma rfind_loop_skip:
  "\<forall>k. n \<le> k \<and> k < n + m \<longrightarrow> chr_at s k \<noteq> c \<Longrightarrow> rfind_loop s c (n + m) = rfind_loop s c n"
  by (induction m) auto

lemma strrchr_append:
  assumes "c \<notin> set b"
  shows "strrchr (a @ c # b) c = Some (length a)"
proof -
  have "chr_at (a @ c # b) k \<noteq> c" if "Suc (length a) \<le> k" "k < Suc (length a) + length b" for k
    using that assms nth_mem [of "k - Suc (length a)" b] by (auto simp: chr_at_def nth_append nth_Cons')
  then have "rfind_loop (a @ c # b) c (Suc (length a) + length b) = rfind_loop (a @ c # b) c (Suc (length a))"
    by (intro rfind_loop_skip) simp
  then show ?thesis by (simp add: strrchr_def chr_at_def)
qed

lemma split_fields_eq:
  assumes "length a = k" "c \<notin> set a" "length b = 2" "c \<notin> set b" "c \<notin> set r"
  shows "split_fields (a @ c # b @ c # r) c k = Some (a, b, r)"
proof -
  have "strchr (a @ c # b @ c # r) c = Some k" using strchr_append [OF assms(2)] assms(1) by simp
  moreover have "strrchr (a @ c # b @ c # r) c = Some (k + 3)"
    using strrchr_append [OF assms(5), of "a @ c # b"] assms(1,3) by simp
  moreover have "take 2 (drop (k + 1) (take (k + 3) (a @ c # b @ c # r))) = b" "drop (k + 3 + 1) (a @ c # b @ c # r) = r"
    using assms(1,3) by auto
  ultimately show ?thesis using assms(1) by (simp add: split_fields_def)
qed

section \<open>Reading a printed date\<close>

definition tz_ok :: "int \<Rightarrow> bool" where
  "tz_ok tz \<longleftrightarrow> tz = -1 \<or> \<bar>tz\<bar> div 100 \<le> 23 \<and> \<bar>tz\<bar> mod 100 \<le> 59"

definition date_ok :: "cstr_datetime_t \<Rightarrow> bool" where
  "date_ok dt \<longleftrightarrow>
     time_is_valid (dt_year dt) (dt_month dt) (dt_day dt) (if dt_hour dt = -1 then 0 else dt_hour dt) (dt_minute dt) (dt_second dt)
     \<and> (dt_hour dt = -1 \<longrightarrow> dt_minute dt = 0 \<and> dt_second dt = 0 \<and> dt_millisecond dt = -1)
     \<and> (dt_millisecond dt = -1 \<or> 0 \<le> dt_millisecond dt \<and> dt_millisecond dt \<le> 999) \<and> tz_ok (dt_timezone dt)"

lemma valid_ranges:
  assumes "time_is_valid y mo d h mi s"
  shows "1900 \<le> y" "y \<le> 9999" "1 \<le> mo" "mo \<le> 12" "1 \<le> d" "d \<le> 31" "0 \<le> h" "h \<le> 24" "0 \<le> mi" "mi \<le> 59"
    "0 \<le> s" "s \<le> 60"
  using assms by (auto simp: time_is_valid_def split: if_splits)

definition dig2 :: "int \<Rightarrow> string" where
  "dig2 i = [digit (nat i div 10), digit (nat i)]"

definition dig4 :: "int \<Rightarrow> string" where
  "dig4 i = [digit (nat i div 1000), digit (nat i div 100), digit (nat i div 10), digit (nat i)]"

definition dig3 :: "int \<Rightarrow> string" where
  "dig3 i = [digit (nat i div 100), digit (nat i div 10), digit (nat i)]"

lemma dig_length [simp]: "length (dig2 i) = 2" "length (dig3 i) = 3" "length (dig4 i) = 4"
  by (simp_all add: dig2_def dig3_def dig4_def)

lemma dig_set: "c \<in> set (dig2 i) \<Longrightarrow> isdigit c" "c \<in> set (dig3 i) \<Longrightarrow> isdigit c" "c \<in> set (dig4 i) \<Longrightarrow> isdigit c"
  by (auto simp: dig2_def dig3_def dig4_def)

lemma dig_not_in [simp]:
  "\<not> isdigit c \<Longrightarrow> c \<notin> set (dig2 i)" "\<not> isdigit c \<Longrightarrow> c \<notin> set (dig3 i)" "\<not> isdigit c \<Longrightarrow> c \<notin> set (dig4 i)"
  using dig_set by blast+

lemma not_digits [simp]:
  "\<not> isdigit (CHR ''-'')" "\<not> isdigit (CHR '':'')" "\<not> isdigit (CHR '' '')" "\<not> isdigit (CHR ''.'')"
  "\<not> isdigit (CHR ''+'')" "\<not> isdigit (CHR ''E'')" "\<not> isdigit (CHR ''W'')" "\<not> isdigit (CHR 0x27)" "\<not> isdigit NUL"
  by (simp_all add: isdigit_def NUL_def)

lemma isdigit_all: "cstr_isdigit s n \<longleftrightarrow> (\<forall>k < n. isdigit (chr_at s k))"
  by (induction n) (auto simp: less_Suc_eq)

lemma isdigit_whole: "(\<And>c. c \<in> set s \<Longrightarrow> isdigit c) \<Longrightarrow> length s = n \<Longrightarrow> cstr_isdigit s n"
  by (auto simp: isdigit_all chr_at_def)

lemma dig_isdigit [simp]:
  "cstr_isdigit (dig2 i) 2" "cstr_isdigit (dig3 i) 3" "cstr_isdigit (dig4 i) 4"
  by (rule isdigit_whole, erule dig_set, simp)+

lemma dig_atoi [simp]:
  "0 \<le> i \<Longrightarrow> i < 100 \<Longrightarrow> atoi (dig2 i) = i" "0 \<le> i \<Longrightarrow> i < 1000 \<Longrightarrow> atoi (dig3 i) = i"
  "0 \<le> i \<Longrightarrow> i < 10000 \<Longrightarrow> atoi (dig4 i) = i"
  by (simp_all add: dig2_def dig3_def dig4_def atoi_fmt)

text \<open>The three shapes of the text without time zone.\<close>

definition ymd :: "cstr_datetime_t \<Rightarrow> string" where
  "ymd dt = dig4 (dt_year dt) @ CHR ''-'' # dig2 (dt_month dt) @ CHR ''-'' # dig2 (dt_day dt)"

definition hms :: "cstr_datetime_t \<Rightarrow> string" where
  "hms dt = dig2 (dt_hour dt) @ CHR '':'' # dig2 (dt_minute dt) @ CHR '':'' # dig2 (dt_second dt)"

definition stamp_base :: "cstr_datetime_t \<Rightarrow> string" where
  "stamp_base dt = ymd dt @ (if dt_hour dt \<noteq> -1 then CHR '' '' # hms dt else []) @
     (if dt_millisecond dt \<noteq> -1 then CHR ''.'' # dig3 (dt_millisecond dt) else [])"

definition stamp_zone :: "int \<Rightarrow> string" where
  "stamp_zone tz = (if tz = -1 then [] else
     (if tz < 0 then CHR ''W'' else CHR ''+'') # dig2 (\<bar>tz\<bar> div 100) @ CHR '':'' # dig2 (\<bar>tz\<bar> mod 100))"

lemma dt_text_shape:
  assumes "date_ok dt"
  shows "dt_text dt = stamp_base dt @ stamp_zone (dt_timezone dt)"
proof -
  note v = valid_ranges [OF assms [unfolded date_ok_def, THEN conjunct1]]
  have ms: "dt_millisecond dt \<noteq> -1 \<Longrightarrow> 0 \<le> dt_millisecond dt \<and> dt_millisecond dt < 1000"
    using assms by (auto simp: date_ok_def)
  have tz: "dt_timezone dt \<noteq> -1 \<Longrightarrow> \<bar>dt_timezone dt\<bar> div 100 \<le> 23 \<and> \<bar>dt_timezone dt\<bar> mod 100 \<le> 59"
    using assms by (auto simp: date_ok_def tz_ok_def)
  have d: "date_fields dt = ymd dt" using v by (simp add: date_fields_def ymd_def fmt_d_2 fmt_d_4 dig2_def dig4_def)
  have t: "dt_hour dt \<noteq> -1 \<Longrightarrow> time_fields dt = hms dt"
    using v by (simp add: time_fields_def hms_def fmt_d_2 dig2_def)
  have m: "dt_millisecond dt \<noteq> -1 \<Longrightarrow> fmt_d 3 (dt_millisecond dt) = dig3 (dt_millisecond dt)"
    using ms by (simp add: fmt_d_3 dig3_def)
  have z: "dt_timezone dt \<noteq> -1 \<Longrightarrow> tz_fields (dt_timezone dt) = stamp_zone (dt_timezone dt)"
  proof -
    let ?z = "\<bar>dt_timezone dt\<bar>"
    assume nz: "dt_timezone dt \<noteq> -1"
    have "fmt_d 2 (?z div 100) = dig2 (?z div 100)" "fmt_d 2 (?z mod 100) = dig2 (?z mod 100)"
      using tz [OF nz] by (simp_all add: fmt_d_2 dig2_def pos_imp_zdiv_nonneg_iff)
    moreover have "dt_timezone dt < 0 \<Longrightarrow> (- dt_timezone dt) sdiv 100 = ?z div 100 \<and> (- dt_timezone dt) smod 100 = ?z mod 100"
      "\<not> dt_timezone dt < 0 \<Longrightarrow> dt_timezone dt sdiv 100 = ?z div 100 \<and> dt_timezone dt smod 100 = ?z mod 100"
      by (simp_all only: sdiv_nonneg smod_nonneg abs_of_neg abs_of_nonneg not_less neg_0_le_iff_le less_imp_le zero_less_numeral simp_thms)
    ultimately show ?thesis using nz unfolding tz_fields_def stamp_zone_def
      by (cases "dt_timezone dt < 0") (simp_all del: sdiv_minus_eq smod_minus_eq)
  qed
  have "dt_year dt \<noteq> -1" using v by simp
  then show ?thesis using d t m z by (auto simp: dt_text_def stamp_base_def stamp_zone_def)
qed

lemma stamp_base_chars:
  assumes "\<not> isdigit c" "c \<noteq> CHR ''-''" "c \<noteq> CHR '':''" "c \<noteq> CHR '' ''" "c \<noteq> CHR ''.''"
  shows "c \<notin> set (stamp_base dt)"
  using assms by (auto simp: stamp_base_def ymd_def hms_def dest: dig_set)

lemma ymd_length [simp]: "length (ymd dt) = 10" "length (hms dt) = 8"
  by (simp_all add: ymd_def hms_def)

lemma parse_zone_list:
  "cstr_parse_timezone (c # [digit a, digit b] @ CHR '':'' # [digit d, digit e]) =
    (let sign = (if c = CHR ''+'' \<or> c = CHR ''E'' then 1 else if c = CHR ''-'' \<or> c = CHR ''W'' then -1 else 0);
         h = atoi [digit a, digit b]; mi = atoi [digit d, digit e]
     in if sign = 0 then -1 else if h > 23 then -1 else if mi > 59 then -1 else (h * 100 + mi) * sign)"
  by (simp add: cstr_parse_timezone_def chr_at_def Let_def)

lemma parse_zone:
  assumes "tz_ok tz" "tz \<noteq> -1"
  shows "cstr_parse_timezone (stamp_zone tz) = tz"
proof -
  obtain h m where hm: "h = \<bar>tz\<bar> div 100" "m = \<bar>tz\<bar> mod 100" by blast
  then have e: "h * 100 + m = \<bar>tz\<bar>" by simp
  have r: "0 \<le> h" "h \<le> 23" "0 \<le> m" "m \<le> 59"
    using assms unfolding hm by (simp_all add: tz_ok_def pos_imp_zdiv_nonneg_iff)
  have at: "atoi [digit (nat h div 10), digit (nat h)] = h" "atoi [digit (nat m div 10), digit (nat m)] = m"
    using r by (simp_all add: atoi_fmt)
  have z: "stamp_zone tz = (if tz < 0 then CHR ''W'' else CHR ''+'') #
      [digit (nat h div 10), digit (nat h)] @ CHR '':'' # [digit (nat m div 10), digit (nat m)]"
    unfolding stamp_zone_def dig2_def hm [symmetric] using assms(2) by simp
  have "cstr_parse_timezone (stamp_zone tz) = (h * 100 + m) * (if tz < 0 then -1 else 1)"
    unfolding z parse_zone_list Let_def at using r by (cases "tz < 0") simp_all
  then show ?thesis using e by (simp split: if_splits)
qed

lemma find_zone:
  assumes "dt_hour dt = -1 \<longrightarrow> dt_millisecond dt = -1"
  shows "find_timezone (stamp_base dt @ stamp_zone tz) = (if tz = -1 then None else Some (length (stamp_base dt)))"
proof -
  have no: "CHR ''+'' \<notin> set (stamp_base dt)" "CHR ''E'' \<notin> set (stamp_base dt)" "CHR ''W'' \<notin> set (stamp_base dt)"
    by (simp_all add: stamp_base_chars)
  show ?thesis
  proof (cases "tz = -1")
    case False
    then obtain r where z: "stamp_zone tz = (if tz < 0 then CHR ''W'' else CHR ''+'') # r"
        "CHR ''+'' \<notin> set r" "CHR ''E'' \<notin> set r"
      by (auto simp: stamp_zone_def)
    have none: "strchr (stamp_base dt @ CHR ''W'' # r) (CHR ''+'') = None" "strchr (stamp_base dt @ CHR ''W'' # r) (CHR ''E'') = None"
      using no z(2,3) by (simp_all add: strchr_eq)
    show ?thesis using False no z(1) none
      by (cases "tz < 0") (simp_all add: find_timezone_def strchr_append)
  next
    case True
    have b: "stamp_base dt = (dig4 (dt_year dt) @ CHR ''-'' # dig2 (dt_month dt)) @ CHR ''-'' # (dig2 (dt_day dt) @
        (if dt_hour dt \<noteq> -1 then CHR '' '' # hms dt else []) @ (if dt_millisecond dt \<noteq> -1 then CHR ''.'' # dig3 (dt_millisecond dt) else []))"
      by (simp add: stamp_base_def ymd_def)
    have "strrchr (stamp_base dt) (CHR ''-'') = Some 7"
      by (subst b, subst strrchr_append) (simp_all add: hms_def)
    moreover have "chr_at (stamp_base dt) 10 \<noteq> CHR '':''" "chr_at (stamp_base dt) 10 \<noteq> CHR ''.''"
      using assms by (auto simp: stamp_base_def chr_at_def nth_append NUL_def)
    ultimately show ?thesis using True no by (simp add: find_timezone_def strchr_eq stamp_zone_def)
  qed
qed

text \<open>The fields of the three shapes.\<close>

lemma parse_ymd: "split_fields (ymd dt) (CHR ''-'') 4 = Some (dig4 (dt_year dt), dig2 (dt_month dt), dig2 (dt_day dt))"
  unfolding ymd_def by (rule split_fields_eq) simp_all

lemma parse_hms:
  assumes "CHR '':'' \<notin> set r"
  shows "split_fields (hms dt @ r) (CHR '':'') 2 = Some (dig2 (dt_hour dt), dig2 (dt_minute dt), dig2 (dt_second dt) @ r)"
proof -
  have e: "hms dt @ r = dig2 (dt_hour dt) @ CHR '':'' # dig2 (dt_minute dt) @ CHR '':'' # (dig2 (dt_second dt) @ r)"
    by (simp add: hms_def)
  show ?thesis unfolding e by (rule split_fields_eq) (simp_all add: assms)
qed

lemma space_not_in_ymd: "CHR '' '' \<notin> set (ymd dt)"
  by (simp add: ymd_def)

definition base_fields :: "cstr_datetime_t \<Rightarrow> string list" where
  "base_fields dt = [dig4 (dt_year dt), dig2 (dt_month dt), dig2 (dt_day dt)] @
     (if dt_hour dt \<noteq> -1 then [dig2 (dt_hour dt), dig2 (dt_minute dt), dig2 (dt_second dt)] else [''00'', ''00'', ''00'']) @
     [if dt_millisecond dt \<noteq> -1 then dig3 (dt_millisecond dt) else ''000'']"

lemma parse_base:
  assumes "dt_hour dt = -1 \<longrightarrow> dt_millisecond dt = -1"
  shows "parse_fields (stamp_base dt) (int (length (stamp_base dt))) =
    Some (base_fields dt, dt_hour dt \<noteq> -1, dt_millisecond dt \<noteq> -1)"
proof (cases "dt_hour dt = -1")
  case True
  then show ?thesis using assms by (simp add: stamp_base_def parse_fields_def parse_ymd base_fields_def)
next
  case h: False
  let ?m = "if dt_millisecond dt \<noteq> -1 then CHR ''.'' # dig3 (dt_millisecond dt) else []"
  have b: "stamp_base dt = ymd dt @ CHR '' '' # (hms dt @ ?m)" using h by (simp add: stamp_base_def)
  have sp: "strchr (stamp_base dt) (CHR '' '') = Some 10"
    unfolding b using strchr_append [OF space_not_in_ymd] by simp
  have cut: "take 10 (stamp_base dt) = ymd dt" "drop 11 (stamp_base dt) = hms dt @ ?m" unfolding b by simp_all
  have hm: "split_fields (hms dt @ ?m) (CHR '':'') 2 = Some (dig2 (dt_hour dt), dig2 (dt_minute dt), dig2 (dt_second dt) @ ?m)"
    by (rule parse_hms) simp
  have len: "length (stamp_base dt) = (if dt_millisecond dt = -1 then 19 else 23)" unfolding b by simp
  have dot: "strchr (dig2 (dt_second dt) @ CHR ''.'' # dig3 (dt_millisecond dt)) (CHR ''.'') = Some 2"
    using strchr_append [of "CHR ''.''" "dig2 (dt_second dt)"] by simp
  show ?thesis
  proof (cases "dt_millisecond dt = -1")
    case True
    then show ?thesis using h hm
      unfolding parse_fields_def len sp by (simp add: cut parse_ymd base_fields_def)
  next
    case False
    then show ?thesis using h hm dot
      unfolding parse_fields_def len sp by (simp add: cut parse_ymd base_fields_def Let_def)
  qed
qed

lemma trim_fixed:
  assumes "s = a # t" "s = u @ [z]" "\<not> isspace a" "\<not> isspace z"
  shows "cstr_LRtrim_whitespace s = s"
proof -
  have "dropWhile isspace s = s" using assms(1,3) by simp
  moreover have "rdrop_while isspace s = s" using assms(2,4) by simp
  ultimately show ?thesis by (simp add: LRtrim_whitespace_eq)
qed

lemma trim_base: "cstr_LRtrim_whitespace (stamp_base dt) = stamp_base dt"
proof -
  obtain t where t: "stamp_base dt = digit (nat (dt_year dt) div 1000) # t" by (simp add: stamp_base_def ymd_def dig4_def)
  have "\<exists>u n. stamp_base dt = u @ [digit n]"
  proof (cases "dt_millisecond dt = -1")
    case False
    then have "stamp_base dt = ((ymd dt @ (if dt_hour dt \<noteq> -1 then CHR '' '' # hms dt else [])) @
        [CHR ''.'', digit (nat (dt_millisecond dt) div 100), digit (nat (dt_millisecond dt) div 10)]) @ [digit (nat (dt_millisecond dt))]"
      by (simp add: stamp_base_def dig3_def)
    then show ?thesis by blast
  next
    case ms: True
    show ?thesis
    proof (cases "dt_hour dt = -1")
      case True
      then have "stamp_base dt = (dig4 (dt_year dt) @ CHR ''-'' # dig2 (dt_month dt) @ [CHR ''-'', digit (nat (dt_day dt) div 10)]) @
          [digit (nat (dt_day dt))]"
        using ms by (simp add: stamp_base_def ymd_def dig2_def)
      then show ?thesis by blast
    next
      case False
      then have "stamp_base dt = (ymd dt @ CHR '' '' # dig2 (dt_hour dt) @ CHR '':'' # dig2 (dt_minute dt) @
          [CHR '':'', digit (nat (dt_second dt) div 10)]) @ [digit (nat (dt_second dt))]"
        using ms by (simp add: stamp_base_def hms_def dig2_def)
      then show ?thesis by blast
    qed
  qed
  then show ?thesis using trim_fixed [OF t] by fastforce
qed

lemma base_fields_atoi:
  assumes "date_ok dt"
  shows "map atoi (base_fields dt) = [dt_year dt, dt_month dt, dt_day dt, if dt_hour dt = -1 then 0 else dt_hour dt,
      dt_minute dt, dt_second dt, if dt_millisecond dt = -1 then 0 else dt_millisecond dt]"
    "list_all2 cstr_isdigit (base_fields dt) [4, 2, 2, 2, 2, 2, 3]"
proof -
  note v = valid_ranges [OF assms [unfolded date_ok_def, THEN conjunct1]]
  have z: "atoi ''00'' = 0" "atoi ''000'' = 0" "cstr_isdigit ''00'' 2" "cstr_isdigit ''000'' 3" by code_simp+
  have ms: "dt_millisecond dt \<noteq> -1 \<Longrightarrow> 0 \<le> dt_millisecond dt \<and> dt_millisecond dt < 1000"
    and hz: "dt_hour dt = -1 \<Longrightarrow> dt_minute dt = 0 \<and> dt_second dt = 0"
    using assms by (auto simp: date_ok_def)
  have hr: "dt_hour dt \<noteq> -1 \<Longrightarrow> 0 \<le> dt_hour dt \<and> dt_hour dt < 100" using v by (auto split: if_splits)
  show "map atoi (base_fields dt) = [dt_year dt, dt_month dt, dt_day dt, if dt_hour dt = -1 then 0 else dt_hour dt,
      dt_minute dt, dt_second dt, if dt_millisecond dt = -1 then 0 else dt_millisecond dt]"
    using v ms hz hr z by (auto simp: base_fields_def)
  show "list_all2 cstr_isdigit (base_fields dt) [4, 2, 2, 2, 2, 2, 3]"
    using z by (simp add: base_fields_def)
qed

lemma base_length: "length (stamp_base dt) < 30"
  by (simp add: stamp_base_def)

section \<open>Properties\<close>

definition days_in_month :: "int \<Rightarrow> int \<Rightarrow> int" where
  "days_in_month y m =
     (if m = 2 then if 4 dvd y \<and> \<not> 100 dvd y \<or> 400 dvd y then 29 else 28
      else if m \<in> {4, 6, 9, 11} then 30 else 31)"

text \<open>
  C21.  \<open>time_is_valid\<close> is the Gregorian calendar for the years 1900 to 9999, leap seconds allowed;
  the hour may be 24, with any minute and second.
\<close>

theorem time_is_valid_calendar:
  "time_is_valid year mon day hour minu sec \<longleftrightarrow>
     1900 \<le> year \<and> year \<le> 9999 \<and> 1 \<le> mon \<and> mon \<le> 12 \<and> 1 \<le> day \<and> day \<le> days_in_month year mon
     \<and> 0 \<le> hour \<and> hour \<le> 24 \<and> 0 \<le> minu \<and> minu \<le> 59 \<and> 0 \<le> sec \<and> sec \<le> 60"
proof (cases "1900 \<le> year \<and> year \<le> 9999 \<and> 1 \<le> mon \<and> mon \<le> 12")
  case True
  then have "mon = 1 \<or> mon = 2 \<or> mon = 3 \<or> mon = 4 \<or> mon = 5 \<or> mon = 6 \<or> mon = 7 \<or> mon = 8 \<or> mon = 9 \<or> mon = 10 \<or> mon = 11 \<or> mon = 12"
    by presburger
  moreover have "TM_YEAR_IS_LEAP year \<longleftrightarrow> 4 dvd year \<and> \<not> 100 dvd year \<or> 400 dvd year"
  proof -
    have "4 dvd year" if "100 dvd year" using that by (rule dvd_trans [rotated]) simp
    moreover have "100 dvd year" if "400 dvd year" using that by (rule dvd_trans [rotated]) simp
    moreover have "year smod 4 = year mod 4" "year smod 100 = year mod 100" "year smod 400 = year mod 400"
      using True by (simp_all add: smod_nonneg)
    then have "TM_YEAR_IS_LEAP year \<longleftrightarrow> (if \<not> 4 dvd year then False else if \<not> 100 dvd year then True else 400 dvd year)"
      unfolding TM_YEAR_IS_LEAP_def by (simp only: dvd_eq_mod_eq_0) simp
    ultimately show ?thesis by (simp split: if_split) blast
  qed
  ultimately have "(if mon = 1 \<or> mon = 3 \<or> mon = 5 \<or> mon = 7 \<or> mon = 8 \<or> mon = 10 \<or> mon = 12 then True
      else if mon = 4 \<or> mon = 6 \<or> mon = 9 \<or> mon = 11 then (if day < 31 then True else False)
      else (if day > 29 then False else if day < 29 then True else TM_YEAR_IS_LEAP year)) = (day \<le> days_in_month year mon)"
    if "\<not> day > 31" using that
    by (elim disjE) (auto simp: days_in_month_def)
  moreover have "\<not> day > 31" if "day \<le> days_in_month year mon"
    using that by (auto simp: days_in_month_def split: if_splits)
  ultimately show ?thesis using True unfolding time_is_valid_def
    by (smt (verit))
next
  case False
  then have "year < 1900 \<or> year > 9999 \<or> mon \<le> 0 \<or> mon > 12" by linarith
  then have "\<not> time_is_valid year mon day hour minu sec" unfolding time_is_valid_def by argo
  with False show ?thesis by blast
qed

text \<open>
  \<open>cstr_datetime_print\<close> never writes outside its buffer of 30 bytes, whatever the values of
  the fields (any \<open>int\<close>, so numbers of up to 11 characters); and when the text fits with its NUL,
  the buffer holds exactly that text: date, time, milliseconds and time zone, each left out when its
  field is -1.
\<close>

theorem cstr_datetime_print_bounds:
  assumes "length outfmt = CSTR_DATETIME_SIZE_MAX"
  shows "length (cstr_datetime_print dt outfmt) = CSTR_DATETIME_SIZE_MAX
    \<and> (length (dt_text dt) < CSTR_DATETIME_SIZE_MAX \<longrightarrow> buf_string (cstr_datetime_print dt outfmt) = dt_text dt)"
  using print_length [OF assms] print_text [OF assms] by blast

definition sample_date :: cstr_datetime_t where
  "sample_date = \<lparr> dt_year = 2019, dt_month = 12, dt_day = 22, dt_hour = 12, dt_minute = 36, dt_second = 59,
     dt_millisecond = 65, dt_timezone = -830 \<rparr>"

lemma cstr_datetime_print_bounds_witness:
  "buf_string (cstr_datetime_print sample_date (replicate 30 (CHR ''x''))) = ''2019-12-22 12:36:59.065W08:30''"
proof -
  have t: "dt_text sample_date = ''2019-12-22 12:36:59.065W08:30''" by code_simp
  with cstr_datetime_print_bounds [of "replicate 30 (CHR ''x'')" sample_date] show ?thesis
    by (simp add: CSTR_DATETIME_SIZE_MAX_def)
qed

lemma sample_print:
  "buf_string (cstr_datetime_print sample_date (replicate 30 (CHR ''x''))) = ''2019-12-22 12:36:59.065W08:30''"
  by code_simp

text \<open>
  Reading what was printed.  For every date with valid fields (with or without time,
  milliseconds and time zone), \<open>cstr_parse_timestamp\<close> on the text of \<open>cstr_datetime_print\<close> gives the
  same date back, and as its value the milliseconds of the local time \<open>mktime\<close> computes from exactly
  those fields; the time zone does not enter the value.  With \<open>outdt\<close> NULL the value is the same, but
  a text without time or without milliseconds makes the code store through the NULL pointer.
\<close>

theorem cstr_timestamp_roundtrip:
  assumes "date_ok dt" "length outfmt = CSTR_DATETIME_SIZE_MAX"
    "tsec = mktime \<lparr> tm_year = dt_year dt - 1900, tm_mon = dt_month dt - 1, tm_mday = dt_day dt,
       tm_hour = (if dt_hour dt = -1 then 0 else dt_hour dt), tm_min = dt_minute dt, tm_sec = dt_second dt \<rparr>"
    "tsec < 18446744073709551"
  shows "cstr_parse_timestamp mktime (buf_string (cstr_datetime_print dt outfmt)) hasout =
    (if \<not> hasout \<and> (dt_hour dt = -1 \<or> dt_millisecond dt = -1) then Parse_Crash
     else Parsed (tsec * 1000 + (if dt_millisecond dt = -1 then 0 else nat (dt_millisecond dt)))
       (if hasout then Some dt else None))"
proof -
  have hm: "dt_hour dt = -1 \<longrightarrow> dt_millisecond dt = -1" using assms(1) by (auto simp: date_ok_def)
  have tz: "tz_ok (dt_timezone dt)" using assms(1) by (simp add: date_ok_def)
  have zl: "length (stamp_zone z) \<le> 6" for z by (simp add: stamp_zone_def)
  have bl: "length (stamp_base dt) \<le> 23" by (simp add: stamp_base_def)
  have ln: "length (dt_text dt) < CSTR_DATETIME_SIZE_MAX"
    using bl zl [of "dt_timezone dt"] by (simp add: dt_text_shape [OF assms(1)] CSTR_DATETIME_SIZE_MAX_def)
  have shown: "buf_string (cstr_datetime_print dt outfmt) = stamp_base dt @ stamp_zone (dt_timezone dt)"
    using print_text [OF assms(2) ln] dt_text_shape [OF assms(1)] by simp
  obtain f hr mv B M where o: "f = base_fields dt" "hr = (if dt_hour dt = -1 then 0 else dt_hour dt)"
    "mv = (if dt_millisecond dt = -1 then 0 else dt_millisecond dt)" "B = (dt_hour dt \<noteq> -1)" "M = (dt_millisecond dt \<noteq> -1)"
    by blast
  have at: "atoi (f ! 0) = dt_year dt" "atoi (f ! 1) = dt_month dt" "atoi (f ! 2) = dt_day dt"
    "atoi (f ! 3) = hr" "atoi (f ! 4) = dt_minute dt" "atoi (f ! 5) = dt_second dt" "atoi (f ! 6) = mv"
    using base_fields_atoi(1) [OF assms(1)] by (auto simp: base_fields_def o)
  have dg: "cstr_isdigit (f ! 0) 4" "cstr_isdigit (f ! 1) 2" "cstr_isdigit (f ! 2) 2" "cstr_isdigit (f ! 3) 2"
    "cstr_isdigit (f ! 4) 2" "cstr_isdigit (f ! 5) 2" "cstr_isdigit (f ! 6) 3"
    using base_fields_atoi(2) [OF assms(1)] by (auto simp: base_fields_def o)
  have valid: "time_is_valid (dt_year dt) (dt_month dt) (dt_day dt) hr (dt_minute dt) (dt_second dt)"
    using assms(1) by (simp add: date_ok_def o)
  have quote: "strchr (stamp_base dt) (CHR 0x27) = None" by (simp add: strchr_eq stamp_base_chars)
  have pf: "parse_fields (stamp_base dt) (cstr_length (Some (stamp_base dt)) 30) = Some (f, B, M)"
    using parse_base [OF hm] bl by (simp add: cstr_length_def o)
  have dt: "parsed_datetime f B M (dt_timezone dt) = dt"
    using assms(1) at by (auto simp: parsed_datetime_def date_ok_def o)
  have num: "size_wrap (size_wrap (tsec * 1000) + nat mv) = tsec * 1000 + nat mv"
    using assms(1,4) by (auto simp: date_ok_def o)
  have tm: "tsec = mktime \<lparr> tm_year = dt_year dt - 1900, tm_mon = dt_month dt - 1, tm_mday = dt_day dt,
       tm_hour = hr, tm_min = dt_minute dt, tm_sec = dt_second dt \<rparr>" using assms(3) o(2) by simp
  have "cstr_parse_timestamp mktime (stamp_base dt @ stamp_zone (dt_timezone dt)) hasout =
    (if \<not> hasout \<and> (\<not> B \<or> \<not> M) then Parse_Crash else Parsed (tsec * 1000 + nat mv) (if hasout then Some dt else None))"
  proof -
    have small: "tsec \<noteq> 18446744073709551615" using assms(4) by simp
    have none: "stamp_zone (-1) = []" by (simp add: stamp_zone_def)
    note facts = trim_base quote pf dg valid at num tm [symmetric] small none
    show ?thesis
    proof (cases "dt_timezone dt = -1")
      case True
      then show ?thesis using dt
        unfolding cstr_parse_timestamp_def find_zone [OF hm] Let_def by (cases B; cases M) (simp_all add: facts del: One_nat_def)
    next
      case False
      then show ?thesis using dt parse_zone [OF tz False]
        unfolding cstr_parse_timestamp_def find_zone [OF hm] Let_def by (cases B; cases M) (simp_all add: facts del: One_nat_def)
    qed
  qed
  then show ?thesis unfolding shown by (simp add: o)
qed

lemma cstr_timestamp_roundtrip_witness:
  "cstr_parse_timestamp (\<lambda>t. nat (tm_year t)) ''2019-12-22 12:36:59.065W08:30'' True = Parsed 119065 (Some sample_date)
   \<and> cstr_parse_timestamp (\<lambda>t. nat (tm_year t))
        (buf_string (cstr_datetime_print (sample_date\<lparr>dt_millisecond := -1\<rparr>) (replicate 30 (CHR ''x'')))) False = Parse_Crash"
proof -
  have ok: "date_ok sample_date" "date_ok (sample_date\<lparr>dt_millisecond := -1\<rparr>)" by code_simp+
  have len: "length (replicate 30 (CHR ''x'')) = CSTR_DATETIME_SIZE_MAX" by (simp add: CSTR_DATETIME_SIZE_MAX_def)
  show ?thesis
    using cstr_timestamp_roundtrip [OF ok(1) len, of "119" "\<lambda>t. nat (tm_year t)" True]
      cstr_timestamp_roundtrip [OF ok(2) len, of "119" "\<lambda>t. nat (tm_year t)" False]
    by (simp add: sample_print) (simp add: sample_date_def)
qed

end
