(* ===== verification/CStrBuf.thy ===== *)
theory CStrBuf
  imports CDate
begin

text \<open>
  The growing string \<open>cstrbuf\<close> at the end of \<open>source/common/cstrbuf.h\<close>.  A \<open>cstrbuf\<close> is a heap
  block: two \<open>ub4\<close> fields and \<open>maxsz\<close> bytes of text.  Functions that may move the block return the
  new one; a NULL \<open>cstrbuf\<close> is \<open>None\<close>.  What \<open>malloc\<close> and \<open>realloc\<close> leave in fresh memory is
  the parameter \<open>junk\<close>.  \<open>ub4\<close> arithmetic wraps at 32 bits.
\<close>

section \<open>Data and operations\<close>

definition ub4 :: "int \<Rightarrow> nat" where
  "ub4 i = nat (i mod 4294967296)"

definition cstrbuf_error_size_len :: nat where
  "cstrbuf_error_size_len = ub4 (-1)"

definition cstrbuf_len_max :: nat where
  "cstrbuf_len_max = 134217727"

definition cstrbuf_alignsize :: "nat \<Rightarrow> nat" where
  "cstrbuf_alignsize len = ub4 (int (ub4 (int len + 16) div 16 * 16))"

record cstrbuf_t =
  cb_maxsz :: nat
  cb_len :: nat
  cb_str :: string

definition cstrbufGetLen :: "cstrbuf_t option \<Rightarrow> int" where
  "cstrbufGetLen s = (case s of None \<Rightarrow> 0 | Some b \<Rightarrow> to_int32 (int (cb_len b)))"

definition cstrbufGetStr :: "cstrbuf_t option \<Rightarrow> string" where
  "cstrbufGetStr s = (case s of None \<Rightarrow> [] | Some b \<Rightarrow> cb_str b)"

text \<open>The index the returned pointer points at, \<open>None\<close> for NULL.\<close>

definition cstrbufCharAtSafe :: "cstrbuf_t option \<Rightarrow> int \<Rightarrow> int option" where
  "cstrbufCharAtSafe csb at = (if at \<ge> 0 \<and> at < cstrbufGetLen csb then Some at else None)"

text \<open>\<open>memcpy\<close> of \<open>n\<close> bytes from a string; its NUL is the last byte that may be read.\<close>

definition src_bytes :: "string \<Rightarrow> nat \<Rightarrow> string" where
  "src_bytes s n = map (chr_at s) [0..<n]"

definition cstrbufNew :: "nat \<Rightarrow> string option \<Rightarrow> nat \<Rightarrow> cstrbuf_t" where
  "cstrbufNew maxsz str len =
     (let len' = (if len = cstrbuf_error_size_len then ub4 (cstr_length str 1048576) else len);
          maxsz' = (if maxsz = 0 then ub4 (int len' + 1)
                    else if maxsz = cstrbuf_error_size_len \<or> maxsz \<le> len' then cstrbuf_alignsize (ub4 (int len' + 1))
                    else cstrbuf_alignsize maxsz)
      in case str of
           Some s \<Rightarrow> \<lparr> cb_maxsz = maxsz', cb_len = len', cb_str = src_bytes s len' @ replicate (maxsz' - len') NUL \<rparr>
         | None \<Rightarrow> \<lparr> cb_maxsz = maxsz', cb_len = 0, cb_str = replicate maxsz' NUL \<rparr>)"

definition cstrbufNew2 :: "(nat \<Rightarrow> char) \<Rightarrow> string option \<Rightarrow> nat \<Rightarrow> cstrbuf_t" where
  "cstrbufNew2 junk str maxlen =
     (let len = ub4 (cstr_length str (to_int32 (int maxlen)));
          mem = map junk [0..<maxlen + 1];
          mem' = (case str of Some s \<Rightarrow> if len \<noteq> 0 then put_bytes mem 0 (src_bytes s len) else mem | None \<Rightarrow> mem)
      in \<lparr> cb_maxsz = ub4 (int maxlen + 1), cb_len = len, cb_str = mem'[len := NUL] \<rparr>)"

text \<open>\<open>cstrbufFree\<close> clears the caller's variable and frees the block: the variable, the freed block.\<close>

definition cstrbufFree :: "cstrbuf_t option \<Rightarrow> cstrbuf_t option \<times> cstrbuf_t option" where
  "cstrbufFree csb = (case csb of None \<Rightarrow> (None, None) | Some s \<Rightarrow> (None, Some s))"

definition cstrbufCopyTo :: "cstrbuf_t option \<Rightarrow> string \<Rightarrow> nat \<Rightarrow> string \<times> nat" where
  "cstrbufCopyTo src dstbuf offcb =
     (case src of
        Some s \<Rightarrow>
          if cb_len s \<noteq> 0 then (put_bytes dstbuf offcb (get_bytes (cb_str s) 0 (cb_len s)), ub4 (int offcb + int (cb_len s)))
          else (dstbuf, offcb)
      | None \<Rightarrow> (dstbuf, offcb))"

text \<open>
  \<open>vsnprintf(buf + off, n, ...)\<close>; the formatted text is a parameter, \<open>None\<close> for an error.
\<close>

definition vsnprintf_at :: "string \<Rightarrow> nat \<Rightarrow> nat \<Rightarrow> string option \<Rightarrow> string" where
  "vsnprintf_at buf off n out =
     (case out of None \<Rightarrow> buf
      | Some s \<Rightarrow> if n = 0 then buf else put_bytes buf off (take (n - 1) s @ [NUL]))"

definition realloc_mem :: "(nat \<Rightarrow> char) \<Rightarrow> string \<Rightarrow> nat \<Rightarrow> string" where
  "realloc_mem junk buf n = take n buf @ map junk [length buf..<n]"

text \<open>
  \<open>cstrbufCat(dst, fmt, ...)\<close>: it formats twice when it has to allocate; \<open>out1\<close> and \<open>out2\<close> are the
  texts of the two \<open>vsnprintf\<close> calls.
\<close>

definition cstrbufCat :: "(nat \<Rightarrow> char) \<Rightarrow> cstrbuf_t option \<Rightarrow> string option \<Rightarrow> string option \<Rightarrow> cstrbuf_t option" where
  "cstrbufCat junk dst out1 out2 =
     (case dst of
        None \<Rightarrow>
          (case out1 of None \<Rightarrow> None
           | Some s \<Rightarrow>
               (let d = cstrbufNew (ub4 (int (length s) + 1)) None 0;
                    mem = vsnprintf_at (cb_str d) 0 (cb_maxsz d) out2
                in if map_option length out2 = Some (length s)
                   then Some (d\<lparr>cb_len := length s, cb_str := mem[length s := NUL]\<rparr>)
                   else None))
      | Some d \<Rightarrow>
          (let mem = vsnprintf_at (cb_str d) (cb_len d) (ub4 (int (cb_maxsz d) - int (cb_len d))) out1
           in case out1 of None \<Rightarrow> Some (d\<lparr>cb_str := mem[cb_len d := NUL]\<rparr>)
              | Some s \<Rightarrow>
                  if ub4 (int (cb_len d) + int (length s)) < cb_maxsz d then
                    (let len' = ub4 (int (cb_len d) + int (length s))
                     in Some (d\<lparr>cb_len := len', cb_str := mem[len' := NUL]\<rparr>))
                  else
                    (let maxsz' = cstrbuf_alignsize (ub4 (int (cb_len d) + int (length s) + 1));
                         mem' = vsnprintf_at (realloc_mem junk mem maxsz') (cb_len d)
                           (ub4 (int maxsz' - int (cb_len d))) out2;
                         len' = (if map_option length out2 = Some (length s)
                                 then ub4 (int (cb_len d) + int (length s)) else cb_len d)
                     in Some \<lparr>cb_maxsz = maxsz', cb_len = len', cb_str = mem'[len' := NUL]\<rparr>)))"

definition cstrbufTrunc :: "cstrbuf_t \<Rightarrow> nat \<Rightarrow> cstrbuf_t" where
  "cstrbufTrunc s len = (if cb_len s \<ge> len then s\<lparr>cb_len := len, cb_str := (cb_str s)[len := NUL]\<rparr> else s)"

text \<open>The text of \<open>"%.*s"\<close> with a length and a pointer.\<close>

definition fmt_star :: "int \<Rightarrow> string \<Rightarrow> string" where
  "fmt_star n s = buf_string (if n < 0 then s else take (nat n) s)"

text \<open>\<open>cstrbufConcat(start, ..., NULL)\<close>; the first argument is used before the first test.\<close>

fun concat_loop :: "(nat \<Rightarrow> char) \<Rightarrow> cstrbuf_t option \<Rightarrow> cstrbuf_t option list \<Rightarrow> cstrbuf_t option" where
  "concat_loop junk result (Some src # argp) =
     (let t = Some (fmt_star (cstrbufGetLen (Some src)) (cstrbufGetStr (Some src)))
      in concat_loop junk (cstrbufCat junk result t t) argp)"
| "concat_loop junk result _ = result"

definition cstrbufConcat :: "(nat \<Rightarrow> char) \<Rightarrow> cstrbuf_t option \<Rightarrow> cstrbuf_t option list \<Rightarrow> cstrbuf_t option" where
  "cstrbufConcat junk start argp =
     (let t = Some (fmt_star (cstrbufGetLen start) (cstrbufGetStr start))
      in concat_loop junk (cstrbufCat junk None t t) argp)"

definition cstrbufDup :: "cstrbuf_t option \<Rightarrow> string option \<Rightarrow> nat \<Rightarrow> cstrbuf_t" where
  "cstrbufDup dst source sourcelen =
     (case dst of
        None \<Rightarrow> cstrbufNew 0 source sourcelen
      | Some d \<Rightarrow>
          (let n = (if sourcelen = cstrbuf_error_size_len then ub4 (cstr_length source (-1)) else sourcelen)
           in if n = 0 then d\<lparr>cb_len := 0, cb_str := (cb_str d)[0 := NUL]\<rparr>
              else if cb_maxsz d > n then
                d\<lparr>cb_len := n, cb_str := (put_bytes (cb_str d) 0 (src_bytes (the source) n))[n := NUL]\<rparr>
              else cstrbufNew 0 source n))"

definition cstrbufSub :: "string \<Rightarrow> nat \<Rightarrow> int \<Rightarrow> string \<Rightarrow> int \<Rightarrow> cstrbuf_t" where
  "cstrbufSub source startindex len substr sublen =
     (let sourlen = cstr_length (Some source) (-1);
          endstr = cstrbufNew 0 (Some (drop (nat (int startindex + len)) source)) (ub4 (sourlen - int startindex - len));
          result = cstrbufNew (ub4 (sourlen - len + sublen + 1)) (Some source) startindex;
          mem = put_bytes (cb_str result) startindex (src_bytes substr (nat sublen));
          mem' = put_bytes mem (nat (int startindex + sublen)) (get_bytes (cb_str endstr) 0 (cb_len endstr));
          n = ub4 (sourlen - len + sublen)
      in result\<lparr>cb_len := n, cb_str := mem'[n := NUL]\<rparr>)"

definition cstrbufPushBack :: "(nat \<Rightarrow> char) \<Rightarrow> cstrbuf_t option \<Rightarrow> char \<Rightarrow> cstrbuf_t option" where
  "cstrbufPushBack junk dst ch =
     (case dst of
        Some d \<Rightarrow>
          if ub4 (int (cb_len d) + 1) < cb_maxsz d
          then Some (d\<lparr>cb_len := ub4 (int (cb_len d) + 1), cb_str := (cb_str d)[cb_len d := ch]\<rparr>)
          else cstrbufCat junk dst (Some [ch]) (Some [ch])
      | None \<Rightarrow> cstrbufCat junk None (Some [ch]) (Some [ch]))"

section \<open>The contract of a growing string\<close>

text \<open>
  What a client relies on: appending, cutting and pushing act on the content, as long as it stays
  below the limit.  The lemmas about a run of edits are proved once, from these laws.
\<close>

datatype edit = Append string | Cut nat | Push char

fun edit_text :: "edit \<Rightarrow> string \<Rightarrow> string" where
  "edit_text (Append s) t = t @ s"
| "edit_text (Cut n) t = take n t"
| "edit_text (Push c) t = t @ [c]"

locale string_builder =
  fixes ok :: "'b \<Rightarrow> bool" and content :: "'b \<Rightarrow> string" and limit :: nat
    and append :: "string \<Rightarrow> 'b \<Rightarrow> 'b"
  assumes append_ok: "ok b \<Longrightarrow> length (content b) + length s \<le> limit \<Longrightarrow> ok (append s b)"
    and append_content: "ok b \<Longrightarrow> length (content b) + length s \<le> limit \<Longrightarrow> content (append s b) = content b @ s"
begin

lemma append_all:
  assumes "ok b" "length (content b) + length (concat ss) \<le> limit"
  shows "ok (fold append ss b) \<and> content (fold append ss b) = content b @ concat ss"
  using assms
proof (induction ss arbitrary: b)
  case (Cons s ss)
  then have l: "length (content b) + length s \<le> limit" by simp
  show ?case using Cons.IH [OF append_ok [OF Cons.prems(1) l]] Cons.prems(2) append_content [OF Cons.prems(1) l]
    by simp
qed simp

end

locale string_editor = string_builder ok content limit append
  for ok :: "'b \<Rightarrow> bool" and content limit append +
  fixes cut :: "nat \<Rightarrow> 'b \<Rightarrow> 'b" and push :: "char \<Rightarrow> 'b \<Rightarrow> 'b"
  assumes cut_ok: "ok b \<Longrightarrow> ok (cut n b)"
    and cut_content: "ok b \<Longrightarrow> content (cut n b) = take n (content b)"
    and push_ok: "ok b \<Longrightarrow> length (content b) < limit \<Longrightarrow> ok (push c b)"
    and push_content: "ok b \<Longrightarrow> length (content b) < limit \<Longrightarrow> content (push c b) = content b @ [c]"
begin

fun perform :: "edit \<Rightarrow> 'b \<Rightarrow> 'b" where
  "perform (Append s) b = append s b"
| "perform (Cut n) b = cut n b"
| "perform (Push c) b = push c b"

lemma perform_ok:
  assumes "ok b" "length (edit_text e (content b)) \<le> limit"
  shows "ok (perform e b) \<and> content (perform e b) = edit_text e (content b)"
  using assms by (cases e) (auto simp: append_ok append_content cut_ok cut_content push_ok push_content)

lemma perform_all:
  assumes "ok b" "\<And>n. n \<le> length es \<Longrightarrow> length (fold edit_text (take n es) (content b)) \<le> limit"
  shows "ok (fold perform es b) \<and> content (fold perform es b) = fold edit_text es (content b)"
  using assms
proof (induction es arbitrary: b)
  case (Cons e es)
  have "length (edit_text e (content b)) \<le> limit" using Cons.prems(2) [of 1] by simp
  with perform_ok [OF Cons.prems(1)] have p: "ok (perform e b)" "content (perform e b) = edit_text e (content b)"
    by auto
  have "length (fold edit_text (take n es) (edit_text e (content b))) \<le> limit" if "n \<le> length es" for n
    using Cons.prems(2) [of "Suc n"] that by simp
  with Cons.IH [OF p(1)] p(2) show ?case by simp
qed simp

end

section \<open>Invariant and content\<close>

definition cb_ok :: "cstrbuf_t \<Rightarrow> bool" where
  "cb_ok d \<longleftrightarrow> length (cb_str d) = cb_maxsz d \<and> cb_len d < cb_maxsz d \<and> cb_maxsz d < 4294967296"

definition cb_content :: "cstrbuf_t \<Rightarrow> string" where
  "cb_content d = take (cb_len d) (cb_str d)"

text \<open>The text is closed by a NUL, so that \<open>cstrbufGetStr\<close> is the content as a C string.\<close>

definition cb_closed :: "cstrbuf_t \<Rightarrow> bool" where
  "cb_closed d \<longleftrightarrow> cb_str d ! cb_len d = NUL"

lemma ub4_id [simp]: "0 \<le> i \<Longrightarrow> i < 4294967296 \<Longrightarrow> ub4 i = nat i"
  by (simp add: ub4_def)

lemma error_len: "ub4 (-1) = 4294967295"
  by (simp add: ub4_def)

lemma alignsize_bounds:
  assumes "len < 4294967264"
  shows "len < cstrbuf_alignsize len" "cstrbuf_alignsize len \<le> len + 16" "cstrbuf_alignsize len < 4294967296"
proof -
  have e: "cstrbuf_alignsize len = (len + 16) div 16 * 16"
    using assms by (simp add: cstrbuf_alignsize_def nat_mult_distrib nat_add_distrib zdiv_int)
  have m: "(len + 16) div 16 * 16 = len + 16 - (len + 16) mod 16" by (rule minus_mod_eq_div_mult [symmetric])
  have r: "(len + 16) mod 16 < 16" "(len + 16) mod 16 \<le> len + 16" by simp_all
  show "len < cstrbuf_alignsize len" "cstrbuf_alignsize len \<le> len + 16" "cstrbuf_alignsize len < 4294967296"
    using assms m r unfolding e by linarith+
qed

lemma src_bytes_length [simp]: "length (src_bytes s n) = n"
  by (simp add: src_bytes_def)

lemma src_bytes_take: "n \<le> length s \<Longrightarrow> src_bytes s n = take n s"
  by (auto simp: src_bytes_def chr_at_def intro: nth_equalityI)

lemma cb_closed_string:
  assumes "cb_ok d" "cb_closed d" "c_string (cb_content d)"
  shows "buf_string (cb_str d) = cb_content d"
proof -
  have "cb_str d = cb_content d @ NUL # drop (Suc (cb_len d)) (cb_str d)"
    using assms(1,2) by (metis append_take_drop_id cb_closed_def cb_content_def cb_ok_def Cons_nth_drop_Suc)
  then have "buf_string (cb_str d) = buf_string (cb_content d @ NUL # drop (Suc (cb_len d)) (cb_str d))" by simp
  also have "\<dots> = cb_content d" using assms(3) by (auto simp: buf_string_def c_string_def takeWhile_append)
  finally show ?thesis .
qed

text \<open>Writing \<open>s\<close> and a NUL behind the content.\<close>

lemma close_at:
  assumes "length m = mx" "n < mx" "mx < 4294967296" "take n m = t"
  shows "cb_ok \<lparr>cb_maxsz = mx, cb_len = n, cb_str = m[n := NUL]\<rparr> \<and>
    cb_content \<lparr>cb_maxsz = mx, cb_len = n, cb_str = m[n := NUL]\<rparr> = t \<and>
    cb_closed \<lparr>cb_maxsz = mx, cb_len = n, cb_str = m[n := NUL]\<rparr>"
  using assms by (simp add: cb_ok_def cb_content_def cb_closed_def)

lemma take_put_bytes: "off + length bs \<le> length b \<Longrightarrow> take (off + length bs) (put_bytes b off bs) = take off b @ bs"
  by (simp add: put_bytes_def)

lemma vsnprintf_fits:
  assumes "off + n \<le> length buf" "length s < n"
  shows "length (vsnprintf_at buf off n (Some s)) = length buf"
    "take (off + length s) (vsnprintf_at buf off n (Some s)) = take off buf @ s"
  using assms by (auto simp: vsnprintf_at_def put_bytes_def)

lemma vsnprintf_cut:
  assumes "off + n \<le> length buf"
  shows "length (vsnprintf_at buf off n out) = length buf" "take off (vsnprintf_at buf off n out) = take off buf"
  using assms by (auto simp: vsnprintf_at_def put_bytes_def split: option.split)

definition cb_grown :: "cstrbuf_t \<Rightarrow> string \<Rightarrow> bool" where
  "cb_grown d t \<longleftrightarrow> cb_ok d \<and> cb_content d = t \<and> cb_closed d"

lemma cat_grown:
  assumes ok: "cb_ok d" and small: "cb_len d + length s < 4294967200"
  shows "\<exists>d'. cstrbufCat junk (Some d) (Some s) (Some s) = Some d' \<and> cb_grown d' (cb_content d @ s)"
proof -
  let ?n = "cb_len d" and ?k = "length s" and ?room = "cb_maxsz d - cb_len d"
  have room: "ub4 (int (cb_maxsz d) - int ?n) = ?room" and fit: "?n + ?room \<le> length (cb_str d)"
    using ok by (auto simp: cb_ok_def)
  have sum: "ub4 (int ?n + int ?k) = ?n + ?k" "ub4 (int ?n + int ?k + 1) = ?n + ?k + 1"
    using small by (simp_all add: nat_add_distrib)
  let ?m = "vsnprintf_at (cb_str d) ?n ?room (Some s)"
  show ?thesis
  proof (cases "?n + ?k < cb_maxsz d")
    case True
    then have t: "length ?m = cb_maxsz d" "take (?n + ?k) ?m = cb_content d @ s"
      using vsnprintf_fits [OF fit, of s] ok by (auto simp: cb_ok_def cb_content_def)
    have "cstrbufCat junk (Some d) (Some s) (Some s) = Some \<lparr>cb_maxsz = cb_maxsz d, cb_len = ?n + ?k, cb_str = ?m[?n + ?k := NUL]\<rparr>"
      using True by (simp add: cstrbufCat_def room sum Let_def)
    then show ?thesis using close_at [OF t(1) True _ t(2)] ok by (simp add: cb_grown_def cb_ok_def)
  next
    case False
    let ?mx = "cstrbuf_alignsize (?n + ?k + 1)"
    let ?r = "realloc_mem junk ?m ?mx"
    have mx: "?n + ?k + 1 < ?mx" "?mx < 4294967296" using alignsize_bounds [of "?n + ?k + 1"] small by auto
    have m: "length ?m = cb_maxsz d" "take ?n ?m = cb_content d"
      using vsnprintf_cut [OF fit, of "Some s"] ok by (auto simp: cb_ok_def cb_content_def)
    have r: "length ?r = ?mx" "take ?n ?r = cb_content d"
      using m mx(1) False ok by (auto simp: realloc_mem_def cb_ok_def)
    have room': "ub4 (int ?mx - int ?n) = ?mx - ?n" using mx by (simp add: nat_diff_distrib)
    have fit': "?n + (?mx - ?n) \<le> length ?r" "?k < ?mx - ?n" using mx(1) r(1) by auto
    let ?m' = "vsnprintf_at ?r ?n (?mx - ?n) (Some s)"
    have t: "length ?m' = ?mx" "take (?n + ?k) ?m' = cb_content d @ s"
      using vsnprintf_fits [OF fit'] r by auto
    have "cstrbufCat junk (Some d) (Some s) (Some s) = Some \<lparr>cb_maxsz = ?mx, cb_len = ?n + ?k, cb_str = ?m'[?n + ?k := NUL]\<rparr>"
      using False by (simp add: cstrbufCat_def room room' [simplified] sum Let_def)
    then show ?thesis using close_at [OF t(1) _ mx(2) t(2)] mx(1) by (simp add: cb_grown_def)
  qed
qed

lemma new_grown:
  assumes "case str of None \<Rightarrow> len = 0 | Some s \<Rightarrow> len \<le> length s" "len < 4294967200" "maxsz < 4294967200"
  shows "cb_grown (cstrbufNew maxsz str len) (case str of None \<Rightarrow> [] | Some s \<Rightarrow> take len s)"
proof -
  let ?d = "cstrbufNew maxsz str len"
  have n: "len \<noteq> cstrbuf_error_size_len" "maxsz \<noteq> cstrbuf_error_size_len"
    using assms(2,3) by (auto simp: cstrbuf_error_size_len_def ub4_def)
  have mx: "len < cb_maxsz ?d" "cb_maxsz ?d < 4294967296"
    using alignsize_bounds [of "len + 1"] alignsize_bounds [of maxsz] assms(2,3) n
    by (auto simp: cstrbufNew_def Let_def nat_add_distrib split: option.split)
  show ?thesis
  proof (cases str)
    case None
    obtain x where x: "x = cb_maxsz ?d" by blast
    have d: "?d = \<lparr>cb_maxsz = x, cb_len = 0, cb_str = replicate x NUL\<rparr>"
      using None unfolding x by (simp add: cstrbufNew_def Let_def)
    have "cb_grown \<lparr>cb_maxsz = x, cb_len = 0, cb_str = replicate x NUL\<rparr> []"
      using mx unfolding x [symmetric] by (simp add: cb_grown_def cb_ok_def cb_content_def cb_closed_def)
    with d None show ?thesis by simp
  next
    case (Some s)
    then have "?d = \<lparr>cb_maxsz = cb_maxsz ?d, cb_len = len, cb_str = take len s @ replicate (cb_maxsz ?d - len) NUL\<rparr>"
      using n assms(1) by (simp add: cstrbufNew_def Let_def src_bytes_take)
    moreover obtain x where x: "x = cb_maxsz ?d" by blast
    ultimately have d: "?d = \<lparr>cb_maxsz = x, cb_len = len, cb_str = take len s @ replicate (x - len) NUL\<rparr>" by simp
    have "cb_grown \<lparr>cb_maxsz = x, cb_len = len, cb_str = take len s @ replicate (x - len) NUL\<rparr> (take len s)"
      using mx assms(1) Some unfolding x [symmetric] by (auto simp: cb_grown_def cb_ok_def cb_content_def cb_closed_def nth_append)
    with d Some show ?thesis by simp
  qed
qed

lemma cat_null_grown:
  assumes "length s < 4294967100"
  shows "\<exists>d'. cstrbufCat junk None (Some s) (Some s) = Some d' \<and> cb_grown d' s"
proof -
  have u: "ub4 (int (length s) + 1) = length s + 1" using assms by (simp add: nat_add_distrib)
  obtain d where d: "d = cstrbufNew (length s + 1) None 0" by blast
  have g: "cb_grown d []" using new_grown [where str = None and len = 0 and maxsz = "length s + 1"] assms by (simp add: d)
  have mx: "length s + 1 < cb_maxsz d"
    using alignsize_bounds [of "length s + 1"] assms
    by (auto simp: d cstrbufNew_def Let_def cstrbuf_error_size_len_def error_len)
  have len: "length (cb_str d) = cb_maxsz d" "cb_maxsz d < 4294967296" using g by (auto simp: cb_grown_def cb_ok_def)
  let ?m = "vsnprintf_at (cb_str d) 0 (cb_maxsz d) (Some s)"
  have t: "length ?m = cb_maxsz d" "take (length s) ?m = s"
    using vsnprintf_fits [of 0 "cb_maxsz d" "cb_str d" s] mx len by auto
  have "cstrbufCat junk None (Some s) (Some s) = Some \<lparr>cb_maxsz = cb_maxsz d, cb_len = length s, cb_str = ?m[length s := NUL]\<rparr>"
    by (cases d) (simp add: cstrbufCat_def u d [symmetric, simplified] Let_def del: ub4_id)
  with close_at [OF t(1) _ len(2) t(2)] mx show ?thesis by (auto simp: cb_grown_def)
qed

lemma trunc_ok:
  assumes "cb_ok d"
  shows "cb_ok (cstrbufTrunc d n)" "cb_content (cstrbufTrunc d n) = take n (cb_content d)"
  using assms by (auto simp: cstrbufTrunc_def cb_ok_def cb_content_def min_absorb1 min_absorb2)

text \<open>A push in place keeps the old byte behind the new one; a push that grows the block closes it.\<close>

lemma push_in_place:
  assumes "cb_ok d" "cb_len d + 1 < cb_maxsz d"
  shows "cstrbufPushBack junk (Some d) ch = Some (d\<lparr>cb_len := cb_len d + 1, cb_str := (cb_str d)[cb_len d := ch]\<rparr>)"
    "cb_ok (d\<lparr>cb_len := cb_len d + 1, cb_str := (cb_str d)[cb_len d := ch]\<rparr>)"
    "cb_content (d\<lparr>cb_len := cb_len d + 1, cb_str := (cb_str d)[cb_len d := ch]\<rparr>) = cb_content d @ [ch]"
proof -
  have u: "ub4 (int (cb_len d) + 1) = cb_len d + 1" using assms by (simp add: cb_ok_def nat_add_distrib)
  show "cstrbufPushBack junk (Some d) ch = Some (d\<lparr>cb_len := cb_len d + 1, cb_str := (cb_str d)[cb_len d := ch]\<rparr>)"
    using assms u by (simp add: cstrbufPushBack_def)
qed (use assms in \<open>auto simp: cb_ok_def cb_content_def take_Suc_conv_app_nth\<close>)

lemma push_ok:
  assumes "cb_ok d" "cb_len d < 134217727"
  shows "\<exists>d'. cstrbufPushBack junk (Some d) ch = Some d' \<and> cb_ok d' \<and> cb_content d' = cb_content d @ [ch]"
proof (cases "cb_len d + 1 < cb_maxsz d")
  case True
  then show ?thesis using push_in_place [OF assms(1) True] by blast
next
  case False
  have "ub4 (int (cb_len d) + 1) = cb_len d + 1" using assms by (simp add: nat_add_distrib)
  with False have "cstrbufPushBack junk (Some d) ch = cstrbufCat junk (Some d) (Some [ch]) (Some [ch])"
    by (simp add: cstrbufPushBack_def)
  with cat_grown [OF assms(1), of "[ch]" junk] assms(2) show ?thesis by (auto simp: cb_grown_def)
qed

section \<open>The contract on the code's definitions\<close>

definition cb_cat :: "(nat \<Rightarrow> char) \<Rightarrow> string \<Rightarrow> cstrbuf_t \<Rightarrow> cstrbuf_t" where
  "cb_cat junk s d = the (cstrbufCat junk (Some d) (Some s) (Some s))"

definition cb_push :: "(nat \<Rightarrow> char) \<Rightarrow> char \<Rightarrow> cstrbuf_t \<Rightarrow> cstrbuf_t" where
  "cb_push junk ch d = the (cstrbufPushBack junk (Some d) ch)"

definition cb_cut :: "nat \<Rightarrow> cstrbuf_t \<Rightarrow> cstrbuf_t" where
  "cb_cut n d = cstrbufTrunc d n"

lemma content_length: "cb_ok d \<Longrightarrow> length (cb_content d) = cb_len d"
  by (simp add: cb_ok_def cb_content_def)

lemma cb_cat_grown:
  "cb_ok d \<Longrightarrow> length (cb_content d) + length s \<le> cstrbuf_len_max \<Longrightarrow> cb_grown (cb_cat junk s d) (cb_content d @ s)"
  using cat_grown [of d s junk] by (auto simp: cb_cat_def content_length cstrbuf_len_max_def)

interpretation cb: string_editor cb_ok cb_content cstrbuf_len_max "cb_cat junk" cb_cut "cb_push junk"
proof
  fix d s c n assume ok: "cb_ok d"
  show "cb_ok (cb_cat junk s d)" "cb_content (cb_cat junk s d) = cb_content d @ s"
    if "length (cb_content d) + length s \<le> cstrbuf_len_max"
    using cb_cat_grown [OF ok that] by (auto simp: cb_grown_def)
  show "cb_ok (cb_cut n d)" "cb_content (cb_cut n d) = take n (cb_content d)"
    using trunc_ok [OF ok] by (simp_all add: cb_cut_def)
  show "cb_ok (cb_push junk c d)" "cb_content (cb_push junk c d) = cb_content d @ [c]"
    if "length (cb_content d) < cstrbuf_len_max"
    using push_ok [OF ok, of junk c] that by (auto simp: cb_push_def content_length [OF ok] cstrbuf_len_max_def)
qed

text \<open>One edit of a \<open>cstrbuf\<close>, by the code's functions.\<close>

fun cb_edit :: "(nat \<Rightarrow> char) \<Rightarrow> edit \<Rightarrow> cstrbuf_t \<Rightarrow> cstrbuf_t" where
  "cb_edit junk (Append s) d = the (cstrbufCat junk (Some d) (Some s) (Some s))"
| "cb_edit junk (Cut n) d = cstrbufTrunc d n"
| "cb_edit junk (Push c) d = the (cstrbufPushBack junk (Some d) c)"

lemma cb_edit_perform: "cb_edit junk e d = cb.perform junk e d"
  by (cases e) (simp_all add: cb_cat_def cb_cut_def cb_push_def)

lemma get_str_text:
  assumes "cb_grown d t" "c_string t" "length t < 2147483648"
  shows "fmt_star (cstrbufGetLen (Some d)) (cstrbufGetStr (Some d)) = t"
proof -
  have l: "cb_len d = length t" "take (cb_len d) (cb_str d) = t" "cb_ok d"
    using assms(1) content_length [of d] by (auto simp: cb_grown_def cb_content_def)
  have "takeWhile (\<lambda>c. c \<noteq> NUL) t = t"
    by (rule takeWhile_eq_all_conv [THEN iffD2]) (use assms(2) in \<open>auto simp: c_string_def\<close>)
  then show ?thesis using l assms(3)
    by (simp add: fmt_star_def cstrbufGetLen_def cstrbufGetStr_def buf_string_def)
qed

lemma concat_loop_content:
  assumes "list_all2 (\<lambda>b t. cb_grown b t \<and> c_string t) bs ts" "cb_grown d u" "length u + length (concat ts) \<le> cstrbuf_len_max"
  shows "\<exists>d'. concat_loop junk (Some d) (map Some bs @ [None]) = Some d' \<and> cb_grown d' (u @ concat ts)"
  using assms
proof (induction bs ts arbitrary: d u rule: list_all2_induct)
  case (Cons b bs t ts)
  let ?t = "fmt_star (cstrbufGetLen (Some b)) (cstrbufGetStr (Some b))"
  have t: "?t = t" using get_str_text [of b t] Cons by (auto simp: cstrbuf_len_max_def)
  have ok: "cb_ok d" "cb_content d = u" using Cons.prems(1) by (simp_all add: cb_grown_def)
  have "cb_len d + length t < 4294967200"
    using content_length [OF ok(1)] ok(2) Cons.prems(2) by (simp add: cstrbuf_len_max_def)
  from cat_grown [OF ok(1) this, of junk] obtain d' where
    d': "cstrbufCat junk (Some d) (Some t) (Some t) = Some d'" "cb_grown d' (u @ t)" using ok(2) by blast
  show ?case using Cons.IH [OF d'(2)] Cons.prems(2) d'(1) t by simp
qed simp

section \<open>Properties\<close>

text \<open>
  C22.  A \<open>cstrbuf\<close> is a string: after \<open>cstrbufNew\<close> and any sequence of \<open>cstrbufCat\<close>,
  \<open>cstrbufTrunc\<close> and \<open>cstrbufPushBack\<close> whose texts never get longer than \<open>cstrbuf_len_max\<close>, the
  block has the size it claims, the length is below it, and the content is what the same edits give
  on strings, whatever \<open>realloc\<close> leaves in fresh memory.
\<close>

theorem cstrbuf_edits:
  assumes "len \<le> length s" "len \<le> cstrbuf_len_max" "maxsz < 4294967200"
    "\<And>n. n \<le> length es \<Longrightarrow> length (fold edit_text (take n es) (take len s)) \<le> cstrbuf_len_max"
  shows "cb_ok (fold (cb_edit junk) es (cstrbufNew maxsz (Some s) len))
    \<and> cb_content (fold (cb_edit junk) es (cstrbufNew maxsz (Some s) len)) = fold edit_text es (take len s)"
proof -
  have "cb_edit junk = cb.perform junk" by (intro ext) (rule cb_edit_perform)
  moreover have "cb_grown (cstrbufNew maxsz (Some s) len) (take len s)"
    using new_grown [of len "Some s" maxsz] assms by (simp add: cstrbuf_len_max_def)
  ultimately show ?thesis using cb.perform_all [where b = "cstrbufNew maxsz (Some s) len" and es = es and junk = junk] assms(4) by (simp add: cb_grown_def)
qed

lemma cstrbuf_edits_witness:
  "cb_content (fold (cb_edit (\<lambda>_. CHR ''?'')) [Append ''-defgh'', Push (CHR ''!''), Cut 5, Push (CHR ''x'')] (cstrbufNew 0 (Some ''abc'') 3))
     = ''abc-dx''"
proof -
  have "length (fold edit_text (take n [Append ''-defgh'', Push (CHR ''!''), Cut 5, Push (CHR ''x'')]) (take 3 ''abc'')) \<le> cstrbuf_len_max"
    if "n \<le> 4" for n
  proof -
    have "n \<in> {0, 1, 2, 3, 4}" using that by auto
    then show ?thesis by (auto simp: cstrbuf_len_max_def)
  qed
  then show ?thesis
    using cstrbuf_edits [of 3 "''abc''" 0 "[Append ''-defgh'', Push (CHR ''!''), Cut 5, Push (CHR ''x'')]" "\<lambda>_. CHR ''?''"]
    by (simp add: cstrbuf_len_max_def)
qed

text \<open>
  The outcomes of \<open>cstrbufCat\<close> on NULL and on a well-formed block.  When both \<open>vsnprintf\<close>
  calls give \<open>s\<close>, the result is the old text followed by \<open>s\<close>, closed by a NUL.  When the first
  reports an error, NULL stays NULL and a block keeps its text, closed.
\<close>

theorem cstrbufCat_outcome:
  assumes "case dst of None \<Rightarrow> t = [] | Some d \<Rightarrow> cb_ok d \<and> cb_content d = t"
    "length t + length s < 4294967100"
  shows "(\<exists>d'. cstrbufCat junk dst (Some s) (Some s) = Some d' \<and> cb_ok d' \<and> cb_content d' = t @ s \<and> cb_closed d')
    \<and> (case dst of None \<Rightarrow> cstrbufCat junk dst None out2 = None
       | Some d \<Rightarrow> \<exists>d'. cstrbufCat junk dst None out2 = Some d' \<and> cb_ok d' \<and> cb_content d' = t \<and> cb_closed d')"
proof (cases dst)
  case None
  then show ?thesis using cat_null_grown [of s junk] assms by (auto simp: cb_grown_def cstrbufCat_def)
next
  case (Some d)
  then have ok: "cb_ok d" "cb_content d = t" and l: "cb_len d + length s < 4294967200"
    using assms content_length [of d] by auto
  have n: "length (cb_str d) = cb_maxsz d" "cb_len d < cb_maxsz d" "cb_maxsz d < 4294967296" "take (cb_len d) (cb_str d) = t"
    using ok by (auto simp: cb_ok_def cb_content_def)
  have "cstrbufCat junk dst None out2 = Some \<lparr>cb_maxsz = cb_maxsz d, cb_len = cb_len d, cb_str = (cb_str d)[cb_len d := NUL]\<rparr>"
    using Some by (simp add: cstrbufCat_def vsnprintf_at_def Let_def)
  then show ?thesis using cat_grown [OF ok(1) l, of junk] close_at [OF n] Some ok(2) by (auto simp: cb_grown_def)
qed

lemma cstrbufCat_outcome_witness:
  "\<exists>d'. cstrbufCat (\<lambda>_. CHR ''?'') (Some (cstrbufNew 0 (Some ''abc'') 3)) (Some ''defg'') (Some ''defg'') = Some d' \<and> cb_content d' = ''abcdefg''"
proof -
  have "cb_grown (cstrbufNew 0 (Some ''abc'') 3) ''abc''" using new_grown [of 3 "Some ''abc''" 0] by simp
  then show ?thesis
    using  cstrbufCat_outcome [of "''abc''" "Some (cstrbufNew 0 (Some ''abc'') 3)" "''defg''" "\<lambda>_. CHR ''?''" None]
    by (auto simp: cb_grown_def)
qed

text \<open>
  \<open>cstrbufPushBack\<close> does not write a NUL when there is room: after \<open>cstrbufTrunc\<close> to \<open>n\<close> and
  a push, the length and the counted content are right, but as a C string \<open>cstrbufGetStr\<close> shows the
  new character followed by the old text from \<open>n + 1\<close> on.
\<close>

theorem cstrbufPushBack_unclosed:
  assumes "cb_ok d" "cb_closed d" "cb_content d = t" "c_string t" "n + 1 < length t" "ch \<noteq> NUL"
  shows "\<exists>d'. cstrbufPushBack junk (Some (cstrbufTrunc d n)) ch = Some d' \<and> cb_content d' = take n t @ [ch]
    \<and> buf_string (cstrbufGetStr (Some d')) = take n t @ ch # drop (n + 1) t"
proof -
  have len: "cb_len d = length t" using content_length [OF assms(1)] assms(3) by simp
  have tr: "cstrbufTrunc d n = d\<lparr>cb_len := n, cb_str := (cb_str d)[n := NUL]\<rparr>"
    using assms(5) len by (simp add: cstrbufTrunc_def)
  have room: "cb_len (cstrbufTrunc d n) + 1 < cb_maxsz (cstrbufTrunc d n)"
    using assms(1,5) len by (simp add: tr cb_ok_def)
  note p1 = push_in_place(1) [OF trunc_ok(1) [OF assms(1)] room, of junk ch]
    and p3 = push_in_place(3) [OF trunc_ok(1) [OF assms(1)] room, of ch]
  have str: "cb_str d = t @ NUL # drop (Suc (length t)) (cb_str d)"
    using assms(1-3) len by (metis append_take_drop_id cb_closed_def cb_content_def cb_ok_def Cons_nth_drop_Suc)
  have "(t @ NUL # drop (Suc (length t)) (cb_str d))[n := NUL, n := ch] = (take n t @ ch # drop (n + 1) t) @ NUL # drop (Suc (length t)) (cb_str d)"
    using assms(5) by (simp add: list_update_append upd_conv_take_nth_drop)
  then have s: "(cb_str d)[n := ch] = (take n t @ ch # drop (n + 1) t) @ NUL # drop (Suc (length t)) (cb_str d)"
    using str by (metis list_update_overwrite)
  have "NUL \<notin> set (take n t @ ch # drop (n + 1) t)"
    using assms(4,6) by (auto simp: c_string_def dest: in_set_takeD in_set_dropD)
  then have "buf_string ((cb_str d)[n := ch]) = take n t @ ch # drop (n + 1) t"
    unfolding s buf_string_def by (subst takeWhile_append2) auto
  then show ?thesis using p1 p3 trunc_ok(2) [OF assms(1), of n] assms(3) by (auto simp: tr cstrbufGetStr_def)
qed

lemma cstrbufPushBack_unclosed_witness:
  "\<exists>d'. cstrbufPushBack (\<lambda>_. CHR ''?'') (Some (cstrbufTrunc (cstrbufNew 0 (Some ''2024.log'') 8) 2)) (CHR ''x'') = Some d'
     \<and> cb_content d' = ''20x'' \<and> buf_string (cstrbufGetStr (Some d')) = ''20x4.log''"
proof -
  have "cb_grown (cstrbufNew 0 (Some ''2024.log'') 8) ''2024.log''" using new_grown [of 8 "Some ''2024.log''" 0] by simp
  then show ?thesis
    using cstrbufPushBack_unclosed [of "cstrbufNew 0 (Some ''2024.log'') 8" "''2024.log''" 2 "CHR ''x''" "\<lambda>_. CHR ''?''"]
    by (simp add: cb_grown_def c_string_def NUL_def)
qed

text \<open>
  \<open>cstrbufSub\<close> replaces \<open>len\<close> characters of the source from \<open>startindex\<close> on by the first
  \<open>sublen\<close> characters of \<open>substr\<close>, in a block that is large enough and closed.
\<close>

lemma cstrbufSub_replaces:
  assumes "startindex + len \<le> length source" "sublen \<le> length substr"
    "length source + sublen < 2147483600"
  shows "cb_ok (cstrbufSub source startindex (int len) substr (int sublen))
    \<and> cb_content (cstrbufSub source startindex (int len) substr (int sublen)) =
        take startindex source @ take sublen substr @ drop (startindex + len) source
    \<and> cb_closed (cstrbufSub source startindex (int len) substr (int sublen))"
proof -
  let ?n = "length source - len + sublen" and ?rest = "drop (startindex + len) source"
  have sl: "cstr_length (Some source) (-1) = int (length source)" by (simp add: cstr_length_def)
  have i: "int (length source) - int startindex - int len = int (length source - startindex - len)"
    "int (length source) - int len + int sublen + 1 = int (?n + 1)"
    "int (length source) - int len + int sublen = int ?n" using assms(1) by linarith+
  have u: "ub4 (int (length source - startindex - len)) = length source - startindex - len"
    "ub4 (int (?n + 1)) = ?n + 1" "ub4 (int ?n) = ?n"
    "ub4 (int ?n + 1) = ?n + 1"
    using assms(3) by (simp_all del: of_nat_add of_nat_Suc add: nat_int nat_add_distrib)
  obtain e where e: "e = cstrbufNew 0 (Some ?rest) (length source - startindex - len)" by blast
  obtain r where r: "r = cstrbufNew (?n + 1) (Some source) startindex" by blast
  have ge: "cb_grown e ?rest" using new_grown [of "length ?rest" "Some ?rest" 0] assms by (simp add: e)
  have gr: "cb_grown r (take startindex source)" using new_grown [of startindex "Some source" "?n + 1"] assms by (simp add: r)
  have el: "get_bytes (cb_str e) 0 (cb_len e) = ?rest" using ge by (simp add: cb_grown_def cb_content_def get_bytes_def)
  have mx: "?n + 1 < cb_maxsz r"
    using alignsize_bounds [of "?n + 1"] assms by (auto simp: r cstrbufNew_def Let_def cstrbuf_error_size_len_def error_len)
  have rs: "length (cb_str r) = cb_maxsz r" "cb_maxsz r < 4294967296" "take startindex (cb_str r) = take startindex source"
    "cb_len r = startindex"
    using gr assms(1) content_length [of r] by (auto simp: cb_grown_def cb_ok_def cb_content_def)
  let ?m = "put_bytes (cb_str r) startindex (take sublen substr)"
  let ?m' = "put_bytes ?m (startindex + sublen) ?rest"
  have l1: "length ?m = cb_maxsz r" using mx rs(1) assms(1,2) by (simp add: mem_simps)
  then have l2: "length ?m' = cb_maxsz r" using mx assms(1,2) by (simp add: mem_simps)
  have t1: "take (startindex + sublen) ?m = take startindex source @ take sublen substr"
    using rs assms(1,2) mx by (simp add: put_bytes_def)
  have t: "take ?n ?m' = take startindex source @ take sublen substr @ ?rest"
  proof -
    have n: "?n = startindex + sublen + length ?rest" using assms(1) by simp
    have "startindex + sublen + length ?rest \<le> length ?m" using n l1 mx by linarith
    from take_put_bytes [OF this] t1 show ?thesis unfolding n by simp
  qed
  have "nat (int startindex + int len) = startindex + len" "nat (int startindex + int sublen) = startindex + sublen"
    by linarith+
  then have "cstrbufSub source startindex (int len) substr (int sublen) = r\<lparr>cb_len := ?n, cb_str := ?m'[?n := NUL]\<rparr>"
    unfolding cstrbufSub_def sl Let_def i u using el by (simp only: e [symmetric] r [symmetric] nat_int src_bytes_take [OF assms(2)])
  also have "\<dots> = \<lparr>cb_maxsz = cb_maxsz r, cb_len = ?n, cb_str = ?m'[?n := NUL]\<rparr>" by simp
  finally show ?thesis using close_at [OF l2 _ rs(2) t] mx by simp
qed

lemma cstrbufSub_replaces_witness:
  "cb_content (cstrbufSub ''log-YYYY.txt'' 4 4 ''2024-01'' 4) = ''log-2024.txt''"
  using cstrbufSub_replaces [of 4 4 "''log-YYYY.txt''" 4 "''2024-01''"] by simp

end
