(* ===== verification/RollingFile.thy ===== *)
theory RollingFile
  imports CStrBuf
begin

text \<open>
  \<open>source/clogger/rollingfile.c\<close> and the file functions of \<open>source/common/fileut.h\<close> it calls, on
  the POSIX calls of the Linux build.  The regular files of the machine are a map from path names to
  contents.  An open file is named by its path: the code closes its file before it renames or removes
  it, and nobody else touches the files of a logger.  Path names are \<open>cstrbuf\<close>s of a few hundred
  bytes; they are modelled by their texts, which is what the functions of \<open>CStrBuf\<close> compute.
\<close>

section \<open>Files (\<open>fileut.h\<close>)\<close>

type_synonym fsys = "string \<Rightarrow> byte list option"

datatype filehandle_t = Filehandle_invalid | Stdin | File string

text \<open>
  \<open>open(path, O_WRONLY | O_CREAT | O_EXCL)\<close>: \<open>can\<close> says where the directory and the permissions
  allow a new file.
\<close>

definition file_create :: "(string \<Rightarrow> bool) \<Rightarrow> fsys \<Rightarrow> string \<Rightarrow> filehandle_t \<times> fsys" where
  "file_create can fs path =
     (if fs path = None \<and> can path then (File path, fs(path \<mapsto> [])) else (Filehandle_invalid, fs))"

text \<open>\<open>file_close\<close>: the cleared handle and the descriptors given to \<open>close\<close>.\<close>

definition file_close :: "filehandle_t \<Rightarrow> filehandle_t \<times> filehandle_t list" where
  "file_close hf = (if hf \<noteq> Filehandle_invalid then (Filehandle_invalid, [hf]) else (hf, []))"

definition pathfile_exists :: "fsys \<Rightarrow> string \<Rightarrow> bool" where
  "pathfile_exists fs path \<longleftrightarrow> fs path \<noteq> None"

definition pathfile_remove :: "fsys \<Rightarrow> string \<Rightarrow> fsys" where
  "pathfile_remove fs path = fs(path := None)"

definition pathfile_move :: "fsys \<Rightarrow> string \<Rightarrow> string \<Rightarrow> fsys" where
  "pathfile_move fs old new = (case fs old of None \<Rightarrow> fs | Some c \<Rightarrow> fs(old := None, new \<mapsto> c))"

text \<open>
  \<open>file_writebytes\<close>; \<open>rets\<close> are the results of the \<open>write\<close> calls on an open file, one after the other
  (a count of bytes written, or -1).  \<open>None\<close>: the loop goes on after the last result.
\<close>

fun file_writebytes :: "int list \<Rightarrow> fsys \<Rightarrow> filehandle_t \<Rightarrow> byte list \<Rightarrow> (int \<times> fsys) option" where
  "file_writebytes rets fs hf [] = Some (0, fs)"
| "file_writebytes rets fs (File p) (b # bs) =
     (case rets of
        [] \<Rightarrow> None
      | cbret # rets' \<Rightarrow>
          if cbret = -1 then Some (-1, fs)
          else if cbret > 0 then
            file_writebytes rets' (fs(p \<mapsto> the (fs p) @ take (nat cbret) (b # bs))) (File p) (drop (nat cbret) (b # bs))
          else file_writebytes rets' fs (File p) (b # bs))"
| "file_writebytes rets fs hf (b # bs) = Some (-1, fs)"

section \<open>The rolling file\<close>

datatype rollingtime_t = ROLLING_TM_NONE | ROLLING_TM_MIN_1 | ROLLING_TM_MIN_5 | ROLLING_TM_MIN_10 |
  ROLLING_TM_MIN_30 | ROLLING_TM_HOUR | ROLLING_TM_DAY | ROLLING_TM_MON | ROLLING_TM_YEAR

definition rots :: "(string \<times> rollingtime_t) list" where
  "rots =
     [(''min'', ROLLING_TM_MIN_1), (''1min'', ROLLING_TM_MIN_1), (''5m'', ROLLING_TM_MIN_5), (''5min'', ROLLING_TM_MIN_5),
      (''10m'', ROLLING_TM_MIN_10), (''10min'', ROLLING_TM_MIN_10), (''30m'', ROLLING_TM_MIN_30),
      (''30min'', ROLLING_TM_MIN_30), (''hour'', ROLLING_TM_HOUR), (''day'', ROLLING_TM_DAY), (''mon'', ROLLING_TM_MON),
      (''year'', ROLLING_TM_YEAR)]"

definition rollingtime_from_string :: "string option \<Rightarrow> int \<Rightarrow> rollingtime_t option" where
  "rollingtime_from_string rotstring len =
     map_option snd (List.find (\<lambda>(r, _). cstr_compare_len rotstring len (Some r) (cstr_length (Some r) 8) True = 0) rots)"

record rollingfile_t =
  timepolicy :: rollingtime_t
  maxfilesize :: nat
  maxfilecount :: nat
  pathprefix :: string
  nameprefix :: string
  pathname :: string
  datesuffix :: "string option"
  loggingfile :: "string option"
  appendfileno :: nat
  fhlogging :: filehandle_t
  offsetbytes :: nat
  rollingappend :: bool

text \<open>The rolling file inside a logger allocated by \<open>mem_alloc_zero\<close>: descriptor 0 is standard input.\<close>

definition rollingfile_zero :: rollingfile_t where
  "rollingfile_zero = \<lparr> timepolicy = ROLLING_TM_NONE, maxfilesize = 0, maxfilecount = 0, pathprefix = [], nameprefix = [],
     pathname = [], datesuffix = None, loggingfile = None, appendfileno = 0, fhlogging = Stdin, offsetbytes = 0,
     rollingappend = False \<rparr>"

definition rollingfile_create :: "(string \<Rightarrow> bool) \<Rightarrow> fsys \<Rightarrow> string \<Rightarrow> filehandle_t \<times> fsys" where
  "rollingfile_create can fs path = file_create can fs path"

definition rollingfile_exists :: "fsys \<Rightarrow> string \<Rightarrow> bool" where
  "rollingfile_exists fs path = pathfile_exists fs path"

text \<open>The text of \<open>"%.*s.%d"\<close>.\<close>

definition numbered :: "string \<Rightarrow> nat \<Rightarrow> string" where
  "numbered logging i = logging @ ''.'' @ fmt_d 0 (int i)"

text \<open>The loop \<open>while (i-- > 1)\<close>: \<open>Suc i\<close> is the value of \<open>i\<close> inside.\<close>

fun update_loop :: "string \<Rightarrow> fsys \<Rightarrow> nat \<Rightarrow> fsys" where
  "update_loop logging fs 0 = fs"
| "update_loop logging fs (Suc i) =
     (let filefrom = (if Suc i > 1 then numbered logging (Suc i - 1) else logging);
          fs' = (if rollingfile_exists fs filefrom then
                   (let fileto = numbered logging (Suc i);
                        fs1 = (if rollingfile_exists fs fileto then pathfile_remove fs fileto else fs)
                    in pathfile_move fs1 filefrom fileto)
                 else fs)
      in update_loop logging fs' i)"

definition rollingfile_update :: "(string \<Rightarrow> bool) \<Rightarrow> fsys \<Rightarrow> rollingfile_t \<Rightarrow> fsys \<times> rollingfile_t" where
  "rollingfile_update can fs rof =
     (let logging = the (loggingfile rof);
          rof1 = rof\<lparr>fhlogging := fst (file_close (fhlogging rof))\<rparr>
      in if rollingappend rof then
           (let no = (appendfileno rof + 1) mod maxfilecount rof;
                nextlogging = (if no > 0 then numbered logging no else logging);
                (fh, fs') = rollingfile_create can (pathfile_remove fs nextlogging) nextlogging
            in (fs', rof1\<lparr>appendfileno := no, fhlogging := fh, offsetbytes := 0\<rparr>))
         else
           (let fs1 = update_loop logging fs (maxfilecount rof - 1);
                (fh, fs') = rollingfile_create can (pathfile_remove fs1 logging) logging
            in (fs', rof1\<lparr>fhlogging := fh, offsetbytes := 0\<rparr>)))"

text \<open>The common end of the two branches of \<open>rollingfile_apply\<close>: a new logging file.\<close>

definition start_logging :: "(string \<Rightarrow> bool) \<Rightarrow> fsys \<Rightarrow> rollingfile_t \<Rightarrow> string \<Rightarrow> fsys \<times> rollingfile_t" where
  "start_logging can fs rof pathfile =
     (let (fh, fs') = rollingfile_create can fs pathfile;
          rof' = rof\<lparr>loggingfile := Some pathfile, fhlogging := fh, offsetbytes := 0\<rparr>
      in if fh = Filehandle_invalid \<and> rollingfile_exists fs' pathfile then rollingfile_update can fs' rof' else (fs', rof'))"

definition rollingfile_apply :: "(string \<Rightarrow> bool) \<Rightarrow> fsys \<Rightarrow> rollingfile_t \<Rightarrow> string \<Rightarrow> fsys \<times> rollingfile_t" where
  "rollingfile_apply can fs rof datemin =
     (let suffix = (case datesuffix rof of None \<Rightarrow> [] | Some s \<Rightarrow> s);
          n = length (pathname rof);
          (fs1, rof1) =
            (if datemin \<noteq> [] then
               (if loggingfile rof = None \<or>
                   \<not> cstr_startwith False (Some (drop n (the (loggingfile rof)))) (int (length (the (loggingfile rof))) - int n)
                       (Some datemin) (int (length datemin))
                then start_logging can fs rof (pathname rof @ datemin @ suffix)
                else (fs, rof))
             else
               (if loggingfile rof = None
                then start_logging can fs rof (pathname rof @ (if datesuffix rof \<noteq> None then ''0'' @ suffix else []))
                else (fs, rof)))
      in if offsetbytes rof1 \<ge> maxfilesize rof1 then rollingfile_update can fs1 rof1 else (fs1, rof1))"

definition ROF_DATE_SYMBOL :: string where
  "ROF_DATE_SYMBOL = ''<DATE>''"

definition rollingfile_init :: "rollingfile_t \<Rightarrow> string \<Rightarrow> string \<Rightarrow> rollingfile_t" where
  "rollingfile_init rof pathprefix0 nameprefix0 =
     (let sep = ''/'';
          pp = (if \<not> cstr_endwith False (Some pathprefix0) (int (length pathprefix0)) (Some sep) 1 \<and>
                   \<not> cstr_endwith False (Some pathprefix0) (int (length pathprefix0)) (Some ''/'') 1
                then pathprefix0 @ sep else pathprefix0);
          rof' = rof\<lparr>pathprefix := pp, nameprefix := nameprefix0\<rparr>
      in if cstr_containwith False (Some nameprefix0) (int (length nameprefix0)) (Some ROF_DATE_SYMBOL) 6 \<noteq> -1 then
           (let suffix = drop (the (strstr nameprefix0 ROF_DATE_SYMBOL) + 6) nameprefix0
            in rof'\<lparr>datesuffix := Some suffix,
                    pathname := pp @ take (length nameprefix0 - length suffix - 6) nameprefix0\<rparr>)
         else rof'\<lparr>datesuffix := None, pathname := pp @ nameprefix0\<rparr>)"

text \<open>\<open>rollingfile_uninit\<close>: what is left of the rolling file, and the closed descriptors.\<close>

definition rollingfile_uninit :: "rollingfile_t \<Rightarrow> rollingfile_t \<times> filehandle_t list" where
  "rollingfile_uninit rof =
     (case file_close (fhlogging rof) of (fh, closed) \<Rightarrow>
        (rof\<lparr>fhlogging := fh, pathprefix := [], nameprefix := [], datesuffix := None, pathname := [], loggingfile := None\<rparr>, closed))"

definition rollingfile_set_timepolicy :: "rollingfile_t \<Rightarrow> rollingtime_t \<Rightarrow> rollingfile_t" where
  "rollingfile_set_timepolicy rof policy = rof\<lparr>timepolicy := policy\<rparr>"

text \<open>\<open>CHKCONFIG_INT_VALUE\<close> on an unsigned variable whose -1 is \<open>umax\<close>.\<close>

definition CHKCONFIG_INT_VALUE :: "nat \<Rightarrow> nat \<Rightarrow> nat \<Rightarrow> nat \<Rightarrow> nat \<Rightarrow> nat" where
  "CHKCONFIG_INT_VALUE umax defval minval maxval var =
     (if var = 0 then defval else if var = umax then maxval else if var < minval then minval
      else if var > maxval then maxval else var)"

definition rollingfile_set_sizepolicy :: "rollingfile_t \<Rightarrow> nat \<Rightarrow> nat \<Rightarrow> bool \<Rightarrow> rollingfile_t" where
  "rollingfile_set_sizepolicy rof maxsize maxcount useappend =
     rof\<lparr>maxfilesize := CHKCONFIG_INT_VALUE 18446744073709551615 10485760 1048576 68719476736 maxsize,
         maxfilecount := CHKCONFIG_INT_VALUE 4294967295 10 1 1000000 maxcount,
         rollingappend := useappend, appendfileno := 0\<rparr>"

definition rollingfile_write ::
  "(string \<Rightarrow> bool) \<Rightarrow> int list \<Rightarrow> fsys \<Rightarrow> rollingfile_t \<Rightarrow> string \<Rightarrow> byte list \<Rightarrow> (int \<times> fsys \<times> rollingfile_t) option" where
  "rollingfile_write can rets fs rof datemin message =
     (case rollingfile_apply can fs rof datemin of (fs1, rof1) \<Rightarrow>
        (case file_writebytes rets fs1 (fhlogging rof1) message of
           None \<Rightarrow> None
         | Some (err, fs2) \<Rightarrow>
             Some (err, fs2, if err = 0 then rof1\<lparr>offsetbytes := size_wrap (offsetbytes rof1 + length message)\<rparr> else rof1)))"

section \<open>Generations\<close>

text \<open>The files of one logging path: number 0 is the file being written, then the older ones.\<close>

definition gen :: "string \<Rightarrow> nat \<Rightarrow> string" where
  "gen logging j = (if j = 0 then logging else numbered logging j)"

lemma fmt_d_inj: "fmt_d 0 (int i) = fmt_d 0 (int j) \<longleftrightarrow> i = j"
  by (metis fmt_d_0 nat_int number_dec of_nat_less_0_iff)

lemma gen_inj [simp]: "gen logging i = gen logging j \<longleftrightarrow> i = j"
proof -
  have "numbered logging k \<noteq> logging" for k by (simp add: numbered_def)
  then show ?thesis by (auto simp: gen_def numbered_def fmt_d_inj)
qed

lemma gen_0 [simp]: "gen logging 0 = logging"
  by (simp add: gen_def)

lemma update_loop_step:
  "update_loop logging fs (Suc i) = update_loop logging
     (fs(gen logging i := None,
         gen logging (Suc i) := if fs (gen logging i) = None then fs (gen logging (Suc i)) else fs (gen logging i))) i"
proof -
  have f: "(if Suc i > 1 then numbered logging (Suc i - 1) else logging) = gen logging i"
    "numbered logging (Suc i) = gen logging (Suc i)"
    by (auto simp: gen_def)
  show ?thesis unfolding update_loop.simps f Let_def
    by (rule arg_cong [where f = "\<lambda>h. update_loop logging h i"], rule ext)
      (auto simp: rollingfile_exists_def pathfile_exists_def pathfile_remove_def pathfile_move_def split: option.splits)
qed

lemma update_loop_gen:
  "update_loop logging fs n (gen logging j) =
     (if j > n then fs (gen logging j)
      else if j = 0 then (if n = 0 then fs (gen logging 0) else None)
      else if j = n then (if fs (gen logging (n - 1)) = None then fs (gen logging n) else fs (gen logging (n - 1)))
      else fs (gen logging (j - 1)))"
proof (induction n arbitrary: fs)
  case (Suc n)
  let ?f = "\<lambda>j. fs (gen logging j)"
  have e: "(fs(gen logging n := None, gen logging (Suc n) := if ?f n = None then ?f (Suc n) else ?f n)) (gen logging k) =
      (if k = Suc n then (if ?f n = None then ?f (Suc n) else ?f n) else if k = n then None else ?f k)" for k
    by simp
  consider "j > Suc n" | "j = Suc n" | "j = 0" | "0 < j" "j = n" | "0 < j" "j < n" by linarith
  then show ?case unfolding update_loop_step Suc e by cases (simp_all del: gen_0, linarith+)
qed simp

lemma update_loop_other:
  "(\<And>j. p \<noteq> gen logging j) \<Longrightarrow> update_loop logging fs n p = fs p"
  by (induction n arbitrary: fs) (simp_all add: update_loop_step del: update_loop.simps(2))

text \<open>\<open>holds logging fs g\<close>: the files of \<open>logging\<close> are exactly the contents \<open>g\<close>, the newest first.\<close>

definition holds :: "string \<Rightarrow> fsys \<Rightarrow> byte list list \<Rightarrow> bool" where
  "holds logging fs g \<longleftrightarrow> (\<forall>j. fs (gen logging j) = (if j < length g then Some (g ! j) else None))"

text \<open>What the code promises on generations.\<close>

definition roll :: "nat \<Rightarrow> byte list list \<Rightarrow> byte list list" where
  "roll count g = take count ([] # g)"

definition log_step :: "nat \<Rightarrow> nat \<Rightarrow> byte list \<Rightarrow> byte list list \<Rightarrow> byte list list" where
  "log_step maxsize count m g =
     (let g' = (if length (hd g) \<ge> maxsize then roll count g else g) in (hd g' @ m) # tl g')"

text \<open>A rolling file (not in append mode) that writes into the newest of the generations \<open>g\<close>.\<close>

definition rolling :: "string \<Rightarrow> fsys \<Rightarrow> rollingfile_t \<Rightarrow> byte list list \<Rightarrow> bool" where
  "rolling logging fs rof g \<longleftrightarrow> loggingfile rof = Some logging \<and> \<not> rollingappend rof \<and> holds logging fs g \<and>
     g \<noteq> [] \<and> length g \<le> maxfilecount rof \<and> fhlogging rof = File logging \<and> offsetbytes rof = length (hd g)"

lemma update_rolls:
  assumes "loggingfile rof = Some logging" "\<not> rollingappend rof" "holds logging fs g" "length g \<le> maxfilecount rof"
    "0 < maxfilecount rof" "can logging"
  shows "case rollingfile_update can fs rof of (fs', rof') \<Rightarrow>
    rolling logging fs' rof' (roll (maxfilecount rof) g) \<and> maxfilecount rof' = maxfilecount rof \<and>
    maxfilesize rof' = maxfilesize rof \<and> pathname rof' = pathname rof \<and> datesuffix rof' = datesuffix rof"
proof -
  let ?n = "maxfilecount rof - 1"
  let ?fs = "(update_loop logging fs ?n)(logging \<mapsto> [])"
  have u: "rollingfile_update can fs rof = (?fs, rof\<lparr>fhlogging := File logging, offsetbytes := 0\<rparr>)"
    using assms(1,2,6) by (simp add: rollingfile_update_def rollingfile_create_def file_create_def pathfile_remove_def)
  have "?fs (gen logging j) = (if j < length (roll (maxfilecount rof) g) then Some (roll (maxfilecount rof) g ! j) else None)" for j
  proof (cases "j = 0")
    case True
    then show ?thesis using assms(5) by (simp add: roll_def)
  next
    case False
    then have "gen logging j \<noteq> logging" using gen_inj [of logging j 0] by simp
    then have "?fs (gen logging j) = update_loop logging fs ?n (gen logging j)" by simp
    also have "\<dots> = (if j < length (roll (maxfilecount rof) g) then Some (roll (maxfilecount rof) g ! j) else None)"
      using False assms(3-5) by (auto simp: update_loop_gen holds_def roll_def nth_Cons' simp del: gen_0)
    finally show ?thesis .
  qed
  then show ?thesis using assms(1,2,5) u by (simp add: rolling_def holds_def roll_def)
qed

lemma roll_length: "0 < n \<Longrightarrow> roll n g \<noteq> [] \<and> length (roll n g) \<le> n"
  by (simp add: roll_def)

text \<open>The fields an update leaves alone.\<close>

definition same_setup :: "rollingfile_t \<Rightarrow> rollingfile_t \<Rightarrow> bool" where
  "same_setup rof rof' \<longleftrightarrow> maxfilecount rof' = maxfilecount rof \<and> maxfilesize rof' = maxfilesize rof \<and>
     pathname rof' = pathname rof \<and> datesuffix rof' = datesuffix rof"

definition log_path :: "rollingfile_t \<Rightarrow> string \<Rightarrow> string" where
  "log_path rof d =
     (let suffix = (case datesuffix rof of None \<Rightarrow> [] | Some s \<Rightarrow> s)
      in pathname rof @ (if d \<noteq> [] then d @ suffix else if datesuffix rof \<noteq> None then ''0'' @ suffix else []))"

definition first_gens :: "nat \<Rightarrow> byte list list \<Rightarrow> byte list list" where
  "first_gens count g = (if g = [] then [[]] else roll count g)"

lemma start_rolls:
  assumes "\<not> rollingappend rof" "holds logging fs g" "length g \<le> maxfilecount rof" "0 < maxfilecount rof" "can logging"
  shows "case start_logging can fs rof logging of (fs', rof') \<Rightarrow>
    rolling logging fs' rof' (first_gens (maxfilecount rof) g) \<and> same_setup rof rof'"
proof (cases g)
  case Nil
  then have n: "fs (gen logging j) = None" for j using assms(2) by (simp add: holds_def)
  then have "fs logging = None" using n [of 0] by simp
  then have "start_logging can fs rof logging =
      (fs(logging \<mapsto> []), rof\<lparr>loggingfile := Some logging, fhlogging := File logging, offsetbytes := 0\<rparr>)"
    using assms(5) by (simp add: start_logging_def rollingfile_create_def file_create_def)
  moreover have "(fs(logging \<mapsto> [])) (gen logging j) = (if j = 0 then Some [] else None)" for j
    using n [of j] gen_inj [of logging j 0] by (simp del: gen_inj)
  ultimately show ?thesis using Nil assms(1,4)
    by (simp add: rolling_def holds_def first_gens_def same_setup_def Suc_le_eq)
next
  case (Cons a g')
  then have "fs logging \<noteq> None" using assms(2) [unfolded holds_def, rule_format, of 0] by simp
  then have s: "start_logging can fs rof logging =
      rollingfile_update can fs (rof\<lparr>loggingfile := Some logging, fhlogging := Filehandle_invalid, offsetbytes := 0\<rparr>)"
    by (auto simp add: start_logging_def rollingfile_create_def file_create_def rollingfile_exists_def pathfile_exists_def)
  show ?thesis unfolding s
    using update_rolls [where rof = "rof\<lparr>loggingfile := Some logging, fhlogging := Filehandle_invalid, offsetbytes := 0\<rparr>",
        OF _ _ assms(2)] assms Cons
    by (auto simp: first_gens_def same_setup_def)
qed

lemma same_day: "cstr_startwith False (Some (drop (length p) (p @ d @ r))) (int (length (p @ d @ r)) - int (length p)) (Some d) (int (length d))"
  by (simp add: cstr_startwith_def mem_eq_iff)

lemma apply_running:
  assumes "rolling (log_path rof d) fs rof g" "0 < maxfilecount rof" "can (log_path rof d)"
  shows "case rollingfile_apply can fs rof d of (fs', rof') \<Rightarrow>
    rolling (log_path rof d) fs' rof' (if length (hd g) \<ge> maxfilesize rof then roll (maxfilecount rof) g else g) \<and> same_setup rof rof'"
proof -
  have lf: "loggingfile rof = Some (log_path rof d)" using assms(1) by (simp add: rolling_def)
  have "d \<noteq> [] \<Longrightarrow> log_path rof d = pathname rof @ d @ (case datesuffix rof of None \<Rightarrow> [] | Some s \<Rightarrow> s)"
    by (simp add: log_path_def)
  then have stay: "d \<noteq> [] \<Longrightarrow> cstr_startwith False (Some (drop (length (pathname rof)) (log_path rof d)))
      (int (length (log_path rof d)) - int (length (pathname rof))) (Some d) (int (length d))"
    using same_day by metis
  have a: "rollingfile_apply can fs rof d =
      (if offsetbytes rof \<ge> maxfilesize rof then rollingfile_update can fs rof else (fs, rof))"
    using stay lf by (simp add: rollingfile_apply_def Let_def)
  show ?thesis unfolding a using assms update_rolls [OF lf, of fs g can]
    by (auto simp: rolling_def same_setup_def)
qed

lemma apply_first:
  assumes "loggingfile rof = None" "\<not> rollingappend rof" "0 < maxfilecount rof" "0 < maxfilesize rof"
    "holds (log_path rof d) fs g" "length g \<le> maxfilecount rof" "can (log_path rof d)"
  shows "case rollingfile_apply can fs rof d of (fs', rof') \<Rightarrow>
    rolling (log_path rof d) fs' rof' (first_gens (maxfilecount rof) g) \<and> same_setup rof rof'"
proof -
  obtain fs1 rof1 where st: "start_logging can fs rof (log_path rof d) = (fs1, rof1)" by force
  with start_rolls [where rof = rof and can = can and logging = "log_path rof d" and fs = fs, OF assms(2,5,6,3,7)] have r: "rolling (log_path rof d) fs1 rof1 (first_gens (maxfilecount rof) g)"
    "same_setup rof rof1" by auto
  then have "offsetbytes rof1 = 0" using assms(3) by (auto simp: rolling_def first_gens_def roll_def take_Cons')
  then have "rollingfile_apply can fs rof d = (fs1, rof1)"
    using assms(1,4) st r(2) by (auto simp: rollingfile_apply_def log_path_def Let_def same_setup_def split: option.splits)
  with r show ?thesis by simp
qed

lemma writebytes_success:
  assumes "file_writebytes rets fs (File p) bs = Some (err, fs')" "fs p = Some c"
  shows "\<exists>k. k \<le> length bs \<and> (err = 0 \<and> k = length bs \<or> err = -1) \<and> fs' = fs(p \<mapsto> c @ take k bs)"
  using assms
proof (induction rets fs "File p" bs arbitrary: c rule: file_writebytes.induct)
  case (2 rets fs b bs)
  obtain r rs where rets: "rets = r # rs" using "2.prems"(1) by (cases rets) auto
  consider "r = -1" | "r > 0" | "r \<noteq> -1" "\<not> r > 0" by linarith
  then show ?case
  proof cases
    case 1
    then have "fs' = fs" "err = -1" using "2.prems" rets by auto
    then show ?thesis using "2.prems"(2) by (intro exI [of _ 0]) (auto simp: fun_upd_idem_iff)
  next
    case 2
    have m: "r \<noteq> -1" using 2 by simp
    let ?t = "take (nat r) (b # bs)" and ?d = "drop (nat r) (b # bs)"
    have run: "file_writebytes rs (fs(p \<mapsto> c @ ?t)) (File p) ?d = Some (err, fs')"
      using "2.prems" rets 2 by simp
    then have "\<exists>k. k \<le> length ?d \<and> (err = 0 \<and> k = length ?d \<or> err = -1) \<and> fs' = (fs(p \<mapsto> c @ ?t))(p \<mapsto> (c @ ?t) @ take k ?d)"
      using "2.hyps"(1) [OF rets m 2] "2.prems"(2) by simp
    then obtain k where k: "k \<le> length ?d" "err = 0 \<and> k = length ?d \<or> err = -1" "fs' = fs(p \<mapsto> c @ ?t @ take k ?d)"
      by auto
    let ?K = "min (nat r + k) (length (b # bs))"
    have "?t @ take k ?d = take (nat r + k) (b # bs)" by (rule take_add [symmetric])
    moreover have "take (nat r + k) (b # bs) = take ?K (b # bs)" unfolding min_def by simp
    ultimately have "fs' = fs(p \<mapsto> c @ take ?K (b # bs))" using k(3) by argo
    moreover have "?K \<le> length (b # bs)" "k = length ?d \<Longrightarrow> ?K = length (b # bs)" by simp_all
    ultimately show ?thesis using k(2) by blast
  next
    case 3
    then show ?thesis using "2.hyps"(2) [OF rets] "2.prems" rets by simp
  qed
qed (auto simp: fun_upd_idem_iff)

lemma write_running:
  assumes "rolling logging fs1 rof1 g" "file_writebytes rets fs1 (fhlogging rof1) m = Some (0, fs2)"
    "length (hd g) + length m < 18446744073709551616"
  shows "rolling logging fs2 (rof1\<lparr>offsetbytes := size_wrap (offsetbytes rof1 + length m)\<rparr>) ((hd g @ m) # tl g)"
proof -
  obtain a r where g: "g = a # r" using assms(1) by (cases g) (auto simp: rolling_def)
  have at: "fs1 (gen logging j) = (if j < length g then Some (g ! j) else None)" for j
    using assms(1) by (simp add: rolling_def holds_def)
  have "fs1 logging = Some a" using at [of 0] g by simp
  with writebytes_success [of rets fs1 logging m 0 fs2] assms have fs2: "fs2 = fs1(logging \<mapsto> a @ m)"
    by (auto simp: rolling_def)
  have "fs2 (gen logging j) = (if j < length (((hd g @ m) # tl g)) then Some (((hd g @ m) # tl g) ! j) else None)" for j
  proof (cases j)
    case (Suc k)
    then have "gen logging j \<noteq> logging" using gen_inj [of logging j 0] by simp
    then show ?thesis using at [of j] g Suc by (simp add: fs2)
  qed (simp add: fs2 g)
  then show ?thesis using assms(1,3) g by (simp add: rolling_def holds_def)
qed

text \<open>Writing messages one after the other, all with the same date text, as long as they succeed.\<close>

fun log_all :: "(string \<Rightarrow> bool) \<Rightarrow> string \<Rightarrow> (int list \<times> byte list) list \<Rightarrow> fsys \<Rightarrow> rollingfile_t \<Rightarrow> (fsys \<times> rollingfile_t) option" where
  "log_all can d [] fs rof = Some (fs, rof)"
| "log_all can d ((rets, m) # ms) fs rof =
     (case rollingfile_write can rets fs rof d m of
        None \<Rightarrow> None
      | Some (err, fs', rof') \<Rightarrow> if err = 0 then log_all can d ms fs' rof' else None)"

definition msg_fits :: "rollingfile_t \<Rightarrow> byte list \<Rightarrow> bool" where
  "msg_fits rof m \<longleftrightarrow> maxfilesize rof + length m < 18446744073709551616"

lemma log_all_running:
  assumes "log_all can d ms fs rof = Some (fs', rof')" "rolling (log_path rof d) fs rof g" "0 < maxfilecount rof"
    "0 < maxfilesize rof" "can (log_path rof d)" "list_all (msg_fits rof) (map snd ms)"
  shows "rolling (log_path rof d) fs' rof' (fold (log_step (maxfilesize rof) (maxfilecount rof)) (map snd ms) g) \<and> same_setup rof rof'"
  using assms
proof (induction ms arbitrary: fs rof g)
  case Nil
  then show ?case by (simp add: same_setup_def)
next
  case (Cons x ms)
  obtain rets m where x: "x = (rets, m)" by force
  let ?g = "if length (hd g) \<ge> maxfilesize rof then roll (maxfilecount rof) g else g"
  obtain fs1 rof1 where ap: "rollingfile_apply can fs rof d = (fs1, rof1)" by force
  with apply_running [where can = can, OF Cons.prems(2,3,5)] have r1: "rolling (log_path rof d) fs1 rof1 ?g" and s1: "same_setup rof rof1" by auto
  obtain fs2 where w: "file_writebytes rets fs1 (fhlogging rof1) m = Some (0, fs2)"
    and rest: "log_all can d ms fs2 (rof1\<lparr>offsetbytes := size_wrap (offsetbytes rof1 + length m)\<rparr>) = Some (fs', rof')"
    using Cons.prems(1) x ap by (auto simp: rollingfile_write_def split: option.splits prod.splits if_splits)
  let ?r = "rof1\<lparr>offsetbytes := size_wrap (offsetbytes rof1 + length m)\<rparr>"
  have "length (hd ?g) < maxfilesize rof" using Cons.prems(3,4) by (auto simp: roll_def take_Cons')
  then have "length (hd ?g) + length m < 18446744073709551616" using Cons.prems(6) x by (simp add: msg_fits_def)
  from write_running [OF r1 w this] have "rolling (log_path rof d) fs2 ?r ((hd ?g @ m) # tl ?g)" .
  moreover have "(hd ?g @ m) # tl ?g = log_step (maxfilesize rof) (maxfilecount rof) m g" by (simp add: log_step_def Let_def)
  moreover have e: "log_path ?r d = log_path rof d" "maxfilesize ?r = maxfilesize rof" "maxfilecount ?r = maxfilecount rof"
    "pathname ?r = pathname rof" "datesuffix ?r = datesuffix rof"
    using s1 by (simp_all add: same_setup_def log_path_def Let_def)
  moreover have "list_all (msg_fits ?r) (map snd ms)"
    using Cons.prems(6) e(2) by (simp add: msg_fits_def [abs_def])
  ultimately have "rolling (log_path ?r d) fs' rof' (fold (log_step (maxfilesize ?r) (maxfilecount ?r)) (map snd ms)
      (log_step (maxfilesize rof) (maxfilecount rof) m g)) \<and> same_setup ?r rof'"
    using Cons.IH [OF rest, of "log_step (maxfilesize rof) (maxfilecount rof) m g"] Cons.prems(3-5) by simp
  then show ?case using x e by (simp add: same_setup_def)
qed

lemma rollingfile_refines:
  assumes "loggingfile rof = None" "\<not> rollingappend rof" "0 < maxfilecount rof" "0 < maxfilesize rof"
    "holds (log_path rof d) fs g" "length g \<le> maxfilecount rof" "can (log_path rof d)"
    "ms \<noteq> []" "list_all (msg_fits rof) (map snd ms)" "log_all can d ms fs rof = Some (fs', rof')"
  shows "rolling (log_path rof d) fs' rof'
    (fold (log_step (maxfilesize rof) (maxfilecount rof)) (map snd ms) (first_gens (maxfilecount rof) g))"
proof -
  obtain rets m ms' where ms: "ms = (rets, m) # ms'" using assms(8) by (cases ms) auto
  let ?g = "first_gens (maxfilecount rof) g"
  obtain fs1 rof1 where ap: "rollingfile_apply can fs rof d = (fs1, rof1)" by force
  with apply_first [where can = can, OF assms(1-7)] have r1: "rolling (log_path rof d) fs1 rof1 ?g" and s1: "same_setup rof rof1" by auto
  have h: "hd ?g = []" using assms(3) by (simp add: first_gens_def roll_def take_Cons')
  obtain fs2 where w: "file_writebytes rets fs1 (fhlogging rof1) m = Some (0, fs2)"
    and rest: "log_all can d ms' fs2 (rof1\<lparr>offsetbytes := size_wrap (offsetbytes rof1 + length m)\<rparr>) = Some (fs', rof')"
    using assms(10) ms ap by (auto simp: rollingfile_write_def split: option.splits prod.splits if_splits)
  let ?r = "rof1\<lparr>offsetbytes := size_wrap (offsetbytes rof1 + length m)\<rparr>"
  have "length (hd ?g) + length m < 18446744073709551616" using assms(9) ms h by (simp add: msg_fits_def)
  from write_running [OF r1 w this] have r2: "rolling (log_path rof d) fs2 ?r ((hd ?g @ m) # tl ?g)" .
  have st: "(hd ?g @ m) # tl ?g = log_step (maxfilesize rof) (maxfilecount rof) m ?g" using h assms(4) by (simp add: log_step_def Let_def)
  have e: "log_path ?r d = log_path rof d" "maxfilesize ?r = maxfilesize rof" "maxfilecount ?r = maxfilecount rof"
    using s1 by (simp_all add: same_setup_def log_path_def Let_def)
  have "list_all (msg_fits ?r) (map snd ms')" using assms(9) e(2) ms by (simp add: msg_fits_def [abs_def])
  then show ?thesis using log_all_running [OF rest, of "(hd ?g @ m) # tl ?g"] r2 e assms(3,4,7) ms st by simp
qed

text \<open>What the specification guarantees of the generations after the messages \<open>all\<close>.\<close>

definition kept :: "nat \<Rightarrow> nat \<Rightarrow> nat \<Rightarrow> byte list \<Rightarrow> byte list list \<Rightarrow> bool" where
  "kept maxsize count M all g \<longleftrightarrow> g \<noteq> [] \<and> length g \<le> count \<and> list_all (\<lambda>c. length c < maxsize + M) g \<and>
     list_all (\<lambda>c. length c \<ge> maxsize) (tl g) \<and> suffix (concat (rev g)) all \<and>
     (length all < maxsize * count \<longrightarrow> concat (rev g) = all)"

lemma length_concat_ge: "list_all (\<lambda>c. length c \<ge> k) g \<Longrightarrow> k * length g \<le> length (concat g)"
  by (induction g) auto

lemma kept_log_step:
  assumes "kept maxsize count M all g" "0 < maxsize" "length m \<le> M"
  shows "kept maxsize count M (all @ m) (log_step maxsize count m g)"
proof -
  obtain a r where g: "g = a # r" using assms(1) by (cases g) (auto simp: kept_def)
  have k: "length g \<le> count" "list_all (\<lambda>c. length c < maxsize + M) g" "list_all (\<lambda>c. length c \<ge> maxsize) r"
    "suffix (concat (rev g)) all" "length all < maxsize * count \<longrightarrow> concat (rev g) = all"
    using assms(1) g by (auto simp: kept_def)
  show ?thesis
  proof (cases "length a \<ge> maxsize")
    case False
    then have "log_step maxsize count m g = (a @ m) # r" using g by (simp add: log_step_def)
    then show ?thesis using k g False assms(3) by (auto simp: kept_def suffix_def)
  next
    case True
    then have ls: "log_step maxsize count m g = m # take (count - 1) g"
      using g k(1) by (cases count) (simp_all add: log_step_def roll_def)
    have full: "list_all (\<lambda>c. length c \<ge> maxsize) g" using True k(3) g by simp
    have "maxsize * length g \<le> length all"
      using length_concat_ge [OF full] suffix_length_le [OF k(4)] by (simp add: length_concat rev_map [symmetric] sum_list_rev)
    then have keep: "length (all @ m) < maxsize * count \<Longrightarrow> length g < count"
      using k(1) by (cases "length g = count") auto
    have "concat (rev g) = concat (rev (drop (count - 1) g)) @ concat (rev (take (count - 1) g))"
      by (metis append_take_drop_id concat_append rev_append)
    then have "suffix (concat (rev (take (count - 1) g))) all" using k(4) by (simp add: suffix_appendD)
    moreover have "length (all @ m) < maxsize * count \<Longrightarrow> concat (rev (take (count - 1) g)) = all"
      using keep k(5) by simp
    moreover have "list_all (\<lambda>c. length c < maxsize + M) (take (count - 1) g)" "list_all (\<lambda>c. length c \<ge> maxsize) (take (count - 1) g)"
      using k(2) full by (auto simp: list_all_iff dest: in_set_takeD)
    ultimately show ?thesis unfolding ls using assms(2,3) k(1) g by (auto simp: kept_def suffix_def)
  qed
qed

lemma kept_fold:
  assumes "kept maxsize count M all g" "0 < maxsize" "list_all (\<lambda>m. length m \<le> M) ms"
  shows "kept maxsize count M (all @ concat ms) (fold (log_step maxsize count) ms g)"
  using assms
proof (induction ms arbitrary: all g)
  case (Cons m ms)
  then have "kept maxsize count M ((all @ m) @ concat ms) (fold (log_step maxsize count) ms (log_step maxsize count m g))"
    by (intro Cons.IH kept_log_step) simp_all
  then show ?case by simp
qed simp

text \<open>All the text in the first \<open>n\<close> files of a logging path, the oldest file first.\<close>

definition files_text :: "string \<Rightarrow> fsys \<Rightarrow> nat \<Rightarrow> byte list" where
  "files_text logging fs n = concat (map (\<lambda>j. case fs (gen logging j) of None \<Rightarrow> [] | Some c \<Rightarrow> c) (rev [0..<n]))"

lemma files_text_holds:
  assumes "holds logging fs g" "length g \<le> n"
  shows "files_text logging fs n = concat (rev g)"
proof -
  have "map (\<lambda>j. case fs (gen logging j) of None \<Rightarrow> [] | Some c \<Rightarrow> c) [0..<n] = g @ replicate (n - length g) []"
    using assms by (auto simp: holds_def list_eq_iff_nth_eq nth_append)
  then have "map (\<lambda>j. case fs (gen logging j) of None \<Rightarrow> [] | Some c \<Rightarrow> c) (rev [0..<n]) = replicate (n - length g) [] @ rev g"
    by (simp add: rev_map [symmetric])
  then show ?thesis by (simp add: files_text_def)
qed

section \<open>Properties\<close>


definition sample_rof :: rollingfile_t where
  "sample_rof = rollingfile_zero\<lparr>pathname := ''/log/a.'', datesuffix := Some ''.log'', maxfilesize := 3, maxfilecount := 2\<rparr>"

definition sample_msgs :: "(int list \<times> byte list) list" where
  "sample_msgs = [([2], [1, 2]), ([0, 1, 1], [3, 4]), ([1], [5]), ([3], [6, 7, 8]), ([2], [9, 10])]"




text \<open>
  The outcome of one \<open>rollingfile_write\<close>.  It returns 0 only when the whole message has been
  appended to the open file, and counts it; otherwise it returns -1, counts nothing, and the file has
  got some beginning of the message.  When \<open>rollingfile_apply\<close> could not open a file, a message that
  is not empty gives -1 and changes no file.
\<close>

theorem rollingfile_write_outcome:
  assumes "rollingfile_apply can fs rof d = (fs1, rof1)" "rollingfile_write can rets fs rof d m = Some (err, fs', rof')"
  shows "(fhlogging rof1 = File p \<and> fs1 p = Some c \<longrightarrow>
       (err = 0 \<and> fs' = fs1(p \<mapsto> c @ m) \<and> offsetbytes rof' = size_wrap (offsetbytes rof1 + length m)
        \<or> err = -1 \<and> rof' = rof1 \<and> (\<exists>k \<le> length m. fs' = fs1(p \<mapsto> c @ take k m))))
    \<and> (fhlogging rof1 = Filehandle_invalid \<and> m \<noteq> [] \<longrightarrow> err = -1 \<and> fs' = fs1 \<and> rof' = rof1)"
proof -
  have w: "file_writebytes rets fs1 (fhlogging rof1) m = Some (err, fs')"
    "rof' = (if err = 0 then rof1\<lparr>offsetbytes := size_wrap (offsetbytes rof1 + length m)\<rparr> else rof1)"
    using assms by (auto simp: rollingfile_write_def split: option.splits)
  have "err = -1 \<and> fs' = fs1 \<and> rof' = rof1" if "fhlogging rof1 = Filehandle_invalid" "m \<noteq> []"
    using w that by (cases m) auto
  then show ?thesis using writebytes_success [of rets fs1 p m err fs'] w by auto
qed

lemma rollingfile_write_outcome_witness:
  "\<exists>fs' rof'. rollingfile_write (\<lambda>_. True) [1, -1] (\<lambda>_. None) sample_rof [] [7, 8] = Some (-1, fs', rof')
     \<and> offsetbytes rof' = 0"
proof -
  let ?r = "sample_rof\<lparr>loggingfile := Some ''/log/a.0.log'', fhlogging := File ''/log/a.0.log'', offsetbytes := 0\<rparr>"
  have a: "rollingfile_apply (\<lambda>_. True) (\<lambda>_. None) sample_rof [] = ([''/log/a.0.log'' \<mapsto> []], ?r)"
    by (simp add: sample_rof_def rollingfile_zero_def rollingfile_apply_def start_logging_def rollingfile_create_def
        file_create_def Let_def)
  obtain fs' rof' where w: "rollingfile_write (\<lambda>_. True) [1, -1] (\<lambda>_. None) sample_rof [] [7, 8] = Some (-1, fs', rof')"
    by (simp add: rollingfile_write_def a)
  with rollingfile_write_outcome [OF a w, of "''/log/a.0.log''" "[]"] show ?thesis by simp
qed

text \<open>
  A logger is allocated zeroed, so its rolling file starts with file descriptor 0, which is not
  \<open>filehandle_invalid\<close>.  Setting it up does not change that: \<open>rollingfile_uninit\<close> of a rolling file no
  message was written to (a logger without the rolling file appender has one, too) closes standard
  input.  After the first \<open>rollingfile_apply\<close> it closes the logging file or nothing.
\<close>

theorem rollingfile_uninit_closes:
  "snd (rollingfile_uninit rollingfile_zero) = [Stdin]
   \<and> snd (rollingfile_uninit (rollingfile_set_sizepolicy (rollingfile_set_timepolicy
        (rollingfile_init rollingfile_zero pathpre namepat) policy) maxsize maxcount useappend)) = [Stdin]
   \<and> Stdin \<notin> set (snd (rollingfile_uninit (snd (rollingfile_apply can fs (rollingfile_set_sizepolicy (rollingfile_set_timepolicy
        (rollingfile_init rollingfile_zero pathpre namepat) policy) maxsize maxcount useappend) d))))"
proof -
  have init: "fhlogging (rollingfile_init rollingfile_zero pathpre namepat) = Stdin" "loggingfile (rollingfile_init rollingfile_zero pathpre namepat) = None"
    by (simp_all add: rollingfile_init_def rollingfile_zero_def Let_def)
  have up: "fhlogging (snd (rollingfile_update can fs rof)) \<noteq> Stdin" for fs rof
    by (simp add: rollingfile_update_def rollingfile_create_def file_create_def Let_def split: prod.split)
  have st: "fhlogging (snd (start_logging can fs rof path)) \<noteq> Stdin" for fs rof path
    using up by (simp add: start_logging_def rollingfile_create_def file_create_def Let_def split: prod.split)
  have ap: "fhlogging (snd (rollingfile_apply can fs rof d)) \<noteq> Stdin" if "loggingfile rof = None" for rof
  proof -
    let ?p = "start_logging can fs rof (log_path rof d)"
    have "rollingfile_apply can fs rof d =
        (if maxfilesize (snd ?p) \<le> offsetbytes (snd ?p) then rollingfile_update can (fst ?p) (snd ?p) else ?p)"
      using that by (simp add: rollingfile_apply_def log_path_def Let_def split: prod.split option.split)
    then show ?thesis using st [of fs rof] up by simp
  qed
  let ?r = "rollingfile_set_sizepolicy (rollingfile_set_timepolicy (rollingfile_init rollingfile_zero pathpre namepat) policy) maxsize maxcount useappend"
  have "fhlogging ?r = Stdin" "loggingfile ?r = None"
    using init by (simp_all add: rollingfile_set_sizepolicy_def rollingfile_set_timepolicy_def)
  then show ?thesis using ap [of ?r]
    by (simp add: rollingfile_uninit_def file_close_def rollingfile_zero_def)
qed

end
