(* ===== verification/LogFormat.thy ===== *)
theory LogFormat
  imports RollingFile
begin

text \<open>
  The texts of \<open>source/clogger/clogger.c\<close>: levels, layouts, date formats and appenders as names, the
  date and time of a message (\<open>clog_format_datetime\<close>), and the base name of a source file.  The
  broken-down time and the time zone text that the clock of the logger returns are arguments.
\<close>

section \<open>Levels, layouts, date formats\<close>

datatype clog_level_t = CLOG_LEVEL_OFF | CLOG_LEVEL_FATAL | CLOG_LEVEL_ERROR | CLOG_LEVEL_WARN |
  CLOG_LEVEL_INFO | CLOG_LEVEL_DEBUG | CLOG_LEVEL_TRACE | CLOG_LEVEL_ALL

fun level_num :: "clog_level_t \<Rightarrow> nat" where
  "level_num CLOG_LEVEL_OFF = 0"
| "level_num CLOG_LEVEL_FATAL = 4"
| "level_num CLOG_LEVEL_ERROR = 5"
| "level_num CLOG_LEVEL_WARN = 6"
| "level_num CLOG_LEVEL_INFO = 7"
| "level_num CLOG_LEVEL_DEBUG = 8"
| "level_num CLOG_LEVEL_TRACE = 9"
| "level_num CLOG_LEVEL_ALL = 10"

lemma level_num_inj: "level_num a = level_num b \<longleftrightarrow> a = b"
  by (cases a; cases b) simp_all

text \<open>The comparisons of levels in the code are comparisons of their numbers.\<close>

instantiation clog_level_t :: linorder
begin

definition less_eq_clog_level_t :: "clog_level_t \<Rightarrow> clog_level_t \<Rightarrow> bool" where
  "a \<le> b \<longleftrightarrow> level_num a \<le> level_num b"

definition less_clog_level_t :: "clog_level_t \<Rightarrow> clog_level_t \<Rightarrow> bool" where
  "a < b \<longleftrightarrow> level_num a < level_num b"

instance
  by standard (auto simp: less_eq_clog_level_t_def less_clog_level_t_def level_num_inj)

end

datatype clog_layout_t = CLOG_LAYOUT_PLAIN | CLOG_LAYOUT_DATED

datatype clog_dateformat_t = CLOG_DATEFMT_RFC_3339 | CLOG_DATEFMT_ISO_8601 | CLOG_DATEFMT_RFC_2822 |
  CLOG_DATEFMT_UNIVERSAL | CLOG_DATEFMT_NUMERIC_2 | CLOG_DATEFMT_NUMERIC_1

definition clog_level_strs :: "string option list" where
  "clog_level_strs = [Some ''OFF'', None, None, None, Some ''FATAL'', Some ''ERROR'', Some ''WARN'', Some ''INFO'',
     Some ''DEBUG'', Some ''TRACE'', Some ''ALL'', None]"

definition clog_level_lens :: "nat list" where
  "clog_level_lens = [3, 0, 0, 0, 5, 5, 4, 4, 5, 5, 3, 0]"

text \<open>The number of the level found, \<open>None\<close> for failure.\<close>

definition clog_level_from_string :: "string option \<Rightarrow> int \<Rightarrow> int option" where
  "clog_level_from_string levelstring len =
     (let lvl = cstr_findstr_in levelstring len clog_level_strs True in if lvl \<noteq> -1 then Some lvl else None)"

definition clog_layout_from_string :: "string option \<Rightarrow> int \<Rightarrow> clog_layout_t option" where
  "clog_layout_from_string layoutstring len =
     (if cstr_compare_len layoutstring len (Some ''PLAIN'') 5 True = 0 then Some CLOG_LAYOUT_PLAIN
      else if cstr_compare_len layoutstring len (Some ''DATED'') 5 True = 0 then Some CLOG_LAYOUT_DATED
      else None)"

definition clog_dateformat_from_string :: "string option \<Rightarrow> int \<Rightarrow> clog_dateformat_t option" where
  "clog_dateformat_from_string s len =
     (if cstr_compare_len s len (Some ''UTC'') 3 True = 0 then Some CLOG_DATEFMT_UNIVERSAL
      else if cstr_compare_len s len (Some ''UNIVERSAL'') 9 True = 0 then Some CLOG_DATEFMT_UNIVERSAL
      else if cstr_compare_len s len (Some ''NUMERIC-1'') 9 True = 0 then Some CLOG_DATEFMT_NUMERIC_1
      else if cstr_compare_len s len (Some ''NUMERIC'') 7 True = 0 then Some CLOG_DATEFMT_NUMERIC_1
      else if cstr_compare_len s len (Some ''NUMERIC-2'') 9 True = 0 then Some CLOG_DATEFMT_NUMERIC_2
      else if cstr_compare_len s len (Some ''RFC-3339'') 8 True = 0 then Some CLOG_DATEFMT_RFC_3339
      else if cstr_compare_len s len (Some ''DEFAULT'') 7 True = 0 then Some CLOG_DATEFMT_RFC_3339
      else if cstr_compare_len s len (Some ''ISO-8601'') 8 True = 0 then Some CLOG_DATEFMT_ISO_8601
      else if cstr_compare_len s len (Some ''RFC-2822'') 8 True = 0 then Some CLOG_DATEFMT_RFC_2822
      else None)"

text \<open>The appenders (stdout, syslog, rolling file, shared memory) as the four bits 1, 2, 4, 8.\<close>

definition clog_appender_from_string :: "string \<Rightarrow> nat \<Rightarrow> nat option" where
  "clog_appender_from_string appenderstring len =
     (let csb = cstrbufNew 0 (Some appenderstring) len;
          apstr = cstr_toupper (take (cb_len csb) (cb_str csb)) (int (cb_len csb));
          has = (\<lambda>t. cstr_containwith False (Some apstr) (int (cb_len csb)) (Some t) 6 \<noteq> -1);
          appenders = (if has ''STDOUT'' then 1 else 0) + (if has ''ROFILE'' then 4 else 0) +
            (if has ''SYSLOG'' then 2 else 0) + (if has ''SHMLOG'' then 8 else 0)
      in if appenders = 0 then None else Some appenders)"

section \<open>Base names\<close>

text \<open>The loop \<open>while (i-- > 1)\<close>; the result is the value of \<open>i\<close> after it.\<close>

fun basename_loop :: "string \<Rightarrow> nat \<Rightarrow> int" where
  "basename_loop path 0 = -1"
| "basename_loop path (Suc 0) = 0"
| "basename_loop path (Suc (Suc i)) =
     (if chr_at path (Suc i) = CHR ''/'' \<or> chr_at path (Suc i) = CHR 0x5C then int (Suc i)
      else basename_loop path (Suc i))"

text \<open>The start and the length of the base name of the first \<open>pathlen\<close> characters.\<close>

definition clog_logger_file_basename :: "string \<Rightarrow> nat \<Rightarrow> nat \<times> int" where
  "clog_logger_file_basename path pathlen =
     (let i = basename_loop path pathlen
      in if i = 0 then (0, int pathlen) else (nat (i + 1), int pathlen - i - 1))"

section \<open>Date and time\<close>

record tm_loc = tm +
  tm_wday :: int
  tm_yday :: int
  tm_isdst :: int

definition clog_week_strs :: "string option list" where
  "clog_week_strs = [None, Some ''Mon'', Some ''Tue'', Some ''Wed'', Some ''Thu'', Some ''Fri'', Some ''Sat'', Some ''Sun'']"

definition clog_month_strs :: "string option list" where
  "clog_month_strs = [None, Some ''Jan'', Some ''Feb'', Some ''Mar'', Some ''Apr'', Some ''May'', Some ''Jun'', Some ''Jul'',
     Some ''Aug'', Some ''Sep'', Some ''Oct'', Some ''Nov'', Some ''Dec'']"

text \<open>\<open>"%.3s"\<close> of a name.  For NULL this is undefined; the C library of Linux prints nothing then.\<close>

definition name3 :: "string option \<Rightarrow> string" where
  "name3 name = (case name of None \<Rightarrow> [] | Some s \<Rightarrow> take 3 s)"

text \<open>
  A text buffer filled by \<open>snprintf\<close>: the returned length, which counts the untruncated text, and
  the string in the buffer.
\<close>

type_synonym dateformat_buf = "nat \<times> string"

definition snprintf :: "nat \<Rightarrow> string \<Rightarrow> dateformat_buf" where
  "snprintf n s = (length s, take (n - 1) s)"

definition CLOG_DATEFMT_SIZE_MAX :: nat where
  "CLOG_DATEFMT_SIZE_MAX = 48"

definition ymd8 :: "tm_loc \<Rightarrow> string" where
  "ymd8 loc = fmt_d 4 (tm_year loc) @ fmt_d 2 (tm_mon loc) @ fmt_d 2 (tm_mday loc)"

definition format_datemin :: "rollingtime_t \<Rightarrow> tm_loc \<Rightarrow> string" where
  "format_datemin policy loc =
     (case policy of
        ROLLING_TM_MIN_1 \<Rightarrow> ymd8 loc @ ''-'' @ fmt_d 2 (tm_hour loc) @ fmt_d 2 (tm_min loc)
      | ROLLING_TM_MIN_5 \<Rightarrow> ymd8 loc @ ''-'' @ fmt_d 2 (tm_hour loc) @ fmt_d 2 ((tm_min loc sdiv 5) * 5)
      | ROLLING_TM_MIN_10 \<Rightarrow> ymd8 loc @ ''-'' @ fmt_d 2 (tm_hour loc) @ fmt_d 2 ((tm_min loc sdiv 10) * 10)
      | ROLLING_TM_MIN_30 \<Rightarrow> ymd8 loc @ ''-'' @ fmt_d 2 (tm_hour loc) @ fmt_d 2 ((tm_min loc sdiv 30) * 30)
      | ROLLING_TM_HOUR \<Rightarrow> ymd8 loc @ ''-'' @ fmt_d 2 (tm_hour loc)
      | ROLLING_TM_DAY \<Rightarrow> ymd8 loc
      | ROLLING_TM_MON \<Rightarrow> fmt_d 4 (tm_year loc) @ fmt_d 2 (tm_mon loc)
      | ROLLING_TM_YEAR \<Rightarrow> fmt_d 4 (tm_year loc)
      | ROLLING_TM_NONE \<Rightarrow> [])"

record clog_bf =
  bf_loctime :: bool
  bf_timeunitms :: bool
  bf_timeunitus :: bool
  bf_timestampid :: bool
  bf_autowrapline :: bool
  bf_hideident :: bool
  bf_rollingsize :: bool
  bf_rollingtime :: bool
  bf_appenderstdout :: bool
  bf_appendersyslog :: bool
  bf_appenderrofile :: bool
  bf_appendershmlog :: bool
  bf_levelcolors :: bool
  bf_levelstyles :: bool
  bf_filelineno :: bool
  bf_function :: bool
  bf_processid :: bool
  bf_threadno :: bool

text \<open>\<open>hh:mm:ss\<close> or \<open>hhmmss\<close>, with the fraction of the configured unit.\<close>

definition fraction :: "clog_bf \<Rightarrow> nat \<Rightarrow> string" where
  "fraction bf nsec =
     (if bf_timeunitms bf then ''.'' @ fmt_d 3 (int (nsec div 1000000))
      else if bf_timeunitus bf then ''.'' @ fmt_d 6 (int (nsec div 1000)) else [])"

definition hms_colon :: "tm_loc \<Rightarrow> string" where
  "hms_colon loc = fmt_d 2 (tm_hour loc) @ '':'' @ fmt_d 2 (tm_min loc) @ '':'' @ fmt_d 2 (tm_sec loc)"

definition hms_plain :: "tm_loc \<Rightarrow> string" where
  "hms_plain loc = fmt_d 2 (tm_hour loc) @ fmt_d 2 (tm_min loc) @ fmt_d 2 (tm_sec loc)"

definition format_datetime :: "clog_dateformat_t \<Rightarrow> clog_bf \<Rightarrow> tm_loc \<Rightarrow> nat \<Rightarrow> string \<Rightarrow> string" where
  "format_datetime dateformat bf loc nsec timezonefmt =
     (let wday = name3 (clog_week_strs ! nat (tm_wday loc)); mon = name3 (clog_month_strs ! nat (tm_mon loc))
      in if dateformat = CLOG_DATEFMT_RFC_3339 \<or> dateformat = CLOG_DATEFMT_ISO_8601 then
           (let T = (if dateformat = CLOG_DATEFMT_ISO_8601 then ''T'' else '' '')
            in fmt_d 4 (tm_year loc) @ ''-'' @ fmt_d 2 (tm_mon loc) @ ''-'' @ fmt_d 2 (tm_mday loc) @ T @
               hms_colon loc @ fraction bf nsec @ take 3 timezonefmt @ '':'' @ take 2 (drop 3 timezonefmt))
         else if dateformat = CLOG_DATEFMT_UNIVERSAL then
           wday @ '' '' @ mon @ '' '' @ fmt_d 2 (tm_mday loc) @ '' '' @ hms_colon loc @ fraction bf nsec @ '' UTC'' @
           take (if bf_loctime bf then 5 else 0) timezonefmt @ '' '' @ fmt_d 4 (tm_year loc)
         else if dateformat = CLOG_DATEFMT_RFC_2822 then
           wday @ '', '' @ fmt_d 2 (tm_mday loc) @ '' '' @ mon @ '' '' @ fmt_d 4 (tm_year loc) @ '' '' @
           hms_colon loc @ fraction bf nsec @ '' '' @ take 5 timezonefmt
         else
           ymd8 loc @ (if dateformat = CLOG_DATEFMT_NUMERIC_1 then [] else ''-'') @ hms_plain loc @ fraction bf nsec @
           take 5 timezonefmt)"

text \<open>
  \<open>clog_format_datetime\<close> fills up to three buffers and returns the sum of their lengths; \<open>dated\<close> says
  whether \<open>datetimefmt\<close> and \<open>stampidfmt\<close> are wanted (they are passed together or both NULL).
\<close>

definition clog_format_datetime ::
  "rollingtime_t \<Rightarrow> clog_dateformat_t \<Rightarrow> clog_bf \<Rightarrow> tm_loc \<Rightarrow> nat \<Rightarrow> string \<Rightarrow> string \<Rightarrow> bool \<Rightarrow>
    nat \<times> dateformat_buf \<times> dateformat_buf \<times> dateformat_buf" where
  "clog_format_datetime policy dateformat bf loc nsec timezonefmt stampid dated =
     (let dateminfmt = snprintf CLOG_DATEFMT_SIZE_MAX (format_datemin policy loc);
          datetimefmt = (if dated then snprintf CLOG_DATEFMT_SIZE_MAX (format_datetime dateformat bf loc nsec timezonefmt) else (0, []));
          stampidfmt = (if dated \<and> bf_timestampid bf then (length stampid, stampid) else (0, []))
      in (fst dateminfmt + fst datetimefmt + fst stampidfmt, dateminfmt, datetimefmt, stampidfmt))"

section \<open>Fixed-width fields\<close>

lemma length_dec_le: "n < 10 ^ Suc w \<Longrightarrow> length (dec n) \<le> Suc w"
proof (induction w arbitrary: n)
  case 0
  then show ?case by (simp add: dec.simps [of n])
next
  case (Suc w)
  then have "n div 10 < 10 ^ Suc w" by auto
  from Suc.IH [OF this] show ?case by (simp add: dec.simps [of n])
qed

lemma length_fmt: "0 \<le> i \<Longrightarrow> i < 10 ^ Suc w \<Longrightarrow> length (fmt_d (Suc w) i) = Suc w"
  using length_dec_le [of "nat i" w] by (simp add: fmt_d_def Let_def nat_less_iff del: power_Suc)

lemma fmt_lengths [simp]:
  "0 \<le> i \<Longrightarrow> i < 100 \<Longrightarrow> length (fmt_d 2 i) = 2" "0 \<le> i \<Longrightarrow> i < 1000 \<Longrightarrow> length (fmt_d 3 i) = 3"
  "0 \<le> i \<Longrightarrow> i < 10000 \<Longrightarrow> length (fmt_d 4 i) = 4" "0 \<le> i \<Longrightarrow> i < 1000000 \<Longrightarrow> length (fmt_d 6 i) = 6"
  using length_fmt [of i 1] length_fmt [of i 2] length_fmt [of i 3] length_fmt [of i 5] by (simp_all add: numeral_eq_Suc)

lemma number_fmt: "0 \<le> i \<Longrightarrow> number 10 (fmt_d w i) = nat i"
  by (simp add: fmt_d_def Let_def number_zeros)

lemma fmt_inj [simp]: "0 \<le> i \<Longrightarrow> 0 \<le> j \<Longrightarrow> fmt_d w i = fmt_d w j \<longleftrightarrow> i = j"
  by (metis number_fmt nat_0_le)

definition loc_ok :: "tm_loc \<Rightarrow> bool" where
  "loc_ok loc \<longleftrightarrow> 0 \<le> tm_year loc \<and> tm_year loc < 10000 \<and> 1 \<le> tm_mon loc \<and> tm_mon loc \<le> 12 \<and>
     1 \<le> tm_mday loc \<and> tm_mday loc \<le> 31 \<and> 0 \<le> tm_hour loc \<and> tm_hour loc \<le> 23 \<and>
     0 \<le> tm_min loc \<and> tm_min loc \<le> 59 \<and> 0 \<le> tm_sec loc \<and> tm_sec loc \<le> 60 \<and> 1 \<le> tm_wday loc \<and> tm_wday loc \<le> 7"

text \<open>What a time policy distinguishes.\<close>

definition period :: "rollingtime_t \<Rightarrow> tm_loc \<Rightarrow> int list" where
  "period policy loc =
     (let y = tm_year loc; mo = tm_mon loc; d = tm_mday loc; h = tm_hour loc; mi = tm_min loc
      in case policy of
           ROLLING_TM_MIN_1 \<Rightarrow> [y, mo, d, h, mi] | ROLLING_TM_MIN_5 \<Rightarrow> [y, mo, d, h, mi div 5]
         | ROLLING_TM_MIN_10 \<Rightarrow> [y, mo, d, h, mi div 10] | ROLLING_TM_MIN_30 \<Rightarrow> [y, mo, d, h, mi div 30]
         | ROLLING_TM_HOUR \<Rightarrow> [y, mo, d, h] | ROLLING_TM_DAY \<Rightarrow> [y, mo, d] | ROLLING_TM_MON \<Rightarrow> [y, mo]
         | ROLLING_TM_YEAR \<Rightarrow> [y] | ROLLING_TM_NONE \<Rightarrow> [])"

lemma name_strs:
  assumes "loc_ok loc"
  shows "length (name3 (clog_week_strs ! nat (tm_wday loc))) = 3 \<and> length (name3 (clog_month_strs ! nat (tm_mon loc))) = 3"
proof -
  have "\<forall>i\<in>{1..<8}. length (name3 (clog_week_strs ! i)) = 3" "\<forall>i\<in>{1..<13}. length (name3 (clog_month_strs ! i)) = 3"
    by (simp_all add: numeral_eq_Suc atLeastLessThanSuc clog_week_strs_def clog_month_strs_def name3_def)
  moreover have "nat (tm_wday loc) \<in> {1..<8}" "nat (tm_mon loc) \<in> {1..<13}" using assms by (auto simp: loc_ok_def)
  ultimately show ?thesis by blast
qed

lemma fraction_length: "nsec < 1000000000 \<Longrightarrow> length (fraction bf nsec) \<le> 7"
  by (simp add: fraction_def less_mult_imp_div_less zdiv_int)

lemma datemin_period:
  assumes "loc_ok a" "loc_ok b"
  shows "(format_datemin policy a = format_datemin policy b \<longleftrightarrow> period policy a = period policy b)
    \<and> length (format_datemin policy a) \<le> 13"
proof -
  have r: "0 \<le> tm_min x div k * k \<and> tm_min x div k * k < 100" if "loc_ok x" "0 < k" for x k
  proof -
    have "tm_min x div k * k = tm_min x - tm_min x mod k" "0 \<le> tm_min x mod k"
      using that by (simp_all add: minus_mod_eq_div_mult)
    moreover have "0 \<le> tm_min x div k" using that by (simp add: loc_ok_def pos_imp_zdiv_nonneg_iff)
    moreover have "0 \<le> tm_min x div k * k" using calculation(3) that(2) by (rule mult_nonneg_nonneg [OF _ less_imp_le])
    ultimately show ?thesis using that unfolding loc_ok_def by linarith
  qed
  have m: "tm_min a div k * k = tm_min b div k * k \<longleftrightarrow> tm_min a div k = tm_min b div k" if "0 < k" for k
    using that by simp
  have sd: "tm_min x sdiv 5 = tm_min x div 5" "tm_min x sdiv 10 = tm_min x div 10" "tm_min x sdiv 30 = tm_min x div 30"
    if "loc_ok x" for x using that by (simp_all add: loc_ok_def)
  note rs = r [OF assms(1), of 5, simplified] r [OF assms(2), of 5, simplified] r [OF assms(1), of 10, simplified]
    r [OF assms(2), of 10, simplified] r [OF assms(1), of 30, simplified] r [OF assms(2), of 30, simplified]
  show ?thesis
    using assms rs
    by (cases policy) (simp_all add: format_datemin_def period_def ymd8_def sd assms m loc_ok_def Let_def)
qed

lemma datetime_lengths:
  assumes "loc_ok loc" "nsec < 1000000000" "length timezonefmt = 5"
  shows "length (format_datemin policy loc) \<le> 13" "length (format_datetime dateformat bf loc nsec timezonefmt) \<le> 40"
proof -
  note ok = assms(1) [unfolded loc_ok_def]
  have tz: "length (take 3 timezonefmt) = 3" using assms(3) by simp
  show "length (format_datemin policy loc) \<le> 13" using datemin_period [OF assms(1) assms(1)] by blast
  show "length (format_datetime dateformat bf loc nsec timezonefmt) \<le> 40"
    using ok name_strs [OF assms(1)] fraction_length [OF assms(2), of bf] assms(3) tz
    by (cases dateformat)
      (simp_all add: format_datetime_def hms_colon_def hms_plain_def ymd8_def Let_def del: length_take)
qed

lemma level_text:
  "\<exists>t. clog_level_strs ! level_num l = Some t \<and> clog_level_lens ! level_num l = length t \<and> length t \<le> 5"
  by (cases l) (simp_all add: clog_level_strs_def clog_level_lens_def)

lemma level_names: "clog_level_from_string (clog_level_strs ! level_num l) (-1) = Some (int (level_num l))"
  by (cases l)
    (simp_all add: clog_level_from_string_def cstr_findstr_in_def clog_level_strs_def cstr_length_def strncasecmp_def strcasecmp_def tolower_def Let_def)

definition ROF_DATEMINUTE_SIZE :: nat where
  "ROF_DATEMINUTE_SIZE = 16"

definition sample_bf :: clog_bf where
  "sample_bf = \<lparr> bf_loctime = True, bf_timeunitms = False, bf_timeunitus = False, bf_timestampid = False,
     bf_autowrapline = True, bf_hideident = False, bf_rollingsize = True, bf_rollingtime = False,
     bf_appenderstdout = False, bf_appendersyslog = False, bf_appenderrofile = True, bf_appendershmlog = False,
     bf_levelcolors = False, bf_levelstyles = False, bf_filelineno = True, bf_function = True,
     bf_processid = True, bf_threadno = True \<rparr>"

section \<open>Properties\<close>

text \<open>
  The date text that selects the logging file.  For clock values in their ranges, two times give
  the same text exactly when they fall into the same period of the time policy (minute, 5, 10 or
  30 minutes, hour, day, month or year), and the text fits the 16 bytes of the message header.
\<close>

theorem format_datemin_period:
  assumes "loc_ok a" "loc_ok b"
  shows "(format_datemin policy a = format_datemin policy b \<longleftrightarrow> period policy a = period policy b)
    \<and> length (format_datemin policy a) \<le> 13"
  by (rule datemin_period [OF assms])

definition sample_loc :: tm_loc where
  "sample_loc = \<lparr> tm_year = 2024, tm_mon = 2, tm_mday = 29, tm_hour = 23, tm_min = 59, tm_sec = 7, tm_wday = 4,
     tm_yday = 59, tm_isdst = 0 \<rparr>"

lemma format_datemin_period_witness:
  "format_datemin ROLLING_TM_MIN_10 sample_loc = format_datemin ROLLING_TM_MIN_10 (sample_loc\<lparr>tm_min := 50\<rparr>)
   \<and> format_datemin ROLLING_TM_MIN_10 sample_loc \<noteq> format_datemin ROLLING_TM_MIN_10 (sample_loc\<lparr>tm_min := 49\<rparr>)"
  using format_datemin_period [of sample_loc "sample_loc\<lparr>tm_min := 50\<rparr>" ROLLING_TM_MIN_10]
    format_datemin_period [of sample_loc "sample_loc\<lparr>tm_min := 49\<rparr>" ROLLING_TM_MIN_10]
  by (simp add: sample_loc_def loc_ok_def period_def)

text \<open>
  No date text is truncated by its 48-byte buffer: for clock values in their ranges and a time
  zone text of five characters, in every format and time unit, \<open>clog_format_datetime\<close> leaves the
  whole text in each buffer, and its result is the sum of the lengths of the texts.
\<close>

theorem clog_format_datetime_fits:
  assumes "loc_ok loc" "nsec < 1000000000" "length timezonefmt = 5"
    "clog_format_datetime policy dateformat bf loc nsec timezonefmt stampid dated = (tot, dmin, dtime, stamp)"
  shows "dmin = (length (format_datemin policy loc), format_datemin policy loc) \<and> fst dmin < ROF_DATEMINUTE_SIZE
    \<and> (dated \<longrightarrow> dtime = (length (format_datetime dateformat bf loc nsec timezonefmt), format_datetime dateformat bf loc nsec timezonefmt))
    \<and> fst dtime < CLOG_DATEFMT_SIZE_MAX \<and> tot = fst dmin + fst dtime + fst stamp"
proof -
  note m = datetime_lengths(1) [OF assms(1-3), of policy] and t = datetime_lengths(2) [OF assms(1-3), of dateformat bf]
  show ?thesis using assms(4) m t
    by (auto simp: clog_format_datetime_def snprintf_def CLOG_DATEFMT_SIZE_MAX_def ROF_DATEMINUTE_SIZE_def Let_def)
qed

lemma clog_format_datetime_fits_witness:
  "fst (clog_format_datetime ROLLING_TM_DAY CLOG_DATEFMT_ISO_8601 (sample_bf\<lparr>bf_timeunitms := True\<rparr>) sample_loc 65000000 ''+0800'' [] True) = 37"
proof -
  obtain tot dmin dtime stamp where r: "clog_format_datetime ROLLING_TM_DAY CLOG_DATEFMT_ISO_8601 (sample_bf\<lparr>bf_timeunitms := True\<rparr>)
      sample_loc 65000000 ''+0800'' [] True = (tot, dmin, dtime, stamp)" by (metis prod_cases4)
  have "loc_ok sample_loc" by (simp add: sample_loc_def loc_ok_def)
  from clog_format_datetime_fits [OF this _ _ r] have "tot = fst dmin + fst dtime + fst stamp"
    "fst dmin = length (format_datemin ROLLING_TM_DAY sample_loc)"
    "fst dtime = length (format_datetime CLOG_DATEFMT_ISO_8601 (sample_bf\<lparr>bf_timeunitms := True\<rparr>) sample_loc 65000000 ''+0800'')" by auto
  moreover have "fst stamp = 0" using r by (auto simp: clog_format_datetime_def sample_bf_def Let_def)
  moreover have "length (format_datemin ROLLING_TM_DAY sample_loc) = 8"
    "length (format_datetime CLOG_DATEFMT_ISO_8601 (sample_bf\<lparr>bf_timeunitms := True\<rparr>) sample_loc 65000000 ''+0800'') = 29"
    by (simp_all add: format_datemin_def format_datetime_def ymd8_def hms_colon_def fraction_def sample_loc_def sample_bf_def)
  ultimately show ?thesis using r by simp
qed

end
