(* ===== verification/RingBufSt.thy ===== *)
theory RingBufSt
  imports RingBuf
begin

text \<open>
  \<open>source/common/ringbufst.h\<close>: the byte ring that queues formatted log messages between the
  logging threads and the logger thread.  Entries of varying size are stored in one static block:
  an 8-byte size field followed by the chunk, the whole rounded up to a multiple of 8.  An entry is
  never split; when it does not fit before the end of the block the writer clears the tail and
  starts over at offset 0.  The offsets run over two laps, as in \<open>RingBuf\<close>.

  The user callbacks are parameters: \<open>write_cb\<close> maps the old bytes of the chunk to the new ones,
  \<open>nextentry_cb\<close> gets the chunk and the state of its \<open>arg\<close> and says whether it took the entry.
\<close>

section \<open>State\<close>

record ring_buffer_st =
  RLock :: int
  WLock :: int
  WOffset :: int
  ROffset :: int
  Length :: int
  Buffer :: "byte list"

text \<open>\<open>sizeof(ringbuf_entry_st)\<close>, and the macros on entry sizes.\<close>

definition RINGBUFST_ENTRY_HDRSIZE :: nat where
  "RINGBUFST_ENTRY_HDRSIZE = 8"

definition ringbufst_align_entrysize :: "nat \<Rightarrow> nat" where
  "ringbufst_align_entrysize chunksz =
     memapi_align_bsize (size_wrap (chunksz + RINGBUFST_ENTRY_HDRSIZE)) RINGBUFST_ENTRY_HDRSIZE"

definition ringbufst_restore_wrap :: "int \<Rightarrow> int \<Rightarrow> int \<Rightarrow> int" where
  "ringbufst_restore_wrap Ro Wo L = (if Ro sdiv L = Wo sdiv L then 0 else 1)"

definition ringbufst_normalize_offset :: "int \<Rightarrow> int \<Rightarrow> int" where
  "ringbufst_normalize_offset Ao L = ((Ao sdiv L) smod 2) * L + Ao smod L"

text \<open>
  \<open>ringbufst_init\<close>.  \<open>eltsizemax * length\<close> is an \<open>int\<close> product: \<open>None\<close> when it overflows
  (undefined behaviour) or is negative (no memory: the program exits).  A fresh block is zeroed.
\<close>

definition ringbufst_init :: "int \<Rightarrow> int \<Rightarrow> ring_buffer_st option" where
  "ringbufst_init len eltsizemax =
     (let len1 = (if len < 2 then 2 else len);
          len2 = (if len1 > 131071 then 131071 else len1);
          prod = eltsizemax * len2
      in if prod < 0 \<or> 2147483648 \<le> prod then None
         else let cbLength = memapi_align_bsize (nat prod) 4096
              in Some \<lparr> RLock = 0, WLock = 0, WOffset = 0, ROffset = 0,
                        Length = int cbLength, Buffer = replicate cbLength 0 \<rparr>)"

definition ringbufst_uninit :: "ring_buffer_st \<Rightarrow> ring_buffer_st" where
  "ringbufst_uninit rbst = rbst\<lparr> RLock := 1, WLock := 1 \<rparr>"

section \<open>Entries in the block\<close>

definition entry_size :: "byte list \<Rightarrow> int \<Rightarrow> nat" where
  "entry_size buf off = le_value (get_bytes buf (nat off) RINGBUFST_ENTRY_HDRSIZE)"

definition entry_chunk :: "byte list \<Rightarrow> int \<Rightarrow> nat \<Rightarrow> byte list" where
  "entry_chunk buf off n = get_bytes buf (nat off + RINGBUFST_ENTRY_HDRSIZE) n"

text \<open>
  \<open>entry->size = chunksz; write_cb(entry->chunk, entry->size, arg);\<close> The result also has the
  bytes of the cleared tail when the writer wraps (\<open>clear_tail\<close>, the call of \<open>bzero\<close>).
\<close>

definition write_entry :: "byte list \<Rightarrow> int \<Rightarrow> nat \<Rightarrow> (byte list \<Rightarrow> byte list) \<Rightarrow> byte list" where
  "write_entry buf off chunksz write_cb =
     (let buf1 = put_bytes buf (nat off) (le_bytes RINGBUFST_ENTRY_HDRSIZE chunksz)
      in put_bytes buf1 (nat off + RINGBUFST_ENTRY_HDRSIZE) (write_cb (entry_chunk buf1 off chunksz)))"

definition clear_tail :: "byte list \<Rightarrow> int \<Rightarrow> int \<Rightarrow> byte list" where
  "clear_tail buf W L = put_bytes buf (nat W) (replicate (nat (L - W)) 0)"

section \<open>Write\<close>

text \<open>
  \<open>ringbufst_write\<close> returns \<open>-1\<close> (entry too large), \<open>0\<close> (locked or no room, call again) or
  \<open>1\<close>.  Storing an offset converts it to the 32-bit \<open>uatomic_int\<close>.
\<close>

definition ringbufst_write :: "ring_buffer_st \<Rightarrow> nat \<Rightarrow> (byte list \<Rightarrow> byte list) \<Rightarrow> int \<times> ring_buffer_st" where
  "ringbufst_write rbst chunksz write_cb =
     (let L = Length rbst; AENTSZ = to_ssize (ringbufst_align_entrysize chunksz)
      in if AENTSZ = 0 \<or> AENTSZ = -1 \<or> AENTSZ > L div 8 then (-1, rbst)
         else if WLock rbst = 0 then
           (let rb = rbst\<lparr> WLock := 1 \<rparr>; Ro = ROffset rb; Wo = WOffset rb;
                wrap = ringbufst_restore_wrap Ro Wo L; R = Ro smod L; W = Wo smod L
            in if L - (wrap * L + W - R) \<ge> AENTSZ then
                 if wrap \<noteq> 0 then
                   (1, rb\<lparr> Buffer := write_entry (Buffer rb) W chunksz write_cb,
                           WOffset := to_int32 (ringbufst_normalize_offset (Wo + AENTSZ) L), WLock := 0 \<rparr>)
                 else if L - W \<ge> AENTSZ then
                   (1, rb\<lparr> Buffer := write_entry (Buffer rb) W chunksz write_cb,
                           WOffset := to_int32 (ringbufst_normalize_offset (Wo + AENTSZ) L), WLock := 0 \<rparr>)
                 else if R - 0 \<ge> AENTSZ then
                   (1, rb\<lparr> Buffer := write_entry (clear_tail (Buffer rb) W L) 0 chunksz write_cb,
                           WOffset := to_int32 (AENTSZ + (1 - to_int32 (Ro sdiv L)) * L), WLock := 0 \<rparr>)
                 else (0, rb\<lparr> WLock := 0 \<rparr>)
               else (0, rb\<lparr> WLock := 0 \<rparr>))
         else (0, rbst))"

section \<open>Read with a callback\<close>

text \<open>
  \<open>ringbufst_read_next\<close> takes the read lock and calls \<open>__ringbufst_read_internal\<close>, which at a
  cleared tail moves the read offset to the start of the block and calls \<open>ringbufst_read_next\<close>
  again, with the lock still held.  The result: the return value, the ring, the callback's state.
\<close>

definition HENTSZ :: int where
  "HENTSZ = to_ssize (ringbufst_align_entrysize 0)"

function (sequential)
  ringbufst_read_next :: "(byte list \<Rightarrow> 's \<Rightarrow> bool \<times> 's) \<Rightarrow> ring_buffer_st \<Rightarrow> 's \<Rightarrow> int \<times> ring_buffer_st \<times> 's"
  and ringbufst_read_internal ::
    "(byte list \<Rightarrow> 's \<Rightarrow> bool \<times> 's) \<Rightarrow> ring_buffer_st \<Rightarrow> int \<Rightarrow> int \<Rightarrow> int \<Rightarrow> 's \<Rightarrow> int \<times> ring_buffer_st \<times> 's"
where
  "ringbufst_read_next nextentry_cb rbst arg =
     (if RLock rbst = 0 then
        (let rb = rbst\<lparr> RLock := 1 \<rparr>; Wo = WOffset rb; Ro = ROffset rb;
             wrap = ringbufst_restore_wrap Ro Wo (Length rb)
         in case ringbufst_read_internal nextentry_cb rb wrap Ro Wo arg of
              (ret, rb', arg') \<Rightarrow> (ret, rb'\<lparr> RLock := 0 \<rparr>, arg'))
      else (0, rbst, arg))"
| "ringbufst_read_internal nextentry_cb rb wrap Ro Wo arg =
     (let L = Length rb; R = Ro smod L; W = Wo smod L
      in if wrap * L + W - R > HENTSZ then
           if wrap \<noteq> 0 then
             if L - R > HENTSZ then
               let size = entry_size (Buffer rb) R in
               if size \<noteq> 0 then
                 let AENTSZ = to_ssize (ringbufst_align_entrysize size) in
                 if L - R \<ge> AENTSZ then
                   (case nextentry_cb (entry_chunk (Buffer rb) R size) arg of (taken, arg') \<Rightarrow>
                      if taken then (1, rb\<lparr> ROffset := to_int32 (ringbufst_normalize_offset (Ro + AENTSZ) L) \<rparr>, arg')
                      else (0, rb, arg'))
                 else (-1, rb, arg)
               else
                 ringbufst_read_next nextentry_cb (rb\<lparr> ROffset := to_int32 (Wo sdiv L * L) \<rparr>) arg
             else if W - 0 > HENTSZ then
               let size = entry_size (Buffer rb) 0 in
               if size \<noteq> 0 then
                 let AENTSZ = to_ssize (ringbufst_align_entrysize size) in
                 if W - 0 \<ge> AENTSZ then
                   (case nextentry_cb (entry_chunk (Buffer rb) 0 size) arg of (taken, arg') \<Rightarrow>
                      if taken then (1, rb\<lparr> ROffset := to_int32 (AENTSZ + Wo sdiv L * L) \<rparr>, arg')
                      else (0, rb, arg'))
                 else (-1, rb, arg)
               else (-1, rb, arg)
             else (0, rb, arg)
           else
             let size = entry_size (Buffer rb) R in
             if size \<noteq> 0 then
               let AENTSZ = to_ssize (ringbufst_align_entrysize size) in
               if W - R \<ge> AENTSZ then
                 (case nextentry_cb (entry_chunk (Buffer rb) R size) arg of (taken, arg') \<Rightarrow>
                    if taken then (1, rb\<lparr> ROffset := to_int32 (ringbufst_normalize_offset (Ro + AENTSZ) L) \<rparr>, arg')
                    else (0, rb, arg'))
               else (-1, rb, arg)
             else (-1, rb, arg)
         else (0, rb, arg))"
  by pat_completeness auto

text \<open>The nested call finds the lock taken, so the recursion is at most three calls deep.\<close>

termination
  by (relation "measure (\<lambda>x. case x of
        Inl (cb, rb, arg) \<Rightarrow> if RLock rb = 0 then 2 else 0
      | Inr (cb, rb, wrap, Ro, Wo, arg) \<Rightarrow> if RLock rb = 0 then 3 else 1)") auto

declare ringbufst_read_next.simps [simp del] ringbufst_read_internal.simps [simp del]

text \<open>
  \<open>ringbufst_read_next_batch\<close>: up to \<open>batch\<close> entries under one hold of the lock; it returns
  the number read, or \<open>-1\<close> after a corrupt entry.
\<close>

fun read_batch_loop ::
  "nat \<Rightarrow> (byte list \<Rightarrow> 's \<Rightarrow> bool \<times> 's) \<Rightarrow> int \<Rightarrow> ring_buffer_st \<Rightarrow> 's \<Rightarrow> int \<times> ring_buffer_st \<times> 's" where
  "read_batch_loop 0 nextentry_cb num rb arg = (num, rb, arg)"
| "read_batch_loop (Suc batch) nextentry_cb num rb arg =
     (let Wo = WOffset rb; Ro = ROffset rb; wrap = ringbufst_restore_wrap Ro Wo (Length rb)
      in case ringbufst_read_internal nextentry_cb rb wrap Ro Wo arg of (ret, rb', arg') \<Rightarrow>
           if ret = 1 then read_batch_loop batch nextentry_cb (num + 1) rb' arg'
           else if ret = 0 then (num, rb', arg')
           else if ret = -1 then (-1, rb', arg')
           else read_batch_loop batch nextentry_cb num rb' arg')"

definition ringbufst_read_next_batch ::
  "(byte list \<Rightarrow> 's \<Rightarrow> bool \<times> 's) \<Rightarrow> ring_buffer_st \<Rightarrow> 's \<Rightarrow> int \<Rightarrow> int \<times> ring_buffer_st \<times> 's" where
  "ringbufst_read_next_batch nextentry_cb rbst arg batch =
     (if RLock rbst = 0 then
        (case read_batch_loop (nat batch) nextentry_cb 0 (rbst\<lparr> RLock := 1 \<rparr>) arg of
           (num, rb', arg') \<Rightarrow> (num, rb'\<lparr> RLock := 0 \<rparr>, arg'))
      else (0, rbst, arg))"

section \<open>Read into a caller's buffer\<close>

text \<open>
  \<open>ringbufst_read_copy\<close> releases the lock before its recursive call, so it does try again after a
  cleared tail; \<open>None\<close> would be a call that never returns.  The lock it takes and releases on
  every path is not shown as two updates of the state, since it is 0 before and after.  The second component is the bytes
  copied into \<open>rdbuf\<close>; a returned size larger than \<open>rdbufsz\<close> means nothing was copied.
\<close>

partial_function (option)
  ringbufst_read_copy :: "nat \<Rightarrow> ring_buffer_st \<Rightarrow> (int \<times> byte list \<times> ring_buffer_st) option"
where
  "ringbufst_read_copy rdbufsz rbst =
     (if RLock rbst = 0 then
        (let L = Length rbst; Wo = WOffset rbst; Ro = ROffset rbst;
             wrap = ringbufst_restore_wrap Ro Wo L; R = Ro smod L; W = Wo smod L
         in if wrap * L + W - R > HENTSZ then
              if wrap \<noteq> 0 then
                if L - R > HENTSZ then
                  let size = entry_size (Buffer rbst) R in
                  if size \<noteq> 0 then
                    let AENTSZ = to_ssize (ringbufst_align_entrysize size) in
                    if L - R \<ge> AENTSZ then
                      if to_ssize size > to_ssize rdbufsz then Some (to_ssize size, [], rbst)
                      else Some (to_ssize size, entry_chunk (Buffer rbst) R size,
                             rbst\<lparr> ROffset := to_int32 (ringbufst_normalize_offset (Ro + AENTSZ) L) \<rparr>)
                    else Some (-1, [], rbst)
                  else ringbufst_read_copy rdbufsz (rbst\<lparr> ROffset := to_int32 (Wo sdiv L * L) \<rparr>)
                else if W - 0 > HENTSZ then
                  let size = entry_size (Buffer rbst) 0 in
                  if size \<noteq> 0 then
                    let AENTSZ = to_ssize (ringbufst_align_entrysize size) in
                    if W - 0 \<ge> AENTSZ then
                      if to_ssize size > to_ssize rdbufsz then Some (to_ssize size, [], rbst)
                      else Some (to_ssize size, entry_chunk (Buffer rbst) 0 size,
                             rbst\<lparr> ROffset := to_int32 (AENTSZ + Wo sdiv L * L) \<rparr>)
                    else Some (-1, [], rbst)
                  else Some (-1, [], rbst)
                else Some (0, [], rbst)
              else
                let size = entry_size (Buffer rbst) R in
                if size \<noteq> 0 then
                  let AENTSZ = to_ssize (ringbufst_align_entrysize size) in
                  if W - R \<ge> AENTSZ then
                    if to_ssize size > to_ssize rdbufsz then Some (to_ssize size, [], rbst)
                    else Some (to_ssize size, entry_chunk (Buffer rbst) R size,
                           rbst\<lparr> ROffset := to_int32 (ringbufst_normalize_offset (Ro + AENTSZ) L) \<rparr>)
                  else Some (-1, [], rbst)
                else Some (-1, [], rbst)
            else Some (0, [], rbst))
      else Some (0, [], rbst))"


section \<open>Representation\<close>

definition asz :: "nat \<Rightarrow> nat" where
  "asz n = (n + 15) div 8 * 8"

lemma asz_bounds: "n + 8 \<le> asz n" "asz n < n + 16" "16 \<le> asz n \<longleftrightarrow> 0 < n"
  unfolding asz_def by presburger+

lemma align_entrysize_asz:
  assumes "n \<le> 1073741824"
  shows "ringbufst_align_entrysize n = asz n" "to_ssize (ringbufst_align_entrysize n) = int (asz n)"
proof -
  show e: "ringbufst_align_entrysize n = asz n"
    using assms by (simp add: ringbufst_align_entrysize_def RINGBUFST_ENTRY_HDRSIZE_def align_bsize_eq asz_def)
  show "to_ssize (ringbufst_align_entrysize n) = int (asz n)"
    using asz_bounds(2) [of n] assms by (simp add: e)
qed

lemma HENTSZ_eq [simp]: "HENTSZ = 8"
  by (simp add: HENTSZ_def align_entrysize_asz asz_def)

lemma restore_wrap_eq: "ringbufst_restore_wrap = ringbuf_restore_wrap"
  by (intro ext) (simp add: ringbufst_restore_wrap_def ringbuf_restore_wrap_def)

lemma normalize_eq: "ringbufst_normalize_offset = ringbuf_normalize_offset"
  by (intro ext) (simp add: ringbufst_normalize_offset_def ringbuf_normalize_offset_def)

text \<open>Moving an offset forward inside its lap, and to the end of its lap.\<close>

lemma offset_forward:
  assumes "0 \<le> x" "x < 2 * L" "0 \<le> a" "x mod L + a < L" "L \<le> 1073741824"
  shows "to_int32 (ringbufst_normalize_offset (x + a) L) = x + a"
    "(x + a) div L = x div L" "(x + a) mod L = x mod L + a" "x + a < 2 * L"
proof -
  have c: "(x div L = 0 \<and> x mod L = x \<and> x < L) \<or> (x div L = 1 \<and> x mod L = x - L \<and> L \<le> x)"
    by (rule lap_div_mod [OF assms(1,2)])
  then show lt: "x + a < 2 * L" using assms by auto
  have c': "((x + a) div L = 0 \<and> (x + a) mod L = x + a \<and> x + a < L)
      \<or> ((x + a) div L = 1 \<and> (x + a) mod L = x + a - L \<and> L \<le> x + a)"
    using lt assms by (intro lap_div_mod) auto
  show "(x + a) div L = x div L" "(x + a) mod L = x mod L + a" using c c' assms by auto
  show "to_int32 (ringbufst_normalize_offset (x + a) L) = x + a"
    using lt assms by (simp add: normalize_eq normalize_id)
qed

lemma offset_lap_end:
  assumes "0 \<le> x" "x < 2 * L" "x mod L + a = L" "L \<le> 1073741824"
  shows "to_int32 (ringbufst_normalize_offset (x + a) L) = (1 - x div L) * L"
    "0 \<le> (1 - x div L) * L" "(1 - x div L) * L < 2 * L" "((1 - x div L) * L) div L = 1 - x div L"
    "((1 - x div L) * L) mod L = 0"
proof -
  have L: "0 < L" using assms by linarith
  have c: "(x div L = 0 \<and> x mod L = x \<and> x < L) \<or> (x div L = 1 \<and> x mod L = x - L \<and> L \<le> x)"
    by (rule lap_div_mod [OF assms(1,2)])
  then have "x + a = L \<and> x div L = 0 \<or> x + a = 2 * L \<and> x div L = 1" using assms(3) by auto
  then show "to_int32 (ringbufst_normalize_offset (x + a) L) = (1 - x div L) * L"
    using L assms(4) by (auto simp: normalize_eq normalize_mod2)
  show "0 \<le> (1 - x div L) * L" "(1 - x div L) * L < 2 * L" "((1 - x div L) * L) div L = 1 - x div L"
    "((1 - x div L) * L) mod L = 0" using c L by auto
qed

text \<open>Consecutive entries filling \<open>[a, b)\<close> of the block.\<close>

fun chain :: "byte list \<Rightarrow> nat \<Rightarrow> nat \<Rightarrow> byte list list \<Rightarrow> bool" where
  "chain buf a b [] = (a = b)"
| "chain buf a b (c # cs) = (0 < length c \<and> length c \<le> 1073741824 \<and> a + asz (length c) \<le> b \<and>
     entry_size buf (int a) = length c \<and> entry_chunk buf (int a) (length c) = c \<and>
     chain buf (a + asz (length c)) b cs)"

lemma chain_le: "chain buf a b cs \<Longrightarrow> a \<le> b"
  by (cases cs) auto

lemma chain_same: "chain buf a a cs \<longleftrightarrow> cs = []"
proof (cases cs)
  case (Cons c cs')
  then show ?thesis using asz_bounds(1) [of "length c"] by auto
qed simp

lemma chain_append: "chain buf a m cs \<Longrightarrow> chain buf m b cs' \<Longrightarrow> chain buf a b (cs @ cs')"
proof (induction cs arbitrary: a)
  case (Cons c cs)
  then have "m \<le> b" using chain_le by blast
  with Cons show ?case by auto
qed simp

lemma entry_agree:
  assumes "agree buf buf' a b" "a \<le> p" "p + asz n \<le> b"
  shows "entry_size buf (int p) = entry_size buf' (int p)"
    "entry_chunk buf (int p) n = entry_chunk buf' (int p) n"
  using assms asz_bounds(1) [of n] agree_get [OF assms(1), of p 8] agree_get [OF assms(1), of "p + 8" n]
  by (simp_all add: entry_size_def entry_chunk_def RINGBUFST_ENTRY_HDRSIZE_def)

lemma chain_agree: "agree buf buf' a b \<Longrightarrow> chain buf a b cs \<Longrightarrow> chain buf' a b cs"
proof (induction cs arbitrary: a)
  case (Cons c cs)
  have "agree buf buf' (a + asz (length c)) b" by (rule agree_mono [OF Cons.prems(1)]) auto
  then have "chain buf' (a + asz (length c)) b cs" using Cons.IH Cons.prems(2) by simp
  moreover have "entry_size buf' (int a) = length c" "entry_chunk buf' (int a) (length c) = c"
    using entry_agree [OF Cons.prems(1), of a "length c"] Cons.prems(2) by simp_all
  ultimately show ?case using Cons.prems(2) unfolding chain.simps by simp
qed simp

text \<open>The entries a reader finds from \<open>a\<close> on, up to \<open>b\<close>.\<close>

function entries :: "byte list \<Rightarrow> nat \<Rightarrow> nat \<Rightarrow> byte list list" where
  "entries buf a b =
     (let n = entry_size buf (int a)
      in if a + 8 < b \<and> n \<noteq> 0 \<and> a + asz n \<le> b
         then entry_chunk buf (int a) n # entries buf (a + asz n) b else [])"
  by pat_completeness auto
termination
proof (relation "measure (\<lambda>(buf, a, b). b - a)")
  fix buf and a b n :: nat
  assume "n = entry_size buf (int a)" "a + 8 < b \<and> n \<noteq> 0 \<and> a + asz n \<le> b"
  then show "((buf, a + asz n, b), buf, a, b) \<in> measure (\<lambda>(buf, a, b). b - a)"
    using asz_bounds(1) [of n] unfolding in_measure prod.case by linarith
qed simp

declare entries.simps [simp del]

lemma entries_chain:
  assumes "chain buf a e cs" "e = b \<or> e < b \<and> (b \<le> e + 8 \<or> entry_size buf (int e) = 0)"
  shows "entries buf a b = cs"
  using assms
proof (induction cs arbitrary: a)
  case Nil
  then show ?case by (subst entries.simps) (auto simp: Let_def)
next
  case (Cons c cs)
  have "entries buf (a + asz (length c)) b = cs" using Cons by simp
  moreover have "a + 8 < b" "a + asz (length c) \<le> b"
    using Cons.prems asz_bounds(3) [of "length c"] by auto
  ultimately show ?case using Cons.prems(1) by (subst entries.simps) (simp add: Let_def)
qed

text \<open>Where the upper run of entries may end when the writer is a lap ahead.\<close>

definition tail_ok :: "byte list \<Rightarrow> nat \<Rightarrow> nat \<Rightarrow> nat \<Rightarrow> bool" where
  "tail_ok buf e L w \<longleftrightarrow> e = L \<or> e < L \<and> 0 < w \<and> (L \<le> e + 8 \<or> entry_size buf (int e) = 0)"

definition rpos :: "ring_buffer_st \<Rightarrow> nat" where
  "rpos st = nat (ROffset st mod Length st)"

definition wpos :: "ring_buffer_st \<Rightarrow> nat" where
  "wpos st = nat (WOffset st mod Length st)"

definition same_lap :: "ring_buffer_st \<Rightarrow> bool" where
  "same_lap st \<longleftrightarrow> ROffset st div Length st = WOffset st div Length st"

definition geometry :: "ring_buffer_st \<Rightarrow> bool" where
  "geometry st \<longleftrightarrow> 0 < Length st \<and> Length st \<le> 1073741824 \<and> length (Buffer st) = nat (Length st) \<and>
     0 \<le> ROffset st \<and> ROffset st < 2 * Length st \<and> 0 \<le> WOffset st \<and> WOffset st < 2 * Length st"

definition laid_out :: "byte list \<Rightarrow> bool \<Rightarrow> nat \<Rightarrow> nat \<Rightarrow> nat \<Rightarrow> byte list list \<Rightarrow> bool" where
  "laid_out buf same r w L cs \<longleftrightarrow>
     (if same then r \<le> w \<and> chain buf r w cs
      else w \<le> r \<and> (\<exists>e cs1 cs2. cs = cs1 @ cs2 \<and> chain buf r e cs1 \<and> chain buf 0 w cs2 \<and> tail_ok buf e L w))"

text \<open>\<open>rbst_repr st cs\<close>: the ring is at rest and holds the chunks \<open>cs\<close>, oldest first.\<close>

definition rbst_repr :: "ring_buffer_st \<Rightarrow> byte list list \<Rightarrow> bool" where
  "rbst_repr st cs \<longleftrightarrow> RLock st = 0 \<and> WLock st = 0 \<and> geometry st \<and>
     laid_out (Buffer st) (same_lap st) (rpos st) (wpos st) (nat (Length st)) cs"

definition rbst_inv :: "ring_buffer_st \<Rightarrow> bool" where
  "rbst_inv st \<longleftrightarrow> (\<exists>cs. rbst_repr st cs)"

definition rbst_content :: "ring_buffer_st \<Rightarrow> byte list list" where
  "rbst_content st =
     (if same_lap st then entries (Buffer st) (rpos st) (wpos st)
      else entries (Buffer st) (rpos st) (nat (Length st)) @ entries (Buffer st) 0 (wpos st))"

lemma laid_out_other:
  "chain buf r e cs1 \<Longrightarrow> chain buf 0 w cs2 \<Longrightarrow> tail_ok buf e L w \<Longrightarrow> w \<le> r \<Longrightarrow> cs = cs1 @ cs2
   \<Longrightarrow> laid_out buf False r w L cs"
  by (auto simp: laid_out_def)

lemma entries_run: "chain buf a b cs \<Longrightarrow> entries buf a b = cs"
  by (rule entries_chain) auto

lemma entries_tail: "chain buf a e cs \<Longrightarrow> tail_ok buf e L w \<Longrightarrow> entries buf a L = cs"
  by (rule entries_chain) (auto simp: tail_ok_def)

lemma repr_content: "rbst_repr st cs \<Longrightarrow> rbst_content st = cs"
  by (auto simp: rbst_repr_def laid_out_def rbst_content_def split: if_splits dest: entries_run entries_tail)

lemma inv_repr: "rbst_inv st \<longleftrightarrow> rbst_repr st (rbst_content st)"
  by (auto simp: rbst_inv_def repr_content)


section \<open>What a write does\<close>

text \<open>The chunk a write stores: the callback applied to the bytes it finds in the slot.\<close>

definition stored_chunk :: "nat \<Rightarrow> (byte list \<Rightarrow> byte list) \<Rightarrow> byte list \<Rightarrow> nat \<Rightarrow> byte list" where
  "stored_chunk n cb buf p = cb (entry_chunk (put_bytes buf p (le_bytes 8 n)) (int p) n)"

definition callback_ok :: "nat \<Rightarrow> (byte list \<Rightarrow> byte list) \<Rightarrow> bool" where
  "callback_ok n cb \<longleftrightarrow> 0 < n \<and> n \<le> 1073741824 \<and> (\<forall>old. length old = n \<longrightarrow> length (cb old) = n)"

lemma write_entry_effect:
  assumes "p + asz n \<le> length buf" "callback_ok n cb"
  shows "length (write_entry buf (int p) n cb) = length buf"
    "entry_size (write_entry buf (int p) n cb) (int p) = n"
    "entry_chunk (write_entry buf (int p) n cb) (int p) n = stored_chunk n cb buf p"
    "length (stored_chunk n cb buf p) = n"
    "b \<le> p \<Longrightarrow> agree buf (write_entry buf (int p) n cb) a b"
    "p + asz n \<le> a \<Longrightarrow> a \<le> b \<Longrightarrow> b \<le> length buf \<Longrightarrow> agree buf (write_entry buf (int p) n cb) a b"
proof -
  let ?b1 = "put_bytes buf p (le_bytes 8 n)" and ?c = "stored_chunk n cb buf p"
  have a: "n + 8 \<le> asz n" "n < 256 ^ 8" using asz_bounds(1) [of n] assms(2) by (simp_all add: callback_ok_def)
  have l1: "length ?b1 = length buf" using assms(1) a by (simp add: mem_simps)
  have lc: "length ?c = n" using assms a l1
    by (simp add: stored_chunk_def callback_ok_def entry_chunk_def RINGBUFST_ENTRY_HDRSIZE_def mem_simps)
  have w: "write_entry buf (int p) n cb = put_bytes ?b1 (p + 8) ?c"
    by (simp add: write_entry_def stored_chunk_def RINGBUFST_ENTRY_HDRSIZE_def Let_def)
  have fit: "p + 8 + length ?c \<le> length ?b1" using lc l1 a assms(1) by simp
  show "length (write_entry buf (int p) n cb) = length buf" using fit l1 unfolding w by (simp add: mem_simps)
  have "get_bytes (put_bytes ?b1 (p + 8) ?c) p 8 = get_bytes ?b1 p 8"
    using agree_get [OF agree_put_above [of "p + 8" "p + 8" ?c ?b1 p], of p 8] fit by simp
  also have "\<dots> = le_bytes 8 n" using get_put_same [of p "le_bytes 8 n" buf] assms(1) a by simp
  finally show "entry_size (write_entry buf (int p) n cb) (int p) = n"
    using a unfolding w by (simp add: entry_size_def RINGBUFST_ENTRY_HDRSIZE_def)
  show "entry_chunk (write_entry buf (int p) n cb) (int p) n = ?c"
    using get_put_same [OF fit] lc unfolding w by (simp add: entry_chunk_def RINGBUFST_ENTRY_HDRSIZE_def)
  show "length ?c = n" by (rule lc)
  show "agree buf (write_entry buf (int p) n cb) a b" if "b \<le> p"
    unfolding w using that assms(1) a fit l1
    by (intro agree_trans [OF agree_put_above agree_put_above]) simp_all
  show "agree buf (write_entry buf (int p) n cb) a b" if "p + asz n \<le> a" "a \<le> b" "b \<le> length buf"
    unfolding w using that assms(1) a fit l1 lc
    by (intro agree_trans [OF agree_put_below agree_put_below]) simp_all
qed

lemma write_entry_chain:
  assumes "chain buf a p cs" "p + asz n \<le> length buf" "callback_ok n cb"
  shows "chain (write_entry buf (int p) n cb) a (p + asz n) (cs @ [stored_chunk n cb buf p])"
proof (rule chain_append)
  note eff = write_entry_effect [OF assms(2,3)]
  show "chain (write_entry buf (int p) n cb) a p cs"
    by (rule chain_agree [OF eff(5) assms(1)]) simp
  show "chain (write_entry buf (int p) n cb) p (p + asz n) [stored_chunk n cb buf p]"
    using eff(2-4) assms(3) by (simp add: callback_ok_def)
qed

lemma clear_tail_effect:
  assumes "w \<le> L" "length buf = L"
  shows "length (clear_tail buf (int w) (int L)) = L" "agree buf (clear_tail buf (int w) (int L)) a w"
    "w + 8 < L \<Longrightarrow> entry_size (clear_tail buf (int w) (int L)) (int w) = 0"
proof -
  let ?z = "replicate (L - w) (0::byte)"
  have c: "clear_tail buf (int w) (int L) = put_bytes buf w ?z" using assms by (simp add: clear_tail_def nat_diff_distrib)
  show "length (clear_tail buf (int w) (int L)) = L" "agree buf (clear_tail buf (int w) (int L)) a w"
    unfolding c using assms by (simp_all add: mem_simps agree_put_above)
  assume l: "w + 8 < L"
  have "get_bytes (put_bytes buf w ?z) w 8 = take 8 (get_bytes (put_bytes buf w ?z) w (L - w))"
    using l by (simp add: get_bytes_def)
  also have "\<dots> = replicate 8 0" using get_put_same [of w ?z buf] assms l by simp
  finally show "entry_size (clear_tail buf (int w) (int L)) (int w) = 0"
    unfolding c by (simp add: entry_size_def RINGBUFST_ENTRY_HDRSIZE_def)
qed

text \<open>The four outcomes of a write on a ring at rest.\<close>

datatype write_plan = TooLarge | NoRoom | AtEnd | AtStart

definition plan_write :: "ring_buffer_st \<Rightarrow> nat \<Rightarrow> write_plan" where
  "plan_write st n =
     (let L = nat (Length st); r = rpos st; w = wpos st; a = asz n
      in if L div 8 < a then TooLarge
         else if \<not> same_lap st then (if a \<le> r - w then AtEnd else NoRoom)
         else if w + a \<le> L then AtEnd
         else if a \<le> r then AtStart else NoRoom)"

lemma pos_facts:
  assumes "geometry st"
  shows "ROffset st sdiv Length st = ROffset st div Length st" "ROffset st smod Length st = int (rpos st)"
    "WOffset st sdiv Length st = WOffset st div Length st" "WOffset st smod Length st = int (wpos st)"
    "rpos st < nat (Length st)" "wpos st < nat (Length st)"
    "ringbufst_restore_wrap (ROffset st) (WOffset st) (Length st) = (if same_lap st then 0 else 1)"
  using assms by (simp_all add: geometry_def rpos_def wpos_def same_lap_def ringbufst_restore_wrap_def)

definition wrote :: "ring_buffer_st \<Rightarrow> byte list \<Rightarrow> nat \<Rightarrow> nat \<Rightarrow> (byte list \<Rightarrow> byte list) \<Rightarrow> int \<Rightarrow> ring_buffer_st" where
  "wrote st buf p n cb off = st\<lparr> Buffer := write_entry buf (int p) n cb, WOffset := off \<rparr>"

lemma write_plan_eq:
  assumes "rbst_repr st cs" "0 < n" "n \<le> 1073741824"
  shows "ringbufst_write st n cb =
    (case plan_write st n of
       TooLarge \<Rightarrow> (-1, st)
     | NoRoom \<Rightarrow> (0, st)
     | AtEnd \<Rightarrow> (1, wrote st (Buffer st) (wpos st) n cb
         (to_int32 (ringbufst_normalize_offset (WOffset st + int (asz n)) (Length st))))
     | AtStart \<Rightarrow> (1, wrote st (clear_tail (Buffer st) (int (wpos st)) (Length st)) 0 n cb
         (to_int32 (int (asz n) + (1 - ROffset st div Length st) * Length st))))"
proof -
  have g: "geometry st" and lk: "WLock st = 0" and lo: "laid_out (Buffer st) (same_lap st) (rpos st) (wpos st) (nat (Length st)) cs"
    using assms(1) by (simp_all add: rbst_repr_def)
  have L: "0 < Length st" "0 \<le> ROffset st" "ROffset st < 2 * Length st" using g by (simp_all add: geometry_def)
  have a: "0 < asz n" using asz_bounds(1) [of n] by simp
  have le: "if same_lap st then rpos st \<le> wpos st else wpos st \<le> rpos st" using lo by (simp add: laid_out_def split: if_splits)
  have lap: "to_int32 (ROffset st div Length st) = ROffset st div Length st"
    using lap_div_mod [OF L(2,3)] by auto
  have len: "int (nat (Length st)) = Length st" using L by simp
  have "int (nat (Length st) div 8) = Length st div 8" using len by (simp add: zdiv_int)
  then have tl: "int (asz n) > Length st div 8 \<longleftrightarrow> nat (Length st) div 8 < asz n" by linarith
  note pf = pos_facts [OF g] and e = align_entrysize_asz(2) [OF assms(3)]
  have nz: "\<not> (int (asz n) = 0 \<or> int (asz n) = -1 \<or> Length st div 8 < int (asz n)) \<longleftrightarrow> \<not> nat (Length st) div 8 < asz n"
    using a tl by linarith
  show ?thesis
  proof (cases "nat (Length st) div 8 < asz n")
    case True
    then show ?thesis using tl by (simp add: ringbufst_write_def plan_write_def e)
  next
    case False
    show ?thesis
    proof (cases "same_lap st")
      case other: False
      have "Length st - (1 * Length st + int (wpos st) - int (rpos st)) \<ge> int (asz n) \<longleftrightarrow> asz n \<le> rpos st - wpos st"
        using le other by auto
      then show ?thesis using False other nz a lk
        by (simp add: ringbufst_write_def plan_write_def e pf(1-4,7) wrote_def)
    next
      case True
      have "Length st - int (wpos st) \<ge> int (asz n) \<longleftrightarrow> wpos st + asz n \<le> nat (Length st)" using L by linarith
      moreover have "Length st - (0 * Length st + int (wpos st) - int (rpos st)) \<ge> int (asz n)"
        if "wpos st + asz n \<le> nat (Length st) \<or> asz n \<le> rpos st" using that pf(6) L le True by auto
      ultimately show ?thesis using False True nz a lk lap
        by (simp add: ringbufst_write_def plan_write_def e pf(1-4,7) wrote_def Let_def)
    qed
  qed
qed

lemma tail_agree:
  assumes "tail_ok buf e L w" "agree buf buf' lo L" "lo \<le> e" "0 < w'"
  shows "tail_ok buf' e L w'"
proof (cases "L \<le> e + 8")
  case False
  then have "entry_size buf' (int e) = entry_size buf (int e)"
    using agree_get [OF assms(2), of e 8] assms(3) by (simp add: entry_size_def RINGBUFST_ENTRY_HDRSIZE_def)
  then show ?thesis using assms(1,4) by (auto simp: tail_ok_def)
qed (use assms in \<open>auto simp: tail_ok_def\<close>)

text \<open>The chunk a successful write stores, and where.\<close>

definition enq_chunk :: "nat \<times> (byte list \<Rightarrow> byte list) \<Rightarrow> ring_buffer_st \<Rightarrow> byte list" where
  "enq_chunk e st = (case e of (n, cb) \<Rightarrow>
     (case plan_write st n of
        AtStart \<Rightarrow> stored_chunk n cb (clear_tail (Buffer st) (int (wpos st)) (Length st)) 0
      | _ \<Rightarrow> stored_chunk n cb (Buffer st) (wpos st)))"

lemma wrote_repr:
  assumes "rbst_repr st cs" "p + asz n \<le> nat (Length st)" "callback_ok n cb" "length buf = nat (Length st)"
    "0 \<le> off" "off < 2 * Length st"
    "laid_out (write_entry buf (int p) n cb) (ROffset st div Length st = off div Length st)
       (rpos st) (nat (off mod Length st)) (nat (Length st)) cs'"
  shows "rbst_repr (wrote st buf p n cb off) cs'"
  using assms write_entry_effect(1) [of p n buf cb]
  by (simp add: rbst_repr_def wrote_def geometry_def same_lap_def rpos_def wpos_def)

lemma write_at_end:
  assumes r: "rbst_repr st cs" and cb: "callback_ok n cb" and pl: "plan_write st n = AtEnd"
  shows "rbst_repr (wrote st (Buffer st) (wpos st) n cb
      (to_int32 (ringbufst_normalize_offset (WOffset st + int (asz n)) (Length st))))
    (cs @ [stored_chunk n cb (Buffer st) (wpos st)])"
proof -
  let ?L = "nat (Length st)" and ?w = "wpos st" and ?r = "rpos st" and ?buf = "Buffer st" and ?a = "asz n"
  let ?buf' = "write_entry ?buf (int ?w) n cb" and ?c = "stored_chunk n cb ?buf ?w"
  have g: "geometry st" and lo: "laid_out ?buf (same_lap st) ?r ?w ?L cs" using r by (simp_all add: rbst_repr_def)
  have L: "0 < Length st" "Length st \<le> 1073741824" "0 \<le> WOffset st" "WOffset st < 2 * Length st" "length ?buf = ?L"
    using g by (simp_all add: geometry_def)
  have Rd: "ROffset st div Length st = 0 \<or> ROffset st div Length st = 1"
    "WOffset st div Length st = 0 \<or> WOffset st div Length st = 1"
    using g lap_div_mod [of "ROffset st" "Length st"] lap_div_mod [of "WOffset st" "Length st"]
    by (auto simp: geometry_def)
  note pf = pos_facts [OF g]
  have wm: "WOffset st mod Length st = int ?w" using L by (simp add: wpos_def)
  have fit: "?w + ?a \<le> ?L" using pl lo pf(5) by (auto simp: plan_write_def Let_def laid_out_def split: if_splits)
  note chain' = write_entry_chain [OF _ fit [folded L(5)] cb]
  note eff = write_entry_effect [OF fit [folded L(5)] cb]
  show ?thesis
  proof (cases "?w + ?a = ?L")
    case False
    have fw: "WOffset st mod Length st + int ?a < Length st" using False fit wm L by linarith
    note off = offset_forward [OF L(3,4) _ fw L(2)]
    have "laid_out ?buf' (same_lap st) ?r (?w + ?a) ?L (cs @ [?c])"
    proof (cases "same_lap st")
      case True
      then show ?thesis using lo chain' by (simp add: laid_out_def)
    next
      case other: False
      have room: "?w + ?a \<le> ?r" using pl other lo by (auto simp: plan_write_def Let_def laid_out_def split: if_splits)
      obtain e cs1 cs2 where e: "cs = cs1 @ cs2" "chain ?buf ?r e cs1" "chain ?buf 0 ?w cs2" "tail_ok ?buf e ?L ?w"
        using lo other by (auto simp: laid_out_def)
      have el: "?r \<le> e" "e \<le> ?L" using chain_le [OF e(2)] e(4) by (auto simp: tail_ok_def)
      have ag: "agree ?buf ?buf' ?r ?L" using eff(6) [of ?r ?L] room pf(5) L(5) by simp
      have "chain ?buf' ?r e cs1" using ag el by (intro chain_agree [OF _ e(2)] agree_mono [OF ag]) simp_all
      moreover have "tail_ok ?buf' e ?L (?w + ?a)"
        by (rule tail_agree [OF e(4) ag el(1)]) (use asz_bounds(1) [of n] in simp)
      ultimately have "laid_out ?buf' False ?r (?w + ?a) ?L (cs @ [?c])"
        by (rule laid_out_other [OF _ chain' [OF e(3)]]) (use room e(1) in simp_all)
      then show ?thesis using other by simp
    qed
    then show ?thesis using off(2-4) L
      by (intro wrote_repr [OF r fit cb L(5)]) (simp_all add: off wm same_lap_def nat_add_distrib)
  next
    case True
    have en: "WOffset st mod Length st + int ?a = Length st" using True wm L by linarith
    note off = offset_lap_end [OF L(3,4) en L(2)]
    have s: "same_lap st"
      using pl True pf(5) asz_bounds(1) [of n] lo by (auto simp: plan_write_def Let_def laid_out_def split: if_splits)
    then have "chain ?buf' ?r ?L (cs @ [?c])" using lo chain' True by (simp add: laid_out_def)
    then have "laid_out ?buf' False ?r 0 ?L (cs @ [?c])"
      by (intro laid_out_other [of ?buf' ?r ?L "cs @ [?c]" 0 "[]" ?L]) (simp_all add: tail_ok_def)
    moreover have "(ROffset st div Length st = 1 - WOffset st div Length st) = False"
      using s Rd by (auto simp: same_lap_def)
    ultimately show ?thesis using off(2-5)
      by (intro wrote_repr [OF r fit cb L(5)]) (simp_all add: off)
  qed
qed

lemma write_at_start:
  assumes r: "rbst_repr st cs" and cb: "callback_ok n cb" and pl: "plan_write st n = AtStart"
  shows "rbst_repr (wrote st (clear_tail (Buffer st) (int (wpos st)) (Length st)) 0 n cb
      (to_int32 (int (asz n) + (1 - ROffset st div Length st) * Length st)))
    (cs @ [stored_chunk n cb (clear_tail (Buffer st) (int (wpos st)) (Length st)) 0])"
proof -
  let ?L = "nat (Length st)" and ?w = "wpos st" and ?r = "rpos st" and ?a = "asz n"
  let ?buf = "clear_tail (Buffer st) (int ?w) (Length st)"
  let ?buf' = "write_entry ?buf (int 0) n cb" and ?c = "stored_chunk n cb ?buf 0"
  let ?off = "int ?a + (1 - ROffset st div Length st) * Length st"
  have g: "geometry st" and lo: "laid_out (Buffer st) (same_lap st) ?r ?w ?L cs"
    using r by (simp_all add: rbst_repr_def)
  have L: "0 < Length st" "Length st \<le> 1073741824" "length (Buffer st) = ?L" "0 \<le> ROffset st" "ROffset st < 2 * Length st"
    using g by (simp_all add: geometry_def)
  note pf = pos_facts [OF g]
  have s: "same_lap st" "?a \<le> ?r" using pl by (simp_all add: plan_write_def Let_def split: if_splits)
  have ch: "?r \<le> ?w" "chain (Buffer st) ?r ?w cs" using lo s by (simp_all add: laid_out_def)
  have Ln: "int ?L = Length st" using L by simp
  note ct = clear_tail_effect [of ?w ?L "Buffer st", unfolded Ln]
  have lb: "length ?buf = ?L" using ct(1) pf(6) L(3) by simp
  have fit: "0 + ?a \<le> length ?buf" using s(2) pf(5) lb by simp
  note eff = write_entry_effect [OF fit cb]
  have ag: "agree ?buf ?buf' ?r ?L" using eff(6) [of ?r ?L] s(2) pf(5) lb by simp
  have "agree (Buffer st) ?buf' ?r ?w"
    using ct(2) [of ?r] pf(6) L(3) by (intro agree_trans [OF _ agree_mono [OF ag]]) simp_all
  then have c1: "chain ?buf' ?r ?w cs" by (rule chain_agree [OF _ ch(2)])
  have c2: "chain ?buf' 0 ?a [?c]" using write_entry_chain [OF _ fit cb, of 0 "[]"] by simp
  have a0: "0 < ?a" using asz_bounds(1) [of n] by simp
  have "tail_ok ?buf ?w ?L ?a"
  proof (cases "?L \<le> ?w + 8")
    case False
    then show ?thesis using ct(3) pf(6) L(3) a0 by (simp add: tail_ok_def)
  qed (use pf(6) a0 in \<open>simp add: tail_ok_def\<close>)
  then have t: "tail_ok ?buf' ?w ?L ?a" by (rule tail_agree [OF _ ag ch(1) a0])
  have lo': "laid_out ?buf' False ?r ?a ?L (cs @ [?c])"
    by (rule laid_out_other [OF c1 c2 t s(2)]) simp
  have lap: "(ROffset st div Length st = 0 \<or> ROffset st div Length st = 1)"
    using lap_div_mod [OF L(4,5)] by auto
  have al: "int ?a < Length st" using s(2) pf(5) by linarith
  have o: "0 \<le> ?off" "?off < 2 * Length st" "?off div Length st = 1 - ROffset st div Length st" "?off mod Length st = int ?a"
    "to_int32 ?off = ?off"
    using lap al L by auto
  then have "(ROffset st div Length st = ?off div Length st) = False" using lap by auto
  with o lo' show ?thesis
    using wrote_repr [OF r _ cb lb, of 0 ?off "cs @ [?c]"] fit lb by simp
qed

lemma write_repr:
  assumes "rbst_repr st cs" "callback_ok n cb"
  shows "case ringbufst_write st n cb of (ret, st') \<Rightarrow>
    (ret = 1 \<or> ret = 0 \<or> ret = -1) \<and> (ret = 1 \<longrightarrow> rbst_repr st' (cs @ [enq_chunk (n, cb) st]))
    \<and> (ret \<noteq> 1 \<longrightarrow> st' = st) \<and> (ret = 1 \<longleftrightarrow> plan_write st n \<in> {AtEnd, AtStart})
    \<and> (ret = -1 \<longleftrightarrow> plan_write st n = TooLarge)"
  using write_plan_eq [OF assms(1), of n cb] write_at_end [OF assms] write_at_start [OF assms] assms(2)
  by (cases "plan_write st n") (simp_all add: enq_chunk_def callback_ok_def)


section \<open>What a read does\<close>

text \<open>
  The outcomes of looking for the next entry of a ring at rest: nothing, a cleared tail to skip,
  or the entry at a position.
\<close>

datatype read_plan = Nothing | SkipTail | TakeAt nat

definition plan_read :: "ring_buffer_st \<Rightarrow> read_plan" where
  "plan_read st =
     (if same_lap st then (if rpos st < wpos st then TakeAt (rpos st) else Nothing)
      else if rpos st + 8 < nat (Length st)
        then (if entry_size (Buffer st) (int (rpos st)) \<noteq> 0 then TakeAt (rpos st) else SkipTail)
      else TakeAt 0)"

definition skipped :: "ring_buffer_st \<Rightarrow> ring_buffer_st" where
  "skipped st = st\<lparr> ROffset := WOffset st div Length st * Length st \<rparr>"

text \<open>The ring after the entry of \<open>n\<close> bytes at \<open>p\<close> has been taken.\<close>

definition took :: "ring_buffer_st \<Rightarrow> nat \<Rightarrow> nat \<Rightarrow> ring_buffer_st" where
  "took st p n = st\<lparr> ROffset :=
     (if p = rpos st then to_int32 (ringbufst_normalize_offset (ROffset st + int (asz n)) (Length st))
      else to_int32 (int (asz n) + WOffset st div Length st * Length st)) \<rparr>"

lemma same_offsets:
  assumes "geometry st" "same_lap st" "rpos st = wpos st"
  shows "ROffset st = WOffset st"
proof -
  have "0 < Length st" using assms(1) by (simp add: geometry_def)
  then have "ROffset st mod Length st = WOffset st mod Length st"
    using assms(3) by (simp add: rpos_def wpos_def eq_nat_nat_iff)
  then show ?thesis using assms(2) div_mult_mod_eq unfolding same_lap_def by metis
qed

text \<open>What the plan says about the stored chunks.\<close>

lemma plan_read_content:
  assumes "rbst_repr st cs"
  shows "case plan_read st of
      Nothing \<Rightarrow> cs = []
    | SkipTail \<Rightarrow> cs \<noteq> [] \<and> \<not> same_lap st \<and> 0 < wpos st \<and> chain (Buffer st) 0 (wpos st) cs
    | TakeAt p \<Rightarrow> (\<exists>c cs'. cs = c # cs' \<and> c \<noteq> [] \<and> length c \<le> 1073741824 \<and>
        entry_size (Buffer st) (int p) = length c \<and> entry_chunk (Buffer st) (int p) (length c) = c \<and>
        (p = rpos st \<and> (same_lap st \<and> p + asz (length c) \<le> wpos st \<or>
            \<not> same_lap st \<and> p + asz (length c) \<le> nat (Length st) \<and> p + 8 < nat (Length st))
         \<or> p = 0 \<and> p < rpos st \<and> \<not> same_lap st \<and> nat (Length st) \<le> rpos st + 8 \<and> asz (length c) \<le> wpos st \<and>
           chain (Buffer st) (asz (length c)) (wpos st) cs'))"
proof (cases "same_lap st")
  case True
  then have "rpos st \<le> wpos st" "chain (Buffer st) (rpos st) (wpos st) cs"
    using assms by (simp_all add: rbst_repr_def laid_out_def)
  moreover have "rpos st < wpos st" if "cs = c # cs'" for c cs'
    using calculation(2) that asz_bounds(1) [of "length c"] by simp
  ultimately show ?thesis using True by (cases cs) (auto simp: plan_read_def)
next
  case False
  then obtain e cs1 cs2 where e: "cs = cs1 @ cs2" "chain (Buffer st) (rpos st) e cs1"
      "chain (Buffer st) 0 (wpos st) cs2" "tail_ok (Buffer st) e (nat (Length st)) (wpos st)"
      and le: "wpos st \<le> rpos st"
    using assms by (auto simp: rbst_repr_def laid_out_def)
  have g: "geometry st" using assms by (simp add: rbst_repr_def)
  note pf = pos_facts [OF g]
  show ?thesis
  proof (cases cs1)
    case Nil
    then have t: "0 < wpos st" "nat (Length st) \<le> rpos st + 8 \<or> entry_size (Buffer st) (int (rpos st)) = 0"
      using e(2,4) pf(5) by (auto simp: tail_ok_def)
    then obtain c cs' where c: "cs2 = c # cs'" using e(3) by (cases cs2) auto
    show ?thesis using t e Nil c False le
      by (auto simp: plan_read_def)
  next
    case (Cons c cs')
    have "e \<le> nat (Length st)" using e(4) by (auto simp: tail_ok_def)
    moreover have "rpos st + asz (length c) \<le> e" "16 \<le> asz (length c)"
      using Cons e(2) asz_bounds(3) [of "length c"] by auto
    ultimately show ?thesis using Cons e False by (auto simp: plan_read_def)
  qed
qed

text \<open>One look at a ring whose read lock is held by the caller.\<close>

lemma read_internal_eq:
  assumes "rbst_repr st cs"
  shows "ringbufst_read_internal cb (st\<lparr> RLock := 1 \<rparr>)
      (ringbufst_restore_wrap (ROffset st) (WOffset st) (Length st)) (ROffset st) (WOffset st) arg =
    (case plan_read st of
       Nothing \<Rightarrow> (0, st\<lparr> RLock := 1 \<rparr>, arg)
     | SkipTail \<Rightarrow> (0, (skipped st)\<lparr> RLock := 1 \<rparr>, arg)
     | TakeAt p \<Rightarrow> (case cb (hd cs) arg of (taken, arg') \<Rightarrow>
         if taken then (1, (took st p (length (hd cs)))\<lparr> RLock := 1 \<rparr>, arg')
         else (0, st\<lparr> RLock := 1 \<rparr>, arg')))"
proof -
  have g: "geometry st" using assms by (simp add: rbst_repr_def)
  have L: "0 < Length st" "0 \<le> WOffset st" "WOffset st < 2 * Length st" "Length st \<le> 1073741824"
    using g by (simp_all add: geometry_def)
  note pf = pos_facts [OF g] and pc = plan_read_content [OF assms]
  have lo: "if same_lap st then rpos st \<le> wpos st else wpos st \<le> rpos st"
    using assms by (simp add: rbst_repr_def laid_out_def split: if_splits)
  have wl: "to_int32 (WOffset st div Length st * Length st) = WOffset st div Length st * Length st"
    using lap_div_mod [OF L(2,3)] L(1,4) by auto
  have len: "int (nat (Length st)) = Length st" using L by simp
  show ?thesis
  proof (cases "plan_read st")
    case Nothing
    then show ?thesis using lo by (simp add: ringbufst_read_internal.simps pf(2,4,7) Let_def plan_read_def split: if_splits)
  next
    case SkipTail
    then have s: "\<not> same_lap st" "0 < wpos st" "rpos st + 8 < nat (Length st)"
      "entry_size (Buffer st) (int (rpos st)) = 0"
      using pc by (auto simp: plan_read_def split: if_splits)
    then show ?thesis using SkipTail len lo wl pf(3)
      by (auto simp: ringbufst_read_internal.simps pf(2,4,7) Let_def ringbufst_read_next.simps skipped_def)
  next
    case (TakeAt p)
    then obtain c cs' where c: "cs = c # cs'" "c \<noteq> []" "length c \<le> 1073741824"
        "entry_size (Buffer st) (int p) = length c" "entry_chunk (Buffer st) (int p) (length c) = c"
      and p: "p = rpos st \<and> (same_lap st \<and> p + asz (length c) \<le> wpos st \<or>
            \<not> same_lap st \<and> p + asz (length c) \<le> nat (Length st) \<and> p + 8 < nat (Length st))
         \<or> p = 0 \<and> p < rpos st \<and> \<not> same_lap st \<and> nat (Length st) \<le> rpos st + 8 \<and> asz (length c) \<le> wpos st"
      using pc by auto
    have a: "16 \<le> asz (length c)" using c(2) asz_bounds(3) [of "length c"] by simp
    note al = align_entrysize_asz [OF c(3)]
    from p show ?thesis
    proof (elim disjE conjE)
      assume "p = rpos st" "same_lap st" "p + asz (length c) \<le> wpos st"
      then show ?thesis using TakeAt c a al len
        by (auto simp: ringbufst_read_internal.simps pf(2,4,7) Let_def took_def split: prod.splits)
    next
      assume "p = rpos st" "\<not> same_lap st" "p + asz (length c) \<le> nat (Length st)" "p + 8 < nat (Length st)"
      moreover have "8 < Length st + int (wpos st) - int (rpos st)" using calculation a len by linarith
      ultimately show ?thesis using TakeAt c a al len
        by (auto simp: ringbufst_read_internal.simps pf(2,4,7) Let_def took_def split: prod.splits)
    next
      assume q: "p = 0" "p < rpos st" "\<not> same_lap st" "nat (Length st) \<le> rpos st + 8" "asz (length c) \<le> wpos st"
      moreover have "8 < Length st + int (wpos st) - int (rpos st)" using q a len pf(5) by linarith
      ultimately show ?thesis using TakeAt c a al len wl pf(3)
        by (auto simp: ringbufst_read_internal.simps pf(2,4,7) Let_def took_def split: prod.splits)
    qed
  qed
qed


lemma roffset_repr:
  assumes "rbst_repr st cs" "0 \<le> off" "off < 2 * Length st"
    "laid_out (Buffer st) (off div Length st = WOffset st div Length st) (nat (off mod Length st)) (wpos st)
       (nat (Length st)) cs'"
  shows "rbst_repr (st\<lparr> ROffset := off \<rparr>) cs'"
  using assms by (simp add: rbst_repr_def geometry_def same_lap_def rpos_def wpos_def)

text \<open>Skipping the cleared tail changes nothing but the read offset: it now looks at the start.\<close>

lemma skipped_repr:
  assumes "rbst_repr st cs" "plan_read st = SkipTail"
  shows "rbst_repr (skipped st) cs \<and> plan_read (skipped st) = TakeAt 0"
proof -
  have g: "geometry st" using assms(1) by (simp add: rbst_repr_def)
  have L: "0 < Length st" "0 \<le> WOffset st" "WOffset st < 2 * Length st" using g by (simp_all add: geometry_def)
  let ?off = "WOffset st div Length st * Length st"
  have o: "0 \<le> ?off" "?off < 2 * Length st" "?off div Length st = WOffset st div Length st" "?off mod Length st = 0"
    using lap_div_mod [OF L(2,3)] L(1) by auto
  have c: "0 < wpos st" "chain (Buffer st) 0 (wpos st) cs" using plan_read_content [OF assms(1)] assms(2) by auto
  have "rbst_repr (st\<lparr> ROffset := ?off \<rparr>) cs"
    by (rule roffset_repr [OF assms(1) o(1,2)]) (use o c in \<open>simp add: laid_out_def\<close>)
  then show ?thesis using c(1) o by (simp add: skipped_def plan_read_def same_lap_def rpos_def wpos_def)
qed

lemma took_repr:
  assumes r: "rbst_repr st cs" and t: "plan_read st = TakeAt p"
  shows "rbst_repr (took st p (length (hd cs))) (tl cs)"
proof -
  let ?L = "nat (Length st)" and ?r = "rpos st" and ?w = "wpos st" and ?buf = "Buffer st"
  have g: "geometry st" and lo: "laid_out ?buf (same_lap st) ?r ?w ?L cs" using r by (simp_all add: rbst_repr_def)
  have L: "0 < Length st" "Length st \<le> 1073741824" "0 \<le> ROffset st" "ROffset st < 2 * Length st"
      "0 \<le> WOffset st" "WOffset st < 2 * Length st"
    using g by (simp_all add: geometry_def)
  note pf = pos_facts [OF g]
  obtain c cs' where c: "cs = c # cs'" "c \<noteq> []" "length c \<le> 1073741824"
    and pp: "p = ?r \<and> (same_lap st \<and> p + asz (length c) \<le> ?w \<or>
          \<not> same_lap st \<and> p + asz (length c) \<le> ?L \<and> p + 8 < ?L)
       \<or> p = 0 \<and> p < ?r \<and> \<not> same_lap st \<and> ?L \<le> ?r + 8 \<and> asz (length c) \<le> ?w \<and>
         chain ?buf (asz (length c)) ?w cs'"
    using plan_read_content [OF r] t by auto
  let ?a = "asz (length c)"
  have rm: "ROffset st mod Length st = int ?r" using L by (simp add: rpos_def)
  have laps: "ROffset st div Length st = 0 \<or> ROffset st div Length st = 1"
      "WOffset st div Length st = 0 \<or> WOffset st div Length st = 1"
    using lap_div_mod [OF L(3,4)] lap_div_mod [OF L(5,6)] by auto
  have a: "16 \<le> ?a" using c(2) asz_bounds(3) [of "length c"] by simp
  show ?thesis
  proof (cases "p = ?r")
    case False
    let ?off = "int ?a + WOffset st div Length st * Length st"
    have q: "\<not> same_lap st" "?a \<le> ?w" "chain ?buf ?a ?w cs'" "p < ?r" "p = 0" using pp False by auto
    have al: "int ?a < Length st" using q(2) pf(6) by linarith
    have o: "0 \<le> ?off" "?off < 2 * Length st" "?off div Length st = WOffset st div Length st"
        "?off mod Length st = int ?a" "to_int32 ?off = ?off"
      using laps(2) al L(1,2) by auto
    have "rbst_repr (st\<lparr> ROffset := ?off \<rparr>) cs'"
      by (rule roffset_repr [OF r o(1,2)]) (use o q in \<open>simp add: laid_out_def\<close>)
    then show ?thesis using c q o(5) by (simp add: took_def)
  next
    case True
    have fit: "?r + ?a \<le> ?L" using pp True pf(6) by auto
    show ?thesis
    proof (cases "same_lap st")
      case s: True
      have ch: "chain ?buf ?r ?w cs" using lo s by (simp add: laid_out_def)
      then have nx: "?r + ?a \<le> ?w" "chain ?buf (?r + ?a) ?w cs'" using c by simp_all
      have fw: "ROffset st mod Length st + int ?a < Length st" using nx(1) pf(6) rm by linarith
      note off = offset_forward [OF L(3,4) _ fw L(2)]
      have "rbst_repr (st\<lparr> ROffset := ROffset st + int ?a \<rparr>) cs'"
        by (rule roffset_repr [OF r]) (use off(2-4) L nx s in \<open>simp_all add: rm laid_out_def same_lap_def nat_add_distrib\<close>)
      then show ?thesis using c True by (simp add: took_def off)
    next
      case s: False
      obtain e cs1 cs2 where e: "cs = cs1 @ cs2" "chain ?buf ?r e cs1" "chain ?buf 0 ?w cs2" "tail_ok ?buf e ?L ?w"
          and le: "?w \<le> ?r"
        using lo s by (auto simp: laid_out_def)
      have r8: "?r + 8 < ?L" "entry_size ?buf (int ?r) \<noteq> 0"
        using t s True pp a pf(5) by (auto simp: plan_read_def split: if_splits)
      obtain cs1' where c1: "cs1 = c # cs1'"
        using e(1,2,4) c(1) r8 pf(5) by (cases cs1) (auto simp: tail_ok_def)
      have nx: "chain ?buf (?r + ?a) e cs1'" "?r + ?a \<le> e" "cs' = cs1' @ cs2" using e c c1 by auto
      show ?thesis
      proof (cases "?r + ?a = ?L")
        case False
        have fw: "ROffset st mod Length st + int ?a < Length st" using False fit rm L by linarith
        note off = offset_forward [OF L(3,4) _ fw L(2)]
        have "laid_out ?buf False (?r + ?a) ?w ?L cs'"
          by (rule laid_out_other [OF nx(1) e(3,4) _ nx(3)]) (use le in simp)
        then have "rbst_repr (st\<lparr> ROffset := ROffset st + int ?a \<rparr>) cs'"
          by (intro roffset_repr [OF r]) (use off(2-4) L s in \<open>simp_all add: rm same_lap_def nat_add_distrib\<close>)
        then show ?thesis using c True by (simp add: took_def off)
      next
        case stop: True
        have en: "ROffset st mod Length st + int ?a = Length st" using stop rm L by linarith
        note off = offset_lap_end [OF L(3,4) en L(2)]
        have "e = ?L" using nx(2) stop e(4) by (auto simp: tail_ok_def)
        then have "cs1' = []" using nx(1) stop by (simp add: chain_same)
        then have "laid_out ?buf True 0 ?w ?L cs'" using nx(3) e(3) by (simp add: laid_out_def)
        moreover have "(1 - ROffset st div Length st = WOffset st div Length st) = True"
          using laps s by (auto simp: same_lap_def)
        ultimately have "rbst_repr (st\<lparr> ROffset := (1 - ROffset st div Length st) * Length st \<rparr>) cs'"
          using off(2-5) by (intro roffset_repr [OF r]) simp_all
        then show ?thesis using c True by (simp add: took_def off)
      qed
    qed
  qed
qed


text \<open>The read operations on a ring at rest.\<close>

lemma repr_at_rest: "rbst_repr st cs \<Longrightarrow> RLock st = 0 \<and> WLock st = 0 \<and> st\<lparr> RLock := 0 \<rparr> = st"
  by (simp add: rbst_repr_def)

lemma read_next_eq:
  assumes "rbst_repr st cs"
  shows "ringbufst_read_next cb st arg =
    (case plan_read st of
       Nothing \<Rightarrow> (0, st, arg)
     | SkipTail \<Rightarrow> (0, skipped st, arg)
     | TakeAt p \<Rightarrow> (case cb (hd cs) arg of (taken, arg') \<Rightarrow>
         if taken then (1, took st p (length (hd cs)), arg') else (0, st, arg')))"
  using read_internal_eq [OF assms, of cb arg] repr_at_rest [OF assms]
  by (subst ringbufst_read_next.simps)
    (simp add: Let_def took_def skipped_def split: read_plan.splits prod.splits)

text \<open>The three things a read can do, as a statement about the stored chunks.\<close>

lemma read_next_repr:
  assumes "rbst_repr st cs"
  shows "case ringbufst_read_next cb st arg of (ret, st', arg') \<Rightarrow>
    (case plan_read st of
       Nothing \<Rightarrow> cs = [] \<and> ret = 0 \<and> st' = st \<and> arg' = arg
     | SkipTail \<Rightarrow> cs \<noteq> [] \<and> ret = 0 \<and> rbst_repr st' cs \<and> plan_read st' = TakeAt 0 \<and> arg' = arg
     | TakeAt p \<Rightarrow> cs \<noteq> [] \<and> arg' = snd (cb (hd cs) arg) \<and>
         (if fst (cb (hd cs) arg) then ret = 1 \<and> rbst_repr st' (tl cs) else ret = 0 \<and> st' = st))"
  using plan_read_content [OF assms] skipped_repr [OF assms] took_repr [OF assms]
  unfolding read_next_eq [OF assms]
  by (auto split: read_plan.splits prod.splits if_splits)

lemma read_copy_eq:
  assumes "rbst_repr st cs"
  shows "ringbufst_read_copy n st =
    (case plan_read st of
       Nothing \<Rightarrow> Some (0, [], st)
     | SkipTail \<Rightarrow> ringbufst_read_copy n (skipped st)
     | TakeAt p \<Rightarrow>
         if to_ssize (length (hd cs)) > to_ssize n then Some (int (length (hd cs)), [], st)
         else Some (int (length (hd cs)), hd cs, took st p (length (hd cs))))"
proof -
  have g: "geometry st" using assms by (simp add: rbst_repr_def)
  have L: "0 < Length st" "0 \<le> WOffset st" "WOffset st < 2 * Length st" "Length st \<le> 1073741824"
    using g by (simp_all add: geometry_def)
  note pf = pos_facts [OF g] and pc = plan_read_content [OF assms] and rest = repr_at_rest [OF assms]
  have lo: "if same_lap st then rpos st \<le> wpos st else wpos st \<le> rpos st"
    using assms by (simp add: rbst_repr_def laid_out_def split: if_splits)
  have wl: "to_int32 (WOffset st div Length st * Length st) = WOffset st div Length st * Length st"
    using lap_div_mod [OF L(2,3)] L(1,4) by auto
  have len: "int (nat (Length st)) = Length st" using L by simp
  show ?thesis
  proof (cases "plan_read st")
    case Nothing
    then have "same_lap st" "rpos st = wpos st" using lo by (simp_all add: plan_read_def split: if_splits)
    then have "ringbufst_read_copy n st = Some (0, [], st)" using rest
      by (subst ringbufst_read_copy.simps) (simp add: pf(2,4,7) Let_def)
    then show ?thesis using Nothing by simp
  next
    case SkipTail
    then have s: "\<not> same_lap st" "0 < wpos st" "rpos st + 8 < nat (Length st)"
      "entry_size (Buffer st) (int (rpos st)) = 0"
      using pc by (auto simp: plan_read_def split: if_splits)
    have "8 < Length st + int (wpos st) - int (rpos st)" "8 < Length st - int (rpos st)" using s len by linarith+
    moreover have "ringbufst_read_copy n st =
        ringbufst_read_copy n (st\<lparr> ROffset := to_int32 (WOffset st sdiv Length st * Length st) \<rparr>)"
      using calculation s(1,4) rest by (subst ringbufst_read_copy.simps) (simp only: pf(2,4,7) Let_def HENTSZ_eq
          if_True if_False simp_thms mult_1_left zero_neq_one one_neq_zero not_False_eq_True)
    ultimately show ?thesis using SkipTail by (simp only: wl pf(3) skipped_def read_plan.case)
  next
    case (TakeAt p)
    then obtain c cs' where c: "cs = c # cs'" "c \<noteq> []" "length c \<le> 1073741824"
        "entry_size (Buffer st) (int p) = length c" "entry_chunk (Buffer st) (int p) (length c) = c"
      and p: "p = rpos st \<and> (same_lap st \<and> p + asz (length c) \<le> wpos st \<or>
            \<not> same_lap st \<and> p + asz (length c) \<le> nat (Length st) \<and> p + 8 < nat (Length st))
         \<or> p = 0 \<and> p < rpos st \<and> \<not> same_lap st \<and> nat (Length st) \<le> rpos st + 8 \<and> asz (length c) \<le> wpos st"
      using pc by auto
    have a: "16 \<le> asz (length c)" using c(2) asz_bounds(3) [of "length c"] by simp
    note al = align_entrysize_asz [OF c(3)]
    from p show ?thesis
    proof (elim disjE conjE)
      assume "p = rpos st" "same_lap st" "p + asz (length c) \<le> wpos st"
      moreover have "8 < int (wpos st) - int (rpos st)" using calculation a by linarith
      ultimately show ?thesis using TakeAt c al len rest
        by (subst ringbufst_read_copy.simps) (simp add: pf(2,4,7) Let_def took_def)
    next
      assume "p = rpos st" "\<not> same_lap st" "p + asz (length c) \<le> nat (Length st)" "p + 8 < nat (Length st)"
      moreover have "8 < Length st + int (wpos st) - int (rpos st)" "8 < Length st - int (rpos st)"
          "int (asz (length c)) \<le> Length st - int (rpos st)"
        using calculation a len by linarith+
      ultimately show ?thesis using TakeAt c al len rest
        by (subst ringbufst_read_copy.simps) (simp add: pf(2,4,7) Let_def took_def)
    next
      assume q: "p = 0" "p < rpos st" "\<not> same_lap st" "nat (Length st) \<le> rpos st + 8" "asz (length c) \<le> wpos st"
      moreover have "8 < Length st + int (wpos st) - int (rpos st)" "\<not> 8 < Length st - int (rpos st)"
        using q a len pf(5) by linarith+
      ultimately show ?thesis using TakeAt c a al len wl pf(3) rest
        by (subst ringbufst_read_copy.simps) (simp add: pf(2,4,7) Let_def took_def)
    qed
  qed
qed

end
