(* ===== verification/RingBufSt_Fifo.thy ===== *)
theory RingBufSt_Fifo
  imports RingBufSt
begin

text \<open>
  The byte ring of \<open>ringbufst.h\<close> as a queue of chunks: the FIFO contract (by interpreting
  \<open>fifo_queue\<close> on \<open>ringbufst_write\<close> and \<open>ringbufst_read_next\<close>), what each operation promises
  about the stored chunks, and the batch reader.
\<close>

section \<open>A fresh ring\<close>

lemma align_page:
  assumes "0 < n" "n \<le> 1073741824"
  shows "0 < memapi_align_bsize n 4096" "memapi_align_bsize n 4096 \<le> 1073741824" "n \<le> memapi_align_bsize n 4096"
proof -
  have e: "memapi_align_bsize n 4096 = (n + 4095) div 4096 * 4096" using assms by (simp add: align_bsize_eq)
  have "(n + 4095) div 4096 \<le> (1073741824 + 4095) div 4096" using assms by (intro div_le_mono) simp
  then show "memapi_align_bsize n 4096 \<le> 1073741824" by (simp add: e)
  show "n \<le> memapi_align_bsize n 4096" using assms by (intro align_bsize_bounds(1)) simp_all
  then show "0 < memapi_align_bsize n 4096" using assms(1) by linarith
qed

definition init_size_ok :: "int \<Rightarrow> int \<Rightarrow> bool" where
  "init_size_ok len eltsizemax \<longleftrightarrow> 0 < eltsizemax \<and> eltsizemax * max 2 (min 131071 len) \<le> 1073741824"

lemma init_repr:
  assumes "init_size_ok len eltsizemax"
  shows "\<exists>st. ringbufst_init len eltsizemax = Some st \<and> rbst_repr st [] \<and>
    eltsizemax * max 2 (min 131071 len) \<le> Length st"
proof -
  let ?n = "max 2 (min 131071 len)" and ?p = "eltsizemax * max 2 (min 131071 len)"
  have len: "(if (if len < 2 then 2 else len) > 131071 then 131071 else if len < 2 then 2 else len) = ?n"
    by auto
  have p: "0 < ?p" "?p \<le> 1073741824" using assms by (simp_all add: init_size_ok_def)
  then have n: "0 < nat ?p" "nat ?p \<le> 1073741824" by auto
  let ?c = "memapi_align_bsize (nat ?p) 4096"
  let ?st = "\<lparr> RLock = 0, WLock = 0, WOffset = 0, ROffset = 0, Length = int ?c, Buffer = replicate ?c (0::byte) \<rparr>"
  have "ringbufst_init len eltsizemax = Some ?st"
    using p unfolding ringbufst_init_def Let_def len by (simp add: not_less)
  moreover have "rbst_repr ?st []"
    using align_page [OF n] by (simp add: rbst_repr_def geometry_def laid_out_def same_lap_def rpos_def wpos_def)
  moreover have "?p \<le> Length ?st" using align_page(3) [OF n] by (simp add: nat_le_iff)
  ultimately show ?thesis by blast
qed

section \<open>The FIFO contract\<close>

definition rbst_enq :: "nat \<times> (byte list \<Rightarrow> byte list) \<Rightarrow> ring_buffer_st \<Rightarrow> bool \<times> ring_buffer_st" where
  "rbst_enq e st = (case ringbufst_write st (fst e) (snd e) of (ret, st') \<Rightarrow> (ret = 1, st'))"

definition take_entry :: "byte list \<Rightarrow> byte list option \<Rightarrow> bool \<times> byte list option" where
  "take_entry c got = (True, Some c)"

definition rbst_deq :: "ring_buffer_st \<Rightarrow> byte list option \<times> ring_buffer_st" where
  "rbst_deq st = (case ringbufst_read_next take_entry st None of (ret, st', got) \<Rightarrow> (got, st'))"

lemma rbst_enq_repr:
  assumes "rbst_repr st cs" "callback_ok (fst e) (snd e)"
  shows "rbst_repr (snd (rbst_enq e st)) (if fst (rbst_enq e st) then cs @ [enq_chunk e st] else cs)"
  using write_repr [OF assms] assms(1) by (cases e) (auto simp: rbst_enq_def split: prod.splits)

lemma rbst_deq_repr:
  assumes "rbst_repr st cs"
  shows "\<exists>cs'. rbst_repr (snd (rbst_deq st)) cs' \<and> cs = (case fst (rbst_deq st) of None \<Rightarrow> [] | Some c \<Rightarrow> [c]) @ cs'"
  using read_next_repr [OF assms, where cb = take_entry and arg = None] assms
  by (cases cs) (auto simp: rbst_deq_def take_entry_def split: prod.splits read_plan.splits)

interpretation rbstq: fifo_queue rbst_inv rbst_content rbst_enq rbst_deq enq_chunk
  "\<lambda>e st. callback_ok (fst e) (snd e)"
proof unfold_locales
  fix q e
  assume q: "rbst_inv q"
  then have r: "rbst_repr q (rbst_content q)" by (simp add: inv_repr)
  note d = rbst_deq_repr [OF r]
  show "rbst_inv (snd (rbst_deq q))" using d by (auto simp: rbst_inv_def)
  show "rbst_content q = (case fst (rbst_deq q) of None \<Rightarrow> [] | Some a \<Rightarrow> [a]) @ rbst_content (snd (rbst_deq q))"
    using d repr_content by fastforce
  assume cb: "callback_ok (fst e) (snd e)"
  note w = rbst_enq_repr [OF r cb]
  show "rbst_inv (snd (rbst_enq e q))" using w by (auto simp: rbst_inv_def)
  show "rbst_content (snd (rbst_enq e q)) =
      (if fst (rbst_enq e q) then rbst_content q @ [enq_chunk e q] else rbst_content q)"
    using w by (rule repr_content)
qed


section \<open>Reading a batch\<close>

text \<open>The callback takes every chunk of a list, in order; the final state of its \<open>arg\<close>.\<close>

fun takes_all :: "(byte list \<Rightarrow> 's \<Rightarrow> bool \<times> 's) \<Rightarrow> byte list list \<Rightarrow> 's \<Rightarrow> 's option" where
  "takes_all cb [] arg = Some arg"
| "takes_all cb (c # cs) arg = (case cb c arg of (taken, arg') \<Rightarrow> if taken then takes_all cb cs arg' else None)"

text \<open>How a reader can have stopped before \<open>cs\<close>: at will, or because the callback refused.\<close>

definition stopped_at :: "(byte list \<Rightarrow> 's \<Rightarrow> bool \<times> 's) \<Rightarrow> byte list list \<Rightarrow> 's \<Rightarrow> 's \<Rightarrow> bool" where
  "stopped_at cb cs arg arg' \<longleftrightarrow> arg' = arg \<or> (\<exists>c cs'. cs = c # cs' \<and> cb c arg = (False, arg'))"

lemma read_locked_step:
  assumes "rbst_repr st cs"
  shows "case ringbufst_read_internal cb (st\<lparr> RLock := 1 \<rparr>)
      (ringbufst_restore_wrap (ROffset st) (WOffset st) (Length st)) (ROffset st) (WOffset st) arg of
      (ret, rb, arg') \<Rightarrow> \<exists>st'. rb = st'\<lparr> RLock := 1 \<rparr> \<and>
        (ret = 1 \<and> (\<exists>c cs'. cs = c # cs' \<and> cb c arg = (True, arg') \<and> rbst_repr st' cs')
         \<or> ret = 0 \<and> rbst_repr st' cs \<and> stopped_at cb cs arg arg')"
proof (cases "plan_read st")
  case Nothing
  then show ?thesis using assms by (auto simp: read_internal_eq stopped_at_def)
next
  case SkipTail
  then show ?thesis using skipped_repr [OF assms] by (auto simp: read_internal_eq [OF assms] stopped_at_def)
next
  case (TakeAt p)
  obtain t a where ta: "cb (hd cs) arg = (t, a)" by force
  have "cs = hd cs # tl cs" using plan_read_content [OF assms] TakeAt by (cases cs) auto
  then show ?thesis using TakeAt took_repr [OF assms TakeAt] assms ta
    by (cases t) (auto simp: read_internal_eq [OF assms] stopped_at_def)
qed

lemma read_batch_loop_repr:
  assumes "rbst_repr st cs" "read_batch_loop k cb num (st\<lparr> RLock := 1 \<rparr>) arg = (num', rb, arg')"
  shows "\<exists>st' cs1 cs2 arg1. rb = st'\<lparr> RLock := 1 \<rparr> \<and> cs = cs1 @ cs2 \<and> rbst_repr st' cs2 \<and> length cs1 \<le> k \<and>
    num' = num + int (length cs1) \<and> takes_all cb cs1 arg = Some arg1 \<and> stopped_at cb cs2 arg1 arg'"
  using assms
proof (induction k arbitrary: st cs num arg)
  case 0
  then show ?case by (intro exI [of _ st] exI [of _ "[]"] exI [of _ cs] exI [of _ arg]) (auto simp: stopped_at_def)
next
  case (Suc k)
  obtain ret rb1 arg1 where r: "ringbufst_read_internal cb (st\<lparr> RLock := 1 \<rparr>)
      (ringbufst_restore_wrap (ROffset st) (WOffset st) (Length st)) (ROffset st) (WOffset st) arg = (ret, rb1, arg1)"
    by (metis prod_cases3)
  obtain st1 where s: "rb1 = st1\<lparr> RLock := 1 \<rparr>" and alt:
      "ret = 1 \<and> (\<exists>c cs'. cs = c # cs' \<and> cb c arg = (True, arg1) \<and> rbst_repr st1 cs')
       \<or> ret = 0 \<and> rbst_repr st1 cs \<and> stopped_at cb cs arg arg1"
    using read_locked_step [OF Suc.prems(1), of cb arg] r by auto
  from alt show ?case
  proof (elim disjE conjE exE)
    fix c cs' assume t: "ret = 1" "cs = c # cs'" "cb c arg = (True, arg1)" "rbst_repr st1 cs'"
    have "read_batch_loop k cb (num + 1) (st1\<lparr> RLock := 1 \<rparr>) arg1 = (num', rb, arg')"
      using Suc.prems(2) r t(1) s by (simp add: Let_def)
    from Suc.IH [OF t(4) this] obtain st' cs1 cs2 arg2 where i: "rb = st'\<lparr> RLock := 1 \<rparr>" "cs' = cs1 @ cs2"
        "rbst_repr st' cs2" "length cs1 \<le> k" "num' = num + 1 + int (length cs1)"
        "takes_all cb cs1 arg1 = Some arg2" "stopped_at cb cs2 arg2 arg'"
      by blast
    show ?case by (intro exI [of _ st'] exI [of _ "c # cs1"] exI [of _ cs2] exI [of _ arg2]) (use i t in simp)
  next
    assume t: "ret = 0" "rbst_repr st1 cs" "stopped_at cb cs arg arg1"
    then have "num' = num" "rb = st1\<lparr> RLock := 1 \<rparr>" "arg' = arg1" using Suc.prems(2) r s by (simp_all add: Let_def)
    with t show ?case by (intro exI [of _ st1] exI [of _ "[]"] exI [of _ cs] exI [of _ arg]) simp
  qed
qed

section \<open>When a write is refused\<close>

text \<open>Bytes between the two offsets, the dead tail of a wrapped block included.\<close>

definition rbst_used :: "ring_buffer_st \<Rightarrow> nat" where
  "rbst_used st = (if same_lap st then wpos st - rpos st else nat (Length st) + wpos st - rpos st)"

lemma no_room_used:
  assumes "rbst_repr st cs" "plan_write st n = NoRoom"
  shows "nat (Length st) < rbst_used st + 2 * asz n"
proof -
  have g: "geometry st" and lo: "laid_out (Buffer st) (same_lap st) (rpos st) (wpos st) (nat (Length st)) cs"
    using assms(1) by (simp_all add: rbst_repr_def)
  have "(if same_lap st then rpos st \<le> wpos st else wpos st \<le> rpos st)"
    using lo by (simp add: laid_out_def split: if_splits)
  then show ?thesis using assms(2) pos_facts(5,6) [OF g]
    by (auto simp: plan_write_def rbst_used_def Let_def split: if_splits)
qed

lemma used_empty:
  assumes "rbst_repr st []"
  shows "rbst_used st = 0"
proof -
  have "same_lap st" using assms plan_read_content [OF assms]
    by (auto simp: plan_read_def split: if_splits)
  moreover from this have "rpos st = wpos st" using assms by (simp add: rbst_repr_def laid_out_def)
  ultimately show ?thesis by (simp add: rbst_used_def)
qed

lemma write_empty_accepts:
  assumes "rbst_repr st []" "callback_ok n cb" "asz n \<le> nat (Length st) div 8"
  shows "fst (ringbufst_write st n cb) = 1"
proof -
  have "plan_write st n \<noteq> NoRoom"
    using no_room_used [OF assms(1), of n] used_empty [OF assms(1)] assms(3) by auto
  moreover have "plan_write st n \<noteq> TooLarge" using assms(3) by (simp add: plan_write_def Let_def)
  ultimately have "plan_write st n \<in> {AtEnd, AtStart}" by (cases "plan_write st n") auto
  then show ?thesis using write_repr [OF assms(1,2)] by (simp split: prod.splits)
qed

lemma too_large_iff: "plan_write st n = TooLarge \<longleftrightarrow> nat (Length st) div 8 < asz n"
  by (simp add: plan_write_def Let_def)

lemma stored_const: "stored_chunk n (\<lambda>_. bs) buf p = bs"
  by (simp add: stored_chunk_def)

lemma enq_chunk_const: "enq_chunk (n, \<lambda>_. bs) st = bs"
  by (simp add: enq_chunk_def stored_const split: write_plan.split)

lemma init_4096: "\<exists>st. ringbufst_init 2 100 = Some st \<and> rbst_repr st [] \<and> Length st = 4096"
proof -
  have "init_size_ok 2 100" by (simp add: init_size_ok_def)
  then obtain st where st: "ringbufst_init 2 100 = Some st" "rbst_repr st []" using init_repr by blast
  moreover have "Length st = 4096"
    using st(1) by (auto simp: ringbufst_init_def Let_def memapi_align_bsize_def)
  ultimately show ?thesis by blast
qed

text \<open>
  A wrapped ring: the writer at 3600 had no room for 504 bytes before the end of the block, cleared
  the tail and stored its entry at the start; the reader has drained everything up to 3600.
\<close>

definition wrapped_ring :: ring_buffer_st where
  "wrapped_ring = \<lparr> RLock = 0, WLock = 0, WOffset = 4600, ROffset = 3600, Length = 4096,
     Buffer = le_bytes 8 496 @ replicate 496 42 @ replicate 3592 0 \<rparr>"

lemma wrapped_ring_repr: "rbst_repr wrapped_ring [replicate 496 42]" "plan_read wrapped_ring = SkipTail"
proof -
  have tail: "entry_size (Buffer wrapped_ring) (int 3600) = 0"
    by (simp add: wrapped_ring_def entry_size_def get_bytes_def RINGBUFST_ENTRY_HDRSIZE_def)
  have "entry_size (Buffer wrapped_ring) (int 0) = 496"
    "entry_chunk (Buffer wrapped_ring) (int 0) 496 = replicate 496 42"
    by (simp_all add: wrapped_ring_def entry_size_def entry_chunk_def get_bytes_def RINGBUFST_ENTRY_HDRSIZE_def
        del: le_bytes.simps)
  then have ch: "chain (Buffer wrapped_ring) 0 504 [replicate 496 42]" by (simp add: asz_def)
  have pos: "rpos wrapped_ring = 3600" "wpos wrapped_ring = 504" "\<not> same_lap wrapped_ring" "Length wrapped_ring = 4096"
    by (simp_all add: rpos_def wpos_def same_lap_def wrapped_ring_def)
  have "laid_out (Buffer wrapped_ring) False 3600 504 4096 [replicate 496 42]"
    using ch tail by (intro laid_out_other [of _ 3600 3600 "[]"]) (simp_all add: tail_ok_def)
  then show "rbst_repr wrapped_ring [replicate 496 42]"
    using pos by (simp add: rbst_repr_def geometry_def) (simp add: wrapped_ring_def)
  show "plan_read wrapped_ring = SkipTail" using pos tail by (simp add: plan_read_def)
qed

text \<open>A successful write appends what the callback made of some old bytes.\<close>

lemma write_old:
  assumes "rbst_repr st cs" "callback_ok n cb" "ringbufst_write st n cb = (1, st')"
  shows "\<exists>old. length old = n \<and> enq_chunk (n, cb) st = cb old"
proof -
  note w = write_repr [OF assms(1,2), unfolded assms(3) prod.case]
  have g: "geometry st" using assms(1) by (simp add: rbst_repr_def)
  then have L: "0 < Length st" "length (Buffer st) = nat (Length st)" by (simp_all add: geometry_def)
  then have Ln: "int (nat (Length st)) = Length st" by simp
  have lo: "if same_lap st then rpos st \<le> wpos st else wpos st \<le> rpos st"
    using assms(1) by (simp add: rbst_repr_def laid_out_def split: if_splits)
  have eff: "\<exists>old. length old = n \<and> stored_chunk n cb buf p = cb old" if "p + asz n \<le> length buf" for buf p
  proof (intro exI conjI)
    show "stored_chunk n cb buf p = cb (entry_chunk (put_bytes buf p (le_bytes 8 n)) (int p) n)"
      by (simp add: stored_chunk_def)
    show "length (entry_chunk (put_bytes buf p (le_bytes 8 n)) (int p) n) = n"
      using asz_bounds(1) [of n] that by (simp add: entry_chunk_def RINGBUFST_ENTRY_HDRSIZE_def mem_simps)
  qed
  have "plan_write st n = AtEnd \<and> wpos st + asz n \<le> nat (Length st)
      \<or> plan_write st n = AtStart \<and> asz n \<le> nat (Length st)"
    using w pos_facts(5) [OF g] lo by (auto simp: plan_write_def Let_def split: if_splits)
  then show ?thesis
    using eff [of "wpos st" "Buffer st"] eff [of 0 "clear_tail (Buffer st) (int (wpos st)) (Length st)"]
      clear_tail_effect(1) [of "wpos st" "nat (Length st)" "Buffer st", unfolded Ln] pos_facts(6) [OF g] L(2)
    by (auto simp: enq_chunk_def)
qed

lemma skipped_same_lap:
  assumes "rbst_repr st cs"
  shows "same_lap (skipped st)"
proof -
  have "0 < Length st" using assms by (simp add: rbst_repr_def geometry_def)
  then show ?thesis by (simp add: same_lap_def skipped_def)
qed

lemma took_same_lap:
  assumes "rbst_repr st cs" "plan_read st = TakeAt p" "same_lap st"
  shows "same_lap (took st p (length (hd cs)))"
proof -
  have g: "geometry st" using assms(1) by (simp add: rbst_repr_def)
  have L: "0 < Length st" "Length st \<le> 1073741824" "0 \<le> ROffset st" "ROffset st < 2 * Length st"
    using g by (simp_all add: geometry_def)
  obtain c cs' where c: "cs = c # cs'" "p = rpos st" "p + asz (length c) \<le> wpos st"
    using plan_read_content [OF assms(1)] assms(2,3) by auto
  have "ROffset st mod Length st = int (rpos st)" using L by (simp add: rpos_def)
  then have "ROffset st mod Length st + int (asz (length c)) < Length st"
    using c(2,3) pos_facts(6) [OF g] by linarith
  note off = offset_forward [OF L(3,4) _ this L(2)]
  show ?thesis using c(1,2) assms(3) off(1,2) by (simp add: took_def same_lap_def)
qed

section \<open>Properties\<close>



text \<open>
  C18.  What a write returns.  On a ring at rest, \<open>ringbufst_write\<close> of a chunk of \<open>n\<close> bytes returns
  -1 exactly when the entry (header and padding included) is larger than an eighth of the block;
  it returns 1 and then the chunk the callback wrote is the newest entry; any other result leaves
  the ring untouched.  A 0 (no room) is possible only when the used part of the block, plus
  twice the entry, exceeds the block, so at least three quarters of the block are in use; an empty
  ring never answers 0.
\<close>

theorem ringbufst_write_outcome:
  assumes "rbst_repr st cs" "callback_ok n cb" "ringbufst_write st n cb = (ret, st')"
  shows "(ret = -1 \<longleftrightarrow> nat (Length st) div 8 < asz n)
    \<and> (ret = 1 \<longrightarrow> (\<exists>old. length old = n \<and> rbst_repr st' (cs @ [cb old])))
    \<and> (ret \<noteq> 1 \<longrightarrow> st' = st \<and> (ret = 0 \<or> ret = -1))
    \<and> (ret = 0 \<longrightarrow> nat (Length st) < rbst_used st + 2 * asz n \<and> cs \<noteq> [])"
proof -
  note w = write_repr [OF assms(1,2), unfolded assms(3) prod.case]
  have old: "\<exists>old. length old = n \<and> enq_chunk (n, cb) st = cb old" if "ret = 1"
    using write_old [OF assms(1,2)] assms(3) that by simp
  have nr: "plan_write st n = NoRoom" if "ret = 0" using w that by (cases "plan_write st n") auto
  have "cs \<noteq> []" if "ret = 0"
    using write_empty_accepts [of st n cb] assms that too_large_iff [of st n] nr not_le by fastforce
  moreover have "ret = 1 \<longrightarrow> (\<exists>old. length old = n \<and> rbst_repr st' (cs @ [cb old]))" using w old by metis
  ultimately show ?thesis using w nr no_room_used [OF assms(1), of n] too_large_iff [of st n] by blast
qed

lemma ringbufst_write_outcome_witness:
  "\<exists>st st'. rbst_repr st [] \<and> ringbufst_write st 5 (\<lambda>_. [1, 2, 3, 4, 5]) = (1, st') \<and> rbst_repr st' [[1, 2, 3, 4, 5]]"
proof -
  obtain st where st: "rbst_repr st []" "Length st = 4096" using init_4096 by blast
  obtain ret st' where r: "ringbufst_write st 5 (\<lambda>_. [1, 2, 3, 4, 5]) = (ret, st')" by force
  have "callback_ok 5 (\<lambda>_. [1, 2, 3, 4, 5])" by (simp add: callback_ok_def)
  from ringbufst_write_outcome [OF st(1) this r] st(2) have "ret = 1" "rbst_repr st' [[1, 2, 3, 4, 5]]"
    by (auto simp: asz_def)
  with st(1) r show ?thesis by blast
qed

text \<open>
  What a callback read delivers.  On a ring at rest that holds a chunk, \<open>ringbufst_read_next\<close>
  never reports corruption: it either gives the oldest chunk to the callback at once, and removes
  it exactly when the callback takes it, or it meets a cleared tail.  Then it returns 0 without
  calling the callback although the ring is not empty (the retry inside finds the lock held),
  having moved the read offset; the next call delivers the oldest chunk.  On an empty ring it
  returns 0 and changes nothing.
\<close>

theorem ringbufst_read_next_outcome:
  assumes "rbst_repr st cs" "ringbufst_read_next cb st arg = (ret, st', arg')"
  shows "if cs = [] then ret = 0 \<and> st' = st \<and> arg' = arg
    else (ret = (if fst (cb (hd cs) arg) then 1 else 0) \<and> arg' = snd (cb (hd cs) arg)
          \<and> rbst_repr st' (if ret = 1 then tl cs else cs))
      \<or> (ret = 0 \<and> arg' = arg \<and> rbst_repr st' cs
          \<and> (\<exists>st''. ringbufst_read_next cb st' arg =
                (if fst (cb (hd cs) arg) then 1 else 0, st'', snd (cb (hd cs) arg))
              \<and> rbst_repr st'' (if fst (cb (hd cs) arg) then tl cs else cs)))"
proof (cases "plan_read st")
  case SkipTail
  have r: "rbst_repr st' cs" "plan_read st' = TakeAt 0" "cs \<noteq> []" "ret = 0" "arg' = arg"
    using read_next_repr [OF assms(1), where cb = cb and arg = arg] SkipTail unfolding assms(2) by auto
  then show ?thesis using read_next_repr [OF r(1), where cb = cb and arg = arg] by (auto split: prod.splits)
next
  case Nothing
  then show ?thesis using read_next_repr [OF assms(1), where cb = cb and arg = arg] unfolding assms(2) by auto
next
  case (TakeAt p)
  then show ?thesis using read_next_repr [OF assms(1), where cb = cb and arg = arg] assms(1) unfolding assms(2)
    by (auto split: if_splits)
qed

lemma ringbufst_read_next_outcome_witness:
  "\<exists>st st'. ringbufst_read_next take_entry wrapped_ring None = (0, st, None)
     \<and> ringbufst_read_next take_entry st None = (1, st', Some (replicate 496 42)) \<and> rbst_repr st' []"
proof -
  have r: "ringbufst_read_next take_entry wrapped_ring None = (0, skipped wrapped_ring, None)"
    using read_next_eq [OF wrapped_ring_repr(1)] wrapped_ring_repr(2) by simp
  from ringbufst_read_next_outcome [OF wrapped_ring_repr(1) r] r show ?thesis by (auto simp: take_entry_def)
qed

text \<open>
  \<open>ringbufst_read_copy\<close> always returns, although it calls itself: on an empty ring 0; else it
  removes the oldest chunk and copies it whole, or, when the caller's buffer is too small, returns
  the size needed and removes nothing.  It never needs a second call after a wrap.
\<close>

theorem ringbufst_read_copy_total:
  assumes "rbst_repr st cs" "rdbufsz < 9223372036854775808"
  shows "\<exists>ret out st'. ringbufst_read_copy rdbufsz st = Some (ret, out, st') \<and>
    (case cs of [] \<Rightarrow> ret = 0 \<and> out = [] \<and> st' = st
     | c # cs' \<Rightarrow> ret = int (length c) \<and>
         (if length c \<le> rdbufsz then out = c \<and> rbst_repr st' cs' else out = [] \<and> rbst_repr st' cs))"
proof -
  have take: ?thesis if t: "rbst_repr st1 cs" "plan_read st1 = TakeAt p" "ringbufst_read_copy rdbufsz st = ringbufst_read_copy rdbufsz st1"
    for st1 p
  proof -
    obtain c cs' where c: "cs = c # cs'" "length c \<le> 1073741824"
      using plan_read_content [OF t(1)] t(2) by auto
    then show ?thesis using t took_repr [OF t(1,2)] read_copy_eq [OF t(1), of rdbufsz] assms(2)
      by (auto split: if_splits)
  qed
  show ?thesis
  proof (cases "plan_read st")
    case Nothing
    then show ?thesis using read_copy_eq [OF assms(1)] plan_read_content [OF assms(1)] by simp
  next
    case SkipTail
    then show ?thesis using skipped_repr [OF assms(1)] read_copy_eq [OF assms(1)] by (intro take) auto
  qed (rule take [OF assms(1)], simp_all)
qed

lemma ringbufst_read_copy_total_witness:
  "\<exists>st st'. ringbufst_read_copy 1000 wrapped_ring = Some (496, replicate 496 42, st) \<and> rbst_repr st []
     \<and> ringbufst_read_copy 100 wrapped_ring = Some (496, [], st') \<and> rbst_repr st' [replicate 496 42]"
  using ringbufst_read_copy_total [OF wrapped_ring_repr(1), of 1000]
    ringbufst_read_copy_total [OF wrapped_ring_repr(1), of 100] by auto

text \<open>
  Batch reading under one lock.  \<open>ringbufst_read_next_batch\<close> on a ring at rest never reports
  corruption; it returns the number \<open>num \<le> batch\<close> of entries the callback took, which are the
  \<open>num\<close> oldest ones in order, leaves the others stored, and then the callback was at most called
  once more, refusing the next entry.
\<close>

theorem ringbufst_read_next_batch_prefix:
  assumes "rbst_repr st cs" "ringbufst_read_next_batch cb st arg batch = (num, st', arg')"
  shows "\<exists>cs1 cs2 arg1. cs = cs1 @ cs2 \<and> num = int (length cs1) \<and> length cs1 \<le> nat batch
    \<and> rbst_repr st' cs2 \<and> takes_all cb cs1 arg = Some arg1 \<and> stopped_at cb cs2 arg1 arg'"
proof -
  obtain rb where l: "read_batch_loop (nat batch) cb 0 (st\<lparr> RLock := 1 \<rparr>) arg = (num, rb, arg')"
      and s: "st' = rb\<lparr> RLock := 0 \<rparr>"
    using assms(2) repr_at_rest [OF assms(1)] by (auto simp: ringbufst_read_next_batch_def split: prod.splits)
  obtain st1 cs1 cs2 arg1 where p: "rb = st1\<lparr> RLock := 1 \<rparr>" "cs = cs1 @ cs2" "rbst_repr st1 cs2"
      "length cs1 \<le> nat batch" "num = int (length cs1)" "takes_all cb cs1 arg = Some arg1" "stopped_at cb cs2 arg1 arg'"
    using read_batch_loop_repr [OF assms(1) l] by auto
  then have "st' = st1" using s repr_at_rest [OF p(3)] by simp
  with p show ?thesis by blast
qed

lemma ringbufst_read_next_batch_prefix_witness:
  "\<exists>st st' arg'. rbst_repr st [] \<and> ringbufst_read_next_batch take_entry st None 5 = (0, st', arg') \<and> rbst_repr st' []"
proof -
  obtain st where st: "rbst_repr st []" using init_4096 by blast
  obtain num st' arg' where r: "ringbufst_read_next_batch take_entry st None 5 = (num, st', arg')" by (metis prod_cases3)
  from ringbufst_read_next_batch_prefix [OF st r] st r show ?thesis by auto
qed

end
