(* ===== verification/LogMessage.thy ===== *)
theory LogMessage
  imports LogFormat RingBufSt_Fifo
begin

text \<open>
  A message on its way through the queue of a logger (\<open>source/clogger/clogger.c\<close>): the size of its
  chunk, the callback that writes it into the ring, and the layout the reader relies on.
  \<open>clog_message_hdr\<close> is \<open>offsetcb\<close> at 0, \<open>dateminfmtlen\<close> at 8, \<open>dateminfmt\<close> at 16 and \<open>message\<close> at 32.
\<close>

section \<open>Messages and chunks\<close>

definition to_bytes :: "string \<Rightarrow> byte list" where
  "to_bytes s = map (\<lambda>c. word_of_nat (code c)) s"

text \<open>\<open>memcpy\<close> of the first \<open>fst f\<close> bytes of a text buffer.\<close>

definition buf_bytes :: "dateformat_buf \<Rightarrow> byte list" where
  "buf_bytes f = to_bytes (src_bytes (snd f) (fst f))"

record clog_message_fmt =
  mf_ident :: "string option"
  mf_level :: clog_level_t
  mf_fmtlen :: nat
  mf_dateminfmt :: dateformat_buf
  mf_datetimefmt :: dateformat_buf
  mf_stampidfmt :: dateformat_buf
  mf_startclr :: dateformat_buf
  mf_lineno :: dateformat_buf
  mf_autowrapline :: bool
  mf_threadno :: dateformat_buf
  mf_msglen :: nat
  mf_message :: string

definition MSG_HDRSIZE :: nat where
  "MSG_HDRSIZE = 32"

definition SIZE_ERROR :: nat where
  "SIZE_ERROR = 18446744073709551615"

definition clog_message_fmt_chunksize :: "clog_message_fmt \<Rightarrow> nat \<Rightarrow> nat" where
  "clog_message_fmt_chunksize msg maxmsgsize =
     (let chunksize = memapi_align_psize (size_wrap (ROF_DATEMINUTE_SIZE +
            (case mf_ident msg of None \<Rightarrow> 0 | Some ident \<Rightarrow> length ident) +
            clog_level_lens ! level_num (mf_level msg) + mf_fmtlen msg + fst (mf_startclr msg) +
            fst (mf_lineno msg) + fst (mf_threadno msg) + mf_msglen msg + 32))
      in if chunksize \<ge> maxmsgsize then SIZE_ERROR else chunksize)"

text \<open>\<open>memcpy(msgbuf + msgcb, bs, n); msgcb += n\<close>.\<close>

definition put_msg :: "byte list \<times> nat \<Rightarrow> byte list \<Rightarrow> byte list \<times> nat" where
  "put_msg st bs = (case st of (chunk, msgcb) \<Rightarrow> (put_bytes chunk (MSG_HDRSIZE + msgcb) bs, msgcb + length bs))"

definition clog_endcolor :: string where
  "clog_endcolor = CHR 0x1B # ''[0m''"

definition write_message_cb :: "clog_message_fmt \<Rightarrow> byte list \<Rightarrow> byte list" where
  "write_message_cb msg chunkbuf =
     (let c1 = put_bytes chunkbuf 8 (le_bytes 8 (fst (mf_dateminfmt msg)));
          c2 = put_bytes c1 16 (buf_bytes (mf_dateminfmt msg));
          s0 = (c2, 0);
          s1 = (if fst (mf_stampidfmt msg) \<noteq> 0 then put_msg (put_msg s0 (buf_bytes (mf_stampidfmt msg))) [32] else s0);
          s2 = (if fst (mf_startclr msg) \<noteq> 0 then put_msg s1 (buf_bytes (mf_startclr msg)) else s1);
          s3 = (if fst (mf_datetimefmt msg) \<noteq> 0 then put_msg (put_msg s2 (buf_bytes (mf_datetimefmt msg))) [32] else s2);
          lvl = level_num (mf_level msg);
          s4 = put_msg (put_msg s3 (to_bytes (src_bytes (the (clog_level_strs ! lvl)) (clog_level_lens ! lvl)))) [32];
          s5 = (case mf_ident msg of None \<Rightarrow> s4
                | Some ident \<Rightarrow> put_msg (put_msg (put_msg (put_msg s4 [60]) (to_bytes ident)) [62]) [32]);
          s6 = (if fst (mf_lineno msg) \<noteq> 0 then put_msg (put_msg s5 (buf_bytes (mf_lineno msg))) [32] else s5);
          s7 = (if fst (mf_threadno msg) \<noteq> 0 then put_msg (put_msg s6 (buf_bytes (mf_threadno msg))) [32] else s6);
          s8 = (if fst (mf_startclr msg) \<noteq> 0 then put_msg s7 (to_bytes clog_endcolor) else s7);
          s9 = put_msg s8 (to_bytes (src_bytes (mf_message msg) (mf_msglen msg)));
          s10 = (if mf_autowrapline msg then (if fst s9 ! (MSG_HDRSIZE + snd s9 - 1) \<noteq> 10 then put_msg s9 [10] else s9) else s9)
      in put_bytes (fst s10) 0 (le_bytes 8 (size_wrap (MSG_HDRSIZE + snd s10))))"

text \<open>What \<open>read_message_cb\<close> takes out of a chunk: the date text and the message.\<close>

definition chunk_date :: "byte list \<Rightarrow> byte list" where
  "chunk_date chunk = get_bytes chunk 16 (le_value (get_bytes chunk 8 8))"

definition chunk_message :: "byte list \<Rightarrow> byte list" where
  "chunk_message chunk =
     (let messagelen = nat ((int (le_value (get_bytes chunk 0 8)) - int MSG_HDRSIZE) mod 18446744073709551616)
      in get_bytes chunk MSG_HDRSIZE messagelen)"

section \<open>The text of a message\<close>

definition opt_field :: "dateformat_buf \<Rightarrow> byte list" where
  "opt_field f = (if fst f \<noteq> 0 then buf_bytes f @ [32] else [])"

definition message_body :: "clog_message_fmt \<Rightarrow> byte list" where
  "message_body msg =
     opt_field (mf_stampidfmt msg) @
     (if fst (mf_startclr msg) \<noteq> 0 then buf_bytes (mf_startclr msg) else []) @
     opt_field (mf_datetimefmt msg) @
     to_bytes (the (clog_level_strs ! level_num (mf_level msg))) @ [32] @
     (case mf_ident msg of None \<Rightarrow> [] | Some ident \<Rightarrow> [60] @ to_bytes ident @ [62, 32]) @
     opt_field (mf_lineno msg) @ opt_field (mf_threadno msg) @
     (if fst (mf_startclr msg) \<noteq> 0 then to_bytes clog_endcolor else []) @
     to_bytes (take (mf_msglen msg) (mf_message msg))"

definition message_text :: "clog_message_fmt \<Rightarrow> byte list" where
  "message_text msg =
     (let body = message_body msg in if mf_autowrapline msg \<and> last body \<noteq> 10 then body @ [10] else body)"

text \<open>What the callers of the queue guarantee of a message.\<close>

definition message_ok :: "clog_message_fmt \<Rightarrow> bool" where
  "message_ok msg \<longleftrightarrow> fst (mf_dateminfmt msg) \<le> ROF_DATEMINUTE_SIZE \<and> mf_msglen msg \<le> length (mf_message msg) \<and>
     mf_fmtlen msg = fst (mf_dateminfmt msg) + fst (mf_datetimefmt msg) + fst (mf_stampidfmt msg) \<and>
     (case mf_ident msg of None \<Rightarrow> 0 | Some ident \<Rightarrow> length ident) + mf_fmtlen msg + fst (mf_startclr msg) +
     fst (mf_lineno msg) + fst (mf_threadno msg) + mf_msglen msg < 1073741000"

lemma length_to_bytes [simp]: "length (to_bytes s) = length s"
  by (simp add: to_bytes_def)

lemma length_buf_bytes [simp]: "length (buf_bytes f) = fst f"
  by (simp add: buf_bytes_def)

lemma opt_field_length: "length (opt_field f) = (if fst f \<noteq> 0 then fst f + 1 else 0)"
  by (simp add: opt_field_def)

lemma chunksize_bounds:
  assumes "message_ok msg" "clog_message_fmt_chunksize msg maxmsgsize = n" "n \<noteq> SIZE_ERROR"
  shows "MSG_HDRSIZE + length (message_text msg) \<le> n" "n < maxmsgsize" "0 < n" "n \<le> 1073741824"
proof -
  let ?i = "case mf_ident msg of None \<Rightarrow> 0 | Some ident \<Rightarrow> length ident"
  obtain t where t: "clog_level_strs ! level_num (mf_level msg) = Some t" "clog_level_lens ! level_num (mf_level msg) = length t" "length t \<le> 5"
    using level_text by blast
  let ?s = "16 + ?i + length t + mf_fmtlen msg + fst (mf_startclr msg) + fst (mf_lineno msg) + fst (mf_threadno msg) + mf_msglen msg + 32"
  have small: "?s < 1073741100" using assms(1) t(3) by (simp add: message_ok_def)
  have n: "n = memapi_align_bsize ?s 8" "n < maxmsgsize"
    using assms(2,3) small t(2)
    by (auto simp: clog_message_fmt_chunksize_def memapi_align_psize_def ROF_DATEMINUTE_SIZE_def Let_def split: if_splits)
  have a: "?s \<le> n" "n < ?s + 8" using align_bsize_bounds [of 8 ?s] small unfolding n(1) by simp_all
  have "length (message_text msg) \<le> length (message_body msg) + 1" by (simp add: message_text_def Let_def)
  also have "length (message_body msg) + 1 \<le> ?i + length t + fst (mf_datetimefmt msg) + fst (mf_stampidfmt msg) + fst (mf_startclr msg) +
      fst (mf_lineno msg) + fst (mf_threadno msg) + mf_msglen msg + 13"
    using t by (auto simp: message_body_def opt_field_length clog_endcolor_def split: option.split)
  finally show "MSG_HDRSIZE + length (message_text msg) \<le> n" using a(1) assms(1) by (simp add: message_ok_def MSG_HDRSIZE_def)
  show "n < maxmsgsize" by (rule n(2))
  show "0 < n" "n \<le> 1073741824" using a small by linarith+
qed

text \<open>\<open>filled n hb st t\<close>: a chunk of \<open>n\<close> bytes with \<open>hb\<close> from byte 8 to 32 and then the text \<open>t\<close>.\<close>

definition filled :: "nat \<Rightarrow> byte list \<Rightarrow> byte list \<times> nat \<Rightarrow> byte list \<Rightarrow> bool" where
  "filled n hb st t \<longleftrightarrow> length (fst st) = n \<and> snd st = length t \<and> length hb = 24 \<and>
     MSG_HDRSIZE + length t \<le> n \<and> drop 8 (take (MSG_HDRSIZE + length t) (fst st)) = hb @ t"

lemma filled_put:
  assumes "filled n hb st t" "MSG_HDRSIZE + length (t @ bs) \<le> n"
  shows "filled n hb (put_msg st bs) (t @ bs)"
proof -
  obtain c k where st: "st = (c, k)" by force
  have f: "length c = n" "k = length t" "length hb = 24" "drop 8 (take (32 + length t) c) = hb @ t" "32 + length t \<le> n"
    using assms(1) by (simp_all add: filled_def st MSG_HDRSIZE_def)
  have "take (32 + length t + length bs) (put_bytes c (32 + length t) bs) = take (32 + length t) c @ bs"
    using assms(2) f(1) by (intro take_put_bytes) (simp add: MSG_HDRSIZE_def)
  then show ?thesis using f assms(2) by (simp add: st filled_def put_msg_def MSG_HDRSIZE_def length_put_bytes add.assoc)
qed

lemma filled_last: "filled n hb st t \<Longrightarrow> t \<noteq> [] \<Longrightarrow> fst st ! (MSG_HDRSIZE + snd st - 1) = last t"
proof -
  assume f: "filled n hb st t" and ne: "t \<noteq> []"
  let ?k = "MSG_HDRSIZE + length t"
  have l: "length (fst st) = n" "snd st = length t" "?k \<le> n" "drop 8 (take ?k (fst st)) = hb @ t"
    using f by (simp_all add: filled_def)
  have "last t = last (drop 8 (take ?k (fst st)))" using ne l(4) by simp
  also have "\<dots> = last (take ?k (fst st))" using l(1,3) ne by (intro last_drop) (simp add: MSG_HDRSIZE_def)
  also have "\<dots> = take ?k (fst st) ! (?k - 1)" using l(1,3) ne by (subst last_conv_nth) (auto simp: MSG_HDRSIZE_def)
  also have "\<dots> = fst st ! (?k - 1)" using ne by (simp add: MSG_HDRSIZE_def)
  finally show ?thesis using l(2) by simp
qed

definition put_all :: "byte list list \<Rightarrow> byte list \<times> nat \<Rightarrow> byte list \<times> nat" where
  "put_all bss st = fold (\<lambda>bs st. put_msg st bs) bss st"

lemma filled_put_all:
  "filled n hb st t \<Longrightarrow> MSG_HDRSIZE + length (t @ concat bss) \<le> n \<Longrightarrow> filled n hb (put_all bss st) (t @ concat bss)"
proof (induction bss arbitrary: st t)
  case (Cons bs bss)
  then have "filled n hb (put_msg st bs) (t @ bs)" by (intro filled_put) simp_all
  from Cons.IH [OF this] Cons.prems(2) show ?case by (simp add: put_all_def)
qed (simp add: put_all_def)

lemma put_all_simps:
  "put_all [] st = st" "put_all (bs # bss) st = put_all bss (put_msg st bs)" "put_all (a @ b) st = put_all b (put_all a st)"
  "put_all (if c then a else b) st = (if c then put_all a st else put_all b st)"
  "put_all (case x of None \<Rightarrow> a | Some i \<Rightarrow> f i) st = (case x of None \<Rightarrow> put_all a st | Some i \<Rightarrow> put_all (f i) st)"
  by (simp_all add: put_all_def split: option.split)

definition fields :: "clog_message_fmt \<Rightarrow> byte list list" where
  "fields msg =
     (let lvl = level_num (mf_level msg); opt = (\<lambda>f. if fst f \<noteq> 0 then [buf_bytes f, [32]] else [])
      in opt (mf_stampidfmt msg) @ (if fst (mf_startclr msg) \<noteq> 0 then [buf_bytes (mf_startclr msg)] else []) @
         opt (mf_datetimefmt msg) @ [to_bytes (src_bytes (the (clog_level_strs ! lvl)) (clog_level_lens ! lvl)), [32]] @
         (case mf_ident msg of None \<Rightarrow> [] | Some ident \<Rightarrow> [[60], to_bytes ident, [62], [32]]) @
         opt (mf_lineno msg) @ opt (mf_threadno msg) @
         (if fst (mf_startclr msg) \<noteq> 0 then [to_bytes clog_endcolor] else []) @
         [to_bytes (src_bytes (mf_message msg) (mf_msglen msg))])"

lemma fields_body:
  assumes "message_ok msg"
  shows "concat (fields msg) = message_body msg"
proof -
  obtain t where "clog_level_strs ! level_num (mf_level msg) = Some t" "clog_level_lens ! level_num (mf_level msg) = length t"
    using level_text by blast
  then show ?thesis using assms
    by (simp add: fields_def message_body_def opt_field_def src_bytes_take message_ok_def Let_def split: option.split)
qed

definition fill_header :: "clog_message_fmt \<Rightarrow> byte list \<Rightarrow> byte list" where
  "fill_header msg chunkbuf =
     put_bytes (put_bytes chunkbuf 8 (le_bytes 8 (fst (mf_dateminfmt msg)))) 16 (buf_bytes (mf_dateminfmt msg))"

lemma write_message_fields:
  "write_message_cb msg chunkbuf =
     (let s9 = put_all (fields msg) (fill_header msg chunkbuf, 0);
          s10 = (if mf_autowrapline msg then (if fst s9 ! (MSG_HDRSIZE + snd s9 - 1) \<noteq> 10 then put_msg s9 [10] else s9) else s9)
      in put_bytes (fst s10) 0 (le_bytes 8 (size_wrap (MSG_HDRSIZE + snd s10))))"
proof -
  let ?f = "\<lambda>s9. let s10 = (if mf_autowrapline msg then (if fst s9 ! (MSG_HDRSIZE + snd s9 - 1) \<noteq> 10 then put_msg s9 [10] else s9) else s9)
      in put_bytes (fst s10) 0 (le_bytes 8 (size_wrap (MSG_HDRSIZE + snd s10)))"
  define s0 where "s0 = (fill_header msg chunkbuf, 0 :: nat)"
  have "write_message_cb msg chunkbuf = ?f (put_all (fields msg) s0)"
    unfolding write_message_cb_def fill_header_def [symmetric] Let_def fields_def s0_def [symmetric]
    by (rule arg_cong [where f = ?f, unfolded Let_def]) (simp only: put_all_simps)
  then show ?thesis by (simp add: s0_def Let_def)
qed

lemma header_bytes:
  assumes "32 \<le> length c" "length d \<le> 16"
  shows "\<exists>rest. drop 8 (take 32 (put_bytes (put_bytes c 8 (le_bytes 8 k)) 16 d)) = le_bytes 8 k @ d @ rest \<and> length (d @ rest) = 16"
  using assms by (simp add: put_bytes_def)

lemma body_not_empty: "message_body msg \<noteq> []"
  by (simp add: message_body_def)

lemma message_layout:
  assumes "message_ok msg" "clog_message_fmt_chunksize msg maxmsgsize = n" "n \<noteq> SIZE_ERROR" "length chunkbuf = n"
  shows "length (write_message_cb msg chunkbuf) = n"
    "chunk_message (write_message_cb msg chunkbuf) = message_text msg"
    "chunk_date (write_message_cb msg chunkbuf) = buf_bytes (mf_dateminfmt msg)"
proof -
  note cb = chunksize_bounds [OF assms(1-3)]
  let ?d = "buf_bytes (mf_dateminfmt msg)" and ?k = "length (message_text msg)"
  let ?h = "fill_header msg chunkbuf"
  have n32: "32 \<le> length chunkbuf" using cb(1) assms(4) by (simp add: MSG_HDRSIZE_def)
  have dl: "length ?d \<le> 16" using assms(1) by (simp add: message_ok_def ROF_DATEMINUTE_SIZE_def)
  obtain rest where hb: "drop 8 (take 32 ?h) = le_bytes 8 (length ?d) @ ?d @ rest" "length (?d @ rest) = 16"
    using header_bytes [OF n32 dl, of "length ?d"] by (auto simp: fill_header_def)
  define hb where "hb = le_bytes 8 (length ?d) @ ?d @ rest"
  have hl: "length hb = 24" using hb(2) by (simp add: hb_def)
  have "length ?h = n" using n32 dl assms(4) by (simp add: fill_header_def mem_simps)
  then have f0: "filled n hb (?h, 0) []" using hb(1) hl n32 assms(4) by (simp add: filled_def hb_def MSG_HDRSIZE_def)
  have body: "MSG_HDRSIZE + length (message_body msg) \<le> n"
    using cb(1) by (auto simp: message_text_def Let_def split: if_splits)
  have f9: "filled n hb (put_all (fields msg) (?h, 0)) (message_body msg)"
    using filled_put_all [OF f0, of "fields msg"] body fields_body [OF assms(1)] by simp
  let ?s9 = "put_all (fields msg) (?h, 0)"
  define s10 where "s10 = (if mf_autowrapline msg then (if fst ?s9 ! (MSG_HDRSIZE + snd ?s9 - 1) \<noteq> 10 then put_msg ?s9 [10] else ?s9) else ?s9)"
  have "filled n hb s10 (message_text msg)"
    using f9 filled_last [OF f9 body_not_empty] filled_put [OF f9, of "[10]"] cb(1)
    by (auto simp: s10_def message_text_def Let_def split: if_splits)
  then have s10: "length (fst s10) = n" "snd s10 = ?k" "drop 8 (take (32 + ?k) (fst s10)) = hb @ message_text msg" "32 + ?k \<le> n"
    by (auto simp: filled_def MSG_HDRSIZE_def)
  define r where "r = put_bytes (fst s10) 0 (le_bytes 8 (32 + ?k))"
  have w: "write_message_cb msg chunkbuf = r"
    using s10(2,4) cb(4) unfolding write_message_fields Let_def s10_def [symmetric] by (simp add: r_def MSG_HDRSIZE_def)
  have r: "length r = n" "get_bytes r 0 8 = le_bytes 8 (32 + ?k)" "drop 8 (take (32 + ?k) r) = hb @ message_text msg"
    using s10 by (simp_all add: r_def put_bytes_def get_bytes_def drop_take)
  have v: "le_value (le_bytes 8 m) = m" if "m < 1073741900" for m using that by simp
  have "get_bytes r 32 ?k = drop 24 (drop 8 (take (32 + ?k) r))" by (simp add: get_bytes_def drop_take)
  also have "\<dots> = message_text msg" unfolding r(3) using hl by simp
  finally have msg: "get_bytes r 32 ?k = message_text msg" .
  have eight: "get_bytes r 8 m = take m (hb @ message_text msg)" if "m \<le> 24" for m
    unfolding r(3) [symmetric] using that by (simp add: get_bytes_def drop_take)
  have "get_bytes r 16 (length ?d) = drop 8 (get_bytes r 8 (8 + length ?d))" by (simp add: get_bytes_def drop_take)
  also have "\<dots> = ?d" using eight [of "8 + length ?d"] dl by (simp add: hb_def)
  finally have date: "get_bytes r 16 (length ?d) = ?d" .
  have dv: "le_value (get_bytes r 8 8) = length ?d" using eight [of 8] dl v by (simp add: hb_def del: length_buf_bytes)
  show "length (write_message_cb msg chunkbuf) = n" using w r(1) by simp
  show "chunk_date (write_message_cb msg chunkbuf) = ?d" unfolding w chunk_date_def dv by (rule date)
  have "le_value (get_bytes r 0 8) = 32 + ?k" unfolding r(2) using s10(4) cb(4) by (intro v) linarith
  then show "chunk_message (write_message_cb msg chunkbuf) = message_text msg"
    using msg s10(4) cb(4) by (simp add: w chunk_message_def MSG_HDRSIZE_def Let_def)
qed

section \<open>Properties\<close>

text \<open>
  C8.  A message passes through its chunk intact.  Whenever \<open>clog_message_fmt_chunksize\<close> accepts a
  message, the chunk has room for all that \<open>write_message_cb\<close> stores (separators, colour codes and
  line end included: it writes no byte outside), and \<open>read_message_cb\<close> takes the same text out of
  it: the fields in their order, the message, and one line end when \<open>autowrapline\<close> asks for it and the
  message does not end with one.  The date text of the rolling file comes out unchanged, too.
\<close>

theorem write_message_roundtrip:
  assumes "message_ok msg" "clog_message_fmt_chunksize msg maxmsgsize = n" "n \<noteq> SIZE_ERROR" "length chunkbuf = n"
  shows "length (write_message_cb msg chunkbuf) = n \<and> n < maxmsgsize
    \<and> chunk_message (write_message_cb msg chunkbuf) = message_text msg
    \<and> chunk_date (write_message_cb msg chunkbuf) = buf_bytes (mf_dateminfmt msg)
    \<and> MSG_HDRSIZE + length (message_text msg) \<le> n"
  using message_layout [OF assms] chunksize_bounds [OF assms(1-3)] by blast

definition sample_msg :: clog_message_fmt where
  "sample_msg = \<lparr> mf_ident = Some ''app'', mf_level = CLOG_LEVEL_INFO, mf_fmtlen = 27, mf_dateminfmt = (8, ''20240229''),
     mf_datetimefmt = (19, ''2024-02-29 23:59:07''), mf_stampidfmt = (0, []), mf_startclr = (0, []),
     mf_lineno = (11, ''(main.c:42)''), mf_autowrapline = True, mf_threadno = (0, []), mf_msglen = 5, mf_message = ''hello'' \<rparr>"

lemma write_message_roundtrip_witness:
  "chunk_message (write_message_cb sample_msg (replicate 104 0)) =
     to_bytes (''2024-02-29 23:59:07 INFO <app> (main.c:42) hello'' @ [CHR 0x0A])"
proof -
  have "message_ok sample_msg" by (simp add: sample_msg_def message_ok_def ROF_DATEMINUTE_SIZE_def)
  moreover have "clog_message_fmt_chunksize sample_msg 4000 = 104"
    by (simp add: sample_msg_def clog_message_fmt_chunksize_def clog_level_lens_def ROF_DATEMINUTE_SIZE_def
        memapi_align_psize_def memapi_align_bsize_def Let_def)
  ultimately have "chunk_message (write_message_cb sample_msg (replicate 104 0)) = message_text sample_msg"
    using write_message_roundtrip [of sample_msg 4000 104 "replicate 104 0"] by (simp add: SIZE_ERROR_def)
  also have "\<dots> = to_bytes (''2024-02-29 23:59:07 INFO <app> (main.c:42) hello'' @ [CHR 0x0A])"
    by (simp add: sample_msg_def message_text_def message_body_def opt_field_def buf_bytes_def to_bytes_def src_bytes_take
        clog_level_strs_def Let_def)
  finally show ?thesis .
qed

end
