(* ===== verification/Logger.thy ===== *)
theory Logger
  imports LogMessage
begin

text \<open>
  The logger of \<open>source/clogger/clogger.c\<close>: building and committing messages (producers), and the
  logging thread that drains the queue into the appenders.  The clock, the kernel's file results and
  the shared-memory log are arguments; the queue is the ring of \<open>RingBufSt\<close>, the file appender is
  \<open>RollingFile\<close>.
\<close>

section \<open>State\<close>

datatype status = Running | Exited | Blocked

record clog_logger =
  lg_bf :: clog_bf
  lg_level :: clog_level_t
  lg_levelstyles :: "clog_level_t \<Rightarrow> nat"
  lg_levelcolors :: "clog_level_t \<Rightarrow> nat"
  lg_layout :: clog_layout_t
  lg_dateformat :: clog_dateformat_t
  lg_logfile :: rollingfile_t
  lg_ident :: string
  lg_maxmsgsize :: nat
  lg_pidcstr :: string
  lg_ring :: ring_buffer_st
  lg_sema :: nat
  lg_logmessages :: int
  lg_logrounds :: int
  lg_fs :: fsys
  lg_stdout :: "byte list"
  lg_syslog :: "(nat \<times> byte list) list"
  lg_status :: status

text \<open>
  What the machine answers: where files can be created, the results of the \<open>write\<close> calls for a
  message, and the result of \<open>shmmaplog_write\<close>.
\<close>

record env =
  env_can :: "string \<Rightarrow> bool"
  env_rets :: "byte list \<Rightarrow> int list"
  env_shmlog :: "byte list \<Rightarrow> bool"

text \<open>What the clock of the logger returns.\<close>

record clock =
  ck_loc :: tm_loc
  ck_nsec :: nat
  ck_timezonefmt :: string
  ck_stampid :: string

definition clog_set_levelcolor :: "clog_logger \<Rightarrow> clog_level_t \<Rightarrow> nat \<Rightarrow> clog_logger" where
  "clog_set_levelcolor lg level color = lg\<lparr>lg_levelcolors := (lg_levelcolors lg)(level := color)\<rparr>"

definition clog_set_levelstyle :: "clog_logger \<Rightarrow> clog_level_t \<Rightarrow> nat \<Rightarrow> clog_logger" where
  "clog_set_levelstyle lg level style = lg\<lparr>lg_levelstyles := (lg_levelstyles lg)(level := style)\<rparr>"

definition clog_logger_level_enabled :: "clog_logger option \<Rightarrow> clog_level_t \<Rightarrow> bool" where
  "clog_logger_level_enabled logger level =
     (case logger of
        None \<Rightarrow> False
      | Some lg \<Rightarrow>
          if level = CLOG_LEVEL_OFF \<or> level = CLOG_LEVEL_ALL then False
          else if lg_level lg = CLOG_LEVEL_OFF then False
          else if lg_level lg = CLOG_LEVEL_ALL \<or> level \<le> lg_level lg then True
          else False)"

section \<open>The consumer\<close>

definition to_chars :: "byte list \<Rightarrow> string" where
  "to_chars bs = map (\<lambda>b. char_of (unat b)) bs"

text \<open>Bytes printed by \<open>"%.*s"\<close>.\<close>

definition printed :: "byte list \<Rightarrow> byte list" where
  "printed bs = takeWhile (\<lambda>b. b \<noteq> 0) bs"

definition syslog_priority :: "clog_level_t \<Rightarrow> nat" where
  "syslog_priority level =
     (case level of CLOG_LEVEL_FATAL \<Rightarrow> 0 | CLOG_LEVEL_ERROR \<Rightarrow> 3 | CLOG_LEVEL_WARN \<Rightarrow> 4 | CLOG_LEVEL_INFO \<Rightarrow> 6
      | CLOG_LEVEL_DEBUG \<Rightarrow> 7 | _ \<Rightarrow> 8)"

definition SB8MAXVAL :: int where
  "SB8MAXVAL = 9223372036854775807"

text \<open>
  \<open>read_message_cb\<close> after the header of the chunk has been read, appender by appender: \<open>stdout\<close>, syslog,
  shared memory and rolling file, then the counters.  \<open>emerglog_exit\<close> ends the process.
\<close>

definition append_stdout :: "byte list \<Rightarrow> clog_logger \<Rightarrow> clog_logger" where
  "append_stdout message lg =
     (if bf_appenderstdout (lg_bf lg) then lg\<lparr>lg_stdout := lg_stdout lg @ printed message\<rparr> else lg)"

definition append_syslog :: "byte list \<Rightarrow> clog_logger \<Rightarrow> clog_logger" where
  "append_syslog message lg =
     (let priority = syslog_priority (lg_level lg)
      in if bf_appendersyslog (lg_bf lg) \<and> priority \<le> 7
         then lg\<lparr>lg_syslog := lg_syslog lg @ [(8 + priority, printed message)]\<rparr> else lg)"

definition append_file :: "env \<Rightarrow> string \<Rightarrow> byte list \<Rightarrow> clog_logger \<Rightarrow> clog_logger" where
  "append_file env datemin message lg =
     (let wok = (if bf_appendershmlog (lg_bf lg) then env_shmlog env message else False)
      in if \<not> wok \<and> bf_appenderrofile (lg_bf lg) then
           (case rollingfile_write (env_can env) (env_rets env message) (lg_fs lg) (lg_logfile lg) datemin message of
              None \<Rightarrow> lg\<lparr>lg_status := Blocked\<rparr>
            | Some (err, fs, rof) \<Rightarrow>
                lg\<lparr>lg_fs := fs, lg_logfile := rof, lg_status := (if err = -1 then Exited else lg_status lg)\<rparr>)
         else lg)"

definition count_message :: "clog_logger \<Rightarrow> clog_logger" where
  "count_message lg =
     (if lg_status lg \<noteq> Running then lg
      else if lg_logmessages lg + 1 = SB8MAXVAL then lg\<lparr>lg_logmessages := 0, lg_logrounds := lg_logrounds lg + 1\<rparr>
      else lg\<lparr>lg_logmessages := lg_logmessages lg + 1\<rparr>)"

definition deliver :: "env \<Rightarrow> string \<times> byte list \<Rightarrow> clog_logger \<Rightarrow> clog_logger" where
  "deliver env dm lg = count_message (append_file env (fst dm) (snd dm) (append_syslog (snd dm) (append_stdout (snd dm) lg)))"

definition read_message_cb :: "env \<Rightarrow> byte list \<Rightarrow> clog_logger \<Rightarrow> bool \<times> clog_logger" where
  "read_message_cb env chunk lg = (True, deliver env (to_chars (chunk_date chunk), chunk_message chunk) lg)"

text \<open>One \<open>ringbufst_read_next(logger->ringbuffer, read_message_cb, logger)\<close>.\<close>

definition logger_read_next :: "env \<Rightarrow> clog_logger \<Rightarrow> int \<times> clog_logger" where
  "logger_read_next env lg =
     (case ringbufst_read_next (read_message_cb env) (lg_ring lg) lg of (ret, ring, lg') \<Rightarrow> (ret, lg'\<lparr>lg_ring := ring\<rparr>))"

text \<open>The loop \<open>while (ringbufst_read_next(...));\<close> of \<open>clog_threadfunc\<close>; it ends with the process, too.\<close>

partial_function (option) drain :: "env \<Rightarrow> clog_logger \<Rightarrow> clog_logger option" where
  "drain env lg =
     (case logger_read_next env lg of (ret, lg') \<Rightarrow>
        if ret \<noteq> 0 \<and> lg_status lg' = Running then drain env lg' else Some lg')"

section \<open>The producers\<close>

text \<open>
  \<open>logger_commit_message\<close>.  \<open>maxwaitms\<close> is a \<open>uint16_t\<close>, promoted to \<open>int\<close> where it is compared with
  \<open>CLOG_MSGWAIT_INFINITE\<close> (-1).  \<open>others\<close> is what the other threads do to the logger during the
  \<open>i\<close>-th sleep.  The result: the logger, the sum of the sleeps, and what the last write returned.
\<close>

partial_function (option) commit_loop ::
  "(nat \<Rightarrow> clog_logger \<Rightarrow> clog_logger) \<Rightarrow> clog_logger \<Rightarrow> clog_message_fmt \<Rightarrow> nat \<Rightarrow> 16 word \<Rightarrow> int \<Rightarrow> int \<Rightarrow> nat \<Rightarrow>
     (clog_logger \<times> int \<times> int) option" where
  "commit_loop others lg msg chunksize maxwaitms intervalms waitms i =
     (case ringbufst_write (lg_ring lg) chunksize (write_message_cb msg) of (ret, ring) \<Rightarrow>
        let lg1 = lg\<lparr>lg_ring := ring\<rparr>
        in if ret \<noteq> 0 then Some (lg1, waitms, ret)
           else if maxwaitms = 0 then Some (lg1, waitms, ret)
           else if uint maxwaitms = -1 then commit_loop others (others i lg1) msg chunksize maxwaitms intervalms waitms (i + 1)
           else if waitms < uint maxwaitms then
             (let ms = uint maxwaitms - waitms
              in commit_loop others (others i lg1) msg chunksize maxwaitms intervalms
                   (if ms < intervalms then waitms + ms else waitms + intervalms) (i + 1))
           else Some (lg1, waitms, ret))"

definition logger_commit_message ::
  "(nat \<Rightarrow> clog_logger \<Rightarrow> clog_logger) \<Rightarrow> clog_logger \<Rightarrow> clog_message_fmt \<Rightarrow> 16 word \<Rightarrow> int \<Rightarrow> (clog_logger \<times> int \<times> int) option" where
  "logger_commit_message others lg msg maxwaitms intervalms =
     (let chunksize = clog_message_fmt_chunksize msg (lg_maxmsgsize lg)
      in if chunksize = SIZE_ERROR then Some (lg, 0, -1)
         else (case commit_loop others lg msg chunksize maxwaitms intervalms 0 0 of
                 None \<Rightarrow> None
               | Some (lg', waitms, ret) \<Rightarrow> Some (lg'\<lparr>lg_sema := lg_sema lg' + 1\<rparr>, waitms, ret)))"

text \<open>The colour prefix, and a message with the fields every layout sets (the rest zeroed).\<close>

definition color_prefix :: "clog_logger \<Rightarrow> clog_level_t \<Rightarrow> dateformat_buf" where
  "color_prefix lg level =
     (if bf_levelcolors (lg_bf lg) then
        (let style = (if bf_levelstyles (lg_bf lg) then lg_levelstyles lg level else 0)
         in snprintf 32 (CHR 0x1B # ''['' @ fmt_d 0 (int style) @ '';'' @ fmt_d 0 (int (lg_levelcolors lg level)) @ ''m''))
      else (0, []))"

definition plain_message :: "clog_logger \<Rightarrow> clock \<Rightarrow> string \<Rightarrow> nat \<Rightarrow> clog_message_fmt" where
  "plain_message lg ck message msglen =
     (case clog_format_datetime (timepolicy (lg_logfile lg)) (lg_dateformat lg) (lg_bf lg) (ck_loc ck) (ck_nsec ck)
             (ck_timezonefmt ck) (ck_stampid ck) False of (n, dmin, dtime, stamp) \<Rightarrow>
        \<lparr> mf_ident = None, mf_level = CLOG_LEVEL_OFF, mf_fmtlen = n, mf_dateminfmt = dmin, mf_datetimefmt = dtime,
          mf_stampidfmt = stamp, mf_startclr = (0, []), mf_lineno = (0, []), mf_autowrapline = False, mf_threadno = (0, []),
          mf_msglen = msglen, mf_message = message \<rparr>)"

definition dated_message ::
  "clog_logger \<Rightarrow> clock \<Rightarrow> clog_level_t \<Rightarrow> dateformat_buf \<Rightarrow> dateformat_buf \<Rightarrow> string \<Rightarrow> nat \<Rightarrow> clog_message_fmt" where
  "dated_message lg ck level lineno threadno message msglen =
     (case clog_format_datetime (timepolicy (lg_logfile lg)) (lg_dateformat lg) (lg_bf lg) (ck_loc ck) (ck_nsec ck)
             (ck_timezonefmt ck) (ck_stampid ck) True of (n, dmin, dtime, stamp) \<Rightarrow>
        \<lparr> mf_ident = (if \<not> bf_hideident (lg_bf lg) then Some (lg_ident lg) else None), mf_level = level, mf_fmtlen = n,
          mf_dateminfmt = dmin, mf_datetimefmt = dtime, mf_stampidfmt = stamp, mf_startclr = color_prefix lg level,
          mf_lineno = lineno, mf_autowrapline = bf_autowrapline (lg_bf lg), mf_threadno = threadno,
          mf_msglen = msglen, mf_message = message \<rparr>)"

text \<open>\<open>CLOG_MSGWAIT_INSTANT\<close> is the interval of all commits.\<close>

definition clog_logger_log_message ::
  "(nat \<Rightarrow> clog_logger \<Rightarrow> clog_logger) \<Rightarrow> clock \<Rightarrow> clog_logger \<Rightarrow> clog_level_t \<Rightarrow> 16 word \<Rightarrow> string \<Rightarrow> int \<Rightarrow> clog_logger option" where
  "clog_logger_log_message others ck lg level maxwaitms message msglen0 =
     (if level > lg_level lg then Some lg
      else
        (let msglen1 = (if msglen0 < 0 then cstr_length (Some message) (int (lg_maxmsgsize lg) - 1) else msglen0)
         in if msglen1 = 0 then Some lg
            else
              (let msglen = (if msglen1 \<ge> int (lg_maxmsgsize lg) then int (lg_maxmsgsize lg) - 1 else msglen1);
                   msg = (case lg_layout lg of
                            CLOG_LAYOUT_PLAIN \<Rightarrow> plain_message lg ck message (nat msglen)
                          | CLOG_LAYOUT_DATED \<Rightarrow> dated_message lg ck level (0, []) (0, []) message (nat msglen))
               in map_option fst (logger_commit_message others lg msg maxwaitms 1))))"

text \<open>
  The text in the message buffer after \<open>vsnprintf\<close> (\<open>None\<close>: it returned -1) into its
  \<open>msgbuf->size = maxmsgsize\<close> bytes, and the message length.
\<close>

definition format_message :: "nat \<Rightarrow> string option \<Rightarrow> string \<times> nat" where
  "format_message maxmsgsize out =
     (case out of
        None \<Rightarrow> (take (maxmsgsize - 1) ''application error'', length ''application error'')
      | Some s \<Rightarrow>
          if length s \<ge> maxmsgsize then (take (maxmsgsize - 4) s @ ''...'', maxmsgsize - 1)
          else (s, length s))"

definition lineno_field :: "clog_logger \<Rightarrow> string option \<Rightarrow> int \<Rightarrow> string \<Rightarrow> dateformat_buf" where
  "lineno_field lg filename lineno funcname =
     (case filename of
        None \<Rightarrow> (0, [])
      | Some f \<Rightarrow>
          if bf_filelineno (lg_bf lg) then
            (case clog_logger_file_basename f (nat (cstr_length (Some f) 256)) of (start, n) \<Rightarrow>
               let base = take (nat (if n > 84 then 84 else n)) (drop start f)
               in if bf_function (lg_bf lg)
                  then snprintf 160 (''('' @ base @ '':'' @ fmt_d 0 lineno @ ''::'' @ take 60 funcname @ '')'')
                  else snprintf 160 (''('' @ base @ '':'' @ fmt_d 0 lineno @ '')''))
          else (0, []))"

definition threadno_field :: "clog_logger \<Rightarrow> int \<Rightarrow> dateformat_buf" where
  "threadno_field lg threadid =
     (if bf_processid (lg_bf lg) then
        (if bf_threadno (lg_bf lg) then snprintf 32 (''['' @ lg_pidcstr lg @ ''/'' @ fmt_d 0 threadid @ '']'')
         else snprintf 32 (''['' @ lg_pidcstr lg @ '']''))
      else (0, []))"

definition clog_logger_log_format ::
  "(nat \<Rightarrow> clog_logger \<Rightarrow> clog_logger) \<Rightarrow> clock \<Rightarrow> int \<Rightarrow> clog_logger \<Rightarrow> clog_level_t \<Rightarrow> 16 word \<Rightarrow> string option \<Rightarrow> int \<Rightarrow> string \<Rightarrow>
     string option \<Rightarrow> clog_logger option" where
  "clog_logger_log_format others ck threadid lg level maxwaitms filename lineno funcname out =
     (if level > lg_level lg then Some lg
      else
        (let (message, msglen) = format_message (lg_maxmsgsize lg) out;
             msg = (case lg_layout lg of
                      CLOG_LAYOUT_PLAIN \<Rightarrow> plain_message lg ck message msglen
                    | CLOG_LAYOUT_DATED \<Rightarrow>
                        dated_message lg ck level (lineno_field lg filename lineno funcname) (threadno_field lg threadid) message msglen)
         in map_option fst (logger_commit_message others lg msg maxwaitms 1)))"

section \<open>The wait of a producer\<close>

lemma uint_not_infinite: "uint (w :: 16 word) \<noteq> -1"
  using uint_range_size [of w] by (metis neg_0_le_iff_le not_one_le_zero uint_ge_0)

lemma commit_loop_returns:
  assumes "0 \<le> waitms" "waitms \<le> uint maxwaitms"
  shows "\<exists>lg' waited ret. commit_loop others lg msg chunksize maxwaitms 1 waitms i = Some (lg', waited, ret)
    \<and> 0 \<le> waited \<and> waited \<le> uint maxwaitms \<and> (ret = 0 \<longrightarrow> waited = uint maxwaitms)"
  using assms
proof (induction "nat (uint maxwaitms - waitms)" arbitrary: waitms lg i)
  case 0
  then have "waitms = uint maxwaitms" by simp
  then show ?case using 0 uint_not_infinite [of maxwaitms]
    by (subst commit_loop.simps) (auto simp: Let_def split: prod.split)
next
  case (Suc k)
  obtain ret ring where w: "ringbufst_write (lg_ring lg) chunksize (write_message_cb msg) = (ret, ring)" by force
  have lt: "waitms < uint maxwaitms" using Suc.hyps(2) by simp
  then have ne: "maxwaitms \<noteq> 0" using Suc.prems(1) by auto
  show ?case
  proof (cases "ret = 0")
    case True
    have "\<exists>lg' waited ret. commit_loop others (others i (lg\<lparr>lg_ring := ring\<rparr>)) msg chunksize maxwaitms 1 (waitms + 1) (i + 1) =
        Some (lg', waited, ret) \<and> 0 \<le> waited \<and> waited \<le> uint maxwaitms \<and> (ret = 0 \<longrightarrow> waited = uint maxwaitms)"
      by (rule Suc.hyps(1)) (use Suc.hyps(2) Suc.prems lt in auto)
    then show ?thesis using True lt ne w uint_not_infinite [of maxwaitms]
      by (subst commit_loop.simps) (simp add: Let_def)
  next
    case False
    then show ?thesis using w Suc.prems by (subst commit_loop.simps) (simp add: Let_def)
  qed
qed

lemma commit_loop_refused:
  assumes "0 \<le> waitms" "waitms \<le> uint maxwaitms" "ringbufst_write (lg_ring lg) chunksize (write_message_cb msg) = (0, lg_ring lg)"
  shows "commit_loop (\<lambda>_ x. x) lg msg chunksize maxwaitms 1 waitms i = Some (lg, uint maxwaitms, 0)"
  using assms
proof (induction "nat (uint maxwaitms - waitms)" arbitrary: waitms i)
  case 0
  then have "waitms = uint maxwaitms" by simp
  then show ?case using 0 uint_not_infinite [of maxwaitms]
    by (subst commit_loop.simps) (auto simp: Let_def)
next
  case (Suc k)
  have lt: "waitms < uint maxwaitms" using Suc.hyps(2) by simp
  then have "maxwaitms \<noteq> 0" using Suc.prems(1) by auto
  moreover have "commit_loop (\<lambda>_ x. x) lg msg chunksize maxwaitms 1 (waitms + 1) (i + 1) = Some (lg, uint maxwaitms, 0)"
    by (rule Suc.hyps(1)) (use Suc.hyps(2) Suc.prems lt in auto)
  ultimately show ?case using lt Suc.prems(3) uint_not_infinite [of maxwaitms]
    by (subst commit_loop.simps) (simp add: Let_def)
qed

lemma oversize_chunk:
  assumes "message_ok msg" "maxmsgsize \<le> mf_msglen msg + 48"
  shows "clog_message_fmt_chunksize msg maxmsgsize = SIZE_ERROR"
proof (rule ccontr)
  assume ne: "clog_message_fmt_chunksize msg maxmsgsize \<noteq> SIZE_ERROR"
  let ?s = "16 + (case mf_ident msg of None \<Rightarrow> 0 | Some ident \<Rightarrow> length ident) + clog_level_lens ! level_num (mf_level msg) +
    mf_fmtlen msg + fst (mf_startclr msg) + fst (mf_lineno msg) + fst (mf_threadno msg) + mf_msglen msg + 32"
  have "clog_level_lens ! level_num (mf_level msg) \<le> 5" using level_text [of "mf_level msg"] by auto
  then have small: "?s < 1073741100" using assms(1) by (simp add: message_ok_def)
  then have "clog_message_fmt_chunksize msg maxmsgsize = memapi_align_bsize ?s 8" "memapi_align_bsize ?s 8 < maxmsgsize"
    using ne by (auto simp: clog_message_fmt_chunksize_def memapi_align_psize_def ROF_DATEMINUTE_SIZE_def Let_def split: if_splits)
  moreover have "?s \<le> memapi_align_bsize ?s 8" using small by (intro align_bsize_bounds(1)) simp_all
  ultimately show False using assms(2) by simp
qed

section \<open>Delivery\<close>

text \<open>The parts of a logger the appenders do not touch: the queue and the semaphore.\<close>

definition with_queue :: "clog_logger \<Rightarrow> ring_buffer_st \<Rightarrow> nat \<Rightarrow> clog_logger" where
  "with_queue lg ring n = lg\<lparr>lg_ring := ring, lg_sema := n\<rparr>"

lemma append_queue:
  "append_stdout m (with_queue lg ring n) = with_queue (append_stdout m lg) ring n"
  "append_syslog m (with_queue lg ring n) = with_queue (append_syslog m lg) ring n"
  "append_file env d m (with_queue lg ring n) = with_queue (append_file env d m lg) ring n"
  "count_message (with_queue lg ring n) = with_queue (count_message lg) ring n"
  by (simp_all add: append_stdout_def append_syslog_def append_file_def count_message_def with_queue_def Let_def split: option.split)

lemma deliver_queue: "deliver env dm (with_queue lg ring n) = with_queue (deliver env dm lg) ring n"
  by (simp add: deliver_def append_queue)

lemma append_keeps_queue:
  "lg_ring (append_stdout m lg) = lg_ring lg" "lg_sema (append_stdout m lg) = lg_sema lg"
  "lg_ring (append_syslog m lg) = lg_ring lg" "lg_sema (append_syslog m lg) = lg_sema lg"
  "lg_ring (append_file env d m lg) = lg_ring lg" "lg_sema (append_file env d m lg) = lg_sema lg"
  "lg_ring (count_message lg) = lg_ring lg" "lg_sema (count_message lg) = lg_sema lg"
  by (simp_all add: append_stdout_def append_syslog_def append_file_def count_message_def Let_def split: option.split)

lemma deliver_keeps_queue: "lg_ring (deliver env dm lg) = lg_ring lg" "lg_sema (deliver env dm lg) = lg_sema lg"
  by (simp_all add: deliver_def append_keeps_queue)

lemma with_queue_simps [simp]:
  "with_queue (with_queue lg r n) r' n' = with_queue lg r' n'" "with_queue lg (lg_ring lg) (lg_sema lg) = lg"
  "lg_ring (with_queue lg r n) = r" "lg_sema (with_queue lg r n) = n" "lg_status (with_queue lg r n) = lg_status lg"
  "lg\<lparr>lg_ring := r\<rparr> = with_queue lg r (lg_sema lg)" "lg\<lparr>lg_sema := n\<rparr> = with_queue lg (lg_ring lg) n"
  "lg_maxmsgsize (with_queue lg r n) = lg_maxmsgsize lg"
  by (simp_all add: with_queue_def)

definition chunk_pair :: "byte list \<Rightarrow> string \<times> byte list" where
  "chunk_pair chunk = (to_chars (chunk_date chunk), chunk_message chunk)"

lemma to_chars_bytes [simp]: "to_chars (to_bytes s) = s"
proof -
  have "char_of (unat (word_of_nat (code c) :: byte)) = c" for c
  proof -
    have "code c < 256" by simp
    then show ?thesis by (simp add: unat_of_nat)
  qed
  then show ?thesis by (simp add: to_chars_def to_bytes_def comp_def)
qed

text \<open>One read: nothing, a cleared tail skipped, or the oldest message delivered.\<close>

lemma read_next_delivers:
  assumes "rbst_repr (lg_ring lg) cs" "logger_read_next env lg = (ret, lg')"
  shows "(ret = 0 \<and> lg' = with_queue lg (lg_ring lg') (lg_sema lg) \<and> rbst_repr (lg_ring lg') cs)
    \<or> (ret = 1 \<and> cs \<noteq> [] \<and> lg' = with_queue (deliver env (chunk_pair (hd cs)) lg) (lg_ring lg') (lg_sema lg) \<and> rbst_repr (lg_ring lg') (tl cs))"
proof -
  obtain ret0 ring lg0 where r: "ringbufst_read_next (read_message_cb env) (lg_ring lg) lg = (ret0, ring, lg0)"
    by (metis prod_cases3)
  then have e: "ret = ret0" "lg' = with_queue lg0 ring (lg_sema lg0)" using assms(2) by (auto simp: logger_read_next_def)
  show ?thesis
    using read_next_repr [OF assms(1), where cb = "read_message_cb env" and arg = lg] e assms(1) unfolding r
    by (auto simp: read_message_cb_def chunk_pair_def deliver_keeps_queue split: read_plan.splits)
qed

text \<open>
  Draining.  \<open>drained\<close>: the first \<open>k\<close> chunks have been delivered and the ring holds the others.
\<close>

definition drained :: "env \<Rightarrow> clog_logger \<Rightarrow> byte list list \<Rightarrow> nat \<Rightarrow> clog_logger \<Rightarrow> bool" where
  "drained env lg cs k lg' \<longleftrightarrow> k \<le> length cs \<and> rbst_repr (lg_ring lg') (drop k cs) \<and>
     lg' = with_queue (fold (deliver env) (map chunk_pair (take k cs)) lg) (lg_ring lg') (lg_sema lg)"

lemma fold_queue: "fold (deliver env) ps (with_queue x ring n) = with_queue (fold (deliver env) ps x) ring n"
  by (induction ps arbitrary: x) (simp_all add: deliver_queue)

lemma drain_returns:
  assumes "rbst_repr (lg_ring lg) cs"
  shows "\<exists>k lg'. drain env lg = Some lg' \<and> drained env lg cs k lg' \<and>
    (k < length cs \<and> lg_status lg' = Running \<longrightarrow> same_lap (lg_ring lg') \<and> \<not> same_lap (lg_ring lg)) \<and>
    (same_lap (lg_ring lg) \<longrightarrow> k = length cs \<or> lg_status lg' \<noteq> Running)"
  using assms
proof (induction cs arbitrary: lg rule: length_induct)
  case (1 cs)
  obtain ret lg1 where n: "logger_read_next env lg = (ret, lg1)" by force
  have d: "drain env lg = (if ret \<noteq> 0 \<and> lg_status lg1 = Running then drain env lg1 else Some lg1)"
    using n by (subst drain.simps) simp
  have rn: "ringbufst_read_next (read_message_cb env) (lg_ring lg) lg =
      (case plan_read (lg_ring lg) of Nothing \<Rightarrow> (0, lg_ring lg, lg) | SkipTail \<Rightarrow> (0, skipped (lg_ring lg), lg)
       | TakeAt p \<Rightarrow> (1, took (lg_ring lg) p (length (hd cs)), deliver env (chunk_pair (hd cs)) lg))"
    unfolding read_next_eq [OF 1(2)] by (simp add: read_message_cb_def chunk_pair_def split: read_plan.split)
  show ?case
  proof (cases "plan_read (lg_ring lg)")
    case Nothing
    then have "cs = []" using plan_read_content [OF 1(2)] by simp
    moreover have "ret = 0" "lg1 = lg" using n rn Nothing by (auto simp: logger_read_next_def)
    ultimately show ?thesis using d 1(2) by (auto simp: drained_def)
  next
    case SkipTail
    then have r: "rbst_repr (skipped (lg_ring lg)) cs" "\<not> same_lap (lg_ring lg)" "same_lap (skipped (lg_ring lg))"
      using plan_read_content [OF 1(2)] skipped_repr [OF 1(2)] skipped_same_lap [OF 1(2)] by auto
    have "ret = 0" "lg1 = with_queue lg (skipped (lg_ring lg)) (lg_sema lg)" using n rn SkipTail by (auto simp: logger_read_next_def)
    with r d show ?thesis by (intro exI [of _ 0] exI [of _ lg1]) (auto simp: drained_def)
  next
    case (TakeAt p)
    let ?ring = "took (lg_ring lg) p (length (hd cs))"
    obtain c cs' where c: "cs = c # cs'" using plan_read_content [OF 1(2)] TakeAt by auto
    have r: "rbst_repr ?ring cs'" using took_repr [OF 1(2) TakeAt] c by simp
    have l1: "ret = 1" "lg1 = with_queue (deliver env (chunk_pair c) lg) ?ring (lg_sema lg)"
      using n rn TakeAt c by (auto simp: logger_read_next_def deliver_keeps_queue)
    have one: "drained env lg (c # cs') (Suc k) x" if "drained env lg1 cs' k x" for k x
      using that l1(2) by (auto simp: drained_def fold_queue deliver_keeps_queue)
    show ?thesis
    proof (cases "lg_status lg1 = Running")
      case False
      have "drained env lg1 cs' 0 lg1" using r l1 by (simp add: drained_def)
      from one [OF this] show ?thesis using d False l1(1) c by (intro exI [of _ "Suc 0"] exI [of _ lg1]) auto
    next
      case True
      have "rbst_repr (lg_ring lg1) cs'" "length cs' < length cs" using r l1(2) c by simp_all
      with 1(1) obtain k lg' where k: "drain env lg1 = Some lg'" "drained env lg1 cs' k lg'"
        "k < length cs' \<and> lg_status lg' = Running \<longrightarrow> same_lap (lg_ring lg') \<and> \<not> same_lap (lg_ring lg1)"
        "same_lap (lg_ring lg1) \<longrightarrow> k = length cs' \<or> lg_status lg' \<noteq> Running"
        by blast
      have keep: "same_lap (lg_ring lg) \<Longrightarrow> same_lap (lg_ring lg1)"
        using took_same_lap [OF 1(2) TakeAt] l1(2) by simp
      show ?thesis using d True l1(1) k one [OF k(2)] keep c by (intro exI [of _ "Suc k"] exI [of _ lg']) auto
    qed
  qed
qed

section \<open>The messages the producers build\<close>

definition clock_ok :: "clock \<Rightarrow> bool" where
  "clock_ok ck \<longleftrightarrow> loc_ok (ck_loc ck) \<and> ck_nsec ck < 1000000000 \<and> length (ck_timezonefmt ck) = 5 \<and> length (ck_stampid ck) < 48"

definition logger_ok :: "clog_logger \<Rightarrow> bool" where
  "logger_ok lg \<longleftrightarrow> 1000 \<le> lg_maxmsgsize lg \<and> lg_maxmsgsize lg \<le> 32640 \<and> length (lg_ident lg) < 1000000 \<and>
     length (lg_pidcstr lg) < 12 \<and> (\<forall>level. lg_levelstyles lg level < 100 \<and> lg_levelcolors lg level < 100)"

lemma length_fmt_d0:
  assumes "\<bar>x\<bar> < 10000000000"
  shows "length (fmt_d 0 x) \<le> 11"
proof -
  have "nat \<bar>x\<bar> < 10 ^ Suc 9" using assms by (simp add: nat_less_iff)
  then have "length (dec (nat \<bar>x\<bar>)) \<le> 10" using length_dec_le [of "nat \<bar>x\<bar>" 9] by simp
  then show ?thesis by (cases "x < 0") (simp_all add: fmt_d_0)
qed

lemma datetime_fields:
  assumes "clock_ok ck" "clog_format_datetime policy dateformat bf (ck_loc ck) (ck_nsec ck) (ck_timezonefmt ck) (ck_stampid ck) dated =
      (n, dmin, dtime, stamp)"
  shows "n = fst dmin + fst dtime + fst stamp" "fst dmin \<le> ROF_DATEMINUTE_SIZE" "fst dtime < 48" "fst stamp < 48"
proof -
  note ok = assms(1) [unfolded clock_ok_def]
  show "n = fst dmin + fst dtime + fst stamp" "fst stamp < 48"
    using assms(2) ok by (auto simp: clog_format_datetime_def Let_def)
  show "fst dmin \<le> ROF_DATEMINUTE_SIZE" "fst dtime < 48"
    using datetime_lengths(1) [of "ck_loc ck" "ck_nsec ck" "ck_timezonefmt ck" policy]
      datetime_lengths(2) [of "ck_loc ck" "ck_nsec ck" "ck_timezonefmt ck" dateformat bf] assms(2) ok
    by (auto simp: clog_format_datetime_def snprintf_def ROF_DATEMINUTE_SIZE_def Let_def)
qed

lemma plain_message_ok:
  assumes "clock_ok ck" "msglen \<le> length message" "msglen < 100000"
  shows "message_ok (plain_message lg ck message msglen) \<and> mf_msglen (plain_message lg ck message msglen) = msglen"
proof -
  obtain n dmin dtime stamp where d: "clog_format_datetime (timepolicy (lg_logfile lg)) (lg_dateformat lg) (lg_bf lg) (ck_loc ck) (ck_nsec ck)
      (ck_timezonefmt ck) (ck_stampid ck) False = (n, dmin, dtime, stamp)" by (metis prod_cases4)
  show ?thesis using datetime_fields [OF assms(1) d] assms(2,3)
    by (simp add: plain_message_def d message_ok_def ROF_DATEMINUTE_SIZE_def)
qed

lemma dated_message_ok:
  assumes "clock_ok ck" "logger_ok lg" "msglen \<le> length message" "msglen < 100000" "fst lineno < 1000" "fst threadno < 1000"
  shows "message_ok (dated_message lg ck level lineno threadno message msglen)
    \<and> mf_msglen (dated_message lg ck level lineno threadno message msglen) = msglen"
proof -
  obtain n dmin dtime stamp where d: "clog_format_datetime (timepolicy (lg_logfile lg)) (lg_dateformat lg) (lg_bf lg) (ck_loc ck) (ck_nsec ck)
      (ck_timezonefmt ck) (ck_stampid ck) True = (n, dmin, dtime, stamp)" by (metis prod_cases4)
  have c: "lg_levelstyles lg level < 100" "lg_levelcolors lg level < 100" "length (lg_ident lg) < 1000000"
    using assms(2) by (simp_all add: logger_ok_def)
  have "length (fmt_d 0 (int (lg_levelstyles lg level))) \<le> 11" "length (fmt_d 0 (int (lg_levelcolors lg level))) \<le> 11"
    "length (fmt_d 0 0) \<le> 11" using c by (auto intro!: length_fmt_d0)
  then have "fst (color_prefix lg level) < 100" by (simp add: color_prefix_def snprintf_def Let_def)
  then show ?thesis using datetime_fields [OF assms(1) d] assms(3-6) c(3)
    by (simp add: dated_message_def d message_ok_def ROF_DATEMINUTE_SIZE_def)
qed

lemma lineno_field_bound: "\<bar>lineno\<bar> < 10000000000 \<Longrightarrow> fst (lineno_field lg filename lineno funcname) < 1000"
  using length_fmt_d0 [of lineno] by (auto simp: lineno_field_def snprintf_def Let_def split: option.split prod.split)

lemma threadno_field_bound: "logger_ok lg \<Longrightarrow> \<bar>threadid\<bar> < 10000000000 \<Longrightarrow> fst (threadno_field lg threadid) < 1000"
  using length_fmt_d0 [of threadid] by (simp add: threadno_field_def snprintf_def logger_ok_def)

lemma commit_oversize:
  "message_ok msg \<Longrightarrow> lg_maxmsgsize lg \<le> mf_msglen msg + 48 \<Longrightarrow> logger_commit_message others lg msg maxwaitms intervalms = Some (lg, 0, -1)"
  by (simp add: logger_commit_message_def oversize_chunk)

section \<open>Properties\<close>

text \<open>
  C24.  A commit always returns.  For every 16-bit \<open>maxwaitms\<close> and whatever the other threads do
  during its sleeps, \<open>logger_commit_message\<close> returns after sleeping at most \<open>maxwaitms\<close> milliseconds,
  and gives up on a full queue only after exactly \<open>maxwaitms\<close>.  A queue that never accepts the message makes it sleep
  that long and drop the message; so \<open>CLOG_MSGWAIT_INFINITE\<close> (-1, passed as 65535) does not wait for ever.
\<close>

theorem logger_commit_returns:
  "(\<exists>lg' waited ret. logger_commit_message others lg msg maxwaitms 1 = Some (lg', waited, ret)
      \<and> 0 \<le> waited \<and> waited \<le> uint maxwaitms \<and> (ret = 0 \<longrightarrow> waited = uint maxwaitms))
   \<and> (clog_message_fmt_chunksize msg (lg_maxmsgsize lg) \<noteq> SIZE_ERROR
      \<and> ringbufst_write (lg_ring lg) (clog_message_fmt_chunksize msg (lg_maxmsgsize lg)) (write_message_cb msg) = (0, lg_ring lg) \<longrightarrow>
        logger_commit_message (\<lambda>_ x. x) lg msg maxwaitms 1 = Some (lg\<lparr>lg_sema := lg_sema lg + 1\<rparr>, uint maxwaitms, 0))"
proof -
  let ?n = "clog_message_fmt_chunksize msg (lg_maxmsgsize lg)"
  have u: "0 \<le> uint maxwaitms" by simp
  obtain lg' waited ret where c: "commit_loop others lg msg ?n maxwaitms 1 0 0 = Some (lg', waited, ret)"
    "0 \<le> waited" "waited \<le> uint maxwaitms" "ret = 0 \<longrightarrow> waited = uint maxwaitms"
    using commit_loop_returns [of 0 maxwaitms others lg msg ?n 0] u by blast
  have "\<exists>lg' waited ret. logger_commit_message others lg msg maxwaitms 1 = Some (lg', waited, ret)
      \<and> 0 \<le> waited \<and> waited \<le> uint maxwaitms \<and> (ret = 0 \<longrightarrow> waited = uint maxwaitms)"
    using c by (cases "?n = SIZE_ERROR") (simp_all add: logger_commit_message_def Let_def)
  moreover have "commit_loop (\<lambda>_ x. x) lg msg ?n maxwaitms 1 0 0 = Some (lg, uint maxwaitms, 0)"
    if "ringbufst_write (lg_ring lg) ?n (write_message_cb msg) = (0, lg_ring lg)"
    using commit_loop_refused [OF order_refl u that] by simp
  ultimately show ?thesis by (simp add: logger_commit_message_def Let_def)
qed

definition full_ring :: ring_buffer_st where
  "full_ring = \<lparr> RLock = 0, WLock = 0, WOffset = 4000, ROffset = 0, Length = 4096, Buffer = replicate 4096 0 \<rparr>"

definition sample_logger :: "ring_buffer_st \<Rightarrow> clog_logger" where
  "sample_logger ring =
     \<lparr> lg_bf = sample_bf, lg_level = CLOG_LEVEL_ALL, lg_levelstyles = (\<lambda>_. 0), lg_levelcolors = (\<lambda>_. 0),
       lg_layout = CLOG_LAYOUT_DATED, lg_dateformat = CLOG_DATEFMT_RFC_3339,
       lg_logfile = rollingfile_zero\<lparr>pathname := ''/log/a.'', datesuffix := Some ''.log'', maxfilesize := 1048576, maxfilecount := 2\<rparr>,
       lg_ident = ''app'', lg_maxmsgsize = 4000, lg_pidcstr = ''42'', lg_ring = ring, lg_sema = 0, lg_logmessages = 0, lg_logrounds = 0,
       lg_fs = (\<lambda>_. None), lg_stdout = [], lg_syslog = [], lg_status = Running \<rparr>"

lemma sample_msg_ok: "message_ok sample_msg"
  by (simp add: sample_msg_def message_ok_def ROF_DATEMINUTE_SIZE_def)

lemma sample_msg_chunk: "clog_message_fmt_chunksize sample_msg 4000 = 104"
  by (simp add: sample_msg_def clog_message_fmt_chunksize_def clog_level_lens_def ROF_DATEMINUTE_SIZE_def
      memapi_align_psize_def memapi_align_bsize_def Let_def)

lemma logger_commit_returns_witness:
  "\<exists>lg'. logger_commit_message (\<lambda>_ x. x) (sample_logger full_ring) sample_msg (-1) 1 = Some (lg', 65535, 0)"
proof -
  have "ringbufst_write full_ring 104 (write_message_cb sample_msg) = (0, full_ring)"
    by (simp add: ringbufst_write_def full_ring_def ringbufst_align_entrysize_def RINGBUFST_ENTRY_HDRSIZE_def memapi_align_bsize_def to_ssize_def
        ringbufst_restore_wrap_def Let_def)
  moreover have "uint (-1 :: 16 word) = 65535" by (simp add: unsigned_minus_1_eq_mask mask_eq_exp_minus_1)
  ultimately show ?thesis
    using logger_commit_returns [where lg = "sample_logger full_ring" and msg = sample_msg and maxwaitms = "-1"]
    by (simp add: sample_logger_def sample_msg_chunk SIZE_ERROR_def)
qed

text \<open>
  A text that does not fit its buffer is never logged.  \<open>clog_logger_log_format\<close> cuts a text of
  \<open>maxmsgsize\<close> bytes or more to \<open>maxmsgsize - 1\<close> bytes ending in three dots, and \<open>clog_logger_log_message\<close>
  to its first \<open>maxmsgsize - 1\<close> bytes; but a message that long makes \<open>clog_message_fmt_chunksize\<close> fail,
  so both return with the logger unchanged: nothing queued, no semaphore posted.
\<close>

theorem truncated_never_logged:
  assumes "clock_ok ck" "logger_ok lg" "lg_maxmsgsize lg \<le> length s" "\<bar>lineno\<bar> < 2147483649" "\<bar>threadid\<bar> < 2147483649"
  shows "clog_logger_log_format others ck threadid lg level maxwaitms filename lineno funcname (Some s) = Some lg
    \<and> clog_logger_log_message others ck lg level maxwaitms s (int (length s)) = Some lg"
proof -
  let ?m = "take (lg_maxmsgsize lg - 4) s @ ''...''" and ?n = "lg_maxmsgsize lg - 1"
  have b: "1000 \<le> lg_maxmsgsize lg" "lg_maxmsgsize lg \<le> 32640" using assms(2) by (simp_all add: logger_ok_def)
  have f: "format_message (lg_maxmsgsize lg) (Some s) = (?m, ?n)" "?n \<le> length ?m" "?n < 100000" "?n \<le> length s"
    using assms(3) b by (simp_all add: format_message_def)
  have len: "lg_maxmsgsize lg \<le> ?n + 48" using b by simp
  have fields: "fst (lineno_field lg filename lineno funcname) < 1000" "fst (threadno_field lg threadid) < 1000"
    using assms(2,4,5) by (auto intro: lineno_field_bound threadno_field_bound)
  have plain: "logger_commit_message others lg (plain_message lg ck m ?n) maxwaitms 1 = Some (lg, 0, -1)" if "?n \<le> length m" for m
    using plain_message_ok [OF assms(1) that f(3), of lg] len by (intro commit_oversize) auto
  have dated: "logger_commit_message others lg (dated_message lg ck level l t m ?n) maxwaitms 1 = Some (lg, 0, -1)"
    if "?n \<le> length m" "fst l < 1000" "fst t < 1000" for m l t
    using dated_message_ok [OF assms(1,2) that(1) f(3) that(2,3), of level] len by (intro commit_oversize) auto
  have "clog_logger_log_format others ck threadid lg level maxwaitms filename lineno funcname (Some s) = Some lg"
    using plain [OF f(2)] dated [OF f(2) fields]
    by (cases "lg_layout lg") (simp_all only: clog_logger_log_format_def Let_def f(1) prod.case clog_layout_t.case if_cancel option.map fst_conv)
  moreover have "nat (int (lg_maxmsgsize lg) - 1) = ?n" by simp
  then have "clog_logger_log_message others ck lg level maxwaitms s (int (length s)) = Some lg"
    using plain [OF f(4)] dated [OF f(4), of "(0, [])" "(0, [])"] assms(3) b
    by (cases "lg_layout lg") (simp_all add: clog_logger_log_message_def Let_def)
  ultimately show ?thesis by blast
qed

definition sample_clock :: clock where
  "sample_clock = \<lparr> ck_loc = sample_loc, ck_nsec = 65000000, ck_timezonefmt = ''+0800'', ck_stampid = [] \<rparr>"

lemma truncated_never_logged_witness:
  "clog_logger_log_format (\<lambda>_ x. x) sample_clock 7 (sample_logger full_ring) CLOG_LEVEL_ERROR 0 (Some ''main.c'') 42 ''main''
     (Some (replicate 5000 CHR ''x'')) = Some (sample_logger full_ring)"
  using truncated_never_logged [of sample_clock "sample_logger full_ring" "replicate 5000 CHR ''x''" 42 7]
  by (simp add: clock_ok_def logger_ok_def sample_clock_def sample_loc_def loc_ok_def sample_logger_def)

text \<open>
  C25.  Draining the queue.  On a ring at rest that holds the chunks \<open>cs\<close>, the loop
  \<open>while (ringbufst_read_next(...))\<close> of the logging thread ends.  It may stop early, with messages left, when
  it meets a cleared tail of the block, but then the next run delivers the rest: after two runs the
  queue is empty and every message has been given to the appenders exactly once, in order, unless an
  appender ended the process.
\<close>

theorem logger_drains:
  assumes "rbst_repr (lg_ring lg) cs"
  shows "\<exists>lg1. drain env lg = Some lg1 \<and> (lg_status lg1 = Running \<longrightarrow>
    (\<exists>lg2. drain env lg1 = Some lg2 \<and> (lg_status lg2 = Running \<longrightarrow>
      rbst_repr (lg_ring lg2) [] \<and> lg2 = with_queue (fold (deliver env) (map chunk_pair cs) lg) (lg_ring lg2) (lg_sema lg))))"
proof -
  obtain k lg1 where 1: "drain env lg = Some lg1" "drained env lg cs k lg1"
    "k < length cs \<and> lg_status lg1 = Running \<longrightarrow> same_lap (lg_ring lg1)"
    using drain_returns [OF assms, of env] by blast
  have r: "k \<le> length cs" "rbst_repr (lg_ring lg1) (drop k cs)"
    "lg1 = with_queue (fold (deliver env) (map chunk_pair (take k cs)) lg) (lg_ring lg1) (lg_sema lg)"
    using 1(2) by (simp_all add: drained_def)
  obtain k2 lg2 where 2: "drain env lg1 = Some lg2" "drained env lg1 (drop k cs) k2 lg2"
    "same_lap (lg_ring lg1) \<longrightarrow> k2 = length (drop k cs) \<or> lg_status lg2 \<noteq> Running"
    using drain_returns [OF r(2), of env] by blast
  have fin: "rbst_repr (lg_ring lg2) [] \<and> lg2 = with_queue (fold (deliver env) (map chunk_pair cs) lg) (lg_ring lg2) (lg_sema lg)"
    if run: "lg_status lg1 = Running" "lg_status lg2 = Running"
  proof -
    have k2: "k2 = length (drop k cs)" using 2(2,3) 1(3) r(1) run by (cases "k < length cs") (auto simp: drained_def)
    have q: "lg_sema lg1 = lg_sema lg" by (subst r(3)) simp
    have "lg2 = with_queue (fold (deliver env) (map chunk_pair (drop k cs)) lg1) (lg_ring lg2) (lg_sema lg1)"
      using 2(2) k2 by (simp add: drained_def)
    also have "\<dots> = with_queue (fold (deliver env) (map chunk_pair (drop k cs)) (fold (deliver env) (map chunk_pair (take k cs)) lg))
        (lg_ring lg2) (lg_sema lg)"
      unfolding q by (subst r(3)) (simp only: fold_queue with_queue_simps)
    also have "\<dots> = with_queue (fold (deliver env) (map chunk_pair (take k cs) @ map chunk_pair (drop k cs)) lg) (lg_ring lg2) (lg_sema lg)"
      by (simp only: fold_append comp_apply)
    finally show ?thesis using 2(2) k2 by (simp add: drained_def flip: map_append)
  qed
  with 1(1) 2(1) show ?thesis by blast
qed

lemma logger_drains_witness:
  "\<exists>lg1. drain \<lparr>env_can = (\<lambda>_. True), env_rets = (\<lambda>m. [int (length m)]), env_shmlog = (\<lambda>_. True)\<rparr> (sample_logger wrapped_ring) = Some lg1"
  using logger_drains [of "sample_logger wrapped_ring" "[replicate 496 42]"] wrapped_ring_repr(1) by (auto simp: sample_logger_def)

end
