(* ===== verification/LogThread.thy ===== *)
theory LogThread
  imports Logger
begin

text \<open>
  The logging thread \<open>clog_threadfunc\<close>, producers and \<open>clog_logger_destroy\<close> of
  \<open>source/clogger/clogger.c\<close> as one transition system, its invariant, and the path of a message from the
  producer to the rolling file.
\<close>

section \<open>Producers and the logging thread\<close>

text \<open>
  The steps of the logging thread (\<open>clog_threadfunc\<close>), of producers that commit without waiting, and
  of \<open>clog_logger_destroy\<close>, in any interleaving.  The ghost fields list the accepted and the delivered
  messages, each with the date text of its rolling file.
\<close>

datatype tpc = Top | Waiting | Reading | Done

record machine =
  m_pc :: tpc
  m_locked :: bool
  m_lg :: clog_logger
  m_accepted :: "(string \<times> byte list) list"
  m_delivered :: "(string \<times> byte list) list"

definition message_pair :: "clog_message_fmt \<Rightarrow> string \<times> byte list" where
  "message_pair msg = (to_chars (buf_bytes (mf_dateminfmt msg)), message_text msg)"

inductive mstep :: "env \<Rightarrow> machine \<Rightarrow> machine \<Rightarrow> bool" for env where
  trylock_fails: "m_pc s = Top \<Longrightarrow> m_locked s \<Longrightarrow> mstep env s (s\<lparr>m_pc := Waiting\<rparr>)"
| trylock_succeeds: "m_pc s = Top \<Longrightarrow> \<not> m_locked s \<Longrightarrow> mstep env s (s\<lparr>m_pc := Done\<rparr>)"
| sema_taken: "m_pc s = Waiting \<Longrightarrow> 0 < lg_sema (m_lg s) \<Longrightarrow>
    mstep env s (s\<lparr>m_pc := Reading, m_lg := (m_lg s)\<lparr>lg_sema := lg_sema (m_lg s) - 1\<rparr>\<rparr>)"
| sema_timeout: "m_pc s = Waiting \<Longrightarrow> mstep env s (s\<lparr>m_pc := Top\<rparr>)"
| read_one: "m_pc s = Reading \<Longrightarrow> lg_status (m_lg s) = Running \<Longrightarrow> logger_read_next env (m_lg s) = (ret, lg') \<Longrightarrow> ret \<noteq> 0 \<Longrightarrow>
    mstep env s (s\<lparr>m_lg := lg', m_delivered := m_delivered s @ [chunk_pair (hd (rbst_content (lg_ring (m_lg s))))]\<rparr>)"
| read_none: "m_pc s = Reading \<Longrightarrow> lg_status (m_lg s) = Running \<Longrightarrow> logger_read_next env (m_lg s) = (0, lg') \<Longrightarrow>
    mstep env s (s\<lparr>m_pc := Top, m_lg := lg'\<rparr>)"
| commit: "m_locked s \<Longrightarrow> lg_status (m_lg s) = Running \<Longrightarrow> message_ok msg \<Longrightarrow>
    logger_commit_message (\<lambda>_ x. x) (m_lg s) msg 0 1 = Some (lg', waited, ret) \<Longrightarrow>
    mstep env s (s\<lparr>m_lg := lg', m_accepted := m_accepted s @ (if ret = 1 then [message_pair msg] else [])\<rparr>)"
| destroy: "m_locked s \<Longrightarrow> mstep env s (s\<lparr>m_locked := False, m_lg := (m_lg s)\<lparr>lg_sema := lg_sema (m_lg s) + 1\<rparr>\<rparr>)"

inductive_cases mstepE: "mstep env s t"

definition start :: "clog_logger \<Rightarrow> machine" where
  "start lg = \<lparr> m_pc = Top, m_locked = True, m_lg = lg, m_accepted = [], m_delivered = [] \<rparr>"

text \<open>The invariant: what the queue holds, and what the appenders have done.\<close>

definition m_inv :: "env \<Rightarrow> clog_logger \<Rightarrow> machine \<Rightarrow> bool" where
  "m_inv env lg0 s \<longleftrightarrow> (\<exists>cs. rbst_repr (lg_ring (m_lg s)) cs \<and> m_accepted s = m_delivered s @ map chunk_pair cs) \<and>
     m_lg s = with_queue (fold (deliver env) (m_delivered s) lg0) (lg_ring (m_lg s)) (lg_sema (m_lg s))"

lemma commit_once:
  assumes "logger_commit_message (\<lambda>_ x. x) lg msg 0 1 = Some (lg', waited, ret)" "message_ok msg" "rbst_repr (lg_ring lg) cs"
  shows "lg' = with_queue lg (lg_ring lg') (lg_sema lg') \<and>
    (if ret = 1 then \<exists>c. rbst_repr (lg_ring lg') (cs @ [c]) \<and> chunk_pair c = message_pair msg else lg_ring lg' = lg_ring lg)"
proof (cases "clog_message_fmt_chunksize msg (lg_maxmsgsize lg) = SIZE_ERROR")
  case True
  then have "lg' = lg" "ret = -1" using assms(1) by (auto simp: logger_commit_message_def)
  then show ?thesis by simp
next
  case False
  let ?n = "clog_message_fmt_chunksize msg (lg_maxmsgsize lg)"
  note b = chunksize_bounds [OF assms(2) refl False] and lay = message_layout [OF assms(2) refl False]
  have cb: "callback_ok ?n (write_message_cb msg)" using b(3,4) lay(1) by (simp add: callback_ok_def)
  obtain ret0 ring where w: "ringbufst_write (lg_ring lg) ?n (write_message_cb msg) = (ret0, ring)" by force
  have r: "ret = ret0" "lg' = with_queue lg ring (lg_sema lg + 1)"
    using assms(1) False w by (auto simp: logger_commit_message_def commit_loop.simps Let_def split: if_splits)
  show ?thesis
  proof (cases "ret0 = 1")
    case True
    then obtain old where "length old = ?n" "enq_chunk (?n, write_message_cb msg) (lg_ring lg) = write_message_cb msg old"
      using write_old [OF assms(3) cb] w by auto
    moreover have "rbst_repr ring (cs @ [enq_chunk (?n, write_message_cb msg) (lg_ring lg)])"
      using write_repr [OF assms(3) cb] w True by simp
    ultimately show ?thesis using r True lay(2,3) by (auto simp: chunk_pair_def message_pair_def)
  next
    case False
    then have "ring = lg_ring lg" using write_repr [OF assms(3) cb] w by simp
    then show ?thesis using r False by simp
  qed
qed

lemma start_inv: "rbst_repr (lg_ring lg) [] \<Longrightarrow> m_inv env lg (start lg)"
  by (simp add: m_inv_def start_def)

lemma m_invI:
  assumes "rbst_repr (lg_ring (m_lg t)) cs" "m_accepted t = m_delivered t @ map chunk_pair cs"
    "m_lg t = with_queue (fold (deliver env) (m_delivered t) lg0) r n"
  shows "m_inv env lg0 t"
proof -
  have "lg_ring (m_lg t) = r" "lg_sema (m_lg t) = n" using assms(3) by simp_all
  then show ?thesis using assms unfolding m_inv_def by blast
qed

lemma mstep_inv:
  assumes "m_inv env lg0 s" "mstep env s t"
  shows "m_inv env lg0 t"
proof -
  obtain cs where cs: "rbst_repr (lg_ring (m_lg s)) cs" "m_accepted s = m_delivered s @ map chunk_pair cs"
    using assms(1) by (auto simp: m_inv_def)
  have lg: "m_lg s = with_queue (fold (deliver env) (m_delivered s) lg0) (lg_ring (m_lg s)) (lg_sema (m_lg s))"
    using assms(1) by (simp add: m_inv_def)
  have same: "with_queue (m_lg s) r n = with_queue (fold (deliver env) (m_delivered s) lg0) r n" for r n
    by (subst lg) simp
  from assms(2) show ?thesis
  proof cases
    case trylock_fails
    show ?thesis by (rule m_invI [where cs = cs]) (use trylock_fails(1) cs in simp, use trylock_fails(1) cs in simp, use trylock_fails(1) lg in simp)
  next
    case trylock_succeeds
    show ?thesis by (rule m_invI [where cs = cs]) (use trylock_succeeds(1) cs in simp, use trylock_succeeds(1) cs in simp, use trylock_succeeds(1) lg in simp)
  next
    case sema_timeout
    show ?thesis by (rule m_invI [where cs = cs]) (use sema_timeout(1) cs in simp, use sema_timeout(1) cs in simp, use sema_timeout(1) lg in simp)
  next
    case sema_taken
    show ?thesis by (rule m_invI [where cs = cs]) (use sema_taken(1) cs in simp, use sema_taken(1) cs in simp, simp add: sema_taken(1) same)
  next
    case destroy
    show ?thesis by (rule m_invI [where cs = cs]) (use destroy(1) cs in simp, use destroy(1) cs in simp, simp add: destroy(1) same)
  next
    case (read_one ret lg')
    from read_next_delivers [OF cs(1) read_one(4)] read_one(5)
    have d: "cs \<noteq> []" "lg' = with_queue (deliver env (chunk_pair (hd cs)) (m_lg s)) (lg_ring lg') (lg_sema (m_lg s))"
      "rbst_repr (lg_ring lg') (tl cs)" by auto
    have "deliver env (chunk_pair (hd cs)) (m_lg s) =
        with_queue (deliver env (chunk_pair (hd cs)) (fold (deliver env) (m_delivered s) lg0)) (lg_ring (m_lg s)) (lg_sema (m_lg s))"
      by (subst lg) (simp only: deliver_queue)
    then have "with_queue (deliver env (chunk_pair (hd cs)) (m_lg s)) r n =
        with_queue (fold (deliver env) (m_delivered s @ [chunk_pair (hd cs)]) lg0) r n" for r n
      by (metis fold_append fold_simps comp_apply with_queue_simps(1))
    then have e: "lg' = with_queue (fold (deliver env) (m_delivered s @ [chunk_pair (hd cs)]) lg0) (lg_ring lg') (lg_sema (m_lg s))"
      using d(2) by metis
    have c: "rbst_content (lg_ring (m_lg s)) = cs" using cs(1) by (rule repr_content)
    have a: "m_accepted s = m_delivered s @ chunk_pair (hd cs) # map chunk_pair (tl cs)" using cs(2) d(1) by (cases cs) auto
    have t: "m_lg t = lg'" "m_accepted t = m_accepted s" "m_delivered t = m_delivered s @ [chunk_pair (hd cs)]"
      using read_one(1) c by simp_all
    show ?thesis by (rule m_invI) (simp only: t, rule d(3), simp add: t(2,3) a, simp only: t, rule e)
  next
    case (read_none lg')
    from read_next_delivers [OF cs(1) read_none(4)]
    have d: "lg' = with_queue (m_lg s) (lg_ring lg') (lg_sema (m_lg s))" "rbst_repr (lg_ring lg') cs" by auto
    have e: "lg' = with_queue (fold (deliver env) (m_delivered s) lg0) (lg_ring lg') (lg_sema (m_lg s))" using d(1) same by metis
    have t: "m_lg t = lg'" "m_accepted t = m_accepted s" "m_delivered t = m_delivered s" using read_none(1) by simp_all
    show ?thesis by (rule m_invI) (simp only: t, rule d(2), simp only: t, rule cs(2), simp only: t, rule e)
  next
    case (commit msg lg' waited ret)
    from commit_once [OF commit(5,4) cs(1)] have c: "lg' = with_queue (m_lg s) (lg_ring lg') (lg_sema lg')"
      "if ret = 1 then \<exists>c. rbst_repr (lg_ring lg') (cs @ [c]) \<and> chunk_pair c = message_pair msg else lg_ring lg' = lg_ring (m_lg s)" by auto
    have e: "lg' = with_queue (fold (deliver env) (m_delivered s) lg0) (lg_ring lg') (lg_sema lg')" using c(1) same by metis
    obtain cs' where cs': "rbst_repr (lg_ring lg') cs'"
      "m_accepted s @ (if ret = 1 then [message_pair msg] else []) = m_delivered s @ map chunk_pair cs'"
    proof (cases "ret = 1")
      case True
      then obtain c where "rbst_repr (lg_ring lg') (cs @ [c])" "chunk_pair c = message_pair msg" using c(2) by auto
      then show ?thesis using True cs(2) by (intro that [of "cs @ [c]"]) simp_all
    next
      case False
      then show ?thesis using cs c(2) by (intro that [of cs]) simp_all
    qed
    have t: "m_lg t = lg'" "m_accepted t = m_accepted s @ (if ret = 1 then [message_pair msg] else [])"
      "m_delivered t = m_delivered s" using commit(1) by simp_all
    show ?thesis by (rule m_invI) (simp only: t, rule cs'(1), simp only: t, rule cs'(2), simp only: t, rule e)
  qed
qed

lemma run_inv:
  assumes "(mstep env)\<^sup>*\<^sup>* (start lg0) s" "rbst_repr (lg_ring lg0) []"
  shows "m_inv env lg0 s"
  using assms(1)
proof (induction rule: rtranclp_induct)
  case base
  show ?case using assms(2) by (rule start_inv)
next
  case (step s t)
  show ?case by (rule mstep_inv [OF step(3,2)])
qed

text \<open>
  The file appender.  A status other than \<open>Running\<close> stays, so a run that is still running has had only
  successful file writes.
\<close>

lemma writebytes_err: "file_writebytes rets fs hf bs = Some (err, fs') \<Longrightarrow> err = 0 \<or> err = -1"
proof (induction rets fs hf bs rule: file_writebytes.induct)
  case (2 rets fs p b bs)
  show ?case
  proof (cases rets)
    case Nil
    then show ?thesis using 2(3) by simp
  next
    case (Cons cbret rets')
    consider "cbret = -1" | "cbret > 0" | "cbret \<le> 0" "cbret \<noteq> -1" by linarith
    then show ?thesis
    proof cases
      case 1
      then show ?thesis using 2(3) Cons by simp
    next
      case c: 2
      then show ?thesis using 2(1) [OF Cons] 2(3) Cons by (simp del: fun_upd_apply)
    next
      case c: 3
      then show ?thesis using 2(2) [OF Cons] 2(3) Cons by simp
    qed
  qed
qed simp_all

definition file_only :: "clog_logger \<Rightarrow> bool" where
  "file_only lg \<longleftrightarrow> bf_appenderrofile (lg_bf lg) \<and> \<not> bf_appendershmlog (lg_bf lg)"

lemma append_status:
  "lg_status (append_stdout m lg) = lg_status lg" "lg_status (append_syslog m lg) = lg_status lg" "lg_status (count_message lg) = lg_status lg"
  "lg_bf (append_stdout m lg) = lg_bf lg" "lg_bf (append_syslog m lg) = lg_bf lg" "lg_bf (count_message lg) = lg_bf lg"
  "lg_fs (append_stdout m lg) = lg_fs lg" "lg_fs (append_syslog m lg) = lg_fs lg" "lg_fs (count_message lg) = lg_fs lg"
  "lg_logfile (append_stdout m lg) = lg_logfile lg" "lg_logfile (append_syslog m lg) = lg_logfile lg"
  "lg_logfile (count_message lg) = lg_logfile lg"
  by (simp_all add: append_stdout_def append_syslog_def count_message_def Let_def)

lemma deliver_file:
  assumes "file_only lg" "lg_status (deliver env dm lg) = Running"
  shows "file_only (deliver env dm lg) \<and> lg_status lg = Running \<and>
    rollingfile_write (env_can env) (env_rets env (snd dm)) (lg_fs lg) (lg_logfile lg) (fst dm) (snd dm) =
      Some (0, lg_fs (deliver env dm lg), lg_logfile (deliver env dm lg))"
proof -
  let ?lg = "append_syslog (snd dm) (append_stdout (snd dm) lg)"
  have f: "\<not> bf_appendershmlog (lg_bf ?lg)" "bf_appenderrofile (lg_bf ?lg)" using assms(1) by (simp_all add: file_only_def append_status)
  have st: "lg_status (append_file env (fst dm) (snd dm) ?lg) = Running" using assms(2) by (simp add: deliver_def append_status)
  then obtain err fs rof where w: "rollingfile_write (env_can env) (env_rets env (snd dm)) (lg_fs ?lg) (lg_logfile ?lg) (fst dm) (snd dm) = Some (err, fs, rof)"
    using f by (auto simp: append_file_def Let_def split: option.splits)
  then have e: "err = 0 \<or> err = -1"
    by (auto simp: rollingfile_write_def split: prod.splits option.splits dest: writebytes_err)
  have "err \<noteq> -1" using st w f by (auto simp: append_file_def Let_def)
  then show ?thesis using e w f st assms(1)
    by (auto simp: append_file_def Let_def deliver_def append_status file_only_def)
qed

lemma deliver_file_only: "file_only lg \<Longrightarrow> file_only (deliver env dm lg)"
proof -
  have "lg_bf (append_file env m n x) = lg_bf x" for m n x
    by (simp add: append_file_def Let_def split: option.split)
  then show "file_only lg \<Longrightarrow> file_only (deliver env dm lg)" by (simp add: file_only_def deliver_def append_status)
qed

lemma running_before: "lg_status (fold (deliver env) ps lg) = Running \<Longrightarrow> file_only lg \<Longrightarrow> lg_status lg = Running"
proof (induction ps arbitrary: lg)
  case (Cons p ps)
  have "lg_status (deliver env p lg) = Running" using Cons.IH [OF _ deliver_file_only [OF Cons.prems(2)]] Cons.prems(1) by simp
  then show ?case using deliver_file [OF Cons.prems(2)] by blast
qed simp

lemma deliver_all_files:
  assumes "file_only lg" "lg_status (fold (deliver env) ps lg) = Running" "list_all (\<lambda>p. fst p = d) ps"
  shows "log_all (env_can env) d (map (\<lambda>p. (env_rets env (snd p), snd p)) ps) (lg_fs lg) (lg_logfile lg) =
    Some (lg_fs (fold (deliver env) ps lg), lg_logfile (fold (deliver env) ps lg))"
  using assms
proof (induction ps arbitrary: lg)
  case (Cons p ps)
  have fo: "file_only (deliver env p lg)" using Cons.prems(1) by (rule deliver_file_only)
  have run: "lg_status (fold (deliver env) ps (deliver env p lg)) = Running" using Cons.prems(2) by simp
  have d: "fst p = d" "list_all (\<lambda>p. fst p = d) ps" using Cons.prems(3) by simp_all
  have w: "rollingfile_write (env_can env) (env_rets env (snd p)) (lg_fs lg) (lg_logfile lg) d (snd p) =
      Some (0, lg_fs (deliver env p lg), lg_logfile (deliver env p lg))"
    using deliver_file [OF Cons.prems(1) running_before [OF run fo]] d(1) by blast
  show ?case using Cons.IH [OF fo run d(2)] by (simp add: w)
qed simp

lemma with_queue_file [simp]: "lg_fs (with_queue lg r n) = lg_fs lg" "lg_logfile (with_queue lg r n) = lg_logfile lg"
  by (simp_all add: with_queue_def del: with_queue_simps)

lemma commit_accepts:
  assumes "rbst_repr (lg_ring lg) []" "message_ok msg" "clog_message_fmt_chunksize msg (lg_maxmsgsize lg) = n" "n \<noteq> SIZE_ERROR"
    "asz n \<le> nat (Length (lg_ring lg)) div 8"
  shows "\<exists>ring. logger_commit_message (\<lambda>_ x. x) lg msg 0 1 = Some (with_queue lg ring (lg_sema lg + 1), 0, 1)"
proof -
  note b = chunksize_bounds [OF assms(2-4)] and lay = message_layout [OF assms(2-4)]
  have cb: "callback_ok n (write_message_cb msg)" using b(3,4) lay(1) by (simp add: callback_ok_def)
  obtain ring where w: "ringbufst_write (lg_ring lg) n (write_message_cb msg) = (1, ring)"
    using write_empty_accepts [OF assms(1) cb assms(5)] by (metis prod.collapse)
  have "commit_loop (\<lambda>_ x. x) lg msg n 0 1 0 0 = Some (with_queue lg ring (lg_sema lg), 0, 1)"
    using w by (subst commit_loop.simps) (simp add: Let_def)
  then have "logger_commit_message (\<lambda>_ x. x) lg msg 0 1 = Some (with_queue lg ring (lg_sema lg + 1), 0, 1)"
    using assms(3,4) by (simp add: logger_commit_message_def Let_def)
  then show ?thesis ..
qed

lemma reachable_files:
  assumes "(mstep env)\<^sup>*\<^sup>* (start lg) s" "rbst_repr (lg_ring lg) []" "lg_status (m_lg s) = Running" "file_only lg"
    "list_all (\<lambda>p. fst p = d) (m_delivered s)"
  shows "log_all (env_can env) d (map (\<lambda>p. (env_rets env (snd p), snd p)) (m_delivered s)) (lg_fs lg) (lg_logfile lg) =
      Some (lg_fs (m_lg s), lg_logfile (m_lg s))"
    "\<exists>cs. m_accepted s = m_delivered s @ map chunk_pair cs"
proof -
  let ?x = "fold (deliver env) (m_delivered s) lg"
  have inv: "m_inv env lg s" by (rule run_inv [OF assms(1,2)])
  then show "\<exists>cs. m_accepted s = m_delivered s @ map chunk_pair cs" by (auto simp: m_inv_def)
  have q: "m_lg s = with_queue ?x (lg_ring (m_lg s)) (lg_sema (m_lg s))" using inv by (simp add: m_inv_def)
  have e: "lg_status (m_lg s) = lg_status ?x" "lg_fs (m_lg s) = lg_fs ?x" "lg_logfile (m_lg s) = lg_logfile ?x"
    by (subst q, simp)+
  show "log_all (env_can env) d (map (\<lambda>p. (env_rets env (snd p), snd p)) (m_delivered s)) (lg_fs lg) (lg_logfile lg) =
      Some (lg_fs (m_lg s), lg_logfile (m_lg s))"
    using deliver_all_files [OF assms(4) _ assms(5)] assms(3) by (simp add: e)
qed

lemma done_stays: "(mstep env)\<^sup>*\<^sup>* s t \<Longrightarrow> m_pc s = Done \<Longrightarrow> m_pc t = Done \<and> m_delivered t = m_delivered s"
proof (induction rule: rtranclp_induct)
  case (step t u)
  from step(2) step(3) [OF step(4)] show ?case by cases auto
qed simp

text \<open>Steps that do not post the semaphore.\<close>

definition quiet :: "env \<Rightarrow> machine \<Rightarrow> machine \<Rightarrow> bool" where
  "quiet env s t \<longleftrightarrow> mstep env s t \<and> lg_sema (m_lg t) \<le> lg_sema (m_lg s)"

lemma quiet_idle:
  assumes "(quiet env)\<^sup>*\<^sup>* s t" "m_pc s = Top" "lg_sema (m_lg s) = 0"
  shows "m_delivered t = m_delivered s \<and> m_lg t = m_lg s \<and> m_pc t \<noteq> Reading"
  using assms(1)
proof (induction rule: rtranclp_induct)
  case (step t u)
  have z: "lg_sema (m_lg t) = 0" using step(3) assms(3) by simp
  from step(2) have m: "mstep env t u" and le: "lg_sema (m_lg u) \<le> lg_sema (m_lg t)" by (auto simp: quiet_def)
  from m show ?case
  proof cases
    case (commit msg lg' waited ret)
    have "lg' = m_lg t"
    proof (cases "clog_message_fmt_chunksize msg (lg_maxmsgsize (m_lg t)) = SIZE_ERROR")
      case False
      obtain r ring where "ringbufst_write (lg_ring (m_lg t)) (clog_message_fmt_chunksize msg (lg_maxmsgsize (m_lg t))) (write_message_cb msg) = (r, ring)"
        by force
      then have "commit_loop (\<lambda>_ x. x) (m_lg t) msg (clog_message_fmt_chunksize msg (lg_maxmsgsize (m_lg t))) 0 1 0 0 =
          Some (with_queue (m_lg t) ring (lg_sema (m_lg t)), 0, r)"
        by (subst commit_loop.simps) (simp add: Let_def)
      then have "lg_sema lg' = lg_sema (m_lg t) + 1" using commit(5) False by (auto simp: logger_commit_message_def Let_def)
      then show ?thesis using le commit(1) by simp
    qed (use commit(5) in \<open>simp add: logger_commit_message_def\<close>)
    then show ?thesis using step(3) commit(1) by simp
  next
    case destroy
    then show ?thesis using le by simp
  qed (use step(3) z in auto)
qed (simp add: assms(2))

section \<open>Properties\<close>

text \<open>
  C4.  No message is lost, duplicated, reordered or altered between the producers and the appenders.
  In every state that the logging thread, the producers and \<open>clog_logger_destroy\<close> can reach, the messages whose
  commit was accepted are those already delivered followed by the chunks still in the queue, and
  the appenders are in the state that delivering these messages, each once and in order, leads to.
\<close>

theorem logger_conserves:
  assumes "(mstep env)\<^sup>*\<^sup>* (start lg) s" "rbst_repr (lg_ring lg) []"
  shows "\<exists>cs. rbst_repr (lg_ring (m_lg s)) cs \<and> m_accepted s = m_delivered s @ map chunk_pair cs
    \<and> m_lg s = with_queue (fold (deliver env) (m_delivered s) lg) (lg_ring (m_lg s)) (lg_sema (m_lg s))"
  using run_inv [OF assms] by (auto simp: m_inv_def)

definition sample_env :: env where
  "sample_env = \<lparr>env_can = (\<lambda>_. True), env_rets = (\<lambda>m. [int (length m)]), env_shmlog = (\<lambda>_. True)\<rparr>"

text \<open>A run that accepts one message and delivers it.\<close>

definition empty_ring :: ring_buffer_st where
  "empty_ring = \<lparr> RLock = 0, WLock = 0, WOffset = 0, ROffset = 0, Length = 4096, Buffer = replicate 4096 0 \<rparr>"

lemma empty_ring_repr: "rbst_repr empty_ring []"
proof -
  have "ringbufst_init 2 100 = Some empty_ring"
    by (simp add: ringbufst_init_def memapi_align_bsize_def empty_ring_def Let_def)
  moreover have "init_size_ok 2 100" by (simp add: init_size_ok_def)
  ultimately show ?thesis using init_repr by fastforce
qed

lemma empty_ring_write:
  "ringbufst_write empty_ring 104 cb = (1, empty_ring\<lparr> Buffer := write_entry (Buffer empty_ring) 0 104 cb, WOffset := 112 \<rparr>)"
  by (simp add: ringbufst_write_def empty_ring_def ringbufst_align_entrysize_def RINGBUFST_ENTRY_HDRSIZE_def memapi_align_bsize_def
      to_ssize_def ringbufst_restore_wrap_def ringbufst_normalize_offset_def to_int32_def Let_def)

lemma sample_commit:
  "\<exists>ring ch. logger_commit_message (\<lambda>_ x. x) (sample_logger empty_ring) sample_msg 0 1 =
      Some (with_queue (sample_logger empty_ring) ring 1, 0, 1)
    \<and> rbst_repr ring [ch] \<and> chunk_pair ch = message_pair sample_msg \<and> same_lap ring"
proof -
  let ?lg = "sample_logger empty_ring" and ?ring = "snd (ringbufst_write empty_ring 104 (write_message_cb sample_msg))"
  have q: "lg_ring ?lg = empty_ring" "lg_sema ?lg = 0" "lg_maxmsgsize ?lg = 4000" by (simp_all add: sample_logger_def)
  have c: "logger_commit_message (\<lambda>_ x. x) ?lg sample_msg 0 1 = Some (with_queue ?lg ?ring 1, 0, 1)"
    using q by (simp add: logger_commit_message_def commit_loop.simps sample_msg_chunk SIZE_ERROR_def empty_ring_write Let_def)
  obtain ch where "rbst_repr ?ring [ch]" "chunk_pair ch = message_pair sample_msg"
    using commit_once [OF c sample_msg_ok, of "[]"] empty_ring_repr q(1) by auto
  moreover have "same_lap ?ring" by (simp only: empty_ring_write snd_conv) (simp add: same_lap_def empty_ring_def)
  ultimately show ?thesis using c by blast
qed

lemma sample_run:
  "\<exists>s. (mstep sample_env)\<^sup>*\<^sup>* (start (sample_logger empty_ring)) s \<and> m_accepted s = [message_pair sample_msg]
     \<and> m_delivered s = [message_pair sample_msg]
     \<and> lg_status (m_lg s) = lg_status (deliver sample_env (message_pair sample_msg) (sample_logger empty_ring))"
proof -
  let ?lg = "sample_logger empty_ring"
  have run: "lg_status ?lg = Running" by (simp add: sample_logger_def)
  obtain ring ch where c: "logger_commit_message (\<lambda>_ x. x) ?lg sample_msg 0 1 = Some (with_queue ?lg ring 1, 0, 1)"
    and ch: "rbst_repr ring [ch]" "chunk_pair ch = message_pair sample_msg" and lap: "same_lap ring"
    using sample_commit by blast
  let ?s1 = "(start ?lg)\<lparr>m_lg := with_queue ?lg ring 1, m_accepted := [message_pair sample_msg]\<rparr>"
  have 1: "mstep sample_env (start ?lg) ?s1"
    using mstep.commit [of "start ?lg" sample_msg "with_queue ?lg ring 1" 0 1 sample_env] c run sample_msg_ok by (simp add: start_def)
  let ?s2 = "?s1\<lparr>m_pc := Waiting\<rparr>"
  have 2: "mstep sample_env ?s1 ?s2" using mstep.trylock_fails [of ?s1] by (simp add: start_def)
  let ?lg3 = "with_queue ?lg ring 0"
  let ?s3 = "?s2\<lparr>m_pc := Reading, m_lg := ?lg3\<rparr>"
  have 3: "mstep sample_env ?s2 ?s3" using mstep.sema_taken [of ?s2 sample_env] by (simp add: start_def)
  obtain p where p: "plan_read ring = TakeAt p" using plan_read_content [OF ch(1)] lap by (cases "plan_read ring") auto
  obtain lg' where r: "logger_read_next sample_env ?lg3 = (1, lg')" "lg_status lg' = lg_status (deliver sample_env (message_pair sample_msg) ?lg)"
  proof
    let ?lg' = "snd (logger_read_next sample_env ?lg3)"
    show "logger_read_next sample_env ?lg3 = (1, ?lg')" "lg_status ?lg' = lg_status (deliver sample_env (message_pair sample_msg) ?lg)"
      using read_next_eq [OF ch(1), of "read_message_cb sample_env" ?lg3] p ch(2)
      by (simp_all add: logger_read_next_def read_message_cb_def chunk_pair_def [symmetric] deliver_queue)
  qed
  let ?s4 = "?s3\<lparr>m_lg := lg', m_delivered := [chunk_pair (hd (rbst_content ring))]\<rparr>"
  have 4: "mstep sample_env ?s3 ?s4" using mstep.read_one [of ?s3 sample_env 1 lg'] r(1) run by (simp add: start_def)
  have "(mstep sample_env)\<^sup>*\<^sup>* (start ?lg) ?s4"
    using 1 2 3 4 by (meson converse_rtranclp_into_rtranclp r_into_rtranclp)
  moreover have "m_delivered ?s4 = [message_pair sample_msg]" using repr_content [OF ch(1)] ch(2) by simp
  ultimately show ?thesis using r(2) by (intro exI [of _ ?s4]) (simp add: start_def)
qed

lemma logger_conserves_witness:
  "\<exists>s. (mstep sample_env)\<^sup>*\<^sup>* (start (sample_logger empty_ring)) s \<and> m_delivered s = [message_pair sample_msg]
     \<and> rbst_repr (lg_ring (m_lg s)) []"
proof -
  obtain s where s: "(mstep sample_env)\<^sup>*\<^sup>* (start (sample_logger empty_ring)) s" "m_accepted s = [message_pair sample_msg]"
    "m_delivered s = [message_pair sample_msg]" using sample_run by blast
  have "lg_ring (sample_logger empty_ring) = empty_ring" by (simp add: sample_logger_def)
  then obtain cs where "rbst_repr (lg_ring (m_lg s)) cs" "m_accepted s = m_delivered s @ map chunk_pair cs"
    using logger_conserves [OF s(1)] empty_ring_repr by auto
  then have "rbst_repr (lg_ring (m_lg s)) []" using s(2,3) by simp
  then show ?thesis using s(1,3) by blast
qed


lemma sample_delivered: "lg_status (deliver sample_env (message_pair sample_msg) (sample_logger empty_ring)) = Running"
proof -
  have w: "file_writebytes [int (length m)] fs (File p) m \<noteq> None \<and> fst (the (file_writebytes [int (length m)] fs (File p) m)) = 0" for m fs p
    by (cases m) simp_all
  let ?rof = "lg_logfile (sample_logger empty_ring)" and ?m = "message_text sample_msg"
  have "\<exists>fs' rof' p. rollingfile_apply (\<lambda>_. True) (\<lambda>_. None) ?rof ''20240229'' = (fs', rof') \<and> fhlogging rof' = File p"
    by (simp add: sample_logger_def rollingfile_zero_def rollingfile_apply_def start_logging_def rollingfile_create_def file_create_def Let_def)
  then obtain fs' rof' p where a: "rollingfile_apply (\<lambda>_. True) (\<lambda>_. None) ?rof ''20240229'' = (fs', rof')" "fhlogging rof' = File p" by blast
  obtain fs2 where "file_writebytes [int (length ?m)] fs' (File p) ?m = Some (0, fs2)" using w [of ?m fs' p] by force
  then have r: "\<exists>fs rof. rollingfile_write (\<lambda>_. True) [int (length ?m)] (\<lambda>_. None) ?rof ''20240229'' ?m = Some (0, fs, rof)"
    using a by (simp add: rollingfile_write_def)
  have "buf_bytes (mf_dateminfmt sample_msg) = to_bytes ''20240229''" by (simp add: sample_msg_def buf_bytes_def src_bytes_take)
  then have "message_pair sample_msg = (''20240229'', ?m)" by (simp only: message_pair_def to_chars_bytes)
  moreover have "lg_bf (sample_logger empty_ring) = sample_bf" "lg_fs (sample_logger empty_ring) = (\<lambda>_. None)"
    "lg_status (sample_logger empty_ring) = Running" by (simp_all add: sample_logger_def)
  ultimately show ?thesis using r
    by (auto simp: deliver_def append_status append_file_def sample_env_def sample_bf_def Let_def)
qed


text \<open>
  Destroying a logger can lose accepted messages.  When the first message a producer queues is
  followed by \<open>clog_logger_destroy\<close> before the logging thread looks at its lock, the thread takes the
  lock and ends without draining the queue: the message was accepted, and in no state after that is it
  ever delivered.
\<close>

theorem destroy_loses:
  assumes "rbst_repr (lg_ring lg) []" "lg_status lg = Running" "message_ok msg" "clog_message_fmt_chunksize msg (lg_maxmsgsize lg) = n"
    "n \<noteq> SIZE_ERROR" "asz n \<le> nat (Length (lg_ring lg)) div 8"
  shows "\<exists>s. (mstep env)\<^sup>*\<^sup>* (start lg) s \<and> m_pc s = Done \<and> m_accepted s = [message_pair msg]
    \<and> (\<forall>t. (mstep env)\<^sup>*\<^sup>* s t \<longrightarrow> m_delivered t = [])"
proof -
  obtain ring where c: "logger_commit_message (\<lambda>_ x. x) lg msg 0 1 = Some (with_queue lg ring (lg_sema lg + 1), 0, 1)"
    using commit_accepts [OF assms(1,3-6)] by blast
  let ?s1 = "(start lg)\<lparr>m_lg := with_queue lg ring (lg_sema lg + 1), m_accepted := [message_pair msg]\<rparr>"
  have 1: "mstep env (start lg) ?s1"
    using mstep.commit [of "start lg" msg "with_queue lg ring (lg_sema lg + 1)" 0 1 env] c assms(2,3) by (simp add: start_def)
  let ?s2 = "?s1\<lparr>m_locked := False, m_lg := with_queue lg ring (lg_sema lg + 2)\<rparr>"
  have 2: "mstep env ?s1 ?s2" using mstep.destroy [of ?s1 env] by (simp add: start_def)
  let ?s3 = "?s2\<lparr>m_pc := Done\<rparr>"
  have 3: "mstep env ?s2 ?s3" using mstep.trylock_succeeds [of ?s2 env] by (simp add: start_def)
  have "(mstep env)\<^sup>*\<^sup>* (start lg) ?s3" using 1 2 3 by (meson converse_rtranclp_into_rtranclp r_into_rtranclp)
  moreover have "m_delivered t = []" if "(mstep env)\<^sup>*\<^sup>* ?s3 t" for t using done_stays [OF that] by (simp add: start_def)
  ultimately show ?thesis by (intro exI [of _ ?s3]) simp
qed

lemma destroy_loses_witness:
  "\<exists>s. (mstep sample_env)\<^sup>*\<^sup>* (start (sample_logger empty_ring)) s \<and> m_accepted s = [message_pair sample_msg] \<and> m_delivered s = []"
proof -
  have "lg_ring (sample_logger empty_ring) = empty_ring" "lg_status (sample_logger empty_ring) = Running"
    "lg_maxmsgsize (sample_logger empty_ring) = 4000" "Length empty_ring = 4096"
    by (simp_all add: sample_logger_def empty_ring_def)
  then show ?thesis
    using destroy_loses [of "sample_logger empty_ring" sample_msg 104 sample_env] empty_ring_repr sample_msg_ok sample_msg_chunk
    by (auto simp: SIZE_ERROR_def asz_def)
qed

text \<open>
  A message can stay in the queue although the logging thread is idle.  When the thread takes the
  last post of the semaphore and the next message is behind a cleared tail of the block, its only read returns 0:
  the thread goes back to waiting with that message (and all after it) in the queue, and no sequence of steps
  without a further post delivers it.
\<close>

theorem message_stranded:
  assumes "m_pc s = Waiting" "lg_sema (m_lg s) = 1" "lg_status (m_lg s) = Running" "rbst_repr (lg_ring (m_lg s)) cs"
    "plan_read (lg_ring (m_lg s)) = SkipTail"
  shows "cs \<noteq> [] \<and> (\<exists>t. (mstep env)\<^sup>*\<^sup>* s t \<and> m_pc t = Top \<and> rbst_repr (lg_ring (m_lg t)) cs
    \<and> (\<forall>u. (quiet env)\<^sup>*\<^sup>* t u \<longrightarrow> m_delivered u = m_delivered s \<and> lg_ring (m_lg u) = lg_ring (m_lg t)))"
proof -
  let ?ring = "skipped (lg_ring (m_lg s))" and ?lg1 = "with_queue (m_lg s) (lg_ring (m_lg s)) 0"
  let ?s1 = "s\<lparr>m_pc := Reading, m_lg := ?lg1\<rparr>" and ?t = "s\<lparr>m_pc := Top, m_lg := with_queue (m_lg s) ?ring 0\<rparr>"
  have 1: "mstep env s ?s1" using mstep.sema_taken [of s env] assms(1,2) by simp
  have "ringbufst_read_next (read_message_cb env) (lg_ring ?lg1) ?lg1 = (0, ?ring, ?lg1)"
    using read_next_eq [OF assms(4), of "read_message_cb env" ?lg1] assms(5) by simp
  then have "logger_read_next env ?lg1 = (0, with_queue (m_lg s) ?ring 0)" by (simp add: logger_read_next_def)
  then have 2: "mstep env ?s1 ?t" using mstep.read_none [of ?s1 env "with_queue (m_lg s) ?ring 0"] assms(3) by simp
  have "(mstep env)\<^sup>*\<^sup>* s ?t" using 1 2 by (meson converse_rtranclp_into_rtranclp r_into_rtranclp)
  moreover have "rbst_repr ?ring cs" "cs \<noteq> []" using skipped_repr [OF assms(4,5)] plan_read_content [OF assms(4)] assms(5) by simp_all
  moreover have "m_delivered u = m_delivered s \<and> lg_ring (m_lg u) = ?ring" if "(quiet env)\<^sup>*\<^sup>* ?t u" for u
    using quiet_idle [OF that] by simp
  ultimately show ?thesis by (intro conjI exI [of _ ?t]) simp_all
qed

lemma message_stranded_witness:
  "\<exists>t. (mstep sample_env)\<^sup>*\<^sup>* \<lparr>m_pc = Waiting, m_locked = True, m_lg = with_queue (sample_logger empty_ring) wrapped_ring 1,
      m_accepted = [], m_delivered = []\<rparr> t \<and> m_pc t = Top \<and> rbst_repr (lg_ring (m_lg t)) [replicate 496 42]"
  using message_stranded [of "\<lparr>m_pc = Waiting, m_locked = True, m_lg = with_queue (sample_logger empty_ring) wrapped_ring 1,
      m_accepted = [], m_delivered = []\<rparr>" "[replicate 496 42]" sample_env] wrapped_ring_repr
  by (simp add: sample_logger_def) blast

end
