(* ===== verification/RtClock.thy ===== *)
theory RtClock
  imports LogFormat
begin

text \<open>
  The clock of the logger: \<open>source/common/timeut.h\<close> (calendar, time zone text) and
  \<open>source/common/rtclock.c\<close>, \<open>rtclock_i.h\<close> (the shared clock with its unique stamps).  What the system clock,
  \<open>gmtime_r\<close>/\<open>mktime\<close> and \<open>localtime_r\<close> return are arguments.
\<close>

section \<open>Calendar\<close>

definition YEAR_IS_LEAPYEAR :: "int \<Rightarrow> int" where
  "YEAR_IS_LEAPYEAR year =
     (if year smod 4 \<noteq> 0 then 0 else if year smod 100 \<noteq> 0 then 1 else if year smod 400 \<noteq> 0 then 0 else 1)"

definition mean_mdays :: "int list" where
  "mean_mdays = [31, 28, 31, 30, 31, 30, 31, 31, 30, 31, 30, 31]"

definition leap_mdays :: "int list" where
  "leap_mdays = [31, 29, 31, 30, 31, 30, 31, 31, 30, 31, 30, 31]"

text \<open>The loop over the years: the year reached and the days left.\<close>

function year_loop :: "int \<Rightarrow> int \<Rightarrow> int \<times> int" where
  "year_loop year days =
     (let days_this_year = 365 + YEAR_IS_LEAPYEAR year
      in if days_this_year > days then (year, days) else year_loop (year + 1) (days - days_this_year))"
  by auto
termination
  by (relation "measure (\<lambda>(year, days). nat days)") (auto simp: YEAR_IS_LEAPYEAR_def Let_def split: if_splits)

declare year_loop.simps [simp del]

text \<open>
  The loop over the months, with the rest of the table: the month reached and the days left.  Past the
  end of the table (never reached) the code would read outside it.
\<close>

fun month_loop :: "int list \<Rightarrow> int \<Rightarrow> int \<Rightarrow> int \<times> int" where
  "month_loop [] mon days = (mon, days)"
| "month_loop (m # mdays) mon days = (if days \<ge> m then month_loop mdays (mon + 1) (days - m) else (mon, days))"

text \<open>The fields as \<open>struct tm\<close> has them: years from 1900, months from 0, weekdays from Sunday = 0.\<close>

definition getlocaltime_safe :: "int \<Rightarrow> int \<Rightarrow> int \<Rightarrow> tm_loc" where
  "getlocaltime_safe t tz dst =
     (let t1 = t - tz + 3600 * dst;
          days = t1 sdiv 86400;
          seconds = t1 smod 86400;
          (year, yday) = year_loop 1970 days;
          (mon, mday) = month_loop (if YEAR_IS_LEAPYEAR year \<noteq> 0 then leap_mdays else mean_mdays) 0 yday
      in \<lparr> tm_year = year - 1900, tm_mon = mon, tm_mday = mday + 1, tm_hour = seconds sdiv 3600,
           tm_min = (seconds smod 3600) sdiv 60, tm_sec = (seconds smod 3600) smod 60,
           tm_wday = (days + 4) smod 7, tm_yday = yday, tm_isdst = dst \<rparr>)"

section \<open>The shared clock\<close>

record rtclock_t =
  ratious :: nat
  ticknanos :: nat
  rtc_daylight :: int
  rtc_timezone :: int
  timezonefmt :: string

definition MICROS_OF_SECOND :: nat where
  "MICROS_OF_SECOND = 1000000"

definition NANOS_OF_SECOND :: nat where
  "NANOS_OF_SECOND = 1000000000"

definition timezone_format :: "int \<Rightarrow> string" where
  "timezone_format tz =
     (if tz < 0 then snprintf_chkd 6 (''+'' @ fmt_d 2 (- (tz sdiv 3600)) @ fmt_d 2 (- ((tz smod 3600) sdiv 60)))
      else if tz > 0 then snprintf_chkd 6 (''-'' @ fmt_d 2 (tz sdiv 3600) @ fmt_d 2 ((tz smod 3600) sdiv 60))
      else ''+0000'')"

definition TIMEZONE_FORMAT_UTC :: string where
  "TIMEZONE_FORMAT_UTC = ''+0000''"

text \<open>\<open>rtclock_updatetime\<close> at the time \<open>(sec, nsec)\<close>: unsigned 64-bit arithmetic.\<close>

definition rtclock_updatetime :: "rtclock_t \<Rightarrow> nat \<Rightarrow> nat \<Rightarrow> rtclock_t" where
  "rtclock_updatetime rtc sec nsec =
     (let timeus = size_wrap (sec * MICROS_OF_SECOND + nsec div 1000);
          timeus1 = size_wrap (timeus div ratious rtc * ratious rtc)
      in rtc\<lparr>ticknanos := size_wrap (timeus1 * 1000)\<rparr>)"

text \<open>
  \<open>rtclock_init\<close>: \<open>tz\<close> and \<open>dst\<close> are the results of \<open>timezone_compute\<close> (difference of the broken-down UTC time
  read as local time) and \<open>daylight_compute\<close>.  \<open>None\<close>: the process exits.
\<close>

definition rtclock_init :: "bool \<Rightarrow> nat \<Rightarrow> nat \<Rightarrow> int \<Rightarrow> int \<Rightarrow> rtclock_t option" where
  "rtclock_init frequency sec nsec tz dst =
     (let rtc = \<lparr> ratious = (if frequency then 1000 else MICROS_OF_SECOND), ticknanos = 0, rtc_daylight = 0, rtc_timezone = 0,
                  timezonefmt = [] \<rparr>;
          rtc1 = rtclock_updatetime rtc sec nsec
      in if tz = -1 then None
         else Some (rtc1\<lparr>rtc_timezone := tz, timezonefmt := timezone_format tz, rtc_daylight := dst\<rparr>))"

definition rtclock_ticktime :: "rtclock_t \<Rightarrow> rtclock_t \<times> nat \<times> nat" where
  "rtclock_ticktime rtc =
     (let nanos = size_wrap (ticknanos rtc + 1)
      in (rtc\<lparr>ticknanos := nanos\<rparr>, nanos div NANOS_OF_SECOND, nanos mod NANOS_OF_SECOND))"

definition rtclock_localtime :: "int \<Rightarrow> int \<Rightarrow> int \<Rightarrow> tm_loc" where
  "rtclock_localtime tz dst now_sec =
     (let tmloc = getlocaltime_safe now_sec tz dst
      in tmloc\<lparr>tm_year := tm_year tmloc + 1900, tm_mon := tm_mon tmloc + 1\<rparr>)"

definition rtclock_daylight_of :: "rtclock_t \<Rightarrow> int" where
  "rtclock_daylight_of rtc = rtc_daylight rtc"

definition rtclock_timezone_of :: "rtclock_t \<Rightarrow> int \<times> string" where
  "rtclock_timezone_of rtc = (to_int32 (rtc_timezone rtc), timezonefmt rtc)"

text \<open>
  \<open>difftime_msec\<close> on times as seconds and nanoseconds, \<open>None\<close> for NULL; \<open>now\<close> is the current time.  The constants are
  \<open>unsigned long\<close>, so the operands become unsigned 64-bit numbers, and the result is cast to \<open>sb8\<close>.
\<close>

definition ub8 :: "int \<Rightarrow> int" where
  "ub8 i = i mod 18446744073709551616"

definition sb8 :: "int \<Rightarrow> int" where
  "sb8 i = (i + 9223372036854775808) mod 18446744073709551616 - 9223372036854775808"

definition difftime_msec :: "int \<times> int \<Rightarrow> (int \<times> int) option \<Rightarrow> (int \<times> int) option \<Rightarrow> int" where
  "difftime_msec now oldtms newtms =
     (let (sec, nsec) =
            (case (oldtms, newtms) of
               (None, None) \<Rightarrow> now
             | (Some a, Some b) \<Rightarrow> (sb8 (fst b - fst a), sb8 (snd b - snd a))
             | (None, Some b) \<Rightarrow> b
             | (Some a, None) \<Rightarrow> a)
      in if sec > 0 then
           (if nsec \<ge> 0 then sb8 (ub8 sec * 1000 + ub8 nsec div 1000000)
            else sb8 (ub8 (sec - 1) * 1000 + ub8 (nsec + 1000000000) div 1000000))
         else if sec < 0 then
           (if nsec \<le> 0 then sb8 (ub8 sec * 1000 + ub8 nsec div 1000000)
            else sb8 (ub8 (sec + 1) * 1000 + ub8 (nsec - 1000000000) div 1000000))
         else sb8 (ub8 nsec div 1000000))"

text \<open>The stamp of a message (\<open>loggermgr.c\<close>).\<close>

definition logger_manager_get_stampid :: "rtclock_t \<Rightarrow> rtclock_t \<times> string" where
  "logger_manager_get_stampid rtc =
     (case rtclock_ticktime rtc of (rtc', sec, nsec) \<Rightarrow> (rtc', ''{'' @ fmt_d 0 (int sec) @ ''.'' @ fmt_d 9 (int nsec) @ ''}''))"

section \<open>Days of the calendar\<close>

text \<open>
  The reference: days from 1 January 1970 to a date, by the closed formula for the leap years before it and the lengths
  of the months.
\<close>

definition years_before :: "int \<Rightarrow> int" where
  "years_before y = 365 * (y - 1970) + ((y - 1) div 4 - (y - 1) div 100 + (y - 1) div 400) - 477"

definition civil_days :: "int \<Rightarrow> int \<Rightarrow> int \<Rightarrow> int" where
  "civil_days y m d = years_before y + sum_list (map (days_in_month y) [1..m - 1]) + (d - 1)"

lemma leap_year: "0 \<le> y \<Longrightarrow> YEAR_IS_LEAPYEAR y = (if 4 dvd y \<and> \<not> 100 dvd y \<or> 400 dvd y then 1 else 0)"
proof -
  assume "0 \<le> y"
  then have "y smod 4 = y mod 4" "y smod 100 = y mod 100" "y smod 400 = y mod 400" by (simp_all add: smod_nonneg)
  moreover have "4 dvd y" if "100 dvd y" using that by (rule dvd_trans [rotated]) simp
  moreover have "100 dvd y" if "400 dvd y" using that by (rule dvd_trans [rotated]) simp
  ultimately show ?thesis unfolding YEAR_IS_LEAPYEAR_def by (simp only: dvd_eq_mod_eq_0) (simp split: if_split, blast?)
qed

lemma div_step: "0 < k \<Longrightarrow> (y :: int) div k = (y - 1) div k + (if k dvd y then 1 else 0)"
proof -
  assume k: "0 < k"
  show ?thesis
  proof (cases "k dvd y")
    case True
    then obtain q where "y = k * q" by auto
    moreover have "(k * q - 1) div k = q - 1"
      using k by (intro int_div_pos_eq [of _ _ _ "k - 1"]) (simp_all add: algebra_simps)
    ultimately show ?thesis using k by simp
  next
    case False
    then have m: "0 < y mod k" using k by (simp add: dvd_eq_mod_eq_0 order_less_le)
    have "y - 1 = k * (y div k) + (y mod k - 1)" by simp
    then have "(y - 1) div k = y div k"
      using m k pos_mod_bound [OF k, of y] by (intro int_div_pos_eq [of _ _ _ "y mod k - 1"]) simp_all
    then show ?thesis using False by simp
  qed
qed

lemma years_before_step: "0 \<le> y \<Longrightarrow> years_before (y + 1) = years_before y + 365 + YEAR_IS_LEAPYEAR y"
proof -
  assume y: "0 \<le> y"
  have "4 dvd y" if "100 dvd y" using that by (rule dvd_trans [rotated]) simp
  moreover have "100 dvd y" if "400 dvd y" using that by (rule dvd_trans [rotated]) simp
  ultimately have l: "(if 4 dvd y then 1 else 0) - (if 100 dvd y then 1 else 0) + (if 400 dvd y then 1 else 0) = YEAR_IS_LEAPYEAR y"
    unfolding leap_year [OF y] by presburger
  have d: "y div k = (y - 1) div k + (if k dvd y then 1 else 0)" if "0 < k" for k using div_step [OF that] .
  have "years_before (y + 1) = 365 * (y - 1970) + 365 + (y div 4 - y div 100 + y div 400) - 477" by (simp add: years_before_def)
  then show ?thesis unfolding d [of 4, simplified] d [of 100, simplified] d [of 400, simplified] l [symmetric] years_before_def by linarith
qed

lemma leap_01: "YEAR_IS_LEAPYEAR y = 0 \<or> YEAR_IS_LEAPYEAR y = 1"
  by (simp add: YEAR_IS_LEAPYEAR_def)

lemma year_loop_spec:
  assumes "0 \<le> year" "0 \<le> days" "year_loop year days = (y, d)"
  shows "year \<le> y \<and> 0 \<le> d \<and> d < 365 + YEAR_IS_LEAPYEAR y \<and> years_before y + d = years_before year + days"
  using assms
proof (induction year days rule: year_loop.induct)
  case (1 year days)
  show ?case
  proof (cases "365 + YEAR_IS_LEAPYEAR year > days")
    case True
    then show ?thesis using 1(3,4) by (subst (asm) year_loop.simps) (simp add: Let_def)
  next
    case False
    have "year_loop (year + 1) (days - (365 + YEAR_IS_LEAPYEAR year)) = (y, d)"
      using 1(4) False by (subst (asm) year_loop.simps) (simp add: Let_def)
    then have "year + 1 \<le> y \<and> 0 \<le> d \<and> d < 365 + YEAR_IS_LEAPYEAR y \<and>
        years_before y + d = years_before (year + 1) + (days - (365 + YEAR_IS_LEAPYEAR year))"
      using False 1(2) by (intro 1(1) [OF refl]) auto
    then show ?thesis using years_before_step [OF 1(2)] by auto
  qed
qed

lemma month_loop_spec:
  assumes "0 \<le> days" "days < sum_list ms" "month_loop ms mon days = (mon', d)"
  shows "\<exists>k < length ms. mon' = mon + int k \<and> 0 \<le> d \<and> d < ms ! k \<and> days = sum_list (take k ms) + d"
  using assms
proof (induction ms mon days rule: month_loop.induct)
  case (2 m ms mon days)
  show ?case
  proof (cases "days \<ge> m")
    case True
    then obtain k where "k < length ms" "mon' = mon + 1 + int k" "0 \<le> d" "d < ms ! k" "days - m = sum_list (take k ms) + d"
      using 2 by auto
    then show ?thesis by (intro exI [of _ "Suc k"]) auto
  next
    case False
    then show ?thesis using 2(2,4) by (intro exI [of _ 0]) auto
  qed
qed simp

text \<open>The two tables are the months of the calendar.\<close>

lemma month_table:
  assumes "0 \<le> y" "k < 12"
  shows "(if YEAR_IS_LEAPYEAR y \<noteq> 0 then leap_mdays else mean_mdays) ! k = days_in_month y (int k + 1)"
    "sum_list (take k (if YEAR_IS_LEAPYEAR y \<noteq> 0 then leap_mdays else mean_mdays)) = sum_list (map (days_in_month y) [1..int k])"
proof -
  let ?ms = "if YEAR_IS_LEAPYEAR y \<noteq> 0 then leap_mdays else mean_mdays"
  have tab: "?ms ! j = days_in_month y (int j + 1)" if "j < 12" for j
  proof -
    have "j = 0 \<or> j = 1 \<or> j = 2 \<or> j = 3 \<or> j = 4 \<or> j = 5 \<or> j = 6 \<or> j = 7 \<or> j = 8 \<or> j = 9 \<or> j = 10 \<or> j = 11"
      using that by presburger
    then show ?thesis
      by (elim disjE) (simp_all add: leap_year [OF assms(1)] leap_mdays_def mean_mdays_def days_in_month_def)
  qed
  then show "?ms ! k = days_in_month y (int k + 1)" using assms(2) .
  have "j \<le> 12 \<Longrightarrow> sum_list (take j ?ms) = sum_list (map (days_in_month y) [1..int j])" for j
  proof (induction j)
    case (Suc j)
    have "length ?ms = 12" by (simp add: leap_mdays_def mean_mdays_def)
    then have "take (Suc j) ?ms = take j ?ms @ [?ms ! j]" using Suc.prems by (simp add: take_Suc_conv_app_nth)
    moreover have "[1..int (Suc j)] = [1..int j] @ [int (Suc j)]" by (simp add: upto_rec2)
    ultimately show ?case using Suc tab [of j] by (simp add: add.commute)
  qed simp
  from this [of k] assms(2) show "sum_list (take k ?ms) = sum_list (map (days_in_month y) [1..int k])" by simp
qed

lemma year_table: "sum_list (if YEAR_IS_LEAPYEAR y \<noteq> 0 then leap_mdays else mean_mdays) = 365 + YEAR_IS_LEAPYEAR y"
  using leap_01 [of y] by (auto simp: leap_mdays_def mean_mdays_def)

lemma years_before_mono: "0 \<le> a \<Longrightarrow> a \<le> b \<Longrightarrow> years_before a + 365 * b - 365 * a \<le> years_before b"
proof (induction "nat (b - a)" arbitrary: b)
  case (Suc n)
  then have b: "n = nat (b - 1 - a)" "a \<le> b - 1" "0 \<le> b - 1" by auto
  from Suc.hyps(1) [OF b(1) Suc.prems(1) b(2)] years_before_step [OF b(3)] leap_01 [of "b - 1"] show ?case by auto
qed simp

lemma localtime_civil:
  assumes "0 \<le> t - tz + 3600 * dst" "t - tz + 3600 * dst < 253402300800" "getlocaltime_safe t tz dst = r"
  shows "t - tz + 3600 * dst = 86400 * civil_days (tm_year r + 1900) (tm_mon r + 1) (tm_mday r) + 3600 * tm_hour r + 60 * tm_min r + tm_sec r"
    "1970 \<le> tm_year r + 1900" "tm_year r + 1900 \<le> 9999" "0 \<le> tm_mon r" "tm_mon r \<le> 11"
    "1 \<le> tm_mday r" "tm_mday r \<le> days_in_month (tm_year r + 1900) (tm_mon r + 1)"
    "0 \<le> tm_hour r" "tm_hour r \<le> 23" "0 \<le> tm_min r" "tm_min r \<le> 59" "0 \<le> tm_sec r" "tm_sec r \<le> 59"
    "tm_wday r = (civil_days (tm_year r + 1900) (tm_mon r + 1) (tm_mday r) + 4) mod 7"
    "tm_yday r = civil_days (tm_year r + 1900) (tm_mon r + 1) (tm_mday r) - years_before (tm_year r + 1900)"
proof -
  define u where "u = t - tz + 3600 * dst"
  define days where "days = u div 86400"
  define secs where "secs = u mod 86400"
  have u: "0 \<le> u" "u < 253402300800" using assms(1,2) by (simp_all add: u_def)
  have ds: "0 \<le> days" "days < 2932897" "0 \<le> secs" "secs < 86400" "u = 86400 * days + secs"
    using u by (auto simp: days_def secs_def)
  obtain y yd where y: "year_loop 1970 days = (y, yd)" by force
  let ?ms = "if YEAR_IS_LEAPYEAR y \<noteq> 0 then leap_mdays else mean_mdays"
  obtain mon md where m: "month_loop ?ms 0 yd = (mon, md)" by force
  have r: "r = \<lparr> tm_year = y - 1900, tm_mon = mon, tm_mday = md + 1, tm_hour = secs div 3600,
      tm_min = secs mod 3600 div 60, tm_sec = secs mod 3600 mod 60, tm_wday = (days + 4) mod 7, tm_yday = yd, tm_isdst = dst \<rparr>"
  proof -
    have q: "u sdiv 86400 = days" "u smod 86400 = secs" "secs sdiv 3600 = secs div 3600" "secs smod 3600 = secs mod 3600"
      "(secs mod 3600) sdiv 60 = secs mod 3600 div 60" "(secs mod 3600) smod 60 = secs mod 3600 mod 60" "(days + 4) smod 7 = (days + 4) mod 7"
      using u(1) ds(1,3) unfolding days_def secs_def by (auto intro!: sdiv_nonneg smod_nonneg)
    show ?thesis using assms(3) by (simp only: getlocaltime_safe_def Let_def u_def [symmetric] q y m prod.case)
  qed
  have ys: "1970 \<le> y" "0 \<le> yd" "yd < 365 + YEAR_IS_LEAPYEAR y" "years_before y + yd = days"
    using year_loop_spec [OF _ ds(1) y] by (simp_all add: years_before_def)
  have "yd < sum_list ?ms" using ys(3) by (simp only: year_table)
  then have ex: "\<exists>k < length ?ms. mon = 0 + int k \<and> 0 \<le> md \<and> md < ?ms ! k \<and> yd = sum_list (take k ?ms) + md"
    by (rule month_loop_spec [OF ys(2) _ m])
  have "length ?ms = 12" by (simp add: leap_mdays_def mean_mdays_def)
  with ex obtain k where k: "k < 12" "mon = int k" "0 \<le> md" "md < ?ms ! k" "yd = sum_list (take k ?ms) + md"
    unfolding add_0 by metis
  note tab = month_table [OF order_trans [OF _ ys(1)] k(1), simplified]
  have cd: "civil_days y (mon + 1) (md + 1) = days" using ys(4) k(2,5) tab(2) by (simp add: civil_days_def)
  have y9: "y \<le> 9999"
  proof (rule ccontr)
    assume "\<not> y \<le> 9999"
    then have "years_before 10000 + 365 * y - 365 * 10000 \<le> years_before y" "10000 \<le> y"
      using years_before_mono [of 10000 y] by simp_all
    moreover have "years_before 10000 = 2932897" by (simp add: years_before_def)
    ultimately have "2932897 \<le> years_before y" by linarith
    with ys(2,4) ds(2) show False by linarith
  qed
  have hms: "3600 * (secs div 3600) + 60 * (secs mod 3600 div 60) + secs mod 3600 mod 60 = secs"
    by (metis add.assoc mult_div_mod_eq)
  show "t - tz + 3600 * dst = 86400 * civil_days (tm_year r + 1900) (tm_mon r + 1) (tm_mday r) + 3600 * tm_hour r + 60 * tm_min r + tm_sec r"
    using ds(5) hms by (simp add: r cd u_def)
  show "1970 \<le> tm_year r + 1900" "tm_year r + 1900 \<le> 9999" "0 \<le> tm_mon r" "tm_mon r \<le> 11" "1 \<le> tm_mday r"
    using ys(1) y9 k(1,2,3) by (simp_all add: r)
  show "tm_mday r \<le> days_in_month (tm_year r + 1900) (tm_mon r + 1)" using k(2,4) tab(1) by (simp add: r)
  show "0 \<le> tm_hour r" "tm_hour r \<le> 23" "0 \<le> tm_min r" "tm_min r \<le> 59" "0 \<le> tm_sec r" "tm_sec r \<le> 59"
    using ds(3,4) by (auto simp: r)
  show "tm_wday r = (civil_days (tm_year r + 1900) (tm_mon r + 1) (tm_mday r) + 4) mod 7"
    "tm_yday r = civil_days (tm_year r + 1900) (tm_mon r + 1) (tm_mday r) - years_before (tm_year r + 1900)"
    using cd ys(4) by (simp_all add: r)
qed

section \<open>Stamps\<close>

text \<open>What happens to the shared clock: an update by the timer thread at a time, or a stamp taken.\<close>

datatype clock_event = Update nat nat | Tick

fun clock_run :: "rtclock_t \<Rightarrow> clock_event list \<Rightarrow> rtclock_t \<times> string list" where
  "clock_run rtc [] = (rtc, [])"
| "clock_run rtc (Update sec nsec # es) = clock_run (rtclock_updatetime rtc sec nsec) es"
| "clock_run rtc (Tick # es) =
     (case logger_manager_get_stampid rtc of (rtc1, s) \<Rightarrow> (case clock_run rtc1 es of (rtc2, ss) \<Rightarrow> (rtc2, s # ss)))"

text \<open>
  Updates \<open>r\<close> microseconds apart or more, and between two of them at most \<open>1000 * r\<close> stamps (one for each
  nanosecond); \<open>u\<close> is the last update, \<open>n\<close> the number of stamps since.
\<close>

fun spaced :: "nat \<Rightarrow> nat \<Rightarrow> nat \<Rightarrow> clock_event list \<Rightarrow> bool" where
  "spaced r u n [] = True"
| "spaced r u n (Tick # es) = (n < 1000 * r \<and> spaced r u (n + 1) es)"
| "spaced r u n (Update sec nsec # es) =
     (let u' = sec * 1000000 + nsec div 1000 in u + r \<le> u' \<and> u' < 18446744072000000 \<and> spaced r u' 0 es)"

definition stamp :: "nat \<Rightarrow> string" where
  "stamp nanos = ''{'' @ fmt_d 0 (int (nanos div NANOS_OF_SECOND)) @ ''.'' @ fmt_d 9 (int (nanos mod NANOS_OF_SECOND)) @ ''}''"

lemma fmt_digits: "0 \<le> i \<Longrightarrow> c \<in> set (fmt_d w i) \<Longrightarrow> isdigit c"
  by (auto simp: fmt_d_def Let_def isdigit_def dest: dec_digits split: if_splits)

lemma stamp_inj: "stamp a = stamp b \<longleftrightarrow> a = b"
proof
  assume e: "stamp a = stamp b"
  have no: "CHR ''.'' \<notin> set (fmt_d 0 (int n))" for n using fmt_digits [of "int n" "CHR ''.''" 0] by (auto simp: isdigit_def)
  have "takeWhile (\<lambda>c. c \<noteq> CHR ''.'') (stamp n) = ''{'' @ fmt_d 0 (int (n div NANOS_OF_SECOND))" for n
  proof -
    have "takeWhile (\<lambda>c. c \<noteq> CHR ''.'') (s @ CHR ''.'' # x) = s" if "CHR ''.'' \<notin> set s" for s x
      using that by (induction s) auto
    from this [OF no] show ?thesis by (simp add: stamp_def)
  qed
  then have q: "fmt_d 0 (int (a div NANOS_OF_SECOND)) = fmt_d 0 (int (b div NANOS_OF_SECOND))" using e by (metis append_same_eq same_append_eq)
  then have "a div NANOS_OF_SECOND = b div NANOS_OF_SECOND" by simp
  moreover have "a mod NANOS_OF_SECOND = b mod NANOS_OF_SECOND" using e q by (simp add: stamp_def)
  ultimately show "a = b" by (metis div_mult_mod_eq)
qed simp

text \<open>The stamps of a run as numbers of nanoseconds.\<close>

lemma clock_run_stamps:
  assumes "spaced (ratious rtc) u n es" "n \<le> 1000 * ratious rtc" "ticknanos rtc = u div ratious rtc * ratious rtc * 1000 + n"
    "u < 18446744072000000" "0 < ratious rtc" "ratious rtc \<le> 1000000"
  shows "\<exists>vs. snd (clock_run rtc es) = map stamp vs \<and> sorted_wrt (<) vs \<and> (\<forall>v\<in>set vs. ticknanos rtc < v)"
  using assms
proof (induction es arbitrary: rtc u n)
  case (Cons e es)
  let ?r = "ratious rtc"
  show ?case
  proof (cases e)
    case (Update sec nsec)
    define u' where "u' = sec * 1000000 + nsec div 1000"
    have sp: "u + ?r \<le> u'" "u' < 18446744072000000" "spaced ?r u' 0 es"
      using Cons.prems(1) Update by (simp_all add: u'_def Let_def)
    have "u' div ?r * ?r \<le> u'" by simp
    then have al: "u' div ?r * ?r < 18446744072000000" using sp(2) by linarith
    define rtc' where "rtc' = rtclock_updatetime rtc sec nsec"
    have al1000: "u' div ?r * ?r * 1000 < 18446744073709551616" using al by linarith
    have rtc': "ratious rtc' = ?r" "ticknanos rtc' = u' div ?r * ?r * 1000 + 0"
      using al al1000 sp(2) by (simp_all add: rtc'_def rtclock_updatetime_def MICROS_OF_SECOND_def u'_def [symmetric] Let_def)
    have "u div ?r + 1 = (u + ?r) div ?r" using Cons.prems(5) div_add_self2 [of ?r u] by simp
    also have "\<dots> \<le> u' div ?r" using sp(1) by (rule div_le_mono)
    finally have "(u div ?r + 1) * ?r \<le> u' div ?r * ?r" by (rule mult_le_mono1)
    then have ge: "ticknanos rtc \<le> ticknanos rtc'" using Cons.prems(2,3) rtc'(2) by (simp add: algebra_simps)
    obtain vs where "snd (clock_run rtc' es) = map stamp vs" "sorted_wrt (<) vs" "\<forall>v\<in>set vs. ticknanos rtc' < v"
      using Cons.IH [of rtc' u' 0] sp(2,3) rtc' Cons.prems(5,6) by auto
    then show ?thesis using ge Update by (intro exI [of _ vs]) (auto simp: rtc'_def)
  next
    case Tick
    have sp: "n < 1000 * ?r" "spaced ?r u (n + 1) es" using Cons.prems(1) Tick by simp_all
    have "u div ?r * ?r \<le> u" by simp
    then have small: "ticknanos rtc + 1 < 18446744073709551616" using Cons.prems(3,4,6) sp(1) by linarith
    define rtc' where "rtc' = rtc\<lparr>ticknanos := ticknanos rtc + 1\<rparr>"
    have s: "logger_manager_get_stampid rtc = (rtc', stamp (ticknanos rtc + 1))"
      using small by (simp add: logger_manager_get_stampid_def rtclock_ticktime_def stamp_def rtc'_def Let_def)
    have rtc': "ratious rtc' = ?r" "ticknanos rtc' = ticknanos rtc + 1" by (simp_all add: rtc'_def)
    have "\<exists>vs. snd (clock_run rtc' es) = map stamp vs \<and> sorted_wrt (<) vs \<and> (\<forall>v\<in>set vs. ticknanos rtc' < v)"
      by (rule Cons.IH [of rtc' u "n + 1"]) (use sp Cons.prems(3-6) rtc' in auto)
    then obtain vs where vs: "snd (clock_run rtc' es) = map stamp vs" "sorted_wrt (<) vs" "\<forall>v\<in>set vs. ticknanos rtc' < v" by blast
    then have "snd (clock_run rtc (e # es)) = map stamp ((ticknanos rtc + 1) # vs)" using Tick s by (auto split: prod.split)
    moreover have "sorted_wrt (<) ((ticknanos rtc + 1) # vs)" "\<forall>v\<in>set ((ticknanos rtc + 1) # vs). ticknanos rtc < v"
      using vs(2,3) rtc'(2) by auto
    ultimately show ?thesis by blast
  qed
qed simp

section \<open>Time zone text\<close>

text \<open>The offset a time zone text \<open>+hhmm\<close> or \<open>-hhmm\<close> stands for: seconds west of UTC.\<close>

definition zone_seconds :: "string \<Rightarrow> int" where
  "zone_seconds s = (if s ! 0 = CHR ''+'' then -1 else 1) * (3600 * atoi (take 2 (drop 1 s)) + 60 * atoi (drop 3 s))"

lemma zone_text: "0 \<le> h \<Longrightarrow> h < 100 \<Longrightarrow> 0 \<le> m \<Longrightarrow> m < 100 \<Longrightarrow>
    snprintf_chkd 6 (c # fmt_d 2 h @ fmt_d 2 m) = c # fmt_d 2 h @ fmt_d 2 m \<and>
    zone_seconds (c # fmt_d 2 h @ fmt_d 2 m) = (if c = CHR ''+'' then -1 else 1) * (3600 * h + 60 * m)"
  by (simp add: snprintf_chkd_def zone_seconds_def fmt_d_2 atoi_fmt)

lemma zone_roundtrip:
  assumes "\<bar>tz\<bar> < 360000"
  shows "length (timezone_format tz) = 5 \<and> (60 dvd tz \<longrightarrow> zone_seconds (timezone_format tz) = tz)"
proof -
  have zdiv_less: "a div k < n" if "a < n * k" "0 < k" for a k n :: int
  proof (rule ccontr)
    assume "\<not> a div k < n"
    then have "n * k \<le> a div k * k" using that(2) by (intro mult_right_mono) simp_all
    moreover have "a div k * k + a mod k = a" "0 \<le> a mod k" using that(2) by simp_all
    ultimately show False using that(1) by linarith
  qed
  have split: "0 \<le> a div 3600 \<and> a div 3600 < 100 \<and> 0 \<le> a mod 3600 div 60 \<and> a mod 3600 div 60 < 100 \<and>
      (60 dvd a \<longrightarrow> 3600 * (a div 3600) + 60 * (a mod 3600 div 60) = a)" if "0 \<le> a" "a < 360000" for a :: int
  proof -
    have "60 * (a mod 3600 div 60) = a mod 3600" if "60 dvd a"
    proof -
      have "60 dvd a mod 3600" using that by (intro dvd_mod) simp_all
      then show ?thesis by simp
    qed
    moreover have "a div 3600 < 100" using that by (simp add: zdiv_less)
    moreover have "a mod 3600 < 3600" "0 \<le> a mod 3600" by simp_all
    then have "a mod 3600 div 60 < 100" "0 \<le> a mod 3600 div 60" by (auto simp: pos_imp_zdiv_nonneg_iff zdiv_less)
    ultimately show ?thesis using that by (auto simp: pos_imp_zdiv_nonneg_iff)
  qed
  consider "tz < 0" | "tz = 0" | "tz > 0" by linarith
  then show ?thesis
  proof cases
    case 1
    have q: "- (tz sdiv 3600) = (- tz) div 3600" "- ((tz smod 3600) sdiv 60) = (- tz) mod 3600 div 60"
    proof -
      have "0 \<le> (- tz) mod 3600" by simp
      then have "sgn ((- tz) mod 3600) = 1 \<or> (- tz) mod 3600 = 0" by (simp add: sgn_if order_less_le)
      then show "- (tz sdiv 3600) = (- tz) div 3600" "- ((tz smod 3600) sdiv 60) = (- tz) mod 3600 div 60"
        using 1 by (auto simp: signed_divide_int_def signed_modulo_int_def)
    qed
    show ?thesis using 1 assms split [of "- tz"] zone_text [of "(- tz) div 3600" "(- tz) mod 3600 div 60" "CHR ''+''"]
      by (auto simp: timezone_format_def q)
  next
    case 2
    then show ?thesis using atoi_fmt(1) [of 0] by (simp add: timezone_format_def zone_seconds_def digit_0)
  next
    case 3
    have q: "tz sdiv 3600 = tz div 3600" "(tz smod 3600) sdiv 60 = tz mod 3600 div 60" using 3 by simp_all
    show ?thesis using 3 assms split [of tz] zone_text [of "tz div 3600" "tz mod 3600 div 60" "CHR ''-''"]
      by (auto simp: timezone_format_def q)
  qed
qed

section \<open>Properties\<close>





text \<open>
  The clock and the formatter of dates meet at the day of the week: for every local time from 1970 to 9999 the broken-down
  time that \<open>rtclock_localtime\<close> returns satisfies what the formats rely on, but for Sundays.  The clock numbers
  Sunday 0, where the table of names has NULL; its \<open>Sun\<close> at 7 is never used.
\<close>

theorem clock_week_names:
  assumes "0 \<le> t - tz + 3600 * dst" "t - tz + 3600 * dst < 253402300800" "loc = rtclock_localtime tz dst t"
  shows "(loc_ok loc \<longleftrightarrow> ((t - tz + 3600 * dst) div 86400 + 4) mod 7 \<noteq> 0) \<and>
    (clog_week_strs ! nat (tm_wday loc) = None \<longleftrightarrow> ((t - tz + 3600 * dst) div 86400 + 4) mod 7 = 0) \<and>
    clog_month_strs ! nat (tm_mon loc) \<noteq> None \<and> tm_wday loc \<noteq> 7"
proof -
  define u where "u = t - tz + 3600 * dst"
  obtain r where r: "getlocaltime_safe t tz dst = r" by blast
  note c = localtime_civil [OF assms(1,2) r]
  let ?days = "civil_days (tm_year r + 1900) (tm_mon r + 1) (tm_mday r)"
  have "u = 86400 * ?days + (3600 * tm_hour r + 60 * tm_min r + tm_sec r)" using c(1) by (simp add: u_def)
  moreover have "0 \<le> 3600 * tm_hour r + 60 * tm_min r + tm_sec r" "3600 * tm_hour r + 60 * tm_min r + tm_sec r < 86400" using c by linarith+
  ultimately have d: "u div 86400 = ?days" by (rule int_div_pos_eq)
  then have w: "tm_wday r = (u div 86400 + 4) mod 7" using c(14) by simp
  have wr: "0 \<le> tm_wday r" "tm_wday r \<le> 6" 
    using pos_mod_sign [of 7 "u div 86400 + 4"] pos_mod_bound [of 7 "u div 86400 + 4"] by (simp_all add: w)
  have md: "tm_mday r \<le> 31" using c(7) by (auto simp: days_in_month_def split: if_splits)
  have loc: "loc = r\<lparr>tm_year := tm_year r + 1900, tm_mon := tm_mon r + 1\<rparr>" using assms(3) r by (simp add: rtclock_localtime_def Let_def)
  have ok: "loc_ok loc \<longleftrightarrow> tm_wday r \<noteq> 0" using c wr md by (auto simp: loc loc_ok_def)
  have "tm_wday r = 0 \<or> tm_wday r = 1 \<or> tm_wday r = 2 \<or> tm_wday r = 3 \<or> tm_wday r = 4 \<or> tm_wday r = 5 \<or> tm_wday r = 6" using wr by linarith
  then have names: "clog_week_strs ! nat (tm_wday loc) = None \<longleftrightarrow> tm_wday r = 0" by (elim disjE) (simp_all add: loc clog_week_strs_def)
  have "tm_mon r = 0 \<or> tm_mon r = 1 \<or> tm_mon r = 2 \<or> tm_mon r = 3 \<or> tm_mon r = 4 \<or> tm_mon r = 5 \<or> tm_mon r = 6 \<or> tm_mon r = 7 \<or>
      tm_mon r = 8 \<or> tm_mon r = 9 \<or> tm_mon r = 10 \<or> tm_mon r = 11" using c(4,5) by presburger
  then have "clog_month_strs ! nat (tm_mon loc) \<noteq> None" by (elim disjE) (simp_all add: loc clog_month_strs_def)
  then show ?thesis using ok names w wr by (simp add: u_def loc)
qed

theorem clock_week_names_witness:
  "clog_week_strs ! nat (tm_wday (rtclock_localtime 0 0 1709424000)) = None"
  using clock_week_names [of 1709424000 0 0, OF _ _ refl] by simp

section \<open>Time differences\<close>

lemma sb8_id [simp]: "-9223372036854775808 \<le> i \<Longrightarrow> i < 9223372036854775808 \<Longrightarrow> sb8 i = i"
  by (simp add: sb8_def)

lemma ub8_id [simp]: "0 \<le> i \<Longrightarrow> i < 18446744073709551616 \<Longrightarrow> ub8 i = i"
  by (simp add: ub8_def)

lemma sb8_ub8: "sb8 (ub8 i * k + j) = sb8 (i * k + j)"
proof -
  have "(i mod m * k + (j + c)) mod m = (i * k + (j + c)) mod m" for m c :: int by (metis mod_add_left_eq mod_mult_left_eq)
  then show ?thesis by (simp add: sb8_def ub8_def add.assoc)
qed

text \<open>
  \<open>difftime_msec\<close> is the difference in whole milliseconds when the new time is not before the old one.  When it is before it within the
  same second, by a nanosecond or more, the unsigned division makes it more than 18 billion seconds.
\<close>

theorem difftime_msec_spec:
  assumes "0 \<le> s0" "s0 < 1125899906842624" "0 \<le> s1" "s1 < 1125899906842624" "0 \<le> n0" "n0 < 1000000000" "0 \<le> n1" "n1 < 1000000000"
  shows "(0 \<le> (s1 - s0) * 1000000000 + (n1 - n0) \<longrightarrow>
      difftime_msec now (Some (s0, n0)) (Some (s1, n1)) = ((s1 - s0) * 1000000000 + (n1 - n0)) div 1000000) \<and>
    (n1 = n0 \<longrightarrow> difftime_msec now (Some (s0, n0)) (Some (s1, n1)) = (s1 - s0) * 1000) \<and>
    (s1 = s0 \<and> n1 < n0 \<longrightarrow> 18446744072000 < difftime_msec now (Some (s0, n0)) (Some (s1, n1)))"
proof -
  define s where "s = s1 - s0"
  define n where "n = n1 - n0"
  have b: "-1125899906842624 < s" "s < 1125899906842624" "-1000000000 < n" "n < 1000000000" using assms by (simp_all add: s_def n_def)
  have e: "difftime_msec now (Some (s0, n0)) (Some (s1, n1)) =
      (if s > 0 then (if n \<ge> 0 then sb8 (ub8 s * 1000 + ub8 n div 1000000) else sb8 (ub8 (s - 1) * 1000 + ub8 (n + 1000000000) div 1000000))
       else if s < 0 then (if n \<le> 0 then sb8 (ub8 s * 1000 + ub8 n div 1000000) else sb8 (ub8 (s + 1) * 1000 + ub8 (n - 1000000000) div 1000000))
       else sb8 (ub8 n div 1000000))"
    using b by (simp add: difftime_msec_def s_def n_def)
  have dv: "(k * 1000000000 + r) div 1000000 = k * 1000 + r div 1000000" for k r :: int
    using div_mult_self1 [of 1000000 r "k * 1000"] by (simp add: algebra_simps)
  have q: "0 \<le> r div 1000000" "r div 1000000 < 1000" if "0 \<le> r" "r < 1000000000" for r :: int using that by auto
  have "difftime_msec now (Some (s0, n0)) (Some (s1, n1)) = (s * 1000000000 + n) div 1000000" if d: "0 \<le> s * 1000000000 + n"
  proof (cases "0 \<le> n")
    case True
    then have "0 \<le> s" using d b by linarith
    then show ?thesis using True b q [of n] by (auto simp: e dv)
  next
    case False
    then have p: "0 < s" using d by linarith
    have "(s * 1000000000 + n) div 1000000 = ((s - 1) * 1000000000 + (n + 1000000000)) div 1000000" by (simp add: algebra_simps)
    also have "\<dots> = (s - 1) * 1000 + (n + 1000000000) div 1000000" by (rule dv)
    finally show ?thesis using False p b q [of "n + 1000000000"] by (simp add: e)
  qed
  moreover have "difftime_msec now (Some (s0, n0)) (Some (s1, n1)) = s * 1000" if "n = 0"
    using that b sb8_ub8 [of s 1000 0] by (simp add: e)
  moreover have "18446744072000 < difftime_msec now (Some (s0, n0)) (Some (s1, n1))" if "s = 0" "n < 0"
  proof -
    have "(n + 18446744073709551616) mod 18446744073709551616 = n + 18446744073709551616" using that b by (intro mod_pos_pos_trivial) simp_all
    then have "ub8 n = n + 18446744073709551616" by (simp add: ub8_def)
    moreover have "18446744072001 \<le> (n + 18446744073709551616) div 1000000"
      using b(3) zdiv_mono1 [of "18446744072001 * 1000000" "n + 18446744073709551616" 1000000] by simp
    moreover have "(n + 18446744073709551616) div 1000000 \<le> 18446744073709551616 div 1000000" using that by (intro zdiv_mono1) simp_all
    ultimately show ?thesis using that by (simp add: e)
  qed
  ultimately show ?thesis by (auto simp: s_def n_def)
qed

theorem difftime_msec_spec_witness:
  "difftime_msec (0, 0) (Some (10, 999999999)) (Some (12, 1000000)) = 1001 \<and> 18446744072000 < difftime_msec (0, 0) (Some (10, 500)) (Some (10, 0))"
  using difftime_msec_spec [of 10 12 999999999 1000000 "(0, 0)"] difftime_msec_spec [of 10 10 500 0 "(0, 0)"] by simp

end
