(* ===== verification/Ffs64.thy ===== *)
theory Ffs64
  imports Prelude
begin

text \<open>
  Bit searches of \<open>source/common/ffs64.h\<close> on 64-bit flag words: bit positions count from 1, and 0 means
  that there is none.  \<open>__builtin_ffsll\<close>, \<open>__builtin_clzll\<close> and \<open>__builtin_popcountll\<close> are GCC's.
\<close>

unbundle bit_operations_syntax

type_synonym FFS64_t = "64 word"

section \<open>One flag word\<close>

definition FFS64_MAX :: FFS64_t where
  "FFS64_MAX = 0xFFFFFFFFFFFFFFFF"

definition builtin_ffsll :: "FFS64_t \<Rightarrow> nat" where
  "builtin_ffsll flag = (case List.find (bit flag) [0..<64] of None \<Rightarrow> 0 | Some i \<Rightarrow> i + 1)"

definition builtin_clzll :: "FFS64_t \<Rightarrow> nat" where
  "builtin_clzll flag = length (takeWhile (\<lambda>i. \<not> bit flag i) (rev [0..<64]))"

definition FFS64_first_setbit :: "FFS64_t \<Rightarrow> nat" where
  "FFS64_first_setbit flag = (if flag = 0 then 0 else if flag = FFS64_MAX then 1 else builtin_ffsll flag)"

definition FFS64_last_setbit :: "FFS64_t \<Rightarrow> nat" where
  "FFS64_last_setbit flag =
     (if flag = 0 then 0 else if flag = FFS64_MAX then 64 else if flag \<noteq> 0 then 64 - builtin_clzll flag else 0)"

text \<open>The loop of \<open>FFS64_first_setbit_n\<close> over the shifts from \<open>sh\<close> on; \<open>k\<close> more are to be tried.\<close>

fun setbit_n_loop :: "FFS64_t \<Rightarrow> FFS64_t \<Rightarrow> nat \<Rightarrow> nat \<Rightarrow> nat" where
  "setbit_n_loop flag mask_n sh 0 = 0"
| "setbit_n_loop flag mask_n sh (Suc k) =
     (if flag AND push_bit sh mask_n = push_bit sh mask_n then sh + 1 else setbit_n_loop flag mask_n (sh + 1) k)"

definition FFS64_first_setbit_n :: "FFS64_t \<Rightarrow> nat \<Rightarrow> nat" where
  "FFS64_first_setbit_n flag n =
     (if n = 1 then FFS64_first_setbit flag
      else if n = 64 then (if flag = FFS64_MAX then 1 else 0)
      else setbit_n_loop flag (push_bit n 1 - 1) 0 (64 - n + 1))"

definition FFS64_next_setbit :: "FFS64_t \<Rightarrow> nat \<Rightarrow> nat" where
  "FFS64_next_setbit flag startbit =
     (if flag = 0 then 0 else if flag = FFS64_MAX then startbit
      else let start0 = startbit - 1; masked = drop_bit start0 flag; pos = FFS64_first_setbit masked
           in if pos \<noteq> 0 then pos + start0 else 0)"

definition FFS64_next_unsetbit :: "FFS64_t \<Rightarrow> nat \<Rightarrow> nat" where
  "FFS64_next_unsetbit flag startbit =
     (if flag = FFS64_MAX then 0
      else let start0 = startbit - 1; inverted = NOT flag; masked = drop_bit start0 inverted; pos = FFS64_first_setbit masked
           in if pos \<noteq> 0 then pos + start0 else 0)"

definition FFS64_setbit_popcount :: "FFS64_t \<Rightarrow> nat" where
  "FFS64_setbit_popcount flag =
     (if flag = 0 then 0 else if flag = FFS64_MAX then 64 else length (filter (bit flag) [0..<64]))"

lemma max_bits: "bit FFS64_MAX j \<longleftrightarrow> j < 64"
proof -
  have m: "FFS64_MAX = - 1" by (simp add: FFS64_MAX_def)
  show ?thesis unfolding m by (simp add: bit_minus_1_iff possible_bit_word)
qed

lemma no_bit: "64 \<le> j \<Longrightarrow> \<not> bit (w :: FFS64_t) j"
  using bit_imp_le_length [of w j] by auto

text \<open>The position found by a search and what it says of the bits from the start on.\<close>

definition found_at :: "FFS64_t \<Rightarrow> nat \<Rightarrow> nat \<Rightarrow> bool" where
  "found_at w s e \<longleftrightarrow> (if e = 0 then \<forall>j. s \<le> j \<longrightarrow> \<not> bit w j
     else s < e \<and> e \<le> 64 \<and> bit w (e - 1) \<and> (\<forall>j. s \<le> j \<longrightarrow> j < e - 1 \<longrightarrow> \<not> bit w j))"

lemma first_setbit: "found_at w 0 (FFS64_first_setbit w)"
proof -
  consider "w = 0" | "w = FFS64_MAX" | "w \<noteq> 0" "w \<noteq> FFS64_MAX" by blast
  then show ?thesis
  proof cases
    case 1
    then show ?thesis by (simp add: found_at_def FFS64_first_setbit_def)
  next
    case 2
    have "FFS64_MAX \<noteq> 0" by (simp add: FFS64_MAX_def)
    then show ?thesis using 2 by (simp add: found_at_def FFS64_first_setbit_def max_bits)
  next
    case 3
    show ?thesis
    proof (cases "List.find (bit w) [0..<64]")
      case None
      then have "\<not> bit w j" for j using no_bit [of j w] by (cases "j < 64") (auto simp: find_None_iff)
      then show ?thesis using 3 None by (simp add: found_at_def FFS64_first_setbit_def builtin_ffsll_def)
    next
      case (Some i)
      then have "i < 64" "bit w i" "\<forall>j < i. \<not> bit w j" by (auto simp: find_Some_iff)
      then show ?thesis using 3 Some by (simp add: found_at_def FFS64_first_setbit_def builtin_ffsll_def)
    qed
  qed
qed

lemma found_shift:
  assumes "found_at (drop_bit s w) 0 e" "s < 64"
  shows "found_at w s (if e \<noteq> 0 then e + s else 0)"
proof (cases "e = 0")
  case True
  then have "\<not> bit w j" if "s \<le> j" for j
    using assms(1) that by (simp add: found_at_def bit_drop_bit_eq) (metis le_add_diff_inverse)
  then show ?thesis using True by (simp add: found_at_def)
next
  case False
  then have e: "bit w (s + (e - 1))" "\<forall>j < e - 1. \<not> bit w (s + j)" using assms(1) by (simp_all add: found_at_def bit_drop_bit_eq)
  then have "s + (e - 1) < 64" using no_bit [of "s + (e - 1)" w] by (cases "s + (e - 1) < 64") auto
  moreover have "\<not> bit w j" if "s \<le> j" "j < e + s - 1" for j
  proof -
    have "j = s + (j - s)" "j - s < e - 1" using that False by auto
    then show ?thesis using e(2) by metis
  qed
  moreover have "e + s - 1 = s + (e - 1)" using False by simp
  ultimately show ?thesis using e(1) False by (auto simp: found_at_def)
qed

lemma next_setbit:
  assumes "1 \<le> startbit" "startbit \<le> 64"
  shows "found_at w (startbit - 1) (FFS64_next_setbit w startbit)"
proof -
  consider "w = 0" | "w = FFS64_MAX" "w \<noteq> 0" | "w \<noteq> 0" "w \<noteq> FFS64_MAX" by blast
  then show ?thesis
  proof cases
    case 1
    then show ?thesis by (simp add: found_at_def FFS64_next_setbit_def)
  next
    case 2
    then show ?thesis using assms by (simp add: found_at_def FFS64_next_setbit_def max_bits)
  next
    case 3
    then show ?thesis
      using found_shift [OF first_setbit, of "startbit - 1" w] assms unfolding FFS64_next_setbit_def Let_def by simp
  qed
qed

lemma next_unsetbit:
  assumes "1 \<le> startbit" "startbit \<le> 64"
  shows "found_at (NOT w) (startbit - 1) (FFS64_next_unsetbit w startbit)"
proof (cases "w = FFS64_MAX")
  case True
  then have "\<not> bit (NOT w) j" for j by (simp add: bit_not_iff max_bits possible_bit_word)
  then show ?thesis using True by (simp add: found_at_def FFS64_next_unsetbit_def)
next
  case False
  then show ?thesis
    using found_shift [OF first_setbit, of "startbit - 1" "NOT w"] assms unfolding FFS64_next_unsetbit_def Let_def by simp
qed

text \<open>A clear bit found behind a set one is behind the start of the search.\<close>

lemma search_advances:
  assumes "FFS64_next_setbit w s \<noteq> 0" "FFS64_next_setbit w s \<noteq> 64" "FFS64_next_unsetbit w (FFS64_next_setbit w s + 1) \<noteq> 0"
  shows "s < FFS64_next_unsetbit w (FFS64_next_setbit w s + 1) \<and> s < 64"
proof -
  have w: "w \<noteq> FFS64_MAX" "w \<noteq> 0" using assms(1,3) by (auto simp: FFS64_next_unsetbit_def FFS64_next_setbit_def)
  define pos where "pos = FFS64_first_setbit (drop_bit (s - 1) w)"
  have sb: "FFS64_next_setbit w s = pos + (s - 1)" "pos \<noteq> 0"
    using assms(1) w by (auto simp: FFS64_next_setbit_def pos_def Let_def split: if_splits)
  have "found_at w (s - 1) (pos + (s - 1))" if "s - 1 < 64"
    using found_shift [OF first_setbit that, of w] sb(2) by (simp add: pos_def)
  moreover have "s - 1 < 64"
  proof (rule ccontr)
    assume "\<not> s - 1 < 64"
    then have "drop_bit (s - 1) w = 0" by (intro bit_word_eqI) (simp add: bit_drop_bit_eq no_bit)
    then show False using sb(2) by (simp add: pos_def FFS64_first_setbit_def)
  qed
  ultimately have "pos + (s - 1) \<le> 64" using sb(2) by (simp add: found_at_def)
  then have "s < 64" using assms(2) sb by auto
  moreover have "FFS64_next_setbit w s < FFS64_next_unsetbit w (FFS64_next_setbit w s + 1)"
    using assms(3) by (auto simp: FFS64_next_unsetbit_def Let_def split: if_splits)
  ultimately show ?thesis using sb by linarith
qed

section \<open>Runs of set bits in an array of flags\<close>

text \<open>
  The loop of \<open>FFS64_flags_find_setbits\<close>: \<open>first\<close> is \<open>pFirstFlag\<close> with \<open>firstBitOffset\<close>, \<open>None\<close> for the
  NULL pointer.  The result: \<open>*ppFlagStart\<close> as an index, and the offset in it.
\<close>

function find_setbits_loop :: "FFS64_t list \<Rightarrow> int \<Rightarrow> nat \<Rightarrow> nat \<Rightarrow> int \<Rightarrow> (nat \<times> nat) option \<Rightarrow> (nat \<times> nat) option" where
  "find_setbits_loop flags bitsCount p startBit remaining first =
     (if p < length flags \<and> remaining > 0 then
        (let sb = FFS64_next_setbit (flags ! p) startBit
         in if sb = 0 then find_setbits_loop flags bitsCount (p + 1) 1 bitsCount None
            else
              (let (first1, remaining1) =
                     (if first \<noteq> None then (if sb \<noteq> 1 then (Some (p, sb), bitsCount) else (first, remaining))
                      else (Some (p, sb), bitsCount))
               in if remaining1 = 1 then first1
                  else if sb = 64 then find_setbits_loop flags bitsCount (p + 1) 1 (remaining1 - 1) first1
                  else
                    (let endBit = FFS64_next_unsetbit (flags ! p) (sb + 1);
                         available = (if endBit \<noteq> 0 then int endBit - int sb else 64 - int sb + 1)
                     in if remaining1 \<le> available then first1
                        else if endBit \<noteq> 0 then find_setbits_loop flags bitsCount p endBit bitsCount None
                        else find_setbits_loop flags bitsCount (p + 1) 1 (remaining1 - available) first1)))
      else None)"
  by auto
termination
proof (relation "measure (\<lambda>(flags, n, p, s, r, f). (length flags - p) * 65 + (64 - s))", goal_cases)
  case (4 flags bitsCount p startBit remaining first)
  let ?e = "FFS64_next_unsetbit (flags ! p) (FFS64_next_setbit (flags ! p) startBit + 1)"
  have "startBit < ?e" "startBit < 64" using 4 search_advances [of "flags ! p" startBit] by simp_all
  then have "(length flags - p) * 65 + (64 - ?e) < (length flags - p) * 65 + (64 - startBit)" by (simp only: nat_add_left_cancel_less diff_less_mono2)
  then show ?case using 4 by (simp only: in_measure case_prod_conv)
qed auto

declare find_setbits_loop.simps [simp del]

text \<open>The bits of the array as one sequence, and a run of \<open>n\<close> set bits from bit \<open>i\<close> on.\<close>

definition flag_bit :: "FFS64_t list \<Rightarrow> nat \<Rightarrow> bool" where
  "flag_bit flags i = bit (flags ! (i div 64)) (i mod 64)"

definition run_at :: "FFS64_t list \<Rightarrow> nat \<Rightarrow> nat \<Rightarrow> bool" where
  "run_at flags n i \<longleftrightarrow> i + n \<le> 64 * length flags \<and> (\<forall>j \<in> {i..<i + n}. flag_bit flags j)"

definition clear_in :: "FFS64_t list \<Rightarrow> nat \<Rightarrow> nat \<Rightarrow> bool" where
  "clear_in flags a b \<longleftrightarrow> (\<forall>j \<in> {a..<b}. \<not> flag_bit flags j)"

definition set_in :: "FFS64_t list \<Rightarrow> nat \<Rightarrow> nat \<Rightarrow> bool" where
  "set_in flags a b \<longleftrightarrow> (\<forall>j \<in> {a..<b}. flag_bit flags j)"

definition none_before :: "FFS64_t list \<Rightarrow> nat \<Rightarrow> nat \<Rightarrow> nat \<Rightarrow> bool" where
  "none_before flags n lo i \<longleftrightarrow> (\<forall>j \<in> {lo..<i}. \<not> run_at flags n j)"

lemma flag_bit_at: "k < 64 \<Longrightarrow> flag_bit flags (64 * p + k) = bit (flags ! p) k"
  by (simp add: flag_bit_def)

lemma next_set_pos:
  assumes "1 \<le> s" "s \<le> 64"
  shows "FFS64_next_setbit (flags ! p) s = 0 \<Longrightarrow> clear_in flags (64 * p + (s - 1)) (64 * (p + 1))"
    "FFS64_next_setbit (flags ! p) s = e \<Longrightarrow> e \<noteq> 0 \<Longrightarrow>
      s \<le> e \<and> e \<le> 64 \<and> clear_in flags (64 * p + (s - 1)) (64 * p + (e - 1)) \<and> flag_bit flags (64 * p + (e - 1))"
proof -
  note f = next_setbit [OF assms, of "flags ! p", unfolded found_at_def]
  have at: "flag_bit flags j = bit (flags ! p) (j - 64 * p)" if "64 * p \<le> j" "j < 64 * p + 64" for j
    using flag_bit_at [of "j - 64 * p" flags p] that by simp
  show "FFS64_next_setbit (flags ! p) s = 0 \<Longrightarrow> clear_in flags (64 * p + (s - 1)) (64 * (p + 1))"
    using f at assms by (auto simp: clear_in_def)
  show "FFS64_next_setbit (flags ! p) s = e \<Longrightarrow> e \<noteq> 0 \<Longrightarrow>
      s \<le> e \<and> e \<le> 64 \<and> clear_in flags (64 * p + (s - 1)) (64 * p + (e - 1)) \<and> flag_bit flags (64 * p + (e - 1))"
    using f at assms by (auto simp: clear_in_def)
qed

lemma next_clear_pos:
  assumes "1 \<le> s" "s \<le> 63"
  shows "FFS64_next_unsetbit (flags ! p) (s + 1) = 0 \<Longrightarrow> set_in flags (64 * p + s) (64 * (p + 1))"
    "FFS64_next_unsetbit (flags ! p) (s + 1) = e \<Longrightarrow> e \<noteq> 0 \<Longrightarrow>
      s < e \<and> e \<le> 64 \<and> set_in flags (64 * p + s) (64 * p + (e - 1)) \<and> \<not> flag_bit flags (64 * p + (e - 1))"
proof -
  have "1 \<le> s + 1" "s + 1 \<le> 64" using assms by simp_all
  note f = next_unsetbit [OF this, of "flags ! p", unfolded found_at_def]
  have nb: "bit (NOT w) k \<longleftrightarrow> k < 64 \<and> \<not> bit w k" for w :: FFS64_t and k by (simp add: bit_not_iff possible_bit_word)
  have at: "flag_bit flags j = bit (flags ! p) (j - 64 * p)" if "64 * p \<le> j" "j < 64 * p + 64" for j
    using flag_bit_at [of "j - 64 * p" flags p] that by simp
  show "FFS64_next_unsetbit (flags ! p) (s + 1) = 0 \<Longrightarrow> set_in flags (64 * p + s) (64 * (p + 1))"
    using f at assms by (auto simp: set_in_def nb)
  show "FFS64_next_unsetbit (flags ! p) (s + 1) = e \<Longrightarrow> e \<noteq> 0 \<Longrightarrow>
      s < e \<and> e \<le> 64 \<and> set_in flags (64 * p + s) (64 * p + (e - 1)) \<and> \<not> flag_bit flags (64 * p + (e - 1))"
    using f at assms by (auto simp: set_in_def nb)
qed

text \<open>A clear bit ends all runs that would cross it.\<close>

lemma none_across:
  assumes "none_before flags n lo i" "\<not> flag_bit flags z" "z < i + n" "i \<le> z" "0 < n"
  shows "none_before flags n lo (z + 1)"
  using assms by (force simp: none_before_def run_at_def not_less)

lemma none_clear: "none_before flags n lo a \<Longrightarrow> clear_in flags a b \<Longrightarrow> 0 < n \<Longrightarrow> none_before flags n lo b"
  by (force simp: none_before_def clear_in_def run_at_def not_less)

lemma set_in_trans: "set_in flags a b \<Longrightarrow> set_in flags b c \<Longrightarrow> set_in flags a c"
  by (metis atLeastLessThan_iff not_le set_in_def)

text \<open>
  The candidate run: from bit \<open>bitpos f\<close>, checked up to \<open>cur\<close>, with \<open>remaining\<close> bits to go.
\<close>

definition bitpos :: "nat \<times> nat \<Rightarrow> nat" where
  "bitpos f = 64 * fst f + (snd f - 1)"

definition candidate :: "FFS64_t list \<Rightarrow> nat \<Rightarrow> nat \<Rightarrow> nat \<times> nat \<Rightarrow> nat \<Rightarrow> int \<Rightarrow> bool" where
  "candidate flags n lo f cur remaining \<longleftrightarrow>
     1 \<le> snd f \<and> snd f \<le> 64 \<and> fst f < length flags \<and> lo \<le> bitpos f \<and> bitpos f \<le> cur \<and> 0 < remaining \<and>
     int (bitpos f) + int n = int cur + remaining \<and> set_in flags (bitpos f) cur \<and> none_before flags n lo (bitpos f)"

definition search_inv :: "FFS64_t list \<Rightarrow> nat \<Rightarrow> nat \<Rightarrow> nat \<Rightarrow> nat \<Rightarrow> int \<Rightarrow> (nat \<times> nat) option \<Rightarrow> bool" where
  "search_inv flags n lo p s remaining first \<longleftrightarrow> 1 \<le> s \<and> s \<le> 64 \<and> lo \<le> bitpos (p, s) \<and>
     (case first of
        None \<Rightarrow> remaining = int n \<and> none_before flags n lo (bitpos (p, s))
      | Some f \<Rightarrow> s = 1 \<and> candidate flags n lo f (bitpos (p, s)) remaining)"

definition search_ok :: "FFS64_t list \<Rightarrow> nat \<Rightarrow> nat \<Rightarrow> (nat \<times> nat) option \<Rightarrow> bool" where
  "search_ok flags n lo r \<longleftrightarrow>
     (case r of
        None \<Rightarrow> \<forall>i \<ge> lo. \<not> run_at flags n i
      | Some f \<Rightarrow> 1 \<le> snd f \<and> snd f \<le> 64 \<and> fst f < length flags \<and> lo \<le> bitpos f \<and>
          run_at flags n (bitpos f) \<and> none_before flags n lo (bitpos f))"

lemma bitpos_next: "bitpos (p + 1, 1) = bitpos (p, 64) + 1" "s < e \<Longrightarrow> bitpos (p, s) < bitpos (p, e) \<or> s = 0"
  by (auto simp: bitpos_def)

lemma next_set_bitpos:
  assumes "1 \<le> s" "s \<le> 64"
  shows "FFS64_next_setbit (flags ! p) s = 0 \<Longrightarrow> clear_in flags (bitpos (p, s)) (bitpos (p + 1, 1))"
    "FFS64_next_setbit (flags ! p) s = e \<Longrightarrow> e \<noteq> 0 \<Longrightarrow>
      s \<le> e \<and> e \<le> 64 \<and> clear_in flags (bitpos (p, s)) (bitpos (p, e)) \<and> flag_bit flags (bitpos (p, e))"
  using next_set_pos [OF assms, of flags p] by (simp_all add: bitpos_def add.commute)

lemma next_clear_bitpos:
  assumes "1 \<le> s" "s \<le> 63" "flag_bit flags (bitpos (p, s))"
  shows "FFS64_next_unsetbit (flags ! p) (s + 1) = 0 \<Longrightarrow> set_in flags (bitpos (p, s)) (bitpos (p + 1, 1))"
    "FFS64_next_unsetbit (flags ! p) (s + 1) = e \<Longrightarrow> e \<noteq> 0 \<Longrightarrow>
      s < e \<and> e \<le> 64 \<and> set_in flags (bitpos (p, s)) (bitpos (p, e)) \<and> \<not> flag_bit flags (bitpos (p, e))"
proof -
  have one: "set_in flags (bitpos (p, s)) b" if "set_in flags (64 * p + s) b" for b
  proof -
    have "bitpos (p, s) + 1 = 64 * p + s" using assms(1) by (simp add: bitpos_def)
    then show ?thesis using that assms(3) unfolding set_in_def by (metis Suc_eq_plus1 Suc_leI atLeastLessThan_iff le_less)
  qed
  show "FFS64_next_unsetbit (flags ! p) (s + 1) = 0 \<Longrightarrow> set_in flags (bitpos (p, s)) (bitpos (p + 1, 1))"
    using next_clear_pos(1) [OF assms(1,2), of flags p] by (intro one) (simp add: bitpos_def add.commute)
  show "FFS64_next_unsetbit (flags ! p) (s + 1) = e \<Longrightarrow> e \<noteq> 0 \<Longrightarrow>
      s < e \<and> e \<le> 64 \<and> set_in flags (bitpos (p, s)) (bitpos (p, e)) \<and> \<not> flag_bit flags (bitpos (p, e))"
    using next_clear_pos(2) [OF assms(1,2), of flags p e] one by (simp add: bitpos_def)
qed

lemma candidate_done:
  assumes "candidate flags n lo f cur remaining" "set_in flags cur b" "int cur + remaining \<le> int b" "b \<le> 64 * length flags"
  shows "search_ok flags n lo (Some f)"
proof -
  have c: "int (bitpos f) + int n = int cur + remaining" "set_in flags (bitpos f) cur" using assms(1) by (simp_all add: candidate_def)
  have "set_in flags (bitpos f) b" using c(2) assms(2) by (rule set_in_trans)
  moreover have "bitpos f + n \<le> b" using c(1) assms(3) by linarith
  ultimately have "run_at flags n (bitpos f)" using assms(4) by (auto simp: run_at_def set_in_def)
  then show ?thesis using assms(1) by (simp add: search_ok_def candidate_def)
qed

lemma candidate_extend:
  assumes "candidate flags n lo f cur remaining" "set_in flags cur b" "cur \<le> b" "int b < int cur + remaining"
  shows "candidate flags n lo f b (remaining - (int b - int cur))"
proof -
  have "set_in flags (bitpos f) b" using set_in_trans assms(1,2) by (auto simp: candidate_def)
  then show ?thesis using assms(1,3,4) by (auto simp: candidate_def)
qed

lemma candidate_ends:
  assumes "candidate flags n lo f cur remaining" "\<not> flag_bit flags z" "cur \<le> z" "int z < int cur + remaining" "0 < n"
  shows "none_before flags n lo (z + 1)" "none_before flags n lo z"
proof -
  have "z < bitpos f + n" "bitpos f \<le> z" using assms(1,3,4) by (auto simp: candidate_def)
  then show "none_before flags n lo (z + 1)" using none_across assms(1,2,5) by (auto simp: candidate_def)
  then show "none_before flags n lo z" by (simp add: none_before_def)
qed

text \<open>The choice of the candidate at a set bit.\<close>

lemma choose_candidate:
  assumes inv: "search_inv flags n lo p s remaining first" and n: "0 < n" and p: "p < length flags"
    and sb: "s \<le> sb" "sb \<le> 64" "clear_in flags (bitpos (p, s)) (bitpos (p, sb))" "flag_bit flags (bitpos (p, sb))"
    and ch: "(first1, remaining1) = (if first \<noteq> None then (if sb \<noteq> 1 then (Some (p, sb), int n) else (first, remaining))
                 else (Some (p, sb), int n))"
  shows "\<exists>f. first1 = Some f \<and> candidate flags n lo f (bitpos (p, sb)) remaining1"
proof -
  have s: "1 \<le> s" "lo \<le> bitpos (p, s)" using inv by (simp_all add: search_inv_def)
  then have le: "bitpos (p, s) \<le> bitpos (p, sb)" using sb(1) by (auto simp: bitpos_def)
  have fresh: "candidate flags n lo (p, sb) (bitpos (p, sb)) (int n)" if "none_before flags n lo (bitpos (p, sb))"
    using that le s sb(1,2) n p by (simp add: candidate_def set_in_def)
  show ?thesis
  proof (cases first)
    case None
    then have "none_before flags n lo (bitpos (p, sb))" using inv none_clear [OF _ sb(3) n] by (simp add: search_inv_def)
    then show ?thesis using ch None fresh by auto
  next
    case (Some f)
    then have c: "s = 1" "candidate flags n lo f (bitpos (p, s)) remaining" using inv by (auto simp: search_inv_def)
    show ?thesis
    proof (cases "sb = 1")
      case True
      then show ?thesis using c ch Some by auto
    next
      case False
      then have lt: "bitpos (p, s) < bitpos (p, sb)" using sb(1) c(1) by (simp add: bitpos_def)
      then have "\<not> flag_bit flags (bitpos (p, s))" using sb(3) by (simp add: clear_in_def)
      moreover have "0 < remaining" using c(2) by (simp add: candidate_def)
      ultimately have "none_before flags n lo (bitpos (p, s))" using candidate_ends(2) [OF c(2)] n by simp
      then show ?thesis using none_clear [OF _ sb(3) n] fresh ch Some False by auto
    qed
  qed
qed

lemma find_loop_ok:
  assumes "search_inv flags n lo p s remaining first" "0 < n" "p \<le> length flags" "lo \<le> 64 * length flags"
  shows "search_ok flags n lo (find_setbits_loop flags (int n) p s remaining first)"
  using assms
proof (induction flags "int n" p s remaining first rule: find_setbits_loop.induct)
  case (1 flags p s remaining first)
  note inv = 1(5) and n = 1(6) and lo = 1(8)
  have s: "1 \<le> s" "s \<le> 64" "lo \<le> bitpos (p, s)" using inv by (simp_all add: search_inv_def)
  have rem: "0 < remaining" using inv n by (auto simp: search_inv_def candidate_def split: option.splits)
  show ?case
  proof (cases "p < length flags")
    case False
    then have p: "p = length flags" using 1(7) by simp
    have "none_before flags n lo (64 * length flags)"
    proof (cases first)
      case None
      then show ?thesis using inv p by (auto simp: search_inv_def none_before_def bitpos_def)
    next
      case (Some f)
      then have "candidate flags n lo f (64 * length flags) remaining" using inv p by (auto simp: search_inv_def bitpos_def)
      then have "none_before flags n lo (bitpos f)" "64 * length flags < bitpos f + n" using rem by (auto simp: candidate_def)
      then show ?thesis by (force simp: none_before_def run_at_def not_less)
    qed
    then have "\<not> run_at flags n i" if "lo \<le> i" for i
      using that n by (cases "i < 64 * length flags") (auto simp: none_before_def run_at_def)
    then show ?thesis using False by (subst find_setbits_loop.simps) (simp add: search_ok_def)
  next
    case True
    define sb where "sb = FFS64_next_setbit (flags ! p) s"
    have nextp: "lo \<le> bitpos (p + 1, 1)" using s(2,3) by (simp add: bitpos_def)
    show ?thesis
    proof (cases "sb = 0")
      case z: True
      have cl: "clear_in flags (bitpos (p, s)) (bitpos (p + 1, 1))" using next_set_bitpos(1) [OF s(1,2)] z by (simp add: sb_def)
      have "none_before flags n lo (bitpos (p, s))"
      proof (cases first)
        case None
        then show ?thesis using inv by (simp add: search_inv_def)
      next
        case (Some f)
        then have c: "candidate flags n lo f (bitpos (p, s)) remaining" using inv by (auto simp: search_inv_def)
        have "bitpos (p, s) < bitpos (p + 1, 1)" using s(1,2) by (simp add: bitpos_def)
        then have "\<not> flag_bit flags (bitpos (p, s))" using cl by (simp add: clear_in_def)
        then show ?thesis using candidate_ends(2) [OF c] rem n by simp
      qed
      from none_clear [OF this cl n] have "search_inv flags n lo (p + 1) 1 (int n) None"
        using nextp by (simp add: search_inv_def)
      then have "search_ok flags n lo (find_setbits_loop flags (int n) (p + 1) 1 (int n) None)"
        using 1(1) True rem z n lo by (simp add: sb_def)
      then show ?thesis using True rem z by (subst find_setbits_loop.simps) (simp add: sb_def [symmetric] Let_def)
    next
      case nz: False
      obtain first1 remaining1 where ch: "(first1, remaining1) =
          (if first \<noteq> None then (if sb \<noteq> 1 then (Some (p, sb), int n) else (first, remaining)) else (Some (p, sb), int n))"
        by (metis surj_pair)
      have sbp: "s \<le> sb" "sb \<le> 64" "clear_in flags (bitpos (p, s)) (bitpos (p, sb))" "flag_bit flags (bitpos (p, sb))"
        using next_set_bitpos(2) [OF s(1,2), of flags p sb] nz by (simp_all add: sb_def)
      obtain f where f: "first1 = Some f" "candidate flags n lo f (bitpos (p, sb)) remaining1"
        using choose_candidate [OF inv n True sbp ch] by blast
      have unf: "find_setbits_loop flags (int n) p s remaining first =
          (if remaining1 = 1 then first1
           else if sb = 64 then find_setbits_loop flags (int n) (p + 1) 1 (remaining1 - 1) first1
           else
             (let endBit = FFS64_next_unsetbit (flags ! p) (sb + 1);
                  available = (if endBit \<noteq> 0 then int endBit - int sb else 64 - int sb + 1)
              in if remaining1 \<le> available then first1
                 else if endBit \<noteq> 0 then find_setbits_loop flags (int n) p endBit (int n) None
                 else find_setbits_loop flags (int n) (p + 1) 1 (remaining1 - available) first1))"
        using True rem nz by (subst find_setbits_loop.simps) (simp only: sb_def [symmetric] Let_def ch [symmetric] prod.case if_True simp_thms if_False)
      have here: "set_in flags (bitpos (p, sb)) (bitpos (p, sb) + 1)" using sbp(4) by (simp add: set_in_def)
      have inside: "bitpos (p, sb) + 1 \<le> 64 * length flags" "bitpos (p + 1, 1) \<le> 64 * length flags"
        using True sbp(2) by (auto simp: bitpos_def)
      note IH2 = 1(2) and IH3 = 1(3) and IH4 = 1(4)
      show ?thesis
      proof (cases "remaining1 = 1")
        case True1: True
        show ?thesis unfolding unf using True1 candidate_done [OF f(2) here _ inside(1)] f(1) by simp
      next
        case ne1: False
        have r1: "1 < remaining1" using f(2) ne1 by (auto simp: candidate_def)
        show ?thesis
        proof (cases "sb = 64")
          case True64: True
          have b: "bitpos (p + 1, 1) = bitpos (p, sb) + 1" using True64 bitpos_next(1) by simp
          have "candidate flags n lo f (bitpos (p + 1, 1)) (remaining1 - 1)"
            unfolding b using candidate_extend [OF f(2) here] r1 by simp
          then have "search_inv flags n lo (p + 1) 1 (remaining1 - 1) first1" using f(1) nextp by (simp add: search_inv_def)
          then have "search_ok flags n lo (find_setbits_loop flags (int n) (p + 1) 1 (remaining1 - 1) first1)"
            using IH2 True rem nz ne1 True64 ch n lo by (auto simp: sb_def)
          then show ?thesis using unf ne1 True64 by simp
        next
          case ne64: False
          define e where "e = FFS64_next_unsetbit (flags ! p) (sb + 1)"
          have sb63: "1 \<le> sb" "sb \<le> 63" using ne64 sbp(1,2) s(1) by auto
          note nc = next_clear_bitpos [OF sb63 sbp(4), folded e_def]
          show ?thesis
          proof (cases "e = 0")
            case e0: True
            have st: "set_in flags (bitpos (p, sb)) (bitpos (p + 1, 1))" using nc(1) e0 by simp
            have av: "int (bitpos (p + 1, 1)) = int (bitpos (p, sb)) + (64 - int sb + 1)" "bitpos (p, sb) \<le> bitpos (p + 1, 1)"
              using sb63 by (simp_all add: bitpos_def of_nat_diff)
            have u: "find_setbits_loop flags (int n) p s remaining first =
                (if remaining1 \<le> 64 - int sb + 1 then first1
                 else find_setbits_loop flags (int n) (p + 1) 1 (remaining1 - (64 - int sb + 1)) first1)"
              unfolding unf Let_def e_def [symmetric] using ne1 ne64 e0 by simp
            show ?thesis
            proof (cases "remaining1 \<le> 64 - int sb + 1")
              case True
              then show ?thesis using u candidate_done [OF f(2) st _ inside(2)] f(1) av(1) by simp
            next
              case more: False
              have "candidate flags n lo f (bitpos (p + 1, 1)) (remaining1 - (int (bitpos (p + 1, 1)) - int (bitpos (p, sb))))"
                using av more by (intro candidate_extend [OF f(2) st]) simp_all
              then have c: "candidate flags n lo f (bitpos (p + 1, 1)) (remaining1 - (64 - int sb + 1))" unfolding av(1) by simp
              then have i: "search_inv flags n lo (p + 1) 1 (remaining1 - (64 - int sb + 1)) first1" using f(1) nextp by (simp add: search_inv_def)
              have "search_ok flags n lo (find_setbits_loop flags (int n) (p + 1) 1 (remaining1 - (64 - int sb + 1)) first1)"
                using IH4 [OF _ sb_def nz refl ch ne1 ne64 e_def refl]
                  True rem more e0 i n lo by simp
              then show ?thesis using u more by simp
            qed
          next
            case e1: False
            have st: "sb < e" "e \<le> 64" "set_in flags (bitpos (p, sb)) (bitpos (p, e))" "\<not> flag_bit flags (bitpos (p, e))"
              using nc(2) e1 by blast+
            have av: "int (bitpos (p, e)) = int (bitpos (p, sb)) + (int e - int sb)" "bitpos (p, sb) \<le> bitpos (p, e)"
              using sb63 st(1) by (simp_all add: bitpos_def of_nat_diff)
            have u: "find_setbits_loop flags (int n) p s remaining first =
                (if remaining1 \<le> int e - int sb then first1 else find_setbits_loop flags (int n) p e (int n) None)"
              unfolding unf Let_def e_def [symmetric] using ne1 ne64 e1 by simp
            have inr: "bitpos (p, e) \<le> 64 * length flags" using True st(2) by (simp add: bitpos_def)
            show ?thesis
            proof (cases "remaining1 \<le> int e - int sb")
              case True
              then show ?thesis using u candidate_done [OF f(2) st(3) _ inr] f(1) av(1) by simp
            next
              case more: False
              have "none_before flags n lo (bitpos (p, e))" using av more n by (intro candidate_ends(2) [OF f(2) st(4)]) simp_all
              moreover have "lo \<le> bitpos (p, e)" using s(3) sbp(1) st(1) by (simp add: bitpos_def)
              ultimately have i: "search_inv flags n lo p e (int n) None" using st(1,2) by (simp add: search_inv_def)
              have "search_ok flags n lo (find_setbits_loop flags (int n) p e (int n) None)"
                using IH3 [OF _ sb_def nz refl ch ne1 ne64 e_def refl]
                  True rem more e1 i n lo by simp
              then show ?thesis using u more by simp
            qed
          qed
        qed
      qed
    qed
  qed
qed

definition FFS64_flags_find_setbits :: "FFS64_t list \<Rightarrow> nat \<Rightarrow> int \<Rightarrow> nat \<times> nat" where
  "FFS64_flags_find_setbits flags start bitsCount =
     (case find_setbits_loop flags bitsCount start 1 bitsCount None of None \<Rightarrow> (start, 0) | Some f \<Rightarrow> f)"

lemma find_first:
  assumes "0 < n" "start \<le> length flags" "FFS64_flags_find_setbits flags start (int n) = (p, off)"
  shows "if off = 0 then \<forall>i \<ge> 64 * start. \<not> run_at flags n i
    else off \<le> 64 \<and> p < length flags \<and> 64 * start \<le> bitpos (p, off) \<and> run_at flags n (bitpos (p, off))
        \<and> (\<forall>i. 64 * start \<le> i \<longrightarrow> i < bitpos (p, off) \<longrightarrow> \<not> run_at flags n i)"
proof -
  have "search_inv flags n (64 * start) start 1 (int n) None" by (simp add: search_inv_def bitpos_def none_before_def)
  from find_loop_ok [OF this assms(1,2)] assms(2)
  have "search_ok flags n (64 * start) (find_setbits_loop flags (int n) start 1 (int n) None)" by simp
  then show ?thesis using assms(3)
    by (auto simp: FFS64_flags_find_setbits_def search_ok_def none_before_def split: option.splits)
qed

section \<open>Setting and clearing a range of bits\<close>

definition FFS64_masks_table :: "FFS64_t list" where
  "FFS64_masks_table = map mask [0..<65]"

definition FFS64_LeftMask :: "nat \<Rightarrow> nat \<Rightarrow> FFS64_t" where
  "FFS64_LeftMask offset start = push_bit start (FFS64_masks_table ! offset)"

text \<open>The loop of \<open>FFS64_flags_mask_bits\<close> from the flag \<open>p\<close> on; a range of no bits changes nothing.\<close>

function FFS64_flags_mask_bits :: "FFS64_t list \<Rightarrow> nat \<Rightarrow> nat \<Rightarrow> nat \<Rightarrow> bool \<Rightarrow> FFS64_t list" where
  "FFS64_flags_mask_bits flags p startBit bitCount is_set_1 =
     (if bitCount > 0 then
        (let bitOffset = (if 64 - startBit > bitCount then bitCount else 64 - startBit);
             mask_n = FFS64_LeftMask bitOffset startBit;
             flags1 = flags[p := (if is_set_1 then (flags ! p) OR mask_n else (flags ! p) AND NOT mask_n)]
         in if bitCount - bitOffset = 0 then flags1
            else FFS64_flags_mask_bits flags1 (p + 1) 0 (bitCount - bitOffset) is_set_1)
      else flags)"
  by auto
termination
  by (relation "measure (\<lambda>(flags, p, s, n, b). 2 * n + (if s = 0 then 0 else 1))") auto

declare FFS64_flags_mask_bits.simps [simp del]

lemma left_mask_bit: "n \<le> 64 \<Longrightarrow> bit (FFS64_LeftMask n s) j \<longleftrightarrow> s \<le> j \<and> j < s + n \<and> j < 64"
proof -
  assume n: "n \<le> 64"
  then have m: "FFS64_masks_table ! n = mask n" by (simp add: FFS64_masks_table_def del: upt_Suc)
  show ?thesis unfolding FFS64_LeftMask_def m by (auto simp: bit_push_bit_iff bit_mask_iff possible_bit_word)
qed

lemma flag_bit_update:
  assumes "p < length flags"
  shows "flag_bit (flags[p := w]) i \<longleftrightarrow> (if i div 64 = p then bit w (i mod 64) else flag_bit flags i)"
  using assms by (simp add: flag_bit_def nth_list_update)

lemma mask_bits_effect:
  assumes "p < length flags" "startBit < 64" "64 * p + startBit + n \<le> 64 * length flags"
  shows "length (FFS64_flags_mask_bits flags p startBit n b) = length flags \<and>
    (\<forall>i. flag_bit (FFS64_flags_mask_bits flags p startBit n b) i =
      (if 64 * p + startBit \<le> i \<and> i < 64 * p + startBit + n then b else flag_bit flags i))"
  using assms
proof (induction flags p startBit n b rule: FFS64_flags_mask_bits.induct)
  case (1 flags p startBit n b)
  show ?case
  proof (cases "n = 0")
    case True
    then show ?thesis by (subst (1 2) FFS64_flags_mask_bits.simps) auto
  next
    case False
    define k where "k = (if 64 - startBit > n then n else 64 - startBit)"
    define flags1 where "flags1 = flags[p := (if b then (flags ! p) OR FFS64_LeftMask k startBit else (flags ! p) AND NOT (FFS64_LeftMask k startBit))]"
    have k: "k \<le> 64" "startBit + k \<le> 64" "k \<le> n" "0 < k" "k < n \<longrightarrow> startBit + k = 64"
      using False 1(3) by (auto simp: k_def)
    have bits1: "flag_bit flags1 i = (if 64 * p + startBit \<le> i \<and> i < 64 * p + startBit + k then b else flag_bit flags i)" for i
    proof -
      define q where "q = i div 64"
      define r where "r = i mod 64"
      have i: "i = 64 * q + r" "r < 64" by (simp_all add: q_def r_def)
      consider "q < p" | "q = p" | "p < q" by linarith
      then have "64 * p + startBit \<le> i \<and> i < 64 * p + startBit + k \<longleftrightarrow> q = p \<and> startBit \<le> r \<and> r < startBit + k"
        using k(2) i by cases auto
      then show ?thesis
        using i(2) flag_bit_update [OF 1(2)] left_mask_bit [OF k(1)]
        by (auto simp: flags1_def bit_or_iff bit_and_iff bit_not_iff possible_bit_word flag_bit_def q_def r_def)
    qed
    have unf: "FFS64_flags_mask_bits flags p startBit n b =
        (if n - k = 0 then flags1 else FFS64_flags_mask_bits flags1 (p + 1) 0 (n - k) b)"
      using False by (subst FFS64_flags_mask_bits.simps) (simp add: k_def [symmetric] flags1_def [symmetric] Let_def)
    show ?thesis
    proof (cases "n - k = 0")
      case True
      then show ?thesis using unf bits1 k(3) by (simp add: flags1_def)
    next
      case more: False
      then have e: "startBit + k = 64" "64 * (p + 1) + (n - k) = 64 * p + startBit + n" "64 * (p + 1) = 64 * p + startBit + k" using k by auto
      have l: "length flags1 = length flags" by (simp add: flags1_def)
      have "64 * (p + 1) < 64 * length flags" using 1(4) e(2) more by linarith
      then have "p + 1 < length flags1" using l by simp
      then have ih: "length (FFS64_flags_mask_bits flags1 (p + 1) 0 (n - k) b) = length flags1 \<and>
          (\<forall>i. flag_bit (FFS64_flags_mask_bits flags1 (p + 1) 0 (n - k) b) i =
            (if 64 * (p + 1) + 0 \<le> i \<and> i < 64 * (p + 1) + 0 + (n - k) then b else flag_bit flags1 i))"
        using 1(1) [OF _ k_def refl flags1_def more] False 1(4) e(2) l by simp
      have "(if 64 * (p + 1) + 0 \<le> i \<and> i < 64 * (p + 1) + 0 + (n - k) then b else flag_bit flags1 i) =
          (if 64 * p + startBit \<le> i \<and> i < 64 * p + startBit + n then b else flag_bit flags i)" for i
        unfolding bits1 using e k(3) by auto
      then show ?thesis using unf ih l more by simp
    qed
  qed
qed

section \<open>Properties\<close>

text \<open>
  The search for a run of set bits is first fit.  For every array of flags and every \<open>n > 0\<close>,
  \<open>FFS64_flags_find_setbits\<close> from the flag \<open>start\<close> on returns, and: when it answers 0 there is no run of \<open>n\<close> set
  bits from there on, within one flag or across several; otherwise its answer is the first such run.
\<close>

theorem find_setbits_first_fit:
  assumes "0 < n" "start \<le> length flags" "FFS64_flags_find_setbits flags start (int n) = (p, off)"
  shows "(off = 0 \<longrightarrow> (\<forall>i \<ge> 64 * start. \<not> run_at flags n i))
    \<and> (off \<noteq> 0 \<longrightarrow> off \<le> 64 \<and> p < length flags \<and> 64 * start \<le> bitpos (p, off) \<and> run_at flags n (bitpos (p, off))
        \<and> (\<forall>i. 64 * start \<le> i \<longrightarrow> i < bitpos (p, off) \<longrightarrow> \<not> run_at flags n i))"
  using find_first [OF assms] by simp

definition sample_flags :: "FFS64_t list" where
  "sample_flags = [0xF000000000000000, 7]"

lemma sample_run_at: "run_at sample_flags 6 60"
proof -
  have "j = 60 \<or> j = 61 \<or> j = 62 \<or> j = 63 \<or> j = 64 \<or> j = 65" if "j \<in> {60..<66}" for j :: nat
    using that by auto
  then have "flag_bit sample_flags j" if "j \<in> {60..<66}" for j
    using that by (fastforce simp: flag_bit_def sample_flags_def)
  then show ?thesis by (auto simp: run_at_def sample_flags_def)
qed

lemma find_setbits_first_fit_witness:
  "\<exists>p off. FFS64_flags_find_setbits sample_flags 0 6 = (p, off) \<and> off \<noteq> 0 \<and> run_at sample_flags 6 (bitpos (p, off))"
proof -
  obtain p off where f: "FFS64_flags_find_setbits sample_flags 0 (int 6) = (p, off)" by force
  from find_setbits_first_fit [OF _ _ f] sample_run_at show ?thesis using f by auto
qed

text \<open>
  \<open>FFS64_flags_mask_bits\<close> sets or clears exactly the given range of bits, over as many flags as
  it spans, and leaves all others.
\<close>

theorem mask_bits_exact:
  assumes "p < length flags" "startBit < 64" "64 * p + startBit + n \<le> 64 * length flags"
  shows "length (FFS64_flags_mask_bits flags p startBit n b) = length flags \<and>
    (\<forall>i. flag_bit (FFS64_flags_mask_bits flags p startBit n b) i =
      (if 64 * p + startBit \<le> i \<and> i < 64 * p + startBit + n then b else flag_bit flags i))"
  by (rule mask_bits_effect [OF assms])

lemma mask_bits_exact_witness:
  "flag_bit (FFS64_flags_mask_bits sample_flags 0 62 3 False) 61 \<and> \<not> flag_bit (FFS64_flags_mask_bits sample_flags 0 62 3 False) 64"
proof -
  have "flag_bit sample_flags 61" "length sample_flags = 2" by (simp_all add: sample_flags_def flag_bit_def)
  then show ?thesis using mask_bits_exact [of 0 sample_flags 62 3 False] by simp
qed

end
