(* ===== verification/Alloc_Spec.thy ===== *)
theory Alloc_Spec
  imports Prelude
begin

text \<open>
  What a client relies on when it takes its memory from a pool: the buffers it holds are as long as it
  asked for, and none overlaps another.  The interface is a locale; \<open>MemBuff\<close> interprets it.
\<close>

datatype pool_op = Take nat | Give nat

text \<open>
  A client's requests: it gives back only what it holds.  The second component records the buffers
  held, as a map from the pointers to the sizes asked for.
\<close>

fun client_run :: "('s \<Rightarrow> nat \<Rightarrow> nat option \<times> 's) \<Rightarrow> ('s \<Rightarrow> nat \<Rightarrow> 's) \<Rightarrow> pool_op list \<Rightarrow> 's \<Rightarrow> (nat \<Rightarrow> nat option) \<Rightarrow> 's \<times> (nat \<Rightarrow> nat option)" where
  "client_run alloc release [] s held = (s, held)"
| "client_run alloc release (Take sz # ops) s held =
     (case alloc s sz of
        (None, s') \<Rightarrow> client_run alloc release ops s' held
      | (Some q, s') \<Rightarrow> client_run alloc release ops s' (held(q \<mapsto> sz)))"
| "client_run alloc release (Give q # ops) s held =
     (if held q = None then client_run alloc release ops s held
      else client_run alloc release ops (release s q) (held(q := None)))"

definition requests_below :: "nat \<Rightarrow> pool_op list \<Rightarrow> bool" where
  "requests_below bound ops \<longleftrightarrow> list_all (\<lambda>x. case x of Take sz \<Rightarrow> sz < bound | Give _ \<Rightarrow> True) ops"

lemma requests_below_simps [simp]:
  "requests_below bound []"
  "requests_below bound (Take sz # ops) \<longleftrightarrow> sz < bound \<and> requests_below bound ops"
  "requests_below bound (Give q # ops) \<longleftrightarrow> requests_below bound ops"
  by (simp_all add: requests_below_def)

locale buffer_allocator =
  fixes invar :: "'s \<Rightarrow> (nat \<Rightarrow> nat option) \<Rightarrow> bool"
    and alloc :: "'s \<Rightarrow> nat \<Rightarrow> nat option \<times> 's"
    and release :: "'s \<Rightarrow> nat \<Rightarrow> 's"
    and area :: "'s \<Rightarrow> nat"
    and bound :: nat
  assumes disjoint: "invar s held \<Longrightarrow> held a = Some n \<Longrightarrow> held b = Some m \<Longrightarrow> a < b \<Longrightarrow> a + n \<le> b"
    and inside: "invar s held \<Longrightarrow> held a = Some n \<Longrightarrow> a + n \<le> area s"
    and alloc_some: "invar s held \<Longrightarrow> sz < bound \<Longrightarrow> alloc s sz = (Some q, s') \<Longrightarrow>
      held q = None \<and> invar s' (held(q \<mapsto> sz)) \<and> area s' = area s"
    and alloc_none: "invar s held \<Longrightarrow> sz < bound \<Longrightarrow> alloc s sz = (None, s') \<Longrightarrow> invar s' held \<and> area s' = area s"
    and release_law: "invar s held \<Longrightarrow> held q = Some n \<Longrightarrow> invar (release s q) (held(q := None)) \<and> area (release s q) = area s"
begin

lemma run_keeps:
  assumes "invar s held" "requests_below bound ops" "client_run alloc release ops s held = (s', held')"
  shows "invar s' held' \<and> area s' = area s"
  using assms
proof (induction ops arbitrary: s held)
  case (Cons x ops)
  show ?case
  proof (cases x)
    case (Take sz)
    obtain r s1 where a: "alloc s sz = (r, s1)" by force
    show ?thesis
    proof (cases r)
      case None
      then show ?thesis using Cons.IH [of s1 held] Cons.prems Take a alloc_none [of s held sz s1] by simp
    next
      case (Some q)
      then show ?thesis using Cons.IH [of s1 "held(q \<mapsto> sz)"] Cons.prems Take a alloc_some [of s held sz q s1] by (simp del: fun_upd_apply)
    qed
  next
    case (Give q)
    then show ?thesis using Cons.IH [of "release s q" "held(q := None)"] Cons.prems release_law [of s held q] Cons.IH [of s held]
      by (cases "held q") (auto simp del: fun_upd_apply)
  qed
qed simp

lemma run_separate:
  assumes "invar s held" "requests_below bound ops" "client_run alloc release ops s held = (s', held')"
    "held' a = Some n" "held' b = Some m" "a \<noteq> b"
  shows "{a..<a + n} \<inter> {b..<b + m} = {} \<and> a + n \<le> area s"
proof -
  note inv = run_keeps [OF assms(1,2,3)]
  have "a + n \<le> b \<or> b + m \<le> a"
    using disjoint [of s' held' a n b m] disjoint [of s' held' b m a n] inv assms(4,5,6) by linarith
  then show ?thesis using inside [of s' held' a n] inv assms(4) by auto
qed

end

end
