(* ===== verification/MemBuff.thy ===== *)
theory MemBuff
  imports Ffs64 Alloc_Spec
begin

text \<open>
  The pool of memory blocks of \<open>source/common/membuff.c\<close>, built with \<open>NDEBUG\<close> as the release is: one bit per
  block of \<open>BuffSize\<close> bytes says whether it is free; a buffer is a run of blocks with a header of 16
  bytes in front.  The operations between \<open>bool_spinlock_grab\<close> and \<open>bool_spinlock_free\<close> are one
  step.  Pointers are offsets from \<open>_Buffers\<close>; pools are told apart by numbers.
\<close>

section \<open>State and operations\<close>

record membuff_t =
  ownerPool :: nat
  flagOffset :: nat
  bitOffset :: nat
  bitCount :: nat

record membuff_pool_t =
  pool_id :: nat
  BuffSize :: nat
  FlagsCount :: nat
  unused_bits :: int
  PoolSize :: nat
  Flags :: "FFS64_t list"
  Heads :: "nat \<Rightarrow> membuff_t"

text \<open>\<open>(uint32_t) n\<close>.\<close>

definition u32 :: "nat \<Rightarrow> nat" where
  "u32 n = n mod 4294967296"

definition MBUF_ALIGN_SIZE :: nat where
  "MBUF_ALIGN_SIZE = 128"

definition MBUF_BSIZE_MAX :: nat where
  "MBUF_BSIZE_MAX = 4096"

definition MBUF_FLAGS_MAX :: nat where
  "MBUF_FLAGS_MAX = 4096"

definition MBUF_POOL_SIZE_MAX :: nat where
  "MBUF_POOL_SIZE_MAX = MBUF_FLAGS_MAX * MBUF_BSIZE_MAX * 64"

definition MBUF_HDRSIZE :: nat where
  "MBUF_HDRSIZE = 16"

definition MBUF_AlignUpSize :: "nat \<Rightarrow> nat \<Rightarrow> nat" where
  "MBUF_AlignUpSize sz M =
     (if sz = 0 then M else unat ((of_nat sz + of_nat M - 1) AND NOT (of_nat M - 1) :: FFS64_t))"

text \<open>Memory set to zero: headers of the NULL pool.\<close>

definition no_header :: membuff_t where
  "no_header = \<lparr> ownerPool = 0, flagOffset = 0, bitOffset = 0, bitCount = 0 \<rparr>"

definition membuff_pool_create :: "nat \<Rightarrow> nat \<Rightarrow> nat \<Rightarrow> membuff_pool_t option" where
  "membuff_pool_create pid buffSizeBytes buffsCount =
     (let buffSize = u32 (MBUF_AlignUpSize buffSizeBytes MBUF_ALIGN_SIZE)
      in if buffSize > MBUF_BSIZE_MAX then None
         else
           (let numBits = u32 (MBUF_AlignUpSize buffsCount 64); numFlags = numBits div 64
            in if numFlags = 0 \<or> numFlags > MBUF_FLAGS_MAX then None
               else
                 (let poolSizeMax = buffSize * numBits
                  in if poolSizeMax > MBUF_POOL_SIZE_MAX then None
                     else Some \<lparr> pool_id = pid, BuffSize = buffSize, FlagsCount = numFlags, unused_bits = int (64 * numFlags),
                                 PoolSize = poolSizeMax, Flags = replicate numFlags FFS64_MAX, Heads = (\<lambda>_. no_header) \<rparr>)))"

text \<open>The result: the pointer to the buffer, \<open>None\<close> for NULL.\<close>

definition membuff_alloc :: "membuff_pool_t \<Rightarrow> nat \<Rightarrow> nat option \<times> membuff_pool_t" where
  "membuff_alloc pool sizeBytes =
     (let allocSize = MBUF_AlignUpSize (size_wrap (sizeBytes + MBUF_HDRSIZE)) (BuffSize pool);
          bits = to_int32 (int (allocSize div BuffSize pool))
      in if bits = 0 \<or> bits > int (64 * FlagsCount pool) then (None, pool)
         else if bits > unused_bits pool then (None, pool)
         else
           (case FFS64_flags_find_setbits (Flags pool) 0 bits of (fo, startBit) \<Rightarrow>
              if startBit = 0 then (None, pool)
              else
                (let bo = fo * 64 + (startBit - 1);
                     pBuff = u32 (bo * BuffSize pool);
                     hdr = \<lparr> ownerPool = pool_id pool, flagOffset = fo, bitOffset = (startBit - 1) mod 65536,
                             bitCount = nat bits mod 65536 \<rparr>
                 in (Some (pBuff + MBUF_HDRSIZE),
                     pool\<lparr>Heads := (Heads pool)(pBuff := hdr),
                          Flags := FFS64_flags_mask_bits (Flags pool) fo (startBit - 1) (nat bits) False,
                          unused_bits := unused_bits pool - bits\<rparr>))))"

text \<open>The second result: the number of bytes that are set to 0.\<close>

definition membuff_calloc :: "membuff_pool_t \<Rightarrow> nat \<Rightarrow> nat \<Rightarrow> nat option \<times> nat \<times> membuff_pool_t" where
  "membuff_calloc pool elementsCount elementSizeBytes =
     (let alignSize = MBUF_AlignUpSize (size_wrap (elementsCount * elementSizeBytes)) 64
      in case membuff_alloc pool alignSize of
           (None, pool') \<Rightarrow> (None, 0, pool')
         | (Some pBuffer, pool') \<Rightarrow> (Some pBuffer, alignSize, pool'))"

definition membuff_free :: "nat \<Rightarrow> membuff_pool_t \<Rightarrow> nat option \<Rightarrow> nat option \<times> membuff_pool_t" where
  "membuff_free owner pool ptr =
     (case ptr of
        None \<Rightarrow> (None, pool)
      | Some pBuffer \<Rightarrow>
          (let pBuff = pBuffer - MBUF_HDRSIZE; hdr = Heads pool pBuff
           in if ownerPool hdr = owner then
                (let bBuffSize = u32 (BuffSize pool * bitCount hdr)
                 in if pBuff + bBuffSize \<le> PoolSize pool then
                      (None, pool\<lparr>Flags := FFS64_flags_mask_bits (Flags pool) (flagOffset hdr) (bitOffset hdr) (bitCount hdr) True,
                                  unused_bits := unused_bits pool + int (bitCount hdr)\<rparr>)
                    else (ptr, pool))
              else (ptr, pool)))"

definition membuff_pool_stat :: "membuff_pool_t \<Rightarrow> nat \<times> nat \<times> int" where
  "membuff_pool_stat pool = (BuffSize pool, FlagsCount pool * 64, unused_bits pool)"

section \<open>Rounding up\<close>

lemma and_not_mask: "(x :: FFS64_t) AND NOT (mask k) = push_bit k (drop_bit k x)"
  by (rule bit_word_eqI) (auto simp: bit_and_iff bit_not_iff bit_mask_iff bit_push_bit_iff bit_drop_bit_eq possible_bit_word)

lemma align_up:
  assumes "0 < sz" "sz + 2 ^ k - 1 < 18446744073709551616" "k < 64"
  shows "MBUF_AlignUpSize sz (2 ^ k) = (sz + 2 ^ k - 1) div 2 ^ k * 2 ^ k"
proof -
  let ?x = "of_nat (sz + 2 ^ k - 1) :: FFS64_t"
  have "(of_nat sz + of_nat (2 ^ k) - 1 :: FFS64_t) = ?x"
    using of_nat_diff [of 1 "sz + 2 ^ k", where 'a = "64 word"] assms(1) by simp
  moreover have "(of_nat (2 ^ k) - 1 :: FFS64_t) = mask k" by (simp add: mask_eq_exp_minus_1)
  ultimately have "MBUF_AlignUpSize sz (2 ^ k) = unat (push_bit k (drop_bit k ?x))"
    using assms(1) by (simp add: MBUF_AlignUpSize_def and_not_mask)
  also have "unat ?x = sz + 2 ^ k - 1" using assms(2) by (simp add: unat_of_nat)
  then have "unat (drop_bit k ?x) = (sz + 2 ^ k - 1) div 2 ^ k"
    using unat_drop_bit_eq [of k ?x] by (metis drop_bit_eq_div)
  then have "unat (push_bit k (drop_bit k ?x)) = take_bit 64 ((sz + 2 ^ k - 1) div 2 ^ k * 2 ^ k)"
    unfolding unsigned_push_bit_eq by (simp add: push_bit_eq_mult)
  also have "(sz + 2 ^ k - 1) div 2 ^ k * 2 ^ k < 2 ^ 64"
    using order_le_less_trans [OF div_times_less_eq_dividend assms(2)] by simp
  then have "take_bit 64 ((sz + 2 ^ k - 1) div 2 ^ k * 2 ^ k) = (sz + 2 ^ k - 1) div 2 ^ k * 2 ^ k"
    by (simp add: take_bit_nat_eq_self)
  finally show ?thesis .
qed

lemma align_up_dvd: "k < 64 \<Longrightarrow> 2 ^ k dvd MBUF_AlignUpSize sz (2 ^ k)"
proof -
  assume k: "k < 64"
  let ?x = "of_nat sz + of_nat (2 ^ k) - 1 :: FFS64_t"
  have "(of_nat (2 ^ k) - 1 :: FFS64_t) = mask k" by (simp add: mask_eq_exp_minus_1)
  then have "MBUF_AlignUpSize sz (2 ^ k) = (if sz = 0 then 2 ^ k else unat (push_bit k (drop_bit k ?x)))"
    by (simp add: MBUF_AlignUpSize_def and_not_mask)
  moreover have "unat (push_bit k (drop_bit k ?x)) = (unat (drop_bit k ?x) * 2 ^ k) mod 2 ^ 64"
    unfolding unsigned_push_bit_eq by (simp add: take_bit_eq_mod push_bit_eq_mult)
  moreover have "(2 :: nat) ^ k dvd 2 ^ 64" using k by (intro le_imp_power_dvd) simp
  ultimately show ?thesis by (auto intro: dvd_mod)
qed

text \<open>The blocks a request needs.\<close>

definition blocks_for :: "nat \<Rightarrow> nat \<Rightarrow> nat" where
  "blocks_for B sz = (sz + MBUF_HDRSIZE + B - 1) div B"

lemma blocks_for_enough: "0 < B \<Longrightarrow> sz + MBUF_HDRSIZE \<le> blocks_for B sz * B"
proof -
  assume B: "0 < B"
  let ?x = "sz + MBUF_HDRSIZE + B - 1"
  have "?x div B * B + ?x mod B = ?x" "?x mod B < B" using B by simp_all
  then show ?thesis unfolding blocks_for_def by linarith
qed

section \<open>The invariant\<close>

text \<open>
  \<open>live\<close>: the buffers handed out and not freed yet, as a map from the first block to the number of
  blocks.  The block size is a power of two from 128 to 4096.  The header keeps the number of blocks in 16 bits.
\<close>

definition in_use :: "(nat \<Rightarrow> nat option) \<Rightarrow> nat \<Rightarrow> bool" where
  "in_use live i \<longleftrightarrow> (\<exists>s c. live s = Some c \<and> s \<le> i \<and> i < s + c)"

definition pool_shape :: "membuff_pool_t \<Rightarrow> bool" where
  "pool_shape p \<longleftrightarrow> (\<exists>k. BuffSize p = 2 ^ k \<and> 7 \<le> k \<and> k \<le> 12) \<and> length (Flags p) = FlagsCount p \<and>
     0 < FlagsCount p \<and> FlagsCount p \<le> 4096 \<and> PoolSize p = BuffSize p * (64 * FlagsCount p)"

definition pool_ok :: "membuff_pool_t \<Rightarrow> (nat \<Rightarrow> nat option) \<Rightarrow> bool" where
  "pool_ok p live \<longleftrightarrow> pool_shape p \<and>
     (\<forall>s c. live s = Some c \<longrightarrow> 0 < c \<and> s + c \<le> 64 * FlagsCount p \<and>
        Heads p (s * BuffSize p) = \<lparr> ownerPool = pool_id p, flagOffset = s div 64, bitOffset = s mod 64, bitCount = c mod 65536 \<rparr>) \<and>
     (\<forall>s c s' c'. live s = Some c \<longrightarrow> live s' = Some c' \<longrightarrow> s < s' \<longrightarrow> s + c \<le> s') \<and>
     (\<forall>i < 64 * FlagsCount p. flag_bit (Flags p) i \<longleftrightarrow> \<not> in_use live i) \<and>
     unused_bits p = int (card {i. i < 64 * FlagsCount p \<and> flag_bit (Flags p) i})"

lemma pool_ok_head:
  assumes "pool_ok p live" "live s = Some c"
  shows "0 < c" "s + c \<le> 64 * FlagsCount p"
    "Heads p (s * BuffSize p) = \<lparr> ownerPool = pool_id p, flagOffset = s div 64, bitOffset = s mod 64, bitCount = c mod 65536 \<rparr>"
  using assms unfolding pool_ok_def by blast+

lemma create_ok:
  assumes "membuff_pool_create pid bsz cnt = Some p" "BuffSize p = 2 ^ k" "7 \<le> k"
  shows "pool_ok p (\<lambda>_. None)"
proof -
  define N where "N = u32 (MBUF_AlignUpSize cnt 64)"
  have "64 dvd MBUF_AlignUpSize cnt 64" using align_up_dvd [of 6 cnt] by simp
  then have "64 dvd N" unfolding N_def u32_def by (intro dvd_mod) simp_all
  then have N64: "N = 64 * (N div 64)" by simp
  have p: "FlagsCount p = N div 64" "0 < N div 64" "N div 64 \<le> 4096" "unused_bits p = int (64 * (N div 64))" "PoolSize p = BuffSize p * N"
    "Flags p = replicate (N div 64) FFS64_MAX" "BuffSize p \<le> 4096"
    using assms(1) by (auto simp: membuff_pool_create_def N_def Let_def MBUF_BSIZE_MAX_def MBUF_FLAGS_MAX_def split: if_splits)
  have "k \<le> 12"
  proof (rule ccontr)
    assume "\<not> k \<le> 12"
    then have "(2 :: nat) ^ 13 \<le> 2 ^ k" by (intro power_increasing) simp_all
    then show False using p(7) assms(2) by simp
  qed
  then have shape: "pool_shape p" using p assms(2,3) N64 by (auto simp: pool_shape_def)
  have bits: "flag_bit (Flags p) i" if "i < 64 * FlagsCount p" for i
    using that p(1,6) by (simp add: flag_bit_def max_bits less_mult_imp_div_less)
  then have "{i. i < 64 * FlagsCount p \<and> flag_bit (Flags p) i} = {..<64 * FlagsCount p}" by auto
  then show ?thesis using shape bits p(1,4) by (simp add: pool_ok_def in_use_def)
qed

lemma card_range_out:
  assumes "\<And>i. i < M \<Longrightarrow> Q i \<longleftrightarrow> P i \<and> \<not> (s \<le> i \<and> i < s + n)" "\<And>i. s \<le> i \<Longrightarrow> i < s + n \<Longrightarrow> P i" "s + n \<le> M"
  shows "card {i. i < M \<and> P i} = card {i. i < M \<and> Q i} + n"
proof -
  have "{i. i < M \<and> P i} = {i. i < M \<and> Q i} \<union> {s..<s + n}" using assms by auto
  moreover have "{i. i < M \<and> Q i} \<inter> {s..<s + n} = {}" using assms(1,3) by auto
  ultimately show ?thesis by (simp add: card_Un_disjoint)
qed

lemma alloc_unfold:
  assumes "pool_shape p" "sz < 1073741824"
  shows "membuff_alloc p sz =
    (let n = blocks_for (BuffSize p) sz
     in if int n > int (64 * FlagsCount p) \<or> int n > unused_bits p then (None, p)
        else
          (case FFS64_flags_find_setbits (Flags p) 0 (int n) of (fo, sb) \<Rightarrow>
             if sb = 0 then (None, p)
             else (Some (u32 ((fo * 64 + (sb - 1)) * BuffSize p) + MBUF_HDRSIZE),
                   p\<lparr>Heads := (Heads p)(u32 ((fo * 64 + (sb - 1)) * BuffSize p) :=
                        \<lparr> ownerPool = pool_id p, flagOffset = fo, bitOffset = (sb - 1) mod 65536, bitCount = n mod 65536 \<rparr>),
                      Flags := FFS64_flags_mask_bits (Flags p) fo (sb - 1) n False, unused_bits := unused_bits p - int n\<rparr>)))"
proof -
  obtain k where k: "BuffSize p = 2 ^ k" "7 \<le> k" "k \<le> 12" using assms(1) by (auto simp: pool_shape_def)
  have "(2 :: nat) ^ k \<le> 2 ^ 12" using k(3) by (intro power_increasing) simp_all
  then have B: "0 < BuffSize p" "BuffSize p \<le> 4096" using k(1) by simp_all
  let ?n = "blocks_for (BuffSize p) sz"
  have small: "sz + MBUF_HDRSIZE + 2 ^ k - 1 < 1073750000" using B k(1) assms(2) by (simp add: MBUF_HDRSIZE_def)
  then have a: "MBUF_AlignUpSize (size_wrap (sz + MBUF_HDRSIZE)) (BuffSize p) = ?n * BuffSize p"
    using align_up [of "sz + MBUF_HDRSIZE" k] assms(2) k by (simp add: blocks_for_def MBUF_HDRSIZE_def)
  have "?n * BuffSize p div BuffSize p = ?n" using B(1) by simp
  moreover have "?n \<le> sz + MBUF_HDRSIZE + BuffSize p - 1" by (simp add: blocks_for_def)
  then have n: "?n < 1073750000" using small k(1) by linarith
  then have "to_int32 (int ?n) = int ?n" by simp
  moreover have "?n \<noteq> 0" using blocks_for_enough [OF B(1), of sz] by (intro notI) (simp add: MBUF_HDRSIZE_def)
  ultimately show ?thesis unfolding membuff_alloc_def a by (simp add: Let_def split: prod.split)
qed

lemma in_use_take:
  assumes "live s = None"
  shows "in_use (live(s \<mapsto> n)) i \<longleftrightarrow> in_use live i \<or> s \<le> i \<and> i < s + n"
proof
  assume "in_use (live(s \<mapsto> n)) i"
  then obtain a c where a: "(live(s \<mapsto> n)) a = Some c" "a \<le> i" "i < a + c" by (auto simp: in_use_def)
  then show "in_use live i \<or> s \<le> i \<and> i < s + n" by (cases "a = s") (auto simp: in_use_def)
next
  assume "in_use live i \<or> s \<le> i \<and> i < s + n"
  then show "in_use (live(s \<mapsto> n)) i"
  proof
    assume "in_use live i"
    then obtain a c where a: "live a = Some c" "a \<le> i" "i < a + c" by (auto simp: in_use_def)
    moreover have "a \<noteq> s" using a(1) assms by auto
    ultimately show ?thesis unfolding in_use_def by (metis fun_upd_apply)
  next
    assume "s \<le> i \<and> i < s + n"
    then show ?thesis unfolding in_use_def by (metis fun_upd_apply)
  qed
qed

lemma take_run:
  assumes "pool_ok p live" "0 < n" "s + n \<le> 64 * FlagsCount p" "\<And>i. s \<le> i \<Longrightarrow> i < s + n \<Longrightarrow> \<not> in_use live i" "0 < BuffSize p"
    and fl: "length fl = length (Flags p)" "\<And>i. flag_bit fl i = (if s \<le> i \<and> i < s + n then False else flag_bit (Flags p) i)"
  shows "pool_ok (p\<lparr>Heads := (Heads p)(s * BuffSize p := \<lparr> ownerPool = pool_id p, flagOffset = s div 64, bitOffset = s mod 64, bitCount = n mod 65536 \<rparr>),
      Flags := fl, unused_bits := unused_bits p - int n\<rparr>) (live(s \<mapsto> n))" (is "pool_ok ?p' ?live'")
proof -
  note ok = assms(1) [unfolded pool_ok_def]
  have none: "live s = None"
  proof (rule ccontr)
    assume "live s \<noteq> None"
    then obtain c where c: "live s = Some c" by auto
    then have "0 < c" using ok by blast
    then have "in_use live s" using c unfolding in_use_def by fastforce
    then show False using assms(4) [of s] assms(2) by simp
  qed
  have apart: "a + c \<le> s \<or> s + n \<le> a" if "live a = Some c" for a c
  proof (rule ccontr)
    assume o: "\<not> (a + c \<le> s \<or> s + n \<le> a)"
    have "0 < c" using ok that by blast
    then have "a \<le> max a s" "max a s < a + c" using o by auto
    then have "in_use live (max a s)" unfolding in_use_def using that by blast
    moreover have "s \<le> max a s" "max a s < s + n" using o assms(2) by auto
    ultimately show False using assms(4) by blast
  qed
  have heads: "a * BuffSize p \<noteq> s * BuffSize p" if "live a = Some c" for a c using that none assms(5) by auto
  have shape: "pool_shape ?p'" using ok fl(1) by (simp add: pool_shape_def)
  have "0 < c \<and> a + c \<le> 64 * FlagsCount ?p' \<and> Heads ?p' (a * BuffSize ?p') =
      \<lparr> ownerPool = pool_id ?p', flagOffset = a div 64, bitOffset = a mod 64, bitCount = c mod 65536 \<rparr>" if "?live' a = Some c" for a c
    using that ok assms(2,3) heads [of a c] by (cases "a = s") auto
  moreover have "a + c \<le> a'" if "?live' a = Some c" "?live' a' = Some c'" "a < a'" for a c a' c'
  proof (cases "a = s")
    case True
    then have "live a' = Some c'" "0 < c'" "c = n" using that ok by auto
    then show ?thesis using apart [of a' c'] True that(3) by auto
  next
    case False
    then have l: "live a = Some c" using that(1) by simp
    show ?thesis
    proof (cases "a' = s")
      case True
      then show ?thesis using apart [OF l] that(3) assms(2) by auto
    next
      case ne: False
      then have l': "live a' = Some c'" using that(2) by simp
      show ?thesis using ok l l' that(3) by blast
    qed
  qed
  moreover have bits: "flag_bit (Flags ?p') i \<longleftrightarrow> \<not> in_use ?live' i" if "i < 64 * FlagsCount ?p'" for i
    using ok that assms(4) by (auto simp: fl(2) in_use_take [where live = live and s = s, OF none])
  moreover have "card {i. i < 64 * FlagsCount p \<and> flag_bit (Flags p) i} = card {i. i < 64 * FlagsCount p \<and> flag_bit fl i} + n"
    using ok assms(3,4) by (intro card_range_out [where s = s]) (auto simp: fl(2))
  then have "unused_bits ?p' = int (card {i. i < 64 * FlagsCount ?p' \<and> flag_bit (Flags ?p') i})" using ok by simp
  ultimately show ?thesis unfolding pool_ok_def using shape by blast
qed

text \<open>The free run taken, at block \<open>s\<close>.\<close>

lemma alloc_ok:
  assumes "pool_ok p live" "sz < 1073741824" "membuff_alloc p sz = (r, p')"
  defines "n \<equiv> blocks_for (BuffSize p) sz"
  shows "(r = None \<and> p' = p \<and> (\<forall>i. \<not> run_at (Flags p) n i)) \<or>
    (\<exists>s. r = Some (s * BuffSize p + MBUF_HDRSIZE) \<and> run_at (Flags p) n s \<and> (\<forall>i < s. \<not> run_at (Flags p) n i) \<and>
        pool_ok p' (live(s \<mapsto> n)) \<and> BuffSize p' = BuffSize p \<and> pool_id p' = pool_id p)"
proof -
  note ok = assms(1) [unfolded pool_ok_def]
  have shape: "pool_shape p" using ok by blast
  then obtain k where k: "BuffSize p = 2 ^ k" "7 \<le> k" "k \<le> 12" by (auto simp: pool_shape_def)
  have "(2 :: nat) ^ k \<le> 2 ^ 12" using k(3) by (intro power_increasing) simp_all
  then have B: "0 < BuffSize p" "BuffSize p \<le> 4096" using k(1) by simp_all
  have L: "length (Flags p) = FlagsCount p" "FlagsCount p \<le> 4096" using shape by (simp_all add: pool_shape_def)
  let ?M = "64 * FlagsCount p"
  have n0: "0 < n" using blocks_for_enough [OF B(1), of sz] by (intro gr0I) (simp add: n_def MBUF_HDRSIZE_def)
  have few: "\<not> run_at (Flags p) n i" if "int n > int ?M \<or> int n > unused_bits p" for i
  proof
    assume r: "run_at (Flags p) n i"
    then have "i + n \<le> ?M" "{i..<i + n} \<subseteq> {j. j < ?M \<and> flag_bit (Flags p) j}" using L(1) by (auto simp: run_at_def)
    moreover from this(2) have "card {i..<i + n} \<le> card {j. j < ?M \<and> flag_bit (Flags p) j}" by (intro card_mono) simp_all
    ultimately show False using that ok by auto
  qed
  show ?thesis
  proof (cases "int n > int ?M \<or> int n > unused_bits p")
    case True
    then show ?thesis using few assms(3) unfolding alloc_unfold [OF shape assms(2)] by (auto simp: n_def Let_def)
  next
    case False
    obtain fo sb where f: "FFS64_flags_find_setbits (Flags p) 0 (int n) = (fo, sb)" by force
    note ff = find_first [OF n0 _ f]
    show ?thesis
    proof (cases "sb = 0")
      case True
      then show ?thesis using ff False assms(3) f unfolding alloc_unfold [OF shape assms(2)] by (auto simp: n_def [symmetric] Let_def)
    next
      case nz: False
      define s where "s = fo * 64 + (sb - 1)"
      have s: "sb \<le> 64" "fo < length (Flags p)" "run_at (Flags p) n s" "\<forall>i < s. \<not> run_at (Flags p) n i"
        using ff nz by (auto simp: s_def bitpos_def mult.commute)
      have sn: "s + n \<le> ?M" using s(3) L(1) by (simp add: run_at_def)
      have "s * BuffSize p \<le> 262144 * 4096" using sn L(2) B(2) by (intro mult_le_mono) simp_all
      then have off: "u32 (s * BuffSize p) = s * BuffSize p" by (simp add: u32_def)
      have sm: "(sb - 1) mod 65536 = s mod 64" "fo = s div 64"
      proof -
        obtain j where "sb = Suc j" using nz by (cases sb) auto
        then show "(sb - 1) mod 65536 = s mod 64" "fo = s div 64" using s(1) by (simp_all add: s_def)
      qed
      let ?fl = "FFS64_flags_mask_bits (Flags p) fo (sb - 1) n False"
      have hdr: "\<lparr> ownerPool = pool_id p, flagOffset = fo, bitOffset = (sb - 1) mod 65536, bitCount = n mod 65536 \<rparr> =
          \<lparr> ownerPool = pool_id p, flagOffset = s div 64, bitOffset = s mod 64, bitCount = n mod 65536 \<rparr>"
        unfolding sm(1) sm(2) [symmetric] ..
      have "(r, p') = (Some (u32 (s * BuffSize p) + MBUF_HDRSIZE),
          p\<lparr>Heads := (Heads p)(u32 (s * BuffSize p) := \<lparr> ownerPool = pool_id p, flagOffset = s div 64, bitOffset = s mod 64, bitCount = n mod 65536 \<rparr>),
            Flags := ?fl, unused_bits := unused_bits p - int n\<rparr>)"
        using assms(3) False nz unfolding alloc_unfold [OF shape assms(2)] n_def [symmetric] Let_def f prod.case hdr s_def [symmetric]
        by simp
      then have r: "r = Some (s * BuffSize p + MBUF_HDRSIZE)"
        and p': "p' = p\<lparr>Heads := (Heads p)(s * BuffSize p := \<lparr> ownerPool = pool_id p, flagOffset = s div 64, bitOffset = s mod 64, bitCount = n mod 65536 \<rparr>),
            Flags := ?fl, unused_bits := unused_bits p - int n\<rparr>"
        unfolding off by simp_all
      have fl: "length ?fl = length (Flags p)" "flag_bit ?fl i = (if s \<le> i \<and> i < s + n then False else flag_bit (Flags p) i)" for i
        using mask_bits_effect [OF s(2), of "sb - 1" n False] s(1) nz sn L(1) by (simp_all add: s_def mult.commute add.assoc)
      have fresh: "\<not> in_use live i" if "s \<le> i" "i < s + n" for i
        using s(3) that ok sn by (auto simp: run_at_def)
      have "pool_ok p' (live(s \<mapsto> n))" unfolding p' by (rule take_run [OF assms(1) n0 sn fresh B(1) fl])
      then show ?thesis using r s(3,4) p' by auto
    qed
  qed
qed

lemma in_use_drop:
  assumes "live s = Some c" "\<And>a d b e. live a = Some d \<Longrightarrow> live b = Some e \<Longrightarrow> a < b \<Longrightarrow> a + d \<le> b"
  shows "in_use (live(s := None)) i \<longleftrightarrow> in_use live i \<and> \<not> (s \<le> i \<and> i < s + c)"
proof
  assume "in_use (live(s := None)) i"
  then obtain a d where a: "(live(s := None)) a = Some d" "a \<le> i" "i < a + d" by (auto simp: in_use_def)
  then have l: "live a = Some d" "a \<noteq> s" by (auto split: if_splits)
  then have "s + c \<le> a \<or> a + d \<le> s" using assms(2) [OF l(1) assms(1)] assms(2) [OF assms(1) l(1)] by (cases "a < s") auto
  then show "in_use live i \<and> \<not> (s \<le> i \<and> i < s + c)" using l a unfolding in_use_def by fastforce
next
  assume h: "in_use live i \<and> \<not> (s \<le> i \<and> i < s + c)"
  then obtain a d where a: "live a = Some d" "a \<le> i" "i < a + d" by (auto simp: in_use_def)
  then have "a \<noteq> s" using h assms(1) by auto
  then show "in_use (live(s := None)) i" using a unfolding in_use_def by (metis fun_upd_apply)
qed

lemma free_ok:
  assumes "pool_ok p live" "live s = Some c" "c < 65536" "membuff_free (pool_id p) p (Some (s * BuffSize p + MBUF_HDRSIZE)) = (r, p')"
  shows "r = None \<and> pool_ok p' (live(s := None)) \<and> BuffSize p' = BuffSize p \<and> pool_id p' = pool_id p"
proof -
  note ok = assms(1) [unfolded pool_ok_def]
  have shape: "pool_shape p" using ok by blast
  let ?M = "64 * FlagsCount p"
  have L: "length (Flags p) = FlagsCount p" "FlagsCount p \<le> 4096" "PoolSize p = BuffSize p * ?M"
    using shape by (simp_all add: pool_shape_def)
  obtain k where k: "BuffSize p = 2 ^ k" "k \<le> 12" using shape by (auto simp: pool_shape_def)
  then have "BuffSize p \<le> 2 ^ 12" by (metis one_le_numeral power_increasing)
  then have B: "BuffSize p \<le> 4096" by simp
  have c: "0 < c" "s + c \<le> ?M"
    "Heads p (s * BuffSize p) = \<lparr> ownerPool = pool_id p, flagOffset = s div 64, bitOffset = s mod 64, bitCount = c \<rparr>"
    using ok assms(2,3) by fastforce+
  have apart: "a + d \<le> b" if "live a = Some d" "live b = Some e" "a < b" for a d b e using ok that by blast
  have "BuffSize p * c \<le> 4096 * 65536" using B assms(3) by (intro mult_le_mono) simp_all
  then have u: "u32 (BuffSize p * c) = BuffSize p * c" by (simp add: u32_def)
  have "(s + c) * BuffSize p \<le> ?M * BuffSize p" using c(2) by (rule mult_le_mono1)
  then have inside: "s * BuffSize p + BuffSize p * c \<le> PoolSize p" unfolding L(3) by (simp add: algebra_simps)
  let ?fl = "FFS64_flags_mask_bits (Flags p) (s div 64) (s mod 64) c True"
  have r: "r = None" and p': "p' = p\<lparr>Flags := ?fl, unused_bits := unused_bits p + int c\<rparr>"
    using assms(4) c(3) inside u by (simp_all add: membuff_free_def Let_def)
  have "s div 64 < length (Flags p)" using c L(1) by auto
  then have fl: "length ?fl = length (Flags p)" "flag_bit ?fl i = (if s \<le> i \<and> i < s + c then True else flag_bit (Flags p) i)" for i
    using mask_bits_effect [of "s div 64" "Flags p" "s mod 64" c True] c(2) L(1) by simp_all
  let ?live' = "live(s := None)"
  have shape': "pool_shape p'" using shape fl(1) by (simp add: pool_shape_def p')
  have flag: "flag_bit (Flags p) i \<longleftrightarrow> \<not> in_use live i" if "i < ?M" for i using ok that by blast
  have bits: "flag_bit (Flags p') i \<longleftrightarrow> \<not> in_use ?live' i" if "i < 64 * FlagsCount p'" for i
    using flag [of i] that by (auto simp: p' fl(2) in_use_drop [where live = live and s = s and c = c, OF assms(2) apart])
  have busy: "\<not> flag_bit (Flags p) i" if "s \<le> i" "i < s + c" for i
  proof -
    have "in_use live i" using that assms(2) by (auto simp: in_use_def)
    then show ?thesis using flag [of i] that c(2) by simp
  qed
  have "card {i. i < ?M \<and> flag_bit ?fl i} = card {i. i < ?M \<and> flag_bit (Flags p) i} + c"
    using c(2) busy by (intro card_range_out [where s = s]) (auto simp: fl(2))
  then have unused: "unused_bits p' = int (card {i. i < 64 * FlagsCount p' \<and> flag_bit (Flags p') i})" using ok by (simp add: p')
  have each: "0 < d \<and> a + d \<le> 64 * FlagsCount p' \<and> Heads p' (a * BuffSize p') =
      \<lparr> ownerPool = pool_id p', flagOffset = a div 64, bitOffset = a mod 64, bitCount = d mod 65536 \<rparr>" if "?live' a = Some d" for a d
    using ok that by (auto simp: p' split: if_splits)
  have "a + d \<le> b" if "?live' a = Some d" "?live' b = Some e" "a < b" for a d b e
    using apart that by (auto split: if_splits)
  then have "pool_ok p' ?live'" unfolding pool_ok_def using shape' each bits unused by blast
  then show ?thesis using r by (simp add: p')
qed

section \<open>The pool as an allocator\<close>

text \<open>
  What the client holds, pointers with the sizes asked for, as runs of blocks.  Requests below
  \<open>MBUF_REQUEST_MAX\<close> have less than 65536 blocks for every block size.
\<close>

definition MBUF_REQUEST_MAX :: nat where
  "MBUF_REQUEST_MAX = 8388465"

definition held_blocks :: "nat \<Rightarrow> (nat \<Rightarrow> nat option) \<Rightarrow> nat \<Rightarrow> nat option" where
  "held_blocks B held s = map_option (blocks_for B) (held (s * B + MBUF_HDRSIZE))"

definition pool_serves :: "membuff_pool_t \<Rightarrow> (nat \<Rightarrow> nat option) \<Rightarrow> bool" where
  "pool_serves p held \<longleftrightarrow> pool_ok p (held_blocks (BuffSize p) held) \<and>
     (\<forall>q sz. held q = Some sz \<longrightarrow> sz < MBUF_REQUEST_MAX \<and> (\<exists>s. q = s * BuffSize p + MBUF_HDRSIZE))"

definition pool_release :: "membuff_pool_t \<Rightarrow> nat \<Rightarrow> membuff_pool_t" where
  "pool_release p q = snd (membuff_free (pool_id p) p (Some q))"

lemma held_blocks_upd:
  assumes "0 < B"
  shows "held_blocks B (held(s * B + MBUF_HDRSIZE := x)) = (held_blocks B held)(s := map_option (blocks_for B) x)"
  using assms by (auto simp: held_blocks_def fun_eq_iff)

lemma pool_shape_B: "pool_shape p \<Longrightarrow> 128 \<le> BuffSize p"
proof -
  assume "pool_shape p"
  then obtain k where k: "BuffSize p = 2 ^ k" "7 \<le> k" by (auto simp: pool_shape_def)
  then have "(2 :: nat) ^ 7 \<le> BuffSize p" by (metis one_le_numeral power_increasing)
  then show ?thesis by simp
qed

lemma small_request: "128 \<le> B \<Longrightarrow> sz < MBUF_REQUEST_MAX \<Longrightarrow> blocks_for B sz < 65536"
proof -
  assume B: "128 \<le> B" and sz: "sz < MBUF_REQUEST_MAX"
  have "sz + 16 + B - 1 < 65536 * B" using B sz unfolding MBUF_REQUEST_MAX_def by linarith
  then show ?thesis unfolding blocks_for_def MBUF_HDRSIZE_def by (intro less_mult_imp_div_less)
qed

lemma pool_serves_held:
  assumes "pool_serves p held" "held q = Some sz"
  obtains s where "q = s * BuffSize p + MBUF_HDRSIZE" "held_blocks (BuffSize p) held s = Some (blocks_for (BuffSize p) sz)"
    "s * BuffSize p + MBUF_HDRSIZE + sz \<le> (s + blocks_for (BuffSize p) sz) * BuffSize p"
    "s + blocks_for (BuffSize p) sz \<le> 64 * FlagsCount p" "sz < MBUF_REQUEST_MAX"
proof -
  from assms obtain s where s: "q = s * BuffSize p + MBUF_HDRSIZE" "sz < MBUF_REQUEST_MAX" by (auto simp: pool_serves_def)
  then have b: "held_blocks (BuffSize p) held s = Some (blocks_for (BuffSize p) sz)" using assms(2) by (simp add: held_blocks_def)
  have ok: "pool_ok p (held_blocks (BuffSize p) held)" using assms(1) by (simp add: pool_serves_def)
  then have B: "128 \<le> BuffSize p" using pool_shape_B by (simp add: pool_ok_def)
  then have "sz + MBUF_HDRSIZE \<le> blocks_for (BuffSize p) sz * BuffSize p" by (intro blocks_for_enough) simp
  then have "s * BuffSize p + MBUF_HDRSIZE + sz \<le> (s + blocks_for (BuffSize p) sz) * BuffSize p" by (simp add: algebra_simps)
  moreover have "s + blocks_for (BuffSize p) sz \<le> 64 * FlagsCount p" using ok b by (simp add: pool_ok_def)
  ultimately show thesis using that s b by blast
qed

lemma serves_disjoint:
  assumes "pool_serves p held" "held a = Some n" "held b = Some m" "a < b"
  shows "a + n \<le> b"
proof -
  let ?B = "BuffSize p"
  obtain s where s: "a = s * ?B + MBUF_HDRSIZE" "held_blocks ?B held s = Some (blocks_for ?B n)"
      "s * ?B + MBUF_HDRSIZE + n \<le> (s + blocks_for ?B n) * ?B"
    using pool_serves_held [OF assms(1,2)] by metis
  obtain t where t: "b = t * ?B + MBUF_HDRSIZE" "held_blocks ?B held t = Some (blocks_for ?B m)"
    using pool_serves_held [OF assms(1,3)] by metis
  have "s < t" using assms(4) s(1) t(1) by simp
  moreover have "pool_ok p (held_blocks ?B held)" using assms(1) by (simp add: pool_serves_def)
  ultimately have "s + blocks_for ?B n \<le> t" using s(2) t(2) unfolding pool_ok_def by blast
  then have "(s + blocks_for ?B n) * ?B \<le> t * ?B" by (rule mult_le_mono1)
  then show ?thesis using s(1,3) t(1) by linarith
qed

lemma serves_inside:
  assumes "pool_serves p held" "held a = Some n"
  shows "a + n \<le> PoolSize p"
proof -
  let ?B = "BuffSize p"
  obtain s where s: "a = s * ?B + MBUF_HDRSIZE" "s * ?B + MBUF_HDRSIZE + n \<le> (s + blocks_for ?B n) * ?B"
      "s + blocks_for ?B n \<le> 64 * FlagsCount p"
    using pool_serves_held [OF assms] by metis
  have "(s + blocks_for ?B n) * ?B \<le> 64 * FlagsCount p * ?B" using s(3) by (rule mult_le_mono1)
  moreover have "64 * FlagsCount p * ?B = PoolSize p"
    using assms(1) by (simp add: pool_serves_def pool_ok_def pool_shape_def)
  ultimately show ?thesis using s(1,2) by (metis le_trans)
qed

lemma alloc_keeps_size: "membuff_alloc p sz = (r, p') \<Longrightarrow> PoolSize p' = PoolSize p"
  by (auto simp: membuff_alloc_def Let_def split: if_splits prod.splits)

lemma serves_alloc_some:
  assumes "pool_serves p held" "sz < MBUF_REQUEST_MAX" "membuff_alloc p sz = (Some q, p')"
  shows "held q = None \<and> pool_serves p' (held(q \<mapsto> sz)) \<and> PoolSize p' = PoolSize p"
proof -
  let ?B = "BuffSize p"
  have ok: "pool_ok p (held_blocks ?B held)" using assms(1) by (simp add: pool_serves_def)
  have B: "128 \<le> ?B" using ok pool_shape_B by (simp add: pool_ok_def)
  have "sz < 1073741824" using assms(2) by (simp add: MBUF_REQUEST_MAX_def)
  from alloc_ok [OF ok this assms(3)] obtain s where s: "q = s * ?B + MBUF_HDRSIZE" "run_at (Flags p) (blocks_for ?B sz) s"
      "pool_ok p' ((held_blocks ?B held)(s \<mapsto> blocks_for ?B sz))" "BuffSize p' = ?B" by auto
  have "pool_ok p' (held_blocks ?B (held(q \<mapsto> sz)))" using s(3) B by (simp add: s(1) held_blocks_upd)
  moreover have "held q = None"
  proof (rule ccontr)
    assume "held q \<noteq> None"
    then obtain n where n: "held_blocks ?B held s = Some n" by (auto simp: held_blocks_def s(1))
    then have "0 < n" "s + n \<le> 64 * FlagsCount p" using ok by (auto simp: pool_ok_def)
    then have "in_use (held_blocks ?B held) s" "s < 64 * FlagsCount p" using n unfolding in_use_def by fastforce+
    then have "\<not> flag_bit (Flags p) s" using ok by (simp add: pool_ok_def)
    moreover have "0 < blocks_for ?B sz" using blocks_for_enough [of ?B sz] B by (intro gr0I) (simp add: MBUF_HDRSIZE_def)
    ultimately show False using s(2) by (simp add: run_at_def)
  qed
  ultimately show ?thesis using assms(1,2) s(1,4) alloc_keeps_size [OF assms(3)] by (auto simp: pool_serves_def)
qed

lemma serves_alloc_none:
  assumes "pool_serves p held" "sz < MBUF_REQUEST_MAX" "membuff_alloc p sz = (None, p')"
  shows "pool_serves p' held \<and> PoolSize p' = PoolSize p"
proof -
  have "pool_ok p (held_blocks (BuffSize p) held)" "sz < 1073741824"
    using assms(1,2) by (simp_all add: pool_serves_def MBUF_REQUEST_MAX_def)
  from alloc_ok [OF this assms(3)] have "p' = p" by auto
  then show ?thesis using assms(1) by simp
qed

lemma serves_release:
  assumes "pool_serves p held" "held q = Some n"
  shows "pool_serves (pool_release p q) (held(q := None)) \<and> PoolSize (pool_release p q) = PoolSize p"
proof -
  let ?B = "BuffSize p"
  have ok: "pool_ok p (held_blocks ?B held)" using assms(1) by (simp add: pool_serves_def)
  have B: "128 \<le> ?B" using ok pool_shape_B by (simp add: pool_ok_def)
  obtain s where s: "q = s * ?B + MBUF_HDRSIZE" "held_blocks ?B held s = Some (blocks_for ?B n)" "n < MBUF_REQUEST_MAX"
    using pool_serves_held [OF assms] by metis
  obtain r p' where f: "membuff_free (pool_id p) p (Some (s * ?B + MBUF_HDRSIZE)) = (r, p')" by force
  note fo = free_ok [OF ok s(2) small_request [OF B s(3)] f]
  have e: "pool_release p q = p'" using f by (simp add: pool_release_def s(1))
  have "PoolSize p' = PoolSize p" using f by (auto simp: membuff_free_def Let_def split: if_splits)
  moreover have "held_blocks ?B (held(q := None)) = (held_blocks ?B held)(s := None)" using B by (simp add: s(1) held_blocks_upd)
  ultimately show ?thesis using fo assms(1) e by (auto simp: pool_serves_def)
qed

interpretation mb: buffer_allocator pool_serves membuff_alloc pool_release PoolSize MBUF_REQUEST_MAX
  by unfold_locales (fact serves_disjoint serves_inside serves_alloc_some serves_alloc_none serves_release)+

text \<open>A new pool serves nobody, and a pool that serves nobody has all its blocks.\<close>

lemma create_serves:
  assumes "membuff_pool_create pid bsz cnt = Some p" "BuffSize p = 2 ^ k" "7 \<le> k"
  shows "pool_serves p (\<lambda>_. None)"
proof -
  have "held_blocks (BuffSize p) (\<lambda>_. None) = (\<lambda>_. None)" by (simp add: held_blocks_def fun_eq_iff)
  then show ?thesis using create_ok [OF assms] by (simp add: pool_serves_def)
qed

lemma all_returned:
  assumes "pool_serves p (\<lambda>_. None)"
  shows "unused_bits p = int (64 * FlagsCount p) \<and> (\<forall>i < 64 * FlagsCount p. flag_bit (Flags p) i)"
proof -
  have e: "held_blocks (BuffSize p) (\<lambda>_. None) = (\<lambda>_. None)" by (simp add: held_blocks_def fun_eq_iff)
  have ok: "pool_ok p (\<lambda>_. None)" using assms by (simp add: pool_serves_def e)
  then have "\<forall>i < 64 * FlagsCount p. flag_bit (Flags p) i" by (simp add: pool_ok_def in_use_def)
  moreover from this have "{i. i < 64 * FlagsCount p \<and> flag_bit (Flags p) i} = {..<64 * FlagsCount p}" by auto
  ultimately show ?thesis using ok by (simp add: pool_ok_def)
qed

text \<open>A run of free blocks, in terms of what the client holds.\<close>

definition room_for :: "membuff_pool_t \<Rightarrow> (nat \<Rightarrow> nat option) \<Rightarrow> nat \<Rightarrow> nat \<Rightarrow> bool" where
  "room_for p held n s \<longleftrightarrow> s + n \<le> 64 * FlagsCount p \<and>
     (\<forall>t sz. held (t * BuffSize p + MBUF_HDRSIZE) = Some sz \<longrightarrow> s + n \<le> t \<or> t + blocks_for (BuffSize p) sz \<le> s)"

lemma run_at_room:
  assumes "pool_serves p held" "0 < n"
  shows "run_at (Flags p) n s \<longleftrightarrow> room_for p held n s"
proof -
  let ?L = "held_blocks (BuffSize p) held"
  have ok: "pool_ok p ?L" using assms(1) by (simp add: pool_serves_def)
  have L: "length (Flags p) = FlagsCount p" using ok by (simp add: pool_ok_def pool_shape_def)
  have bit: "flag_bit (Flags p) i \<longleftrightarrow> \<not> in_use ?L i" if "i < 64 * FlagsCount p" for i using ok that by (simp add: pool_ok_def)
  have some: "?L t = Some c \<longleftrightarrow> (\<exists>sz. held (t * BuffSize p + MBUF_HDRSIZE) = Some sz \<and> c = blocks_for (BuffSize p) sz)" for t c
    by (auto simp: held_blocks_def)
  have pos: "0 < c" if "?L t = Some c" for t c using ok that by (simp add: pool_ok_def)
  have "(\<forall>j \<in> {s..<s + n}. \<not> in_use ?L j) \<longleftrightarrow> (\<forall>t c. ?L t = Some c \<longrightarrow> s + n \<le> t \<or> t + c \<le> s)" (is "?free \<longleftrightarrow> ?apart")
  proof
    assume f: ?free
    show ?apart
    proof (intro allI impI)
      fix t c assume t: "?L t = Some c"
      show "s + n \<le> t \<or> t + c \<le> s"
      proof (rule ccontr)
        assume "\<not> (s + n \<le> t \<or> t + c \<le> s)"
        then have "max s t \<in> {s..<s + n}" "t \<le> max s t" "max s t < t + c" using pos [OF t] assms(2) by auto
        then show False using f t unfolding in_use_def by blast
      qed
    qed
  next
    assume ?apart
    then show ?free by (force simp: in_use_def)
  qed
  then show ?thesis using bit L some unfolding run_at_def room_for_def
    by (smt (verit) atLeastLessThan_iff less_le_trans)
qed

section \<open>New pools\<close>

lemma fresh_find:
  assumes "0 < n" "n \<le> 64 * m"
  shows "FFS64_flags_find_setbits (replicate m FFS64_MAX) 0 (int n) = (0, 1)"
proof -
  obtain p off where f: "FFS64_flags_find_setbits (replicate m FFS64_MAX) 0 (int n) = (p, off)" by force
  have "flag_bit (replicate m FFS64_MAX) j" if "j < 64 * m" for j
    using that by (simp add: flag_bit_def max_bits less_mult_imp_div_less)
  then have r: "run_at (replicate m FFS64_MAX) n 0" using assms(2) by (simp add: run_at_def)
  note ff = find_first [OF assms(1) _ f]
  then have nz: "off \<noteq> 0" using r by (auto split: if_splits)
  then have "\<not> 0 < bitpos (p, off)" using ff r by auto
  then show ?thesis using f nz by (cases off) (auto simp: bitpos_def)
qed

lemma fresh_pool:
  assumes "membuff_pool_create pid bsz cnt = Some p"
  shows "pool_id p = pid \<and> Flags p = replicate (FlagsCount p) FFS64_MAX \<and> unused_bits p = int (64 * FlagsCount p)"
  using assms by (auto simp: membuff_pool_create_def Let_def split: if_splits)

lemma fresh_alloc:
  assumes "membuff_pool_create pid bsz cnt = Some p" "BuffSize p = 2 ^ k" "7 \<le> k"
    "sz < 1073741824" "blocks_for (BuffSize p) sz \<le> 64 * FlagsCount p"
  shows "\<exists>p'. membuff_alloc p sz = (Some 16, p') \<and> pool_ok p' [0 \<mapsto> blocks_for (BuffSize p) sz] \<and> BuffSize p' = BuffSize p \<and> pool_id p' = pid
    \<and> FlagsCount p' = FlagsCount p \<and> unused_bits p' = int (64 * FlagsCount p) - int (blocks_for (BuffSize p) sz)"
proof -
  let ?n = "blocks_for (BuffSize p) sz"
  note ok = create_ok [OF assms(1,2,3)] and fp = fresh_pool [OF assms(1)]
  have shape: "pool_shape p" using ok by (simp add: pool_ok_def)
  have "0 < ?n" using blocks_for_enough [of "BuffSize p" sz] pool_shape_B [OF shape] by (intro gr0I) (simp add: MBUF_HDRSIZE_def)
  then have f: "FFS64_flags_find_setbits (Flags p) 0 (int ?n) = (0, 1)" using fresh_find assms(5) fp by simp
  obtain r p' where a: "membuff_alloc p sz = (r, p')" by force
  have u: "u32 (BuffSize p * 0) = 0" by (simp add: u32_def)
  have e: "r = Some 16" "FlagsCount p' = FlagsCount p" "unused_bits p' = unused_bits p - int ?n"
    using a assms(5) fp unfolding alloc_unfold [OF shape assms(4)] Let_def f by (auto simp: MBUF_HDRSIZE_def u32_def)
  from alloc_ok [OF ok assms(4) a] e(1) obtain s where s: "16 = s * BuffSize p + MBUF_HDRSIZE" "pool_ok p' ((\<lambda>_. None)(s \<mapsto> ?n))"
      "BuffSize p' = BuffSize p" "pool_id p' = pool_id p" by auto
  have "s = 0" using s(1) pool_shape_B [OF shape] by (simp add: MBUF_HDRSIZE_def)
  then show ?thesis using a e s fp by simp
qed

section \<open>Properties\<close>


definition sample_pool :: membuff_pool_t where
  "sample_pool = the (membuff_pool_create 1 128 64)"

lemma sample_create: "membuff_pool_create 1 128 64 = Some sample_pool" "BuffSize sample_pool = 2 ^ 7" "FlagsCount sample_pool = 1"
  by (simp_all add: sample_pool_def membuff_pool_create_def MBUF_AlignUpSize_def MBUF_ALIGN_SIZE_def u32_def MBUF_BSIZE_MAX_def
      MBUF_FLAGS_MAX_def MBUF_POOL_SIZE_MAX_def)

lemma sample_blocks: "blocks_for 128 300 = 3" "blocks_for 128 368 = 3" by (simp_all add: blocks_for_def MBUF_HDRSIZE_def)


text \<open>
  A buffer of 65536 blocks or more, from a new pool, is leaked: \<open>bitCount\<close> of the header has 16 bits.  The
  pool hands it out, \<open>membuff_free\<close> reports success, and all but the remainder modulo 65536 of its blocks stay
  in use for good.
\<close>

theorem large_buffer_leaks:
  assumes "membuff_pool_create pid bsz cnt = Some p0" "BuffSize p0 = 2 ^ k" "7 \<le> k" "sz < 1073741824"
    "65536 \<le> blocks_for (BuffSize p0) sz" "blocks_for (BuffSize p0) sz \<le> 64 * FlagsCount p0"
  shows "\<exists>p1 p2. membuff_alloc p0 sz = (Some 16, p1) \<and> membuff_free pid p1 (Some 16) = (None, p2)
    \<and> unused_bits p2 = int (64 * FlagsCount p0) - int (blocks_for (BuffSize p0) sz div 65536 * 65536)
    \<and> unused_bits p2 < unused_bits p0"
proof -
  let ?n = "blocks_for (BuffSize p0) sz"
  obtain p1 where a: "membuff_alloc p0 sz = (Some 16, p1)" "pool_ok p1 [0 \<mapsto> ?n]" "BuffSize p1 = BuffSize p0" "pool_id p1 = pid"
      "FlagsCount p1 = FlagsCount p0" "unused_bits p1 = int (64 * FlagsCount p0) - int ?n"
    using fresh_alloc [OF assms(1,2,3,4,6)] by blast
  have h: "Heads p1 0 = \<lparr> ownerPool = pid, flagOffset = 0, bitOffset = 0, bitCount = ?n mod 65536 \<rparr>"
    using pool_ok_head(3) [OF a(2), of 0 ?n] a(4) by simp
  have P: "PoolSize p1 = BuffSize p0 * (64 * FlagsCount p0)" using a(2,3,5) by (simp add: pool_ok_def pool_shape_def)
  have "?n mod 65536 \<le> 64 * FlagsCount p0" using assms(6) by (metis le_trans mod_less_eq_dividend)
  then have "BuffSize p0 * (?n mod 65536) \<le> PoolSize p1" unfolding P by (rule mult_le_mono2)
  then have "u32 (BuffSize p0 * (?n mod 65536)) \<le> PoolSize p1" unfolding u32_def by (metis le_trans mod_less_eq_dividend)
  then have f: "fst (membuff_free pid p1 (Some 16)) = None"
      "unused_bits (snd (membuff_free pid p1 (Some 16))) = unused_bits p1 + int (?n mod 65536)"
    using h a(3) by (simp_all add: membuff_free_def MBUF_HDRSIZE_def Let_def)
  have "?n = ?n div 65536 * 65536 + ?n mod 65536" by simp
  then have e: "int ?n = int (?n div 65536 * 65536) + int (?n mod 65536)" by linarith
  have "unused_bits p1 + int (?n mod 65536) = int (64 * FlagsCount p0) - int (?n div 65536 * 65536)" using a(6) e by linarith
  moreover have "1 \<le> ?n div 65536" using div_le_mono [OF assms(5), of 65536] by simp
  then have "0 < int (?n div 65536 * 65536)" by simp
  ultimately have "unused_bits (snd (membuff_free pid p1 (Some 16))) = int (64 * FlagsCount p0) - int (?n div 65536 * 65536)"
      "unused_bits (snd (membuff_free pid p1 (Some 16))) < unused_bits p0"
    unfolding f(2) using fresh_pool [OF assms(1)] by linarith+
  then show ?thesis using a(1) f(1) by (metis prod.collapse)
qed

lemma large_buffer_leaks_witness:
  "\<exists>p0 p1 p2. membuff_pool_create 1 128 65536 = Some p0 \<and> membuff_alloc p0 8388592 = (Some 16, p1)
    \<and> membuff_free 1 p1 (Some 16) = (None, p2) \<and> unused_bits p2 = 0"
proof -
  obtain p0 where p: "membuff_pool_create 1 128 65536 = Some p0" "BuffSize p0 = 2 ^ 7" "FlagsCount p0 = 1024"
    by (simp add: membuff_pool_create_def MBUF_AlignUpSize_def MBUF_ALIGN_SIZE_def u32_def MBUF_BSIZE_MAX_def
        MBUF_FLAGS_MAX_def MBUF_POOL_SIZE_MAX_def)
  have n: "blocks_for (BuffSize p0) 8388592 = 65536" using p(2) by (simp add: blocks_for_def MBUF_HDRSIZE_def)
  have "\<exists>p1 p2. membuff_alloc p0 8388592 = (Some 16, p1) \<and> membuff_free 1 p1 (Some 16) = (None, p2)
    \<and> unused_bits p2 = int (64 * FlagsCount p0) - int (blocks_for (BuffSize p0) 8388592 div 65536 * 65536)
    \<and> unused_bits p2 < unused_bits p0"
    by (rule large_buffer_leaks [OF p(1,2)]) (simp_all add: n p(3))
  then show ?thesis using p(1) by (auto simp: n p(3))
qed

text \<open>
  A block size of 384 bytes, a multiple of 128 as \<open>membuff.h\<close> asks for, is not a power of two, and
  \<open>MBUF_AlignUpSize\<close> masks with it all the same.  A request for 100 bytes from a new pool gets NULL with 64 free
  blocks, and two requests for 500 bytes get buffers 384 bytes apart.
\<close>

theorem odd_block_size:
  assumes "membuff_pool_create pid 384 64 = Some p"
  shows "fst (membuff_alloc p 100) = None \<and> fst (membuff_alloc p 500) = Some 16
    \<and> fst (membuff_alloc (snd (membuff_alloc p 500)) 500) = Some 400"
proof -
  have p: "BuffSize p = 384" "FlagsCount p = 1" "unused_bits p = 64" "Flags p = [FFS64_MAX]"
    using assms by (auto simp: membuff_pool_create_def MBUF_AlignUpSize_def MBUF_ALIGN_SIZE_def u32_def MBUF_BSIZE_MAX_def
        MBUF_FLAGS_MAX_def MBUF_POOL_SIZE_MAX_def)
  have al: "MBUF_AlignUpSize 116 384 = 128" "MBUF_AlignUpSize 516 384 = 640" by (simp_all add: MBUF_AlignUpSize_def)
  have one: "FFS64_flags_find_setbits [FFS64_MAX] 0 1 = (0, 1)" using fresh_find [of 1 1] by simp
  define fl where "fl = FFS64_flags_mask_bits [FFS64_MAX] 0 0 1 False"
  have m: "length fl = 1" "flag_bit fl i = (if i < 1 then False else flag_bit [FFS64_MAX] i)" for i
    using mask_bits_effect [of 0 "[FFS64_MAX]" 0 1 False] by (simp_all add: fl_def)
  have b: "\<not> flag_bit fl 0" "flag_bit fl 1" unfolding m(2) by (simp_all add: flag_bit_def max_bits)
  obtain f off where f: "FFS64_flags_find_setbits fl 0 (int 1) = (f, off)" by force
  have r: "run_at fl 1 1" using b(2) m(1) by (simp add: run_at_def)
  note ff = find_first [OF _ _ f]
  have nz: "off \<noteq> 0" using ff r by (auto split: if_splits)
  have "\<not> 1 < bitpos (f, off)" "run_at fl 1 (bitpos (f, off))" "off \<le> 64" using ff r nz by auto
  then have "bitpos (f, off) = 1" using b(1) by (cases "bitpos (f, off)") (auto simp: run_at_def)
  then have two: "FFS64_flags_find_setbits fl 0 1 = (0, 2)" using f \<open>off \<le> 64\<close> nz
    by (cases off; cases f) (auto simp: bitpos_def)
  have none: "fst (membuff_alloc p 100) = None" using p by (simp add: membuff_alloc_def al MBUF_HDRSIZE_def)
  have first: "fst (membuff_alloc p 500) = Some 16" "Flags (snd (membuff_alloc p 500)) = fl" "BuffSize (snd (membuff_alloc p 500)) = 384"
      "FlagsCount (snd (membuff_alloc p 500)) = 1" "unused_bits (snd (membuff_alloc p 500)) = 63"
    using p one by (simp_all add: membuff_alloc_def al MBUF_HDRSIZE_def Let_def u32_def fl_def)
  then have "fst (membuff_alloc (snd (membuff_alloc p 500)) 500) = Some 400"
    using two by (simp add: membuff_alloc_def [of "snd (membuff_alloc p 500)"] al MBUF_HDRSIZE_def Let_def u32_def)
  then show ?thesis using none first by simp
qed

lemma odd_block_size_witness:
  "\<exists>p. membuff_pool_create 7 384 64 = Some p \<and> fst (membuff_alloc p 100) = None"
proof -
  obtain p where "membuff_pool_create 7 384 64 = Some p"
    by (simp add: membuff_pool_create_def MBUF_AlignUpSize_def MBUF_ALIGN_SIZE_def u32_def MBUF_BSIZE_MAX_def
        MBUF_FLAGS_MAX_def MBUF_POOL_SIZE_MAX_def)
  then show ?thesis using odd_block_size [of 7 p] by simp
qed

text \<open>\<open>membuff_calloc\<close> does not look at the overflow of its product.\<close>

lemma calloc_overflow:
  "membuff_calloc p 4294967296 4294967296 =
    (case membuff_alloc p 64 of (None, p') \<Rightarrow> (None, 0, p') | (Some q, p') \<Rightarrow> (Some q, 64, p'))"
  by (simp add: membuff_calloc_def MBUF_AlignUpSize_def size_wrap_def)

text \<open>
  Without overflow \<open>membuff_calloc\<close> sets to zero at least the bytes asked for and nothing
  outside the blocks of the buffer it returns, which it takes from the free ones.
\<close>

theorem membuff_calloc_zeroes:
  assumes "pool_ok p live" "cnt * sz < 1073741760" "membuff_calloc p cnt sz = (Some q, z, p')"
  shows "\<exists>s n. q = s * BuffSize p + MBUF_HDRSIZE \<and> run_at (Flags p) n s \<and> pool_ok p' (live(s \<mapsto> n))
    \<and> cnt * sz \<le> z \<and> q + z \<le> (s + n) * BuffSize p"
proof -
  define z0 where "z0 = MBUF_AlignUpSize (size_wrap (cnt * sz)) 64"
  have sw: "size_wrap (cnt * sz) = cnt * sz" using assms(2) by simp
  have "cnt * sz \<le> z0 \<and> z0 \<le> cnt * sz + 64"
  proof (cases "cnt * sz = 0")
    case True
    then show ?thesis unfolding z0_def sw True by (simp add: MBUF_AlignUpSize_def)
  next
    case False
    then have "z0 = (cnt * sz + 63) div 64 * 64" using align_up [of "cnt * sz" 6] assms(2) unfolding z0_def sw by simp
    moreover have "(cnt * sz + 63) div 64 * 64 + (cnt * sz + 63) mod 64 = cnt * sz + 63" "(cnt * sz + 63) mod 64 < 64" by simp_all
    ultimately show ?thesis by linarith
  qed
  moreover from this have "z0 < 1073741824" using assms(2) by linarith
  moreover have a: "membuff_alloc p z0 = (Some q, p')" "z = z0"
    using assms(3) by (auto simp: membuff_calloc_def z0_def Let_def split: prod.splits option.splits)
  ultimately obtain s where s: "q = s * BuffSize p + MBUF_HDRSIZE" "run_at (Flags p) (blocks_for (BuffSize p) z0) s"
      "pool_ok p' (live(s \<mapsto> blocks_for (BuffSize p) z0))"
    using alloc_ok [OF assms(1) _ a(1)] by auto
  have "0 < BuffSize p" using pool_shape_B [of p] assms(1) by (simp add: pool_ok_def)
  then have "z0 + MBUF_HDRSIZE \<le> blocks_for (BuffSize p) z0 * BuffSize p" by (rule blocks_for_enough)
  then have "q + z0 \<le> (s + blocks_for (BuffSize p) z0) * BuffSize p" using s(1) by (simp add: algebra_simps)
  then show ?thesis using s \<open>cnt * sz \<le> z0 \<and> z0 \<le> cnt * sz + 64\<close> a(2) by blast
qed

lemma membuff_calloc_zeroes_witness:
  "\<exists>z p'. membuff_calloc sample_pool 10 16 = (Some 16, z, p') \<and> 160 \<le> z"
proof -
  have e: "MBUF_AlignUpSize (size_wrap (10 * 16)) 64 = 192" by (simp add: MBUF_AlignUpSize_def)
  obtain p' where "membuff_alloc sample_pool 192 = (Some 16, p')"
    using fresh_alloc [OF sample_create(1,2), of 192] sample_create(2,3) by (auto simp: blocks_for_def MBUF_HDRSIZE_def)
  then have c: "membuff_calloc sample_pool 10 16 = (Some 16, 192, p')" using e by (simp add: membuff_calloc_def)
  show ?thesis using membuff_calloc_zeroes [OF create_ok [OF sample_create(1,2)] _ c] c by auto
qed

end
