(* ===== verification/SmallRegex.thy ===== *)
theory SmallRegex
  imports CStrScan
begin

text \<open>
  The regular expressions of \<open>source/common/smallregex.c\<close>: a pattern is compiled in two passes to a list of
  objects with an offset for success and one for failure, and a machine with a small stack runs them on
  the text.  Reads and writes outside the arrays are values of their own.
\<close>

section \<open>Compiling\<close>

datatype re_type = UNUSED | DOT | BEGIN | END | QUESTIONMARK | STAR | PLUS | RE_CHAR | CHAR_CLASS | INV_CHAR_CLASS
  | DIGIT | NOT_DIGIT | ALPHA | NOT_ALPHA | WHITESPACE | NOT_WHITESPACE | BRANCH | GROUPSTART | GROUPEND

record regex_objs_t =
  otype :: re_type
  trueoffset :: nat
  falseoffset :: nat
  och :: char
  occl :: nat

record re_pair_inst =
  trueoff :: nat
  failoff :: nat

record args_reg_compile =
  ainst :: "re_pair_inst list"
  aobjs :: nat
  astrln :: nat
  aecnt :: nat
  astcnt :: nat

record small_regex =
  patrns :: string
  robjs :: "regex_objs_t list"
  pstsize :: nat

text \<open>Why there is no compiled pattern: the code returns NULL, or it leaves its arrays.\<close>

datatype compile_error = Refused | Overrun

definition DEFAULT_TEMP_LEN :: nat where
  "DEFAULT_TEMP_LEN = 40"

definition DEFAULT_STATES_DEP :: nat where
  "DEFAULT_STATES_DEP = 40"

text \<open>The part of a class up to the bracket, and what follows it; \<open>None\<close> when the pattern ends before.\<close>

fun class_end :: "string \<Rightarrow> string \<Rightarrow> (string \<times> string) option" where
  "class_end [] acc = None"
| "class_end (c # s) acc = (if c = CHR '']'' then Some (acc, s) else class_end s (acc @ [c]))"

lemma class_end_shorter: "class_end s acc = Some (cls, rest) \<Longrightarrow> length rest < length s"
  by (induction s acc rule: class_end.induct) (auto split: if_splits)

text \<open>
  The loop of \<open>__regex_compile_count\<close> over the rest of the pattern, with \<open>brcnt\<close>.  With 40 groups the table
  \<open>inst\<close> is full, and its reallocation overwrites it.
\<close>

function count_pattern :: "string \<Rightarrow> int \<Rightarrow> args_reg_compile \<Rightarrow> compile_error + int \<times> args_reg_compile" where
  "count_pattern [] brcnt args = Inr (brcnt, args)"
| "count_pattern (c # rest) brcnt args =
     (let next1 = (\<lambda>a. a\<lparr>aobjs := aobjs a + 1\<rparr>)
      in if c = CHR 0x5C then
           (case rest of [] \<Rightarrow> Inl Refused | d # rest' \<Rightarrow> count_pattern rest' brcnt (next1 args))
         else if c = CHR ''*'' \<or> c = CHR ''+'' then count_pattern rest brcnt (next1 (args\<lparr>astcnt := astcnt args + 1\<rparr>))
         else if c = CHR ''('' then
           (let args1 = args\<lparr>ainst := (ainst args)[aecnt args := (ainst args ! aecnt args)\<lparr>trueoff := aobjs args\<rparr>], aecnt := aecnt args + 1\<rparr>
            in if aecnt args1 \<ge> DEFAULT_TEMP_LEN then Inl Overrun else count_pattern rest (brcnt + 1) (next1 args1))
         else if c = CHR '')'' then
           (if brcnt < 0 then Inl Overrun
            else count_pattern rest (brcnt - 1)
                   (next1 (args\<lparr>ainst := (ainst args)[nat brcnt := (ainst args ! nat brcnt)\<lparr>failoff := aobjs args\<rparr>]\<rparr>)))
         else if c = CHR ''['' then
           (case class_end (if chr_at rest 0 = CHR ''^'' then drop 1 rest else rest) [] of
              None \<Rightarrow> Inl Refused
            | Some (cls, rest') \<Rightarrow> count_pattern rest' brcnt (next1 (args\<lparr>astrln := astrln args + (length cls + 1)\<rparr>)))
         else count_pattern rest brcnt (next1 args))"
  by pat_completeness auto
termination
  by (relation "measure (\<lambda>(p, b, a). length p)") (auto dest!: class_end_shorter split: if_splits)

definition regex_compile_count :: "string \<Rightarrow> compile_error + args_reg_compile" where
  "regex_compile_count pattern =
     (case count_pattern pattern 0
             \<lparr> ainst = replicate DEFAULT_TEMP_LEN \<lparr> trueoff = 0, failoff = 0 \<rparr>, aobjs = 0, astrln = 0, aecnt = 1, astcnt = 1 \<rparr> of
        Inl e \<Rightarrow> Inl e
      | Inr (brcnt, args) \<Rightarrow>
          if brcnt \<noteq> 0 then Inl Refused
          else if pattern = [] then Inl Overrun
          else
            (let args1 = args\<lparr>aobjs := aobjs args + 1\<rparr>;
                 fo = (if last pattern = CHR ''$'' then aobjs args1 - 2 else aobjs args1 - 1)
             in Inr (args1\<lparr>ainst := (ainst args1)[0 := (ainst args1 ! 0)\<lparr>failoff := fo\<rparr>]\<rparr>)))"

definition obj :: "re_type \<Rightarrow> nat \<Rightarrow> nat \<Rightarrow> regex_objs_t" where
  "obj t tr fl = \<lparr> otype = t, trueoffset = tr, falseoffset = fl, och = NUL, occl = 0 \<rparr>"

text \<open>The falseoffset of the object before, when a quantifier or a branch follows.\<close>

definition set_false :: "regex_objs_t list \<Rightarrow> nat \<Rightarrow> regex_objs_t list" where
  "set_false os j = os[j - 1 := (os ! (j - 1))\<lparr>falseoffset := j\<rparr>]"

text \<open>
  The loop of \<open>regex_compile\<close>: \<open>os\<close> are the objects so far (\<open>j\<close> of them), \<open>cls\<close> the text of the classes so far
  (\<open>patoff\<close> bytes), \<open>ecnt\<close> the depth of the groups, \<open>ecntdip\<close> their number and \<open>resel\<close> the selected entry of \<open>inst\<close>.
\<close>

function compile_pattern ::
  "re_pair_inst list \<Rightarrow> string \<Rightarrow> regex_objs_t list \<Rightarrow> string \<Rightarrow> nat \<Rightarrow> nat \<Rightarrow> nat \<Rightarrow> compile_error + string \<times> regex_objs_t list" where
  "compile_pattern inst [] os cls ecnt ecntdip resel = Inr (cls, os @ [obj UNUSED 0 0])"
| "compile_pattern inst (c # rest) os cls ecnt ecntdip resel =
     (let j = length os;
          more = (\<lambda>o1. compile_pattern inst rest (os @ [o1]) cls ecnt ecntdip resel);
          quant = (\<lambda>o1. if j = 0 then Inl Overrun else compile_pattern inst rest (set_false os j @ [o1]) cls ecnt ecntdip resel);
          back = (if j \<noteq> 0 \<and> otype (os ! (j - 1)) = GROUPEND then trueoff (inst ! (resel + 1)) else j - 1)
      in if c = CHR ''^'' then more (obj BEGIN (j + 1) (failoff (inst ! resel)))
         else if c = CHR ''$'' then more (obj END (j + 1) 0)
         else if c = CHR ''.'' then more (obj DOT (j + 1) 0)
         else if c = CHR ''*'' then quant (obj STAR back (failoff (inst ! resel)))
         else if c = CHR ''+'' then quant (obj PLUS back (failoff (inst ! resel)))
         else if c = CHR ''?'' then quant (obj QUESTIONMARK (j + 1) (failoff (inst ! resel)))
         else if c = CHR ''|'' then
           (if j = 0 then Inl Overrun
            else compile_pattern inst rest
                   ((if j - 1 \<ge> trueoff (inst ! resel) \<and> otype (os ! (j - 1)) \<noteq> BRANCH then set_false os j else os) @
                     [obj BRANCH (failoff (inst ! resel)) (j + 1)]) cls ecnt ecntdip resel)
         else if c = CHR ''('' then
           compile_pattern inst rest (os @ [obj GROUPSTART (j + 1) (failoff (inst ! (ecntdip + 1)))]) cls (ecnt + 1) (ecntdip + 1) (ecntdip + 1)
         else if c = CHR '')'' then
           (if ecnt = 0 then Inl Overrun
            else compile_pattern inst rest (os @ [obj GROUPEND (j + 1) (failoff (inst ! (ecnt - 1)))]) cls (ecnt - 1) ecntdip (ecnt - 1))
         else if c = CHR 0x5C then
           (case rest of
              [] \<Rightarrow> Inl Refused
            | d # rest' \<Rightarrow>
                (let o1 = (if d = CHR ''d'' then obj DIGIT (j + 1) (failoff (inst ! ecnt))
                           else if d = CHR ''D'' then obj NOT_DIGIT (j + 1) (failoff (inst ! ecnt))
                           else if d = CHR ''w'' then obj ALPHA (j + 1) (failoff (inst ! ecnt))
                           else if d = CHR ''W'' then obj NOT_ALPHA (j + 1) (failoff (inst ! ecnt))
                           else if d = CHR ''s'' then obj WHITESPACE (j + 1) (failoff (inst ! ecnt))
                           else if d = CHR ''S'' then obj NOT_WHITESPACE (j + 1) (failoff (inst ! ecnt))
                           else (obj RE_CHAR (j + 1) (failoff (inst ! ecnt)))\<lparr>och := d\<rparr>)
                 in compile_pattern inst rest' (os @ [o1]) cls ecnt ecntdip resel))
         else if c = CHR ''['' then
           (let inv = (chr_at rest 0 = CHR ''^'')
            in case class_end (if inv then drop 1 rest else rest) [] of
                 None \<Rightarrow> Inl Refused
               | Some (pat, rest') \<Rightarrow>
                   compile_pattern inst rest'
                     (os @ [(obj (if inv then INV_CHAR_CLASS else CHAR_CLASS) (j + 1) (failoff (inst ! ecnt)))\<lparr>occl := length cls\<rparr>])
                     (cls @ pat @ [NUL]) ecnt ecntdip resel)
         else more ((obj RE_CHAR (j + 1) (failoff (inst ! ecnt)))\<lparr>och := c\<rparr>))"
  by pat_completeness auto
termination
  by (relation "measure (\<lambda>(i, p, os, cls, e, d, r). length p)") (auto dest!: class_end_shorter split: if_splits)

definition regex_compile :: "string \<Rightarrow> compile_error + small_regex" where
  "regex_compile pattern =
     (case regex_compile_count pattern of
        Inl e \<Rightarrow> Inl e
      | Inr args \<Rightarrow>
          (case compile_pattern (ainst args) pattern [] [] 0 0 0 of
             Inl e \<Rightarrow> Inl e
           | Inr (cls, os) \<Rightarrow> Inr \<lparr> patrns = cls, robjs = os, pstsize = astcnt args \<rparr>))"

text \<open>\<open>regex_validate\<close>: 0 when all offsets lie within the objects.\<close>

fun validate_loop :: "regex_objs_t list \<Rightarrow> nat \<Rightarrow> nat \<Rightarrow> nat \<Rightarrow> int" where
  "validate_loop os n i 0 = 1"
| "validate_loop os n i (Suc left) =
     (if otype (os ! i) = UNUSED then 0
      else if n \<noteq> 0 \<and> i \<ge> n then 1
      else if trueoffset (os ! i) \<ge> n then 1
      else if falseoffset (os ! i) \<ge> n then 1
      else validate_loop os n (i + 1) left)"

definition regex_validate :: "small_regex \<Rightarrow> int" where
  "regex_validate regex = validate_loop (robjs regex) (length (robjs regex)) 0 (length (robjs regex))"

section \<open>One character\<close>

text \<open>A \<open>char\<close> is signed.\<close>

definition schar :: "char \<Rightarrow> int" where
  "schar c = (if code c < 128 then int (code c) else int (code c) - 256)"

definition matchdigit :: "char \<Rightarrow> bool" where
  "matchdigit c \<longleftrightarrow> schar c \<ge> 48 \<and> schar c \<le> 57"

definition matchalpha :: "char \<Rightarrow> bool" where
  "matchalpha c \<longleftrightarrow> (schar c \<ge> 97 \<and> schar c \<le> 122) \<or> (schar c \<ge> 65 \<and> schar c \<le> 90)"

definition matchwhitespace :: "char \<Rightarrow> bool" where
  "matchwhitespace c \<longleftrightarrow> code c = 32 \<or> code c = 9 \<or> code c = 10 \<or> code c = 13 \<or> code c = 12 \<or> code c = 11"

definition matchalphanum :: "char \<Rightarrow> bool" where
  "matchalphanum c \<longleftrightarrow> c = CHR ''_'' \<or> matchalpha c \<or> matchdigit c"

text \<open>The classes in memory; the pointer \<open>str\<close> is an index, and behind the classes come object types, which are no characters of ranges.\<close>

definition matchrange :: "char \<Rightarrow> string \<Rightarrow> nat \<Rightarrow> bool" where
  "matchrange c m str \<longleftrightarrow> c \<noteq> CHR ''-'' \<and> chr_at m str \<noteq> CHR ''-'' \<and> chr_at m (str + 1) = CHR ''-'' \<and> chr_at m (str + 2) \<noteq> NUL \<and>
     schar c \<ge> schar (chr_at m str) \<and> schar c \<le> schar (chr_at m (str + 2))"

definition ismetachar :: "char \<Rightarrow> bool" where
  "ismetachar c \<longleftrightarrow> c = CHR ''s'' \<or> ((c = CHR ''S'') = (c = CHR ''w'')) \<or> c = CHR ''W'' \<or> c = CHR ''d'' \<or> c = CHR ''D''"

definition matchmetachar :: "char \<Rightarrow> char \<Rightarrow> bool" where
  "matchmetachar c s0 =
     (if s0 = CHR ''d'' then matchdigit c else if s0 = CHR ''D'' then \<not> matchdigit c
      else if s0 = CHR ''w'' then matchalphanum c else if s0 = CHR ''W'' then \<not> matchalphanum c
      else if s0 = CHR ''s'' then matchwhitespace c else if s0 = CHR ''S'' then \<not> matchwhitespace c
      else c = s0)"

text \<open>The loop of \<open>matchcharclass\<close>; \<open>m ! (str - 1)\<close> is 0 in front of the first class (a byte of \<open>pstsize\<close>).\<close>

function matchcharclass :: "char \<Rightarrow> string \<Rightarrow> nat \<Rightarrow> bool" where
  "matchcharclass c m str =
     (if matchrange c m str then True
      else if chr_at m str = CHR 0x5C then
        (if matchmetachar c (chr_at m (str + 1)) then True
         else if c = chr_at m (str + 1) \<and> \<not> ismetachar c then True
         else if chr_at m (str + 1) \<noteq> NUL then matchcharclass c m (str + 2)
         else False)
      else if c = chr_at m str then
        (if c = CHR ''-'' then (str = 0 \<or> chr_at m (str - 1) = NUL) \<or> chr_at m (str + 1) = NUL else True)
      else if chr_at m str \<noteq> NUL then matchcharclass c m (str + 1)
      else False)"
  by auto
termination
  by (relation "measure (\<lambda>(c, m, str). length m - str)") (auto simp: chr_at_def NUL_def split: if_splits)

declare matchcharclass.simps [simp del]

definition matchone :: "small_regex \<Rightarrow> regex_objs_t \<Rightarrow> char \<Rightarrow> int" where
  "matchone reg p c =
     (case otype p of
        DOT \<Rightarrow> (if code c = 10 \<or> code c = 13 then 0 else 1)
      | CHAR_CLASS \<Rightarrow> (if matchcharclass c (patrns reg) (occl p) then 1 else 0)
      | INV_CHAR_CLASS \<Rightarrow> (if matchcharclass c (patrns reg) (occl p) then 0 else 1)
      | DIGIT \<Rightarrow> (if matchdigit c then 1 else 0)
      | NOT_DIGIT \<Rightarrow> (if matchdigit c then 0 else 1)
      | ALPHA \<Rightarrow> (if matchalphanum c then 1 else 0)
      | NOT_ALPHA \<Rightarrow> (if matchalphanum c then 0 else 1)
      | WHITESPACE \<Rightarrow> (if matchwhitespace c then 1 else 0)
      | NOT_WHITESPACE \<Rightarrow> (if matchwhitespace c then 0 else 1)
      | RE_CHAR \<Rightarrow> (if och p = c then 1 else 0)
      | _ \<Rightarrow> -1)"

section \<open>The machine\<close>

record sstate_t =
  matchcnt :: nat
  soffset :: nat
  st0 :: int
  st :: nat

record machine =
  sstate :: "nat \<Rightarrow> sstate_t"
  sp :: nat
  evalres :: int
  brtxcoff :: nat

text \<open>The outcome of a match: the returned number, or an access outside the objects or the stack.\<close>

datatype outcome = Returned int | Corrupted

definition upd_top :: "(sstate_t \<Rightarrow> sstate_t) \<Rightarrow> machine \<Rightarrow> machine" where
  "upd_top f v = v\<lparr>sstate := (sstate v)(sp v := f (sstate v (sp v)))\<rparr>"

definition jump :: "nat \<Rightarrow> machine \<Rightarrow> machine" where
  "jump off v = upd_top (\<lambda>s. s\<lparr>soffset := off\<rparr>) v"

text \<open>\<open>STAR\<close> and \<open>PLUS\<close>: look ahead with a new stack entry while the repeated object matches.\<close>

definition repeat_step :: "small_regex \<Rightarrow> string \<Rightarrow> machine \<Rightarrow> outcome + machine" where
  "repeat_step reg text v0 =
     (let os = robjs reg; off = soffset (sstate v0 (sp v0)); p = os ! off;
          v = (if evalres v0 = 1 then upd_top (\<lambda>s. s\<lparr>matchcnt := matchcnt s + 1\<rparr>) v0 else v0);
          t = sstate v (sp v); c = chr_at text (st t)
      in if evalres v = 1 \<and> c \<noteq> NUL then
           (let v1 = jump (trueoffset p) v
            in if off + 1 \<ge> length os then Inl Corrupted
               else if otype (os ! (off + 1)) \<noteq> END \<and> otype (os ! (off + 1)) \<noteq> UNUSED \<and> otype (os ! (off + 1)) \<noteq> BRANCH \<and> st0 t \<noteq> int (st t) then
                 (if matchone reg (os ! (off + 1)) c \<noteq> 0 then
                    (let v2 = upd_top (\<lambda>s. s\<lparr>st0 := int (st s)\<rparr>) v1; sp1 = sp v2 + 1
                     in if sp1 \<ge> pstsize reg \<or> sp1 \<ge> DEFAULT_STATES_DEP then Inl Corrupted
                        else Inr (v2\<lparr>sp := sp1,
                                     sstate := (sstate v2)(sp1 := \<lparr> matchcnt = matchcnt (sstate v2 sp1), soffset = trueoffset (os ! (off + 1)),
                                                                    st0 = -1, st = st t + 1 \<rparr>)\<rparr>))
                  else Inr v1)
               else Inr v1)
         else
           (let res = (if otype p = PLUS then (if matchcnt t > 0 then 1 else 0) else 1);
                v1 = v\<lparr>evalres := res\<rparr>
            in Inr (upd_top (\<lambda>s. s\<lparr>matchcnt := 0\<rparr>) (jump (if res = 1 then off + 1 else falseoffset p) v1))))"

definition vm_step :: "small_regex \<Rightarrow> string \<Rightarrow> machine \<Rightarrow> outcome + machine" where
  "vm_step reg text v =
     (let os = robjs reg; t = sstate v (sp v); off = soffset t; p = os ! off
      in if off \<ge> length os then Inl Corrupted
         else
           (case otype p of
              BEGIN \<Rightarrow> Inr (jump (trueoffset p) v)
            | UNUSED \<Rightarrow> (if evalres v = 0 \<and> sp v > 0 then Inr (v\<lparr>sp := sp v - 1\<rparr>) else Inl (Returned (evalres v)))
            | END \<Rightarrow>
                (if evalres v = 0 \<and> sp v > 0 then Inr (v\<lparr>sp := sp v - 1\<rparr>)
                 else Inl (Returned (if chr_at text (st t) = NUL then evalres v else 0)))
            | QUESTIONMARK \<Rightarrow> Inr ((upd_top (\<lambda>s. s\<lparr>soffset := trueoffset p, matchcnt := 0\<rparr>) v)\<lparr>evalres := 1\<rparr>)
            | STAR \<Rightarrow> repeat_step reg text v
            | PLUS \<Rightarrow> repeat_step reg text v
            | GROUPSTART \<Rightarrow> Inr ((jump (off + 1) v)\<lparr>brtxcoff := st t\<rparr>)
            | GROUPEND \<Rightarrow>
                (if evalres v = 0 then Inr (upd_top (\<lambda>s. s\<lparr>st := brtxcoff v, soffset := falseoffset p\<rparr>) v)
                 else Inr ((jump (trueoffset p) v)\<lparr>brtxcoff := 0\<rparr>))
            | BRANCH \<Rightarrow>
                (if evalres v = 0 then Inr (upd_top (\<lambda>s. s\<lparr>st := brtxcoff v, soffset := falseoffset p\<rparr>) v)
                 else Inr ((jump (trueoffset p) v)\<lparr>brtxcoff := 0\<rparr>))
            | _ \<Rightarrow>
                (if chr_at text (st t) = NUL then Inr ((jump (falseoffset p) v)\<lparr>evalres := 0\<rparr>)
                 else
                   (let e = matchone reg p (chr_at text (st t))
                    in if e = 1 then Inr ((upd_top (\<lambda>s. s\<lparr>soffset := trueoffset p, st := st s + 1\<rparr>) v)\<lparr>evalres := 1\<rparr>)
                       else if e = 0 then Inr ((jump (falseoffset p) v)\<lparr>evalres := 0\<rparr>)
                       else Inr v))))"

text \<open>\<open>matchpattern\<close> loops for ever when no step returns: \<open>None\<close>.\<close>

partial_function (option) vm_run :: "small_regex \<Rightarrow> string \<Rightarrow> machine \<Rightarrow> outcome option" where
  "vm_run reg text v = (case vm_step reg text v of Inl r \<Rightarrow> Some r | Inr v' \<Rightarrow> vm_run reg text v')"

definition start_state :: sstate_t where
  "start_state = \<lparr> matchcnt = 0, soffset = 0, st0 = 0, st = 0 \<rparr>"

definition matchpattern :: "small_regex \<Rightarrow> string \<Rightarrow> outcome option" where
  "matchpattern reg text =
     vm_run reg text \<lparr> sstate = (\<lambda>_. start_state)(0 := start_state\<lparr>st0 := -1\<rparr>), sp = 0, evalres = 0, brtxcoff = 0 \<rparr>"

text \<open>The loop of \<open>regex_matchp\<close> over the positions of the text, its end included.\<close>

fun matchp_loop :: "small_regex \<Rightarrow> string \<Rightarrow> int \<Rightarrow> outcome option" where
  "matchp_loop reg text idx =
     (case matchpattern reg text of
        None \<Rightarrow> None
      | Some Corrupted \<Rightarrow> Some Corrupted
      | Some (Returned r) \<Rightarrow>
          if r \<noteq> 0 then Some (Returned idx)
          else (case text of [] \<Rightarrow> Some (Returned (-1)) | c # text' \<Rightarrow> matchp_loop reg text' (idx + 1)))"

declare matchp_loop.simps [simp del]

definition regex_matchp :: "small_regex \<Rightarrow> string \<Rightarrow> outcome option" where
  "regex_matchp reg text =
     (if otype (robjs reg ! 0) = BEGIN then
        (case matchpattern reg text of
           None \<Rightarrow> None
         | Some Corrupted \<Rightarrow> Some Corrupted
         | Some (Returned r) \<Rightarrow> Some (Returned (if r \<noteq> 0 then 0 else -1)))
      else matchp_loop reg text 0)"

definition regex_match :: "string \<Rightarrow> string \<Rightarrow> outcome option" where
  "regex_match pattern text =
     (case regex_compile pattern of
        Inl Refused \<Rightarrow> Some (Returned (-1))
      | Inl Overrun \<Rightarrow> Some Corrupted
      | Inr reg \<Rightarrow> regex_matchp reg text)"

section \<open>Patterns without operators\<close>

definition literal :: "string \<Rightarrow> bool" where
  "literal p \<longleftrightarrow> p \<noteq> [] \<and> list_all (\<lambda>c. c \<notin> set ''^$.*+?|()['' \<and> c \<noteq> CHR 0x5C \<and> c \<noteq> NUL) p"

definition lit_obj :: "string \<Rightarrow> nat \<Rightarrow> regex_objs_t" where
  "lit_obj p j = (obj RE_CHAR (j + 1) (length p))\<lparr>och := p ! j\<rparr>"

definition lit_regex :: "string \<Rightarrow> small_regex" where
  "lit_regex p = \<lparr> patrns = [], robjs = map (lit_obj p) [0..<length p] @ [obj UNUSED 0 0], pstsize = 1 \<rparr>"

lemma literal_count:
  assumes "list_all (\<lambda>c. c \<notin> set ''^$.*+?|()['' \<and> c \<noteq> CHR 0x5C \<and> c \<noteq> NUL) p"
  shows "count_pattern p b args = Inr (b, args\<lparr>aobjs := aobjs args + length p\<rparr>)"
  using assms by (induction p arbitrary: args) simp_all

lemma literal_compile_loop:
  assumes "list_all (\<lambda>c. c \<notin> set ''^$.*+?|()['' \<and> c \<noteq> CHR 0x5C \<and> c \<noteq> NUL) p"
  shows "compile_pattern inst p os cls 0 0 0 =
    Inr (cls, os @ map (\<lambda>j. (obj RE_CHAR (length os + j + 1) (failoff (inst ! 0)))\<lparr>och := p ! j\<rparr>) [0..<length p] @ [obj UNUSED 0 0])"
  using assms
proof (induction p arbitrary: os)
  case (Cons c p)
  let ?f = "\<lambda>os' p' j. (obj RE_CHAR (length os' + j + 1) (failoff (inst ! 0)))\<lparr>och := p' ! j\<rparr>"
  have "map (?f os (c # p)) [0..<length (c # p)] = ?f os (c # p) 0 # map (?f (os @ [?f os (c # p) 0]) p) [0..<length p]"
    by (simp add: upt_rec [of 0] map_Suc_upt [symmetric] del: upt_Suc)
  then show ?case using Cons by simp
qed simp

lemma literal_compile:
  assumes "literal p"
  shows "regex_compile p = Inr (lit_regex p)"
proof -
  have l: "p \<noteq> []" "list_all (\<lambda>c. c \<notin> set ''^$.*+?|()['' \<and> c \<noteq> CHR 0x5C \<and> c \<noteq> NUL) p" using assms by (simp_all add: literal_def)
  have "last p \<noteq> CHR ''$''" using l last_in_set [OF l(1)] by (auto simp: list_all_iff)
  then show ?thesis using l
    by (simp add: regex_compile_def regex_compile_count_def literal_count literal_compile_loop lit_regex_def lit_obj_def DEFAULT_TEMP_LEN_def
        numeral_eq_Suc)
qed

lemma lit_nth: "k < length p \<Longrightarrow> robjs (lit_regex p) ! k = lit_obj p k"
  by (simp add: lit_regex_def nth_append)

lemma lit_end: "robjs (lit_regex p) ! length p = obj UNUSED 0 0" "length (robjs (lit_regex p)) = length p + 1"
  by (simp_all add: lit_regex_def nth_append)

lemma lit_run:
  assumes "list_all (\<lambda>c. c \<noteq> NUL) p" "k \<le> length p" "sp v = 0" "soffset (sstate v 0) = k" "st (sstate v 0) = k"
    "evalres v = (if k = 0 then 0 else 1)" "p \<noteq> []"
  shows "vm_run (lit_regex p) tx v = Some (Returned (if take (length p - k) (drop k tx) = drop k p then 1 else 0))"
  using assms
proof (induction "length p - k" arbitrary: k v)
  case 0
  then have "k = length p" by simp
  then show ?case using 0 by (subst vm_run.simps) (simp add: vm_step_def lit_end obj_def)
next
  case (Suc n)
  then have k: "k < length p" by simp
  have c: "p ! k \<noteq> NUL" using Suc.prems(1) k by (simp add: list_all_length)
  have fin: "vm_run (lit_regex p) tx w = Some (Returned 0)"
    if "sp w = 0" "soffset (sstate w 0) = length p" "evalres w = 0" for w
    using that by (subst vm_run.simps) (simp add: vm_step_def lit_end obj_def)
  have tp: "drop k p = p ! k # drop (Suc k) p" using k by (rule Cons_nth_drop_Suc [symmetric])
  show ?case
  proof (cases "chr_at tx k = p ! k")
    case True
    then have t: "k < length tx" "drop k tx = p ! k # drop (Suc k) tx" using c
      using Cons_nth_drop_Suc [of k tx, symmetric] by (auto simp: chr_at_def split: if_splits)
    define v' where "v' = (upd_top (\<lambda>s. s\<lparr>soffset := k + 1, st := st s + 1\<rparr>) v)\<lparr>evalres := 1\<rparr>"
    have "vm_step (lit_regex p) tx v = Inr v'"
      using Suc.prems(3-5) k True c by (simp add: vm_step_def lit_nth lit_end lit_obj_def obj_def v'_def matchone_def)
    then have "vm_run (lit_regex p) tx v = vm_run (lit_regex p) tx v'" by (subst vm_run.simps) simp
    also have "\<dots> = Some (Returned (if take (length p - Suc k) (drop (Suc k) tx) = drop (Suc k) p then 1 else 0))"
      using Suc.hyps(2) Suc.prems k by (intro Suc.hyps(1)) (simp_all add: v'_def upd_top_def)
    finally show ?thesis using k by (simp add: t(2) tp Suc_diff_le [symmetric] take_Cons')
  next
    case False
    define v' where "v' = (jump (length p) v)\<lparr>evalres := 0\<rparr>"
    have "vm_step (lit_regex p) tx v = Inr v'"
      using Suc.prems(3-5) k False by (auto simp: vm_step_def lit_nth lit_end lit_obj_def obj_def v'_def matchone_def Let_def)
    then have "vm_run (lit_regex p) tx v = vm_run (lit_regex p) tx v'" by (subst vm_run.simps) simp
    also have "\<dots> = Some (Returned 0)" using Suc.prems(3) by (intro fin) (simp_all add: v'_def jump_def upd_top_def)
    moreover have "take (length p - k) (drop k tx) \<noteq> drop k p"
    proof
      assume "take (length p - k) (drop k tx) = drop k p"
      then have "take 1 (drop k tx) = [p ! k]" using k by (metis One_nat_def Suc_leI take_Suc_Cons take_take min.absorb1 take0 tp zero_less_diff)
      then show False using False by (auto simp: chr_at_def take_Suc nth_via_drop hd_drop_conv_nth split: if_splits)
    qed
    ultimately show ?thesis by simp
  qed
qed

lemma lit_matchpattern:
  assumes "literal p"
  shows "matchpattern (lit_regex p) tx = Some (Returned (if take (length p) tx = p then 1 else 0))"
  unfolding matchpattern_def using assms
  by (subst lit_run [of p 0]) (auto simp: literal_def list_all_iff start_state_def)

lemma lit_matchp:
  assumes "literal p"
  shows "matchp_loop (lit_regex p) tx idx = Some (Returned (case strstr tx p of None \<Rightarrow> -1 | Some n \<Rightarrow> idx + int n))"
proof (induction tx arbitrary: idx)
  case Nil
  then show ?case using assms by (subst matchp_loop.simps) (simp add: lit_matchpattern strstr.simps)
next
  case (Cons c tx)
  then show ?case using assms by (subst matchp_loop.simps) (auto simp: lit_matchpattern strstr.simps [of "c # tx"] split: option.splits)
qed

lemma literal_match:
  assumes "literal p"
  shows "regex_match p tx = Some (Returned (case strstr tx p of None \<Rightarrow> -1 | Some n \<Rightarrow> int n))"
proof -
  have "p \<noteq> []" using assms by (simp add: literal_def)
  then have "otype (robjs (lit_regex p) ! 0) = RE_CHAR" by (simp add: lit_nth lit_obj_def obj_def)
  then show ?thesis using assms by (simp add: regex_match_def literal_compile regex_matchp_def lit_matchp split: option.split)
qed

section \<open>Compiled patterns are valid\<close>

definition inst_ok :: "re_pair_inst list \<Rightarrow> nat \<Rightarrow> bool" where
  "inst_ok inst n \<longleftrightarrow> length inst = DEFAULT_TEMP_LEN \<and> (\<forall>k < DEFAULT_TEMP_LEN. trueoff (inst ! k) \<le> n \<and> failoff (inst ! k) \<le> n)"

definition objs_ok :: "regex_objs_t list \<Rightarrow> nat \<Rightarrow> bool" where
  "objs_ok os n \<longleftrightarrow> (\<forall>x \<in> set os. trueoffset x \<le> n \<and> falseoffset x \<le> n)"

lemma objs_ok_simps [simp]:
  "objs_ok [] n" "objs_ok (os @ [x]) n \<longleftrightarrow> objs_ok os n \<and> trueoffset x \<le> n \<and> falseoffset x \<le> n"
  by (auto simp: objs_ok_def)

lemma obj_simps [simp]:
  "otype (obj t tr fl) = t" "trueoffset (obj t tr fl) = tr" "falseoffset (obj t tr fl) = fl"
  by (simp_all add: obj_def)

lemma objs_ok_set_false: "objs_ok os n \<Longrightarrow> j \<le> n \<Longrightarrow> j - 1 < length os \<Longrightarrow> objs_ok (set_false os j) n \<and> length (set_false os j) = length os"
  using set_update_subset_insert [of os "j - 1" "(os ! (j - 1))\<lparr>falseoffset := j\<rparr>"] nth_mem [of "j - 1" os]
  by (auto simp: objs_ok_def set_false_def)

lemma inst_ok_at: "inst_ok inst n \<Longrightarrow> k < DEFAULT_TEMP_LEN \<Longrightarrow> trueoff (inst ! k) \<le> n \<and> failoff (inst ! k) \<le> n"
  by (simp add: inst_ok_def)

lemma inst_ok_mono: "inst_ok inst n \<Longrightarrow> n \<le> m \<Longrightarrow> inst_ok inst m"
  by (auto simp: inst_ok_def intro: le_trans)

lemma inst_ok_upd:
  assumes "inst_ok inst n" "n \<le> m" "trueoff e \<le> m" "failoff e \<le> m"
  shows "inst_ok (inst[k := e]) m"
proof -
  have "trueoff (inst[k := e] ! i) \<le> m \<and> failoff (inst[k := e] ! i) \<le> m" if "i < DEFAULT_TEMP_LEN" for i
    using inst_ok_at [OF assms(1) that] assms that by (cases "i = k") (auto simp: inst_ok_def)
  then show ?thesis using assms(1) by (simp add: inst_ok_def)
qed

lemma count_ok:
  assumes "count_pattern p b a = Inr (b', a')" "inst_ok (ainst a) (aobjs a)" "aecnt a < DEFAULT_TEMP_LEN" "b \<le> int (aecnt a)"
  shows "inst_ok (ainst a') (aobjs a') \<and> aobjs a \<le> aobjs a' \<and> aecnt a' < DEFAULT_TEMP_LEN"
  using assms
proof (induction p arbitrary: b a rule: length_induct)
  case (1 p)
  have ih: "inst_ok (ainst a') (aobjs a') \<and> aobjs a \<le> aobjs a' \<and> aecnt a' < DEFAULT_TEMP_LEN"
    if "count_pattern q b2 a2 = Inr (b', a')" "length q < length p" "inst_ok (ainst a2) (aobjs a2)" "aecnt a2 < DEFAULT_TEMP_LEN"
      "b2 \<le> int (aecnt a2)" "aobjs a \<le> aobjs a2" for q b2 a2
    using 1(1) that by fastforce
  show ?case
  proof (cases p)
    case Nil
    then show ?thesis using 1 by simp
  next
    case (Cons c rest)
    have at: "trueoff (ainst a ! k) \<le> aobjs a \<and> failoff (ainst a ! k) \<le> aobjs a" if "k < DEFAULT_TEMP_LEN" for k
      using inst_ok_at [OF 1(3) that] .
    have nb: "0 \<le> b \<Longrightarrow> nat b < DEFAULT_TEMP_LEN" using 1(4,5) by simp
    have up: "inst_ok (ainst a) (Suc (aobjs a))" by (rule inst_ok_mono [OF 1(3)]) simp
    have open': "inst_ok ((ainst a)[aecnt a := (ainst a ! aecnt a)\<lparr>trueoff := aobjs a\<rparr>]) (Suc (aobjs a))"
      using at [OF 1(4)] by (intro inst_ok_upd [OF 1(3)]) simp_all
    have close': "0 \<le> b \<Longrightarrow> inst_ok ((ainst a)[nat b := (ainst a ! nat b)\<lparr>failoff := aobjs a\<rparr>]) (Suc (aobjs a))"
      using at [OF nb] by (intro inst_ok_upd [OF 1(3)]) simp_all
    have h: "count_pattern (c # rest) b a = Inr (b', a')" using 1(2) Cons by simp
    show ?thesis using h up open' close' 1(4,5) Cons ih class_end_shorter [of "drop 1 rest" "[]"] class_end_shorter [of rest "[]"]
      by (auto simp: Let_def not_less split: if_splits list.splits option.splits)
  qed
qed

lemma compile_ok:
  assumes "compile_pattern inst p os cls ecnt dip resel = Inr (cls', os')" "count_pattern p b a = Inr (b', a')"
    "inst_ok inst n" "n = length os + (aobjs a' - aobjs a)" "inst_ok (ainst a) (aobjs a)" "b \<le> int (aecnt a)"
    "aecnt a = dip + 1" "aecnt a < DEFAULT_TEMP_LEN" "ecnt \<le> dip" "resel \<le> dip" "objs_ok os n"
  shows "objs_ok os' n \<and> length os' = n + 1 \<and> otype (last os') = UNUSED"
  using assms
proof (induction p arbitrary: os cls ecnt dip resel b a rule: length_induct)
  case (1 p)
  note h = 1(2-12)
  have ih: "objs_ok os' n \<and> length os' = n + 1 \<and> otype (last os') = UNUSED"
    if "compile_pattern inst q os2 cls2 e2 d2 r2 = Inr (cls', os')" "length q < length p" "count_pattern q b2 a2 = Inr (b', a')"
      "length os2 = Suc (length os)" "aobjs a2 = Suc (aobjs a)"
      "inst_ok (ainst a2) (aobjs a2)" "b2 \<le> int (aecnt a2)" "aecnt a2 = d2 + 1" "aecnt a2 < DEFAULT_TEMP_LEN"
      "e2 \<le> d2" "r2 \<le> d2" "Suc (length os) \<le> n \<Longrightarrow> objs_ok os2 n" for q os2 cls2 e2 d2 r2 b2 a2
  proof -
    have "aobjs a2 \<le> aobjs a'" using count_ok [OF that(3,6,9,7)] by simp
    then have "Suc (length os) \<le> n" "n = length os2 + (aobjs a' - aobjs a2)" using h(4) that(4,5) by linarith+
    then show ?thesis using 1(1) that h(3) by blast
  qed
  show ?case
  proof (cases p)
    case Nil
    then show ?thesis using h by auto
  next
    case (Cons c rest)
    have at: "trueoff (ainst a ! k) \<le> aobjs a \<and> failoff (ainst a ! k) \<le> aobjs a" if "k < DEFAULT_TEMP_LEN" for k
      using inst_ok_at [OF h(5) that] .
    have nb: "0 \<le> b \<Longrightarrow> nat b < DEFAULT_TEMP_LEN" using h(6,8) by simp
    have up: "inst_ok (ainst a) (Suc (aobjs a))" by (rule inst_ok_mono [OF h(5)]) simp
    have open': "inst_ok ((ainst a)[aecnt a := (ainst a ! aecnt a)\<lparr>trueoff := aobjs a\<rparr>]) (Suc (aobjs a))"
      using at [OF h(8)] by (intro inst_ok_upd [OF h(5)]) simp_all
    have close': "0 \<le> b \<Longrightarrow> inst_ok ((ainst a)[nat b := (ainst a ! nat b)\<lparr>failoff := aobjs a\<rparr>]) (Suc (aobjs a))"
      using at [OF nb] by (intro inst_ok_upd [OF h(5)]) simp_all
    have io: "trueoff (inst ! k) \<le> n" "failoff (inst ! k) \<le> n" if "k \<le> dip + 1" for k
      using inst_ok_at [OF h(3), of k] that h(7,8) by simp_all
    have sf: "Suc (length os) \<le> n \<Longrightarrow> os \<noteq> [] \<Longrightarrow> objs_ok (set_false os (length os)) n" "length (set_false os (length os)) = length os"
      using objs_ok_set_false [OF h(11), of "length os"] by (simp_all add: set_false_def)
    have hc: "compile_pattern inst (c # rest) os cls ecnt dip resel = Inr (cls', os')" "count_pattern (c # rest) b a = Inr (b', a')"
      using h(1,2) Cons by simp_all
    consider "c = CHR 0x5C" | "c = CHR ''[''" | "c = CHR ''(''" | "c = CHR '')''" | "c \<in> set ''*+?|''"
      | "c \<notin> set ''[()*+?|''" "c \<noteq> CHR 0x5C" by auto
    then show ?thesis
    proof cases
      case 1
      then obtain d rest' where r: "rest = d # rest'" using hc by (auto split: list.splits)
      then have "count_pattern rest' b (a\<lparr>aobjs := aobjs a + 1\<rparr>) = Inr (b', a')" using hc 1 by simp
      moreover obtain o1 where "compile_pattern inst rest' (os @ [o1]) cls ecnt dip resel = Inr (cls', os')"
          "trueoffset o1 = Suc (length os)" "falseoffset o1 = failoff (inst ! ecnt)"
        using hc(1) 1 r by (auto simp: Let_def split: if_splits)
      ultimately show ?thesis using ih [of rest' "os @ [o1]" cls ecnt dip resel b "a\<lparr>aobjs := aobjs a + 1\<rparr>"] h(5-11) up io Cons r by simp
    next
      case 2
      define s1 where "s1 = (if chr_at rest 0 = CHR ''^'' then drop 1 rest else rest)"
      obtain pat rest' where r: "class_end s1 [] = Some (pat, rest')" using hc(2) 2 by (auto simp: s1_def Let_def split: option.splits)
      then have l: "length rest' < length rest" using class_end_shorter [OF r] by (auto simp: s1_def split: if_splits)
      let ?a = "a\<lparr>astrln := astrln a + (length pat + 1), aobjs := aobjs a + 1\<rparr>"
      have "count_pattern rest' b ?a = Inr (b', a')" using hc(2) 2 r by (simp add: s1_def [symmetric] Let_def)
      moreover obtain o1 where "compile_pattern inst rest' (os @ [o1]) (cls @ pat @ [NUL]) ecnt dip resel = Inr (cls', os')"
          "trueoffset o1 = Suc (length os)" "falseoffset o1 = failoff (inst ! ecnt)"
        using hc(1) 2 r by (auto simp: s1_def Let_def)
      ultimately show ?thesis using ih [of rest' "os @ [o1]" "cls @ pat @ [NUL]" ecnt dip resel b ?a] h(5-11) up io Cons l by simp
    next
      case 3
      let ?a = "a\<lparr>ainst := (ainst a)[aecnt a := (ainst a ! aecnt a)\<lparr>trueoff := aobjs a\<rparr>], aecnt := aecnt a + 1, aobjs := aobjs a + 1\<rparr>"
      have c: "count_pattern rest (b + 1) ?a = Inr (b', a')" "aecnt a + 1 < DEFAULT_TEMP_LEN" using hc(2) 3 by (auto simp: Let_def split: if_splits)
      show ?thesis
        using ih [of rest "os @ [obj GROUPSTART (length os + 1) (failoff (inst ! (dip + 1)))]" cls "ecnt + 1" "dip + 1" "dip + 1" "b + 1" ?a]
          hc(1) 3 c h(5-11) open' io Cons by (simp add: Let_def)
    next
      case 4
      let ?a = "a\<lparr>ainst := (ainst a)[nat b := (ainst a ! nat b)\<lparr>failoff := aobjs a\<rparr>], aobjs := aobjs a + 1\<rparr>"
      have c: "count_pattern rest (b - 1) ?a = Inr (b', a')" "0 \<le> b" "ecnt \<noteq> 0" using hc 4 by (auto simp: Let_def split: if_splits)
      show ?thesis
        using ih [of rest "os @ [obj GROUPEND (length os + 1) (failoff (inst ! (ecnt - 1)))]" cls "ecnt - 1" dip "ecnt - 1" "b - 1" ?a]
          hc(1) 4 c h(5-11) close' io Cons by (simp add: Let_def)
    next
      case 5
      define a1 where "a1 = (if c = CHR ''*'' \<or> c = CHR ''+'' then a\<lparr>astcnt := astcnt a + 1, aobjs := aobjs a + 1\<rparr> else a\<lparr>aobjs := aobjs a + 1\<rparr>)"
      have c: "count_pattern rest b a1 = Inr (b', a')" using hc(2) 5 by (auto simp: a1_def)
      have a1: "ainst a1 = ainst a" "aobjs a1 = Suc (aobjs a)" "aecnt a1 = aecnt a" by (simp_all add: a1_def)
      have ne: "os \<noteq> []" using hc(1) 5 by (auto simp: Let_def)
      define bk where "bk = (if otype (os ! (length os - 1)) = GROUPEND then trueoff (inst ! (resel + 1)) else length os - 1)"
      define fl where "fl = failoff (inst ! resel)"
      define o1 where "o1 = (if c = CHR ''*'' then obj STAR bk fl else if c = CHR ''+'' then obj PLUS bk fl
          else if c = CHR ''?'' then obj QUESTIONMARK (length os + 1) fl else obj BRANCH fl (length os + 1))"
      define os1 where "os1 = (if c = CHR ''|'' \<and> \<not> (length os - 1 \<ge> trueoff (inst ! resel) \<and> otype (os ! (length os - 1)) \<noteq> BRANCH)
          then os else set_false os (length os))"
      have "compile_pattern inst rest (os1 @ [o1]) cls ecnt dip resel = Inr (cls', os')"
        using hc(1) 5 ne by (auto simp: Let_def os1_def o1_def bk_def fl_def simp del: One_nat_def)
      moreover have "os1 = os \<or> os1 = set_false os (length os)" by (simp add: os1_def)
      moreover have "Suc (length os) \<le> n \<longrightarrow> trueoffset o1 \<le> n \<and> falseoffset o1 \<le> n"
        using io [of resel] io [of "resel + 1"] h(10) by (auto simp: o1_def bk_def fl_def)
      ultimately
      show ?thesis using ih [of rest "os1 @ [o1]" cls ecnt dip resel b a1] c a1 h(5-11) up sf ne Cons by auto
    next
      case 6
      let ?a = "a\<lparr>aobjs := aobjs a + 1\<rparr>"
      have c: "count_pattern rest b ?a = Inr (b', a')" using hc(2) 6 by simp
      obtain o1 where "compile_pattern inst rest (os @ [o1]) cls ecnt dip resel = Inr (cls', os')"
          "trueoffset o1 = Suc (length os)" "falseoffset o1 \<in> {failoff (inst ! ecnt), failoff (inst ! resel), 0}"
        using hc(1) 6 by (auto simp: Let_def split: if_splits)
      then show ?thesis using ih [of rest "os @ [o1]" cls ecnt dip resel b ?a] c h(5-11) up io Cons by auto
    qed
  qed
qed

lemma compiled_objs:
  assumes "regex_compile p = Inr reg"
  shows "objs_ok (robjs reg) (length (robjs reg) - 1) \<and> robjs reg \<noteq> [] \<and> otype (last (robjs reg)) = UNUSED"
proof -
  let ?a = "\<lparr> ainst = replicate DEFAULT_TEMP_LEN \<lparr> trueoff = 0, failoff = 0 \<rparr>, aobjs = 0, astrln = 0, aecnt = 1, astcnt = 1 \<rparr>"
  obtain args where args: "regex_compile_count p = Inr args" using assms by (auto simp: regex_compile_def split: sum.splits)
  then obtain a' where a': "count_pattern p 0 ?a = Inr (0, a')"
    by (auto simp: regex_compile_count_def split: sum.splits if_splits)
  define fo where "fo = (if last p = CHR ''$'' then aobjs a' - 1 else aobjs a')"
  have r: "ainst args = (ainst a')[0 := (ainst a' ! 0)\<lparr>failoff := fo\<rparr>]"
    using args a' by (auto simp: regex_compile_count_def Let_def fo_def split: if_splits)
  obtain cls os where cp: "compile_pattern (ainst args) p [] [] 0 0 0 = Inr (cls, os)" "robjs reg = os"
    using assms args by (auto simp: regex_compile_def split: sum.splits)
  have i0: "inst_ok (ainst ?a) 0" by (simp add: inst_ok_def)
  have "inst_ok (ainst a') (aobjs a')" using count_ok [OF a'] i0 by (simp add: DEFAULT_TEMP_LEN_def)
  then have "inst_ok (ainst args) (aobjs a')" using inst_ok_at [of "ainst a'" "aobjs a'" 0]
    by (auto simp: r fo_def DEFAULT_TEMP_LEN_def intro!: inst_ok_upd)
  then have "objs_ok os (aobjs a') \<and> length os = aobjs a' + 1 \<and> otype (last os) = UNUSED"
    using i0 by (intro compile_ok [OF cp(1) a']) (simp_all add: DEFAULT_TEMP_LEN_def)
  then show ?thesis using cp(2) by auto
qed

lemma validate_zero:
  assumes "objs_ok os (length os - 1)" "os \<noteq> []" "otype (last os) = UNUSED" "i + left = length os" "0 < left"
  shows "validate_loop os (length os) i left = 0"
  using assms(4,5)
proof (induction left arbitrary: i)
  case (Suc left)
  have i: "os ! i \<in> set os" using Suc.prems by simp
  then have "trueoffset (os ! i) < length os" "falseoffset (os ! i) < length os" using assms(1,2)
    by (auto simp: objs_ok_def Suc_le_eq [symmetric] dest!: bspec [OF _ i] simp flip: length_greater_0_conv)
  moreover have "otype (os ! i) = UNUSED" if "left = 0"
    using that Suc.prems assms(2,3) by (simp add: last_conv_nth flip: Suc.prems(1))
  ultimately show ?case using Suc.IH [of "Suc i"] Suc.prems by auto
qed simp

text \<open>
  C12. Every pattern that \<open>regex_compile\<close> accepts is well formed: its list of objects ends with the object that stops the
  machine, every offset for success or failure is the index of an object, and \<open>regex_validate\<close> says so.
\<close>

theorem regex_compile_valid:
  assumes "regex_compile p = Inr reg"
  shows "regex_validate reg = 0 \<and> robjs reg \<noteq> [] \<and> otype (last (robjs reg)) = UNUSED \<and>
    (\<forall>x \<in> set (robjs reg). trueoffset x < length (robjs reg) \<and> falseoffset x < length (robjs reg))"
  using compiled_objs [OF assms] validate_zero [of "robjs reg" 0 "length (robjs reg)"]
  by (cases "robjs reg") (auto simp: regex_validate_def objs_ok_def less_Suc_eq_le)

theorem regex_compile_valid_witness:
  "\<exists>reg. regex_compile ''(a|b)c*'' = Inr reg \<and> regex_validate reg = 0 \<and> length (robjs reg) = 8"
proof -
  have "\<exists>reg. regex_compile ''(a|b)c*'' = Inr reg \<and> length (robjs reg) = 8"
    by (simp add: regex_compile_def regex_compile_count_def DEFAULT_TEMP_LEN_def numeral_eq_Suc Let_def obj_def set_false_def)
  then show ?thesis using regex_compile_valid by blast
qed

end
