(* ===== verification/RegexRun.thy ===== *)
theory RegexRun
  imports SmallRegex
begin

text \<open>
  Runs of the machine of \<open>source/common/smallregex.c\<close>: on a compiled pattern every object, every text position and
  every stack entry it uses exists, but for the one overflow of the stack; and runs that do not return.
\<close>

section \<open>Runs stay within the arrays\<close>

text \<open>The states of the machine that a match on \<open>tx\<close> goes through.\<close>

inductive vm_reachable :: "small_regex \<Rightarrow> string \<Rightarrow> machine \<Rightarrow> bool" for reg tx where
  vm_start: "vm_reachable reg tx \<lparr> sstate = (\<lambda>_. start_state)(0 := start_state\<lparr>st0 := -1\<rparr>), sp = 0, evalres = 0, brtxcoff = 0 \<rparr>"
| vm_next: "vm_reachable reg tx v \<Longrightarrow> vm_step reg tx v = Inr v' \<Longrightarrow> vm_reachable reg tx v'"

definition machine_ok :: "small_regex \<Rightarrow> string \<Rightarrow> machine \<Rightarrow> bool" where
  "machine_ok reg tx v \<longleftrightarrow>
     (\<forall>k. soffset (sstate v k) < length (robjs reg) \<and> st (sstate v k) \<le> length tx) \<and> brtxcoff v \<le> length tx \<and>
     (sp v = 0 \<or> sp v < pstsize reg \<and> sp v < DEFAULT_STATES_DEP)"

definition regex_wf :: "small_regex \<Rightarrow> bool" where
  "regex_wf reg \<longleftrightarrow> robjs reg \<noteq> [] \<and> otype (last (robjs reg)) = UNUSED \<and>
    (\<forall>x \<in> set (robjs reg). trueoffset x < length (robjs reg) \<and> falseoffset x < length (robjs reg))"

lemma regex_wf_at:
  assumes "regex_wf reg" "k < length (robjs reg)"
  shows "trueoffset (robjs reg ! k) < length (robjs reg)" "falseoffset (robjs reg ! k) < length (robjs reg)"
    "otype (robjs reg ! k) \<noteq> UNUSED \<Longrightarrow> Suc k < length (robjs reg)"
proof -
  show "trueoffset (robjs reg ! k) < length (robjs reg)" "falseoffset (robjs reg ! k) < length (robjs reg)"
    using assms by (simp_all add: regex_wf_def)
  assume "otype (robjs reg ! k) \<noteq> UNUSED"
  moreover have "k = length (robjs reg) - 1 \<Longrightarrow> otype (robjs reg ! k) = UNUSED" using assms last_conv_nth [of "robjs reg"] by (auto simp: regex_wf_def)
  ultimately show "Suc k < length (robjs reg)" using assms(2) by (cases "Suc k = length (robjs reg)") auto
qed

lemma machine_ok_upd:
  assumes "machine_ok reg tx v" "soffset (f (sstate v (sp v))) < length (robjs reg)" "st (f (sstate v (sp v))) \<le> length tx"
  shows "machine_ok reg tx (upd_top f v)"
  using assms by (simp add: machine_ok_def upd_top_def)

lemma machine_ok_fields [simp]:
  "machine_ok reg tx (v\<lparr>evalres := e\<rparr>) = machine_ok reg tx v"
  "machine_ok reg tx v \<Longrightarrow> b \<le> length tx \<Longrightarrow> machine_ok reg tx (v\<lparr>brtxcoff := b\<rparr>)"
  "machine_ok reg tx v \<Longrightarrow> machine_ok reg tx (v\<lparr>sp := sp v - 1\<rparr>)"
  by (auto simp: machine_ok_def)

lemma machine_ok_at:
  "machine_ok reg tx v \<Longrightarrow> soffset (sstate v k) < length (robjs reg)" "machine_ok reg tx v \<Longrightarrow> st (sstate v k) \<le> length tx"
  "machine_ok reg tx v \<Longrightarrow> brtxcoff v \<le> length tx"
  by (simp_all add: machine_ok_def)

lemma chr_at_inside: "chr_at tx k \<noteq> NUL \<Longrightarrow> Suc k \<le> length tx"
  by (auto simp: chr_at_def split: if_splits)

lemma upd_top_simps [simp]:
  "sp (upd_top f v) = sp v" "evalres (upd_top f v) = evalres v" "brtxcoff (upd_top f v) = brtxcoff v"
  "sstate (upd_top f v) (sp v) = f (sstate v (sp v))" "sp (jump k v) = sp v" "evalres (jump k v) = evalres v"
  "brtxcoff (jump k v) = brtxcoff v" "sstate (jump k v) (sp v) = (sstate v (sp v))\<lparr>soffset := k\<rparr>"
  by (simp_all add: upd_top_def jump_def)

lemma machine_ok_jump: "machine_ok reg tx v \<Longrightarrow> k < length (robjs reg) \<Longrightarrow> machine_ok reg tx (jump k v)"
  unfolding jump_def by (rule machine_ok_upd) (simp_all add: machine_ok_at)

lemma repeat_step_safe:
  assumes w: "regex_wf reg" and ok: "machine_ok reg tx v" and p: "otype (robjs reg ! soffset (sstate v (sp v))) \<noteq> UNUSED"
  shows "case repeat_step reg tx v of Inr v' \<Rightarrow> machine_ok reg tx v'
    | Inl r \<Rightarrow> r = Corrupted \<and> (sp v + 1 \<ge> pstsize reg \<or> sp v + 1 \<ge> DEFAULT_STATES_DEP)"
proof -
  define off where "off = soffset (sstate v (sp v))"
  define u where "u = (if evalres v = 1 then upd_top (\<lambda>s. s\<lparr>matchcnt := matchcnt s + 1\<rparr>) v else v)"
  define t where "t = sstate u (sp u)"
  have u: "machine_ok reg tx u" "sp u = sp v" "soffset t = off" "evalres u = evalres v"
    using machine_ok_upd [OF ok] machine_ok_at [OF ok] ok by (simp_all add: u_def t_def off_def)
  have off: "off < length (robjs reg)" "Suc off < length (robjs reg)"
    using regex_wf_at(3) [OF w] machine_ok_at(1) [OF ok] p by (simp_all add: off_def)
  have j: "machine_ok reg tx (jump (trueoffset (robjs reg ! off)) u)"
    by (rule machine_ok_jump [OF u(1) regex_wf_at(1) [OF w off(1)]])
  have e: "repeat_step reg tx v =
     (if evalres u = 1 \<and> chr_at tx (st t) \<noteq> NUL then
        (if otype (robjs reg ! Suc off) \<noteq> END \<and> otype (robjs reg ! Suc off) \<noteq> UNUSED \<and> otype (robjs reg ! Suc off) \<noteq> BRANCH \<and> st0 t \<noteq> int (st t) \<and>
            matchone reg (robjs reg ! Suc off) (chr_at tx (st t)) \<noteq> 0 then
           (let v2 = upd_top (\<lambda>s. s\<lparr>st0 := int (st s)\<rparr>) (jump (trueoffset (robjs reg ! off)) u); sp1 = sp u + 1
            in if sp1 \<ge> pstsize reg \<or> sp1 \<ge> DEFAULT_STATES_DEP then Inl Corrupted
               else Inr (v2\<lparr>sp := sp1,
                      sstate := (sstate v2)(sp1 := \<lparr> matchcnt = matchcnt (sstate v2 sp1), soffset = trueoffset (robjs reg ! Suc off),
                                                    st0 = -1, st = st t + 1 \<rparr>)\<rparr>))
         else Inr (jump (trueoffset (robjs reg ! off)) u))
      else
        (let res = (if otype (robjs reg ! off) = PLUS then (if matchcnt t > 0 then 1 else 0) else 1)
         in Inr (upd_top (\<lambda>s. s\<lparr>matchcnt := 0\<rparr>) (jump (if res = 1 then off + 1 else falseoffset (robjs reg ! off)) (u\<lparr>evalres := res\<rparr>)))))"
    using off(2) by (simp add: repeat_step_def Let_def t_def u_def off_def del: upd_top_simps(4))
  show ?thesis
  proof (cases "evalres u = 1 \<and> chr_at tx (st t) \<noteq> NUL")
    case True
    define v2 where "v2 = upd_top (\<lambda>s. s\<lparr>st0 := int (st s)\<rparr>) (jump (trueoffset (robjs reg ! off)) u)"
    have v2: "machine_ok reg tx v2" unfolding v2_def
      using machine_ok_at [OF u(1)] by (intro machine_ok_upd [OF j]) (simp_all add: regex_wf_at(1) [OF w off(1)])
    have "st t + 1 \<le> length tx" using chr_at_inside [of tx "st t"] True by simp
    then show ?thesis using True j v2 regex_wf_at(1) [OF w off(2)] u(2)
      unfolding e v2_def [symmetric] by (auto simp: Let_def machine_ok_def)
  next
    case False
    have "machine_ok reg tx (upd_top (\<lambda>s. s\<lparr>matchcnt := 0\<rparr>) (jump k (u\<lparr>evalres := res\<rparr>)))" if "k < length (robjs reg)" for k res
      using that u(1) machine_ok_at(2) [OF u(1)] by (intro machine_ok_upd machine_ok_jump) (simp_all add: jump_def upd_top_def)
    then show ?thesis using off regex_wf_at(2) [OF w off(1)] unfolding e if_not_P [OF False] by (simp add: Let_def)
  qed
qed

lemma vm_step_safe:
  assumes w: "regex_wf reg" and ok: "machine_ok reg tx v"
  shows "case vm_step reg tx v of Inr v' \<Rightarrow> machine_ok reg tx v'
    | Inl r \<Rightarrow> r = Corrupted \<longrightarrow> sp v + 1 \<ge> pstsize reg \<or> sp v + 1 \<ge> DEFAULT_STATES_DEP"
proof -
  define off where "off = soffset (sstate v (sp v))"
  define p where "p = robjs reg ! off"
  have off: "off < length (robjs reg)" using machine_ok_at(1) [OF ok] by (simp add: off_def)
  have nx: "otype p \<noteq> UNUSED \<Longrightarrow> Suc off < length (robjs reg)" using regex_wf_at(3) [OF w off] by (simp add: p_def)
  have to: "trueoffset p < length (robjs reg)" "falseoffset p < length (robjs reg)" using regex_wf_at [OF w off] by (simp_all add: p_def)
  have j: "machine_ok reg tx (jump k v)" if "k < length (robjs reg)" for k by (rule machine_ok_jump [OF ok that])
  have br: "machine_ok reg tx (upd_top (\<lambda>s. s\<lparr>st := brtxcoff v, soffset := falseoffset p\<rparr>) v)"
    using to machine_ok_at(3) [OF ok] by (intro machine_ok_upd [OF ok]) simp_all
  have q: "machine_ok reg tx (upd_top (\<lambda>s. s\<lparr>soffset := trueoffset p, matchcnt := 0\<rparr>) v)"
    using to machine_ok_at(2) [OF ok] by (intro machine_ok_upd [OF ok]) simp_all
  have ch: "machine_ok reg tx (upd_top (\<lambda>s. s\<lparr>soffset := trueoffset p, st := st s + 1\<rparr>) v)" if "chr_at tx (st (sstate v (sp v))) \<noteq> NUL"
    using to chr_at_inside [OF that] by (intro machine_ok_upd [OF ok]) simp_all
  have rs: "case repeat_step reg tx v of Inr v' \<Rightarrow> machine_ok reg tx v'
    | Inl r \<Rightarrow> r = Corrupted \<and> (sp v + 1 \<ge> pstsize reg \<or> sp v + 1 \<ge> DEFAULT_STATES_DEP)" if "otype p \<noteq> UNUSED"
    using repeat_step_safe [OF w ok] that by (simp add: p_def off_def)
  have e: "vm_step reg tx v =
           (case otype p of
              BEGIN \<Rightarrow> Inr (jump (trueoffset p) v)
            | UNUSED \<Rightarrow> (if evalres v = 0 \<and> sp v > 0 then Inr (v\<lparr>sp := sp v - 1\<rparr>) else Inl (Returned (evalres v)))
            | END \<Rightarrow>
                (if evalres v = 0 \<and> sp v > 0 then Inr (v\<lparr>sp := sp v - 1\<rparr>)
                 else Inl (Returned (if chr_at tx (st (sstate v (sp v))) = NUL then evalres v else 0)))
            | QUESTIONMARK \<Rightarrow> Inr ((upd_top (\<lambda>s. s\<lparr>soffset := trueoffset p, matchcnt := 0\<rparr>) v)\<lparr>evalres := 1\<rparr>)
            | STAR \<Rightarrow> repeat_step reg tx v
            | PLUS \<Rightarrow> repeat_step reg tx v
            | GROUPSTART \<Rightarrow> Inr ((jump (off + 1) v)\<lparr>brtxcoff := st (sstate v (sp v))\<rparr>)
            | GROUPEND \<Rightarrow>
                (if evalres v = 0 then Inr (upd_top (\<lambda>s. s\<lparr>st := brtxcoff v, soffset := falseoffset p\<rparr>) v)
                 else Inr ((jump (trueoffset p) v)\<lparr>brtxcoff := 0\<rparr>))
            | BRANCH \<Rightarrow>
                (if evalres v = 0 then Inr (upd_top (\<lambda>s. s\<lparr>st := brtxcoff v, soffset := falseoffset p\<rparr>) v)
                 else Inr ((jump (trueoffset p) v)\<lparr>brtxcoff := 0\<rparr>))
            | _ \<Rightarrow>
                (if chr_at tx (st (sstate v (sp v))) = NUL then Inr ((jump (falseoffset p) v)\<lparr>evalres := 0\<rparr>)
                 else
                   (let e = matchone reg p (chr_at tx (st (sstate v (sp v))))
                    in if e = 1 then Inr ((upd_top (\<lambda>s. s\<lparr>soffset := trueoffset p, st := st s + 1\<rparr>) v)\<lparr>evalres := 1\<rparr>)
                       else if e = 0 then Inr ((jump (falseoffset p) v)\<lparr>evalres := 0\<rparr>)
                       else Inr v)))"
    using off unfolding vm_step_def Let_def off_def [symmetric] p_def [symmetric] by simp
  have pop: "machine_ok reg tx (v\<lparr>sp := sp v - Suc 0\<rparr>)" using ok by (auto simp: machine_ok_def)
  show ?thesis unfolding e
    by (cases "otype p") (use ok pop j to br q ch rs nx machine_ok_at(2) [OF ok] in \<open>auto simp: Let_def split: sum.splits\<close>)
qed

text \<open>
  C11. A match with a compiled pattern stays in bounds: in every state the machine reaches, the selected object exists,
  the text is read no further than its terminator (also after going back to the start of a group), and the stack
  pointer is within the stack.  The one access out of bounds left is the next push onto a full stack, which the code does not check for.
\<close>

theorem regex_run_in_bounds:
  assumes "regex_compile p = Inr reg" and "vm_reachable reg tx v"
  shows "soffset (sstate v (sp v)) < length (robjs reg) \<and> st (sstate v (sp v)) \<le> length tx \<and> brtxcoff v \<le> length tx \<and>
    (sp v = 0 \<or> sp v < pstsize reg \<and> sp v < DEFAULT_STATES_DEP) \<and>
    (vm_step reg tx v = Inl Corrupted \<longrightarrow> pstsize reg \<le> sp v + 1 \<or> DEFAULT_STATES_DEP \<le> sp v + 1)"
proof -
  have w: "regex_wf reg" using compiled_objs [OF assms(1)] by (cases "robjs reg") (auto simp: regex_wf_def objs_ok_def less_Suc_eq_le)
  have "machine_ok reg tx v" using assms(2)
  proof induction
    case vm_start
    then show ?case using w by (simp add: machine_ok_def start_state_def regex_wf_def)
  next
    case (vm_next v v')
    then show ?case using vm_step_safe [OF w vm_next.IH] by simp
  qed
  then show ?thesis using vm_step_safe [OF w, of tx v] by (auto simp: machine_ok_def)
qed

theorem regex_run_in_bounds_witness:
  "\<exists>reg. regex_compile ''a*b'' = Inr reg \<and>
    (vm_step reg ''aab'' \<lparr> sstate = (\<lambda>_. start_state)(0 := start_state\<lparr>st0 := -1\<rparr>), sp = 0, evalres = 0, brtxcoff = 0 \<rparr> = Inl Corrupted \<longrightarrow>
      pstsize reg \<le> 1 \<or> DEFAULT_STATES_DEP \<le> 1)"
proof -
  obtain reg where "regex_compile ''a*b'' = Inr reg"
    by (simp add: regex_compile_def regex_compile_count_def DEFAULT_TEMP_LEN_def numeral_eq_Suc Let_def obj_def set_false_def)
  then show ?thesis using regex_run_in_bounds [OF _ vm_start] by fastforce
qed

section \<open>Runs that fail\<close>

text \<open>A state that steps to itself never returns.\<close>

lemma vm_run_stuck:
  assumes "vm_step reg tx v = Inr v"
  shows "vm_run reg tx v = None"
proof -
  have "vm_step reg tx v \<noteq> Inr v" if "vm_run reg tx v = Some r" for r
    by (rule vm_run.raw_induct [where P = "\<lambda>reg tx v r. vm_step reg tx v \<noteq> Inr v", OF _ that]) (auto split: sum.splits)
  then show ?thesis using assms by (cases "vm_run reg tx v") auto
qed

lemma escaped_dollar_compile:
  "regex_compile [CHR 0x5C, CHR ''$''] =
     Inr \<lparr> patrns = [], robjs = [(obj RE_CHAR 1 0)\<lparr>och := CHR ''$''\<rparr>, obj UNUSED 0 0], pstsize = 1 \<rparr>"
  by (simp add: regex_compile_def regex_compile_count_def DEFAULT_TEMP_LEN_def numeral_eq_Suc Let_def)

text \<open>
  A pattern that ends with an escaped dollar is compiled as if the dollar were the anchor: the offset for failure
  is one object too small, so the object's failure leads back to itself and \<open>regex_match\<close> never returns on any text that does not start
  with a dollar.
\<close>

theorem regex_escaped_dollar_hangs:
  assumes "chr_at tx 0 \<noteq> CHR ''$''"
  shows "regex_match [CHR 0x5C, CHR ''$''] tx = None"
proof -
  let ?reg = "\<lparr> patrns = [], robjs = [(obj RE_CHAR 1 0)\<lparr>och := CHR ''$''\<rparr>, obj UNUSED 0 0], pstsize = 1 \<rparr>"
  have "matchpattern ?reg tx = None" unfolding matchpattern_def
    using assms by (intro vm_run_stuck) (auto simp: vm_step_def matchone_def jump_def upd_top_def obj_def start_state_def fun_eq_iff Let_def)
  then show ?thesis by (simp add: regex_match_def escaped_dollar_compile regex_matchp_def obj_def matchp_loop.simps)
qed

theorem regex_escaped_dollar_hangs_witness: "regex_match [CHR 0x5C, CHR ''$''] ''price'' = None"
  by (rule regex_escaped_dollar_hangs) (simp add: chr_at_def)

lemmas regex_eval = regex_match_def regex_compile_def regex_compile_count_def DEFAULT_TEMP_LEN_def numeral_eq_Suc Let_def
  obj_def set_false_def regex_matchp_def matchp_loop.simps matchpattern_def vm_run.simps vm_step_def chr_at_def start_state_def
  jump_def upd_top_def matchone_def repeat_step_def DEFAULT_STATES_DEP_def NUL_def

text \<open>An alternative after two characters: the branch is taken from the second only, so a text that fits the right side is missed.\<close>

lemma regex_branch_missed: "regex_match ''ab|c'' ''c'' = Some (Returned (-1))"
  by (simp add: regex_eval)

lemma regex_branch_found: "regex_match ''a|c'' ''c'' = Some (Returned 0)"
  by (simp add: regex_eval)

lemma regex_leading_star: "regex_match ''*a'' ''a'' = Some Corrupted" "regex_match [] ''a'' = Some Corrupted"
  by (simp_all add: regex_eval)

text \<open>A repeated group with a repetition inside: the look-ahead pushes onto a stack that is full.\<close>

lemma regex_stack_overflow: "regex_match ''(a*b)*c'' ''aababc'' = Some Corrupted"
  by (simp add: regex_eval)

text \<open>
  C13. For a pattern without operators \<open>regex_match\<close> returns, and it returns what \<open>strstr\<close> finds: the first position where the
  pattern occurs, or -1.
\<close>

theorem regex_match_strstr:
  assumes "literal p"
  shows "regex_match p tx = Some (Returned (case strstr tx p of None \<Rightarrow> -1 | Some n \<Rightarrow> int n))"
  by (rule literal_match [OF assms])

theorem regex_match_strstr_witness: "regex_match ''<PID>'' ''a<PID>b'' = Some (Returned 1)"
  using regex_match_strstr [of "''<PID>''" "''a<PID>b''"] by (simp add: literal_def strstr.simps NUL_def)

end
