(* ===== verification/LogNames.thy ===== *)
theory LogNames
  imports RegexRun CStrBuf RollingFile
begin

text \<open>
  The names of the log files: \<open>clog_replace_string\<close> of \<open>source/clogger/clogger.c\<close> replaces the symbols of a name
  pattern, with \<open>regex_match\<close> of \<open>smallregex.c\<close> as its search and \<open>cstrbufSub\<close> of \<open>cstrbuf.h\<close> as its edit, and
  \<open>rollingfile_init\<close> takes the result.
\<close>

section \<open>Replacing symbols\<close>

text \<open>The inner loop; \<open>None\<close> when it does not return (or the match leaves its arrays).\<close>

partial_function (option) replace_symbol :: "string \<Rightarrow> string \<Rightarrow> cstrbuf_t \<Rightarrow> cstrbuf_t option" where
  "replace_symbol replacee replacer sb =
     (case regex_match replacee (buf_string (cb_str sb)) of
        None \<Rightarrow> None
      | Some r \<Rightarrow>
          (case r of
             Corrupted \<Rightarrow> None
           | Returned rc \<Rightarrow>
               if rc = -1 then Some sb
               else replace_symbol replacee replacer
                      (cstrbufSub (buf_string (cb_str sb)) (nat rc) (int (length replacee)) replacer (int (length replacer)))))"

definition clog_replace_string :: "string \<Rightarrow> (string \<times> string) list \<Rightarrow> cstrbuf_t option" where
  "clog_replace_string source pairs =
     fold (\<lambda>(replacee, replacer) sb. case sb of None \<Rightarrow> None | Some b \<Rightarrow> replace_symbol replacee replacer b)
       pairs (Some (cstrbufNew 0 (Some source) cstrbuf_error_size_len))"

text \<open>The specification: occurrences of \<open>r\<close> are rewritten to \<open>s\<close>, one at a time.\<close>

inductive rewr :: "string \<Rightarrow> string \<Rightarrow> string \<Rightarrow> string \<Rightarrow> bool" for r s where
  rewr_refl: "rewr r s t t"
| rewr_step: "rewr r s (u @ s @ v) t \<Longrightarrow> rewr r s (u @ r @ v) t"

lemma strstr_split:
  assumes "strstr t r = Some n"
  shows "\<exists>v. t = take n t @ r @ v \<and> v = drop (n + length r) t \<and> n + length r \<le> length t"
  using strstr_Some [OF assms] by blast

lemma replace_symbol_ok:
  assumes "literal r" "hd r \<notin> set s" "c_string s" "cb_grown sb t" "c_string t"
    "length t + count_list t (hd r) * length s + length s < 2147483600"
  shows "\<exists>sb' t'. replace_symbol r s sb = Some sb' \<and> cb_grown sb' t' \<and> c_string t' \<and> rewr r s t t' \<and> \<not> sublist r t'
    \<and> length t' \<le> length t + count_list t (hd r) * length s"
  using assms(4-6)
proof (induction "count_list t (hd r)" arbitrary: t sb rule: less_induct)
  case less
  have r: "r \<noteq> []" using assms(1) by (simp add: literal_def)
  have str: "buf_string (cb_str sb) = t" using less.prems(1,2) cb_closed_string [of sb] by (simp add: cb_grown_def)
  show ?case
  proof (cases "strstr t r")
    case None
    then have "replace_symbol r s sb = Some sb"
      by (subst replace_symbol.simps) (simp add: str literal_match [OF assms(1)])
    then show ?thesis using None less.prems rewr_refl [of r s t] strstr_None [of t r] by auto
  next
    case (Some n)
    define u where "u = take n t"
    define v where "v = drop (n + length r) t"
    have t: "t = u @ r @ v" "n + length r \<le> length t" "length u = n" using strstr_Some [OF Some] by (simp_all add: u_def v_def)
    define sb1 where "sb1 = cstrbufSub t n (int (length r)) s (int (length s))"
    have step: "replace_symbol r s sb = replace_symbol r s sb1"
      by (subst replace_symbol.simps) (simp add: str literal_match [OF assms(1)] Some sb1_def)
    have "length t + length s < 2147483600" using less.prems(3) by simp
    then have g: "cb_grown sb1 (u @ s @ v)" using cstrbufSub_replaces [OF t(2), of "length s" s]
      by (simp add: cb_grown_def sb1_def u_def v_def)
    have cs: "c_string (u @ s @ v)" using less.prems(2) assms(3) by (simp add: t(1) c_string_def)
    have "count_list r (hd r) = Suc (count_list (tl r) (hd r))" using r by (cases r) simp_all
    moreover have "count_list s (hd r) = 0" using assms(2) by simp
    ultimately have c: "count_list t (hd r) \<ge> Suc (count_list (u @ s @ v) (hd r))" by (simp add: t(1))
    have l: "length (u @ s @ v) \<le> length t + length s" by (simp add: t(1))
    have "Suc (count_list (u @ s @ v) (hd r)) * length s \<le> count_list t (hd r) * length s" using c by (intro mult_right_mono) simp_all
    then have b: "length (u @ s @ v) + count_list (u @ s @ v) (hd r) * length s \<le> length t + count_list t (hd r) * length s"
      using l by simp
    obtain sb' t' where ih: "replace_symbol r s sb1 = Some sb'" "cb_grown sb' t'" "c_string t'" "rewr r s (u @ s @ v) t'" "\<not> sublist r t'"
        "length t' \<le> length (u @ s @ v) + count_list (u @ s @ v) (hd r) * length s"
      using less.hyps [of "u @ s @ v" sb1] c g cs b less.prems(3) by fastforce
    have "rewr r s t t'" using rewr_step [OF ih(4)] t(1) by simp
    then show ?thesis using ih step b by auto
  qed
qed

lemma rewr_absent:
  assumes "rewr r s t t'" "\<not> sublist q t" "s \<noteq> []" "q \<noteq> []" "set s \<inter> set q = {}"
  shows "\<not> sublist q t'"
  using assms(1,2)
proof induction
  case (rewr_step u v t')
  have "\<not> sublist q (u @ s @ v)"
  proof
    assume "sublist q (u @ s @ v)"
    then consider "sublist q u" | "sublist q s" | "sublist q v"
      | q1 q2 where "q = q1 @ q2" "suffix q1 u" "prefix q2 (s @ v)" | q1 q2 where "q = q1 @ q2" "suffix q1 s" "prefix q2 v"
      unfolding sublist_append by blast
    then have "sublist q u \<or> sublist q v"
    proof cases
      case 2
      then have "set q \<subseteq> set s" by (simp add: set_mono_sublist)
      then show ?thesis using assms(4,5) by (cases q) auto
    next
      case 4
      have "q2 = []"
      proof (rule ccontr)
        assume "q2 \<noteq> []"
        then have "hd q2 = hd s" using 4(3) assms(3) by (cases s; cases q2) auto
        then show False using \<open>q2 \<noteq> []\<close> 4(1) assms(3,5) by (metis Un_iff disjoint_iff hd_in_set set_append)
      qed
      then show ?thesis using 4 by (simp add: suffix_imp_sublist)
    next
      case 5
      have "set q1 \<subseteq> set s" using 5(2) by (simp add: set_mono_suffix)
      then have "q1 = []" using 5(1) assms(5) by (cases q1) auto
      then show ?thesis using 5 by (simp add: prefix_imp_sublist)
    qed auto
    then show False using rewr_step.prems by (auto simp: sublist_append)
  qed
  then show ?case by (rule rewr_step.IH)
qed

lemma rewr_count: "rewr r s t t' \<Longrightarrow> c \<notin> set s \<Longrightarrow> count_list t' c \<le> count_list t c"
  by (induction rule: rewr.induct) auto

lemma new_whole:
  assumes "c_string s" "length s \<le> 1048576"
  shows "cb_grown (cstrbufNew 0 (Some s) cstrbuf_error_size_len) s"
proof -
  have "cstr_length (Some s) 1048576 = int (length s)" using assms by (simp add: cstr_length_def)
  then have "cstrbufNew 0 (Some s) cstrbuf_error_size_len = cstrbufNew 0 (Some s) (length s)"
    using assms(2) by (simp add: cstrbufNew_def cstrbuf_error_size_len_def error_len)
  then show ?thesis using new_grown [where str = "Some s" and len = "length s" and maxsz = 0] assms(2) by simp
qed

lemma literal_symbols: "literal ''<IDENT>''" "literal ''<PID>''" "literal ''<DATE>''"
  by (simp_all add: literal_def NUL_def)

text \<open>The three symbols of a name, replaced in the order of the code.\<close>

definition name_symbols :: "string \<Rightarrow> string \<Rightarrow> string \<Rightarrow> (string \<times> string) list" where
  "name_symbols ident pid date = [(''<IDENT>'', ident), (''<PID>'', pid), (''<DATE>'', date)]"

definition digits :: "string \<Rightarrow> bool" where
  "digits s \<longleftrightarrow> s \<noteq> [] \<and> set s \<subseteq> set ''0123456789''"

lemma replace_names:
  assumes "c_string source" "length source \<le> 100000" "c_string ident" "CHR ''<'' \<notin> set ident" "length ident \<le> 10000"
    "digits pid" "length pid \<le> 20" "digits date" "length date \<le> 20"
  shows "\<exists>sb t t1 t2. clog_replace_string source (name_symbols ident pid date) = Some sb \<and> cb_grown sb t \<and> c_string t \<and>
    rewr ''<IDENT>'' ident source t1 \<and> rewr ''<PID>'' pid t1 t2 \<and> rewr ''<DATE>'' date t2 t \<and>
    \<not> sublist ''<IDENT>'' t \<and> \<not> sublist ''<PID>'' t \<and> \<not> sublist ''<DATE>'' t"
proof -
  have dig: "CHR ''<'' \<notin> set d" "c_string d" "d \<noteq> []" "set d \<inter> set ''<IDENT>'' = {}" "set d \<inter> set ''<PID>'' = {}" if "digits d" for d
    using that by (auto simp: digits_def c_string_def NUL_def)
  define b where "b = cstrbufNew 0 (Some source) cstrbuf_error_size_len"
  have b: "cb_grown b source" using new_whole [OF assms(1)] assms(2) by (simp add: b_def)
  have ct: "count_list source (CHR ''<'') \<le> 100000" using count_le_length [of source "CHR ''<''"] assms(2) by simp
  then have m1: "count_list source (CHR ''<'') * length ident \<le> 1000000000" using mult_le_mono [OF ct assms(5)] by simp
  obtain b1 t1 where 1: "replace_symbol ''<IDENT>'' ident b = Some b1" "cb_grown b1 t1" "c_string t1" "rewr ''<IDENT>'' ident source t1"
      "\<not> sublist ''<IDENT>'' t1" "length t1 \<le> 1000100000"
    using replace_symbol_ok [OF literal_symbols(1) _ assms(3) b assms(1)] assms(2,4,5) m1 by fastforce
  have c1: "count_list t1 (CHR ''<'') \<le> 100000" using rewr_count [OF 1(4) assms(4)] ct by simp
  have m2: "count_list t1 (CHR ''<'') * length pid \<le> 2000000" using mult_le_mono [OF c1 assms(7)] by simp
  obtain b2 t2 where 2: "replace_symbol ''<PID>'' pid b1 = Some b2" "cb_grown b2 t2" "c_string t2" "rewr ''<PID>'' pid t1 t2"
      "\<not> sublist ''<PID>'' t2" "length t2 \<le> 1002100000"
    using replace_symbol_ok [OF literal_symbols(2) _ dig(2) [OF assms(6)] 1(2,3)] dig(1) [OF assms(6)] assms(7) m2 1(6) by fastforce
  have c2: "count_list t2 (CHR ''<'') \<le> 100000" using rewr_count [OF 2(4) dig(1) [OF assms(6)]] c1 by simp
  have m3: "count_list t2 (CHR ''<'') * length date \<le> 2000000" using mult_le_mono [OF c2 assms(9)] by simp
  obtain b3 t3 where 3: "replace_symbol ''<DATE>'' date b2 = Some b3" "cb_grown b3 t3" "c_string t3" "rewr ''<DATE>'' date t2 t3"
      "\<not> sublist ''<DATE>'' t3"
    using replace_symbol_ok [OF literal_symbols(3) _ dig(2) [OF assms(8)] 2(2,3)] dig(1) [OF assms(8)] assms(9) m3 2(6) by fastforce
  have "\<not> sublist ''<IDENT>'' t2" using rewr_absent [OF 2(4) 1(5)] dig(3,4) [OF assms(6)] by simp
  then have "\<not> sublist ''<IDENT>'' t3" "\<not> sublist ''<PID>'' t3"
    using rewr_absent [OF 3(4)] 2(5) dig(3-5) [OF assms(8)] by simp_all
  moreover have "clog_replace_string source (name_symbols ident pid date) = Some b3"
    using 1(1) 2(1) 3(1) by (simp add: clog_replace_string_def name_symbols_def b_def [symmetric])
  ultimately show ?thesis using 1(4) 2(4) 3 by blast
qed

text \<open>
  C14. The names of a logger: for an identity without \<open><\<close> and a process number and a time in digits, \<open>clog_replace_string\<close> returns;
  its result comes from the pattern by rewriting occurrences of \<open><IDENT>\<close>, then of \<open><PID>\<close>, then of \<open><DATE>\<close>, and none of the
  three symbols is left in it, also where a replacement made a new occurrence.
\<close>

theorem clog_replace_string_names:
  assumes "c_string source" "length source \<le> 100000" "c_string ident" "CHR ''<'' \<notin> set ident" "length ident \<le> 10000"
    "digits pid" "length pid \<le> 20" "digits date" "length date \<le> 20"
  shows "\<exists>sb t t1 t2. clog_replace_string source (name_symbols ident pid date) = Some sb \<and>
    cb_content sb = t \<and> buf_string (cb_str sb) = t \<and>
    rewr ''<IDENT>'' ident source t1 \<and> rewr ''<PID>'' pid t1 t2 \<and> rewr ''<DATE>'' date t2 t \<and>
    \<not> sublist ''<IDENT>'' t \<and> \<not> sublist ''<PID>'' t \<and> \<not> sublist ''<DATE>'' t"
proof -
  obtain sb t t1 t2 where r: "clog_replace_string source (name_symbols ident pid date) = Some sb" "cb_grown sb t" "c_string t"
    "rewr ''<IDENT>'' ident source t1" "rewr ''<PID>'' pid t1 t2" "rewr ''<DATE>'' date t2 t"
    "\<not> sublist ''<IDENT>'' t" "\<not> sublist ''<PID>'' t" "\<not> sublist ''<DATE>'' t"
    using replace_names [OF assms] by blast
  then have "buf_string (cb_str sb) = t" "cb_content sb = t" using cb_closed_string [of sb] by (simp_all add: cb_grown_def)
  with r show ?thesis by blast
qed

theorem clog_replace_string_names_witness:
  "\<exists>sb. clog_replace_string ''<IDENT>-<PID>.<DATE>.log'' (name_symbols ''app'' ''42'' ''1700000000'') = Some sb \<and>
    \<not> sublist ''<DATE>'' (cb_content sb)"
proof -
  have "c_string ''<IDENT>-<PID>.<DATE>.log''" "c_string ''app''" by (simp_all add: c_string_def NUL_def)
  then show ?thesis
    using clog_replace_string_names [of "''<IDENT>-<PID>.<DATE>.log''" "''app''" "''42''" "''1700000000''"] by (auto simp: digits_def)
qed

section \<open>An identity that is a symbol\<close>

lemma replace_symbol_self:
  assumes "literal r" "sublist r t" "c_string t" "length t + length r < 2147483600" "cb_grown sb t"
  shows "replace_symbol r r sb = None"
proof -
  have "\<not> (rcee = r \<and> rcer = r \<and> cb_grown b t)" if "replace_symbol rcee rcer b = Some res" for rcee rcer res and b :: cstrbuf_t
  proof (rule replace_symbol.raw_induct [where P = "\<lambda>rcee rcer b res. \<not> (rcee = r \<and> rcer = r \<and> cb_grown b t)", OF _ that])
    fix f rcee rcer res and b :: cstrbuf_t
    assume ih: "\<And>rcee rcer b res. f rcee rcer b = Some res \<Longrightarrow> \<not> (rcee = r \<and> rcer = r \<and> cb_grown b t)"
      and step: "(case regex_match rcee (buf_string (cb_str b)) of None \<Rightarrow> None
        | Some Corrupted \<Rightarrow> None
        | Some (Returned rc) \<Rightarrow> if rc = -1 then Some b
            else f rcee rcer (cstrbufSub (buf_string (cb_str b)) (nat rc) (int (length rcee)) rcer (int (length rcer)))) = Some res"
    show "\<not> (rcee = r \<and> rcer = r \<and> cb_grown b t)"
    proof
      assume a: "rcee = r \<and> rcer = r \<and> cb_grown b t"
      then have str: "buf_string (cb_str b) = t" using cb_closed_string [of b] assms(3) by (simp add: cb_grown_def)
      obtain n where n: "strstr t r = Some n" using strstr_None [of t r] assms(2) by (cases "strstr t r") auto
      have l: "t = take n t @ r @ drop (n + length r) t" "n + length r \<le> length t" using strstr_Some [OF n] by simp_all
      have "cb_grown (cstrbufSub t n (int (length r)) r (int (length r))) (take n t @ r @ drop (n + length r) t)"
        using cstrbufSub_replaces [OF l(2), of "length r" r] assms(4) by (simp add: cb_grown_def)
      then have "cb_grown (cstrbufSub t n (int (length r)) r (int (length r))) t" using l(1) by simp
      then show False using step a ih [of r r "cstrbufSub t n (int (length r)) r (int (length r))" res]
        by (simp add: str literal_match [OF assms(1)] n)
    qed
  qed
  then show ?thesis using assms(5) by (cases "replace_symbol r r sb") auto
qed

text \<open>
  A logger whose identity is the symbol \<open><IDENT>\<close> itself cannot be created: on a pattern that contains the symbol, as the
  default pattern does, \<open>clog_replace_string\<close> replaces it by itself and never returns.
\<close>

theorem clog_replace_string_hangs:
  assumes "c_string source" "length source \<le> 1048576" "sublist ''<IDENT>'' source"
  shows "clog_replace_string source (name_symbols ''<IDENT>'' pid date) = None"
proof -
  have "replace_symbol ''<IDENT>'' ''<IDENT>'' (cstrbufNew 0 (Some source) cstrbuf_error_size_len) = None"
    using new_whole [OF assms(1,2)] assms by (intro replace_symbol_self [of _ source] literal_symbols) simp_all
  then show ?thesis by (simp add: clog_replace_string_def name_symbols_def)
qed

theorem clog_replace_string_hangs_witness:
  "clog_replace_string ''<IDENT>-<PID>.<DATE>.log'' (name_symbols ''<IDENT>'' ''42'' ''1700000000'') = None"
  by (rule clog_replace_string_hangs) (simp_all add: c_string_def NUL_def sublist_code)

section \<open>Names without a date\<close>

lemma contain_loop_some: "contain_loop s t n i left \<noteq> -1 \<Longrightarrow> \<exists>k. mem_eq (drop k s) t n"
  by (induction left arbitrary: i) (auto split: if_splits)

lemma contain_loop_bound: "mem_eq (drop k s) t n \<Longrightarrow> c_string t \<Longrightarrow> n = length t \<Longrightarrow> n \<noteq> 0 \<Longrightarrow> sublist t s"
proof -
  assume a: "mem_eq (drop k s) t n" "c_string t" "n = length t" "n \<noteq> 0"
  have "n \<le> length (drop k s)"
  proof (rule ccontr)
    assume "\<not> n \<le> length (drop k s)"
    then have i: "length (drop k s) < n" by simp
    then have "chr_at (drop k s) (length (drop k s)) = chr_at t (length (drop k s))"
      using a(1) by (auto simp: mem_eq_def)
    then have "t ! length (drop k s) = NUL" using i a(3) by (simp add: chr_at_def split: if_splits)
    then show False using a(2,3) i nth_mem [of "length (drop k s)" t] by (simp add: c_string_def)
  qed
  then have "take n (drop k s) = t" using a(1,3) by (simp add: mem_eq_iff)
  then show "sublist t s" by (metis append_take_drop_id sublist_appendI)
qed

lemma init_without_date:
  assumes "\<not> sublist ''<DATE>'' np"
  shows "datesuffix (rollingfile_init rof pp np) = None" "pathname (rollingfile_init rof pp np) = pathprefix (rollingfile_init rof pp np) @ np"
    "loggingfile (rollingfile_init rof pp np) = loggingfile rof"
proof -
  have "c_string ''<DATE>''" "6 = length ''<DATE>''" "(6::nat) \<noteq> 0" by (simp_all add: c_string_def NUL_def)
  then have "\<not> mem_eq (drop k np) ''<DATE>'' 6" for k using contain_loop_bound assms by blast
  then have "cstr_containwith False (Some np) (int (length np)) (Some ROF_DATE_SYMBOL) 6 = -1"
    using contain_loop_some [of np "''<DATE>''" 6] by (auto simp: cstr_containwith_def ROF_DATE_SYMBOL_def)
  then show "datesuffix (rollingfile_init rof pp np) = None" "pathname (rollingfile_init rof pp np) = pathprefix (rollingfile_init rof pp np) @ np"
    "loggingfile (rollingfile_init rof pp np) = loggingfile rof"
    by (simp_all add: rollingfile_init_def Let_def)
qed

lemma apply_new_path:
  assumes "loggingfile rof = None"
  shows "loggingfile (snd (rollingfile_apply can fs rof datemin)) = Some (log_path rof datemin)"
proof -
  have up: "loggingfile (snd (rollingfile_update can fs rof)) = loggingfile rof" for fs rof
    by (simp add: rollingfile_update_def Let_def split: prod.split)
  have st: "loggingfile (snd (start_logging can fs rof path)) = Some path" for fs rof path
    using up by (simp add: start_logging_def Let_def split: prod.split)
  let ?p = "start_logging can fs rof (log_path rof datemin)"
  have "rollingfile_apply can fs rof datemin =
      (if maxfilesize (snd ?p) \<le> offsetbytes (snd ?p) then rollingfile_update can (fst ?p) (snd ?p) else ?p)"
    using assms by (simp add: rollingfile_apply_def log_path_def Let_def split: prod.split option.split)
  then show ?thesis using up st by simp
qed

end
