(* ===== verification/ReadConf.thy ===== *)
theory ReadConf
  imports CStrScan
begin

text \<open>
  The configuration files of \<open>source/common/readconf.c\<close>: reading lines, pairs and sections, values that go
  on over several lines, lists of sections and variables.  A file is its text, \<open>None\<close> when it cannot
  be opened; it does not change while it is read, and reading does not fail.  Of \<open>CONF_position\<close>
  the model keeps what has not been read, the section and the encoding.  Bytes outside a buffer are
  an error value.
\<close>

section \<open>Lines\<close>

definition READCONF_LINESIZE_MAX :: nat where
  "READCONF_LINESIZE_MAX = 4096"

definition READCONF_SECNAME_MAX :: nat where
  "READCONF_SECNAME_MAX = 60"

definition READCONF_KEYLEN_MAX :: nat where
  "READCONF_KEYLEN_MAX = 60"

datatype conf_error = NullPointer | OutOfBounds | ProcessExit

fun ltrim :: "string \<Rightarrow> char \<Rightarrow> string" where
  "ltrim [] c = []"
| "ltrim (s # ss) c = (if s = c then ltrim ss c else s # ss)"

text \<open>\<open>rtrim\<close>: the offset of \<open>q\<close> from \<open>s\<close> while \<open>p\<close> moves on.\<close>

fun rtrim_end :: "string \<Rightarrow> char \<Rightarrow> nat \<Rightarrow> nat \<Rightarrow> nat" where
  "rtrim_end [] c p q = q"
| "rtrim_end (s # ss) c p q = rtrim_end ss c (p + 1) (if s \<noteq> c then p + 1 else q)"

definition rtrim :: "string \<Rightarrow> char \<Rightarrow> string" where
  "rtrim s c = (let q = rtrim_end s c 0 0 in if q \<noteq> 0 then take q s else s)"

definition dtrim :: "string \<Rightarrow> char \<Rightarrow> string" where
  "dtrim s c = rtrim (ltrim s c) c"

text \<open>
  \<open>readln\<close>: \<open>j\<close> counts the bytes read before, \<open>strbuf\<close> are the \<open>i\<close> characters stored.  The result: the
  returned number, the line, and the rest of the file.
\<close>

fun readln_loop :: "nat \<Rightarrow> string \<Rightarrow> nat \<Rightarrow> string \<Rightarrow> int \<times> string \<times> string" where
  "readln_loop bufsize [] j strbuf = (if j = 0 then (-1, strbuf, []) else (int (length strbuf), strbuf, []))"
| "readln_loop bufsize (ch # file) j strbuf =
     (if code ch = 10 \<or> code ch = 0 then (int (length strbuf), strbuf, file)
      else if code ch = 12 \<or> code ch = 26 then (int (length strbuf) + 1, strbuf @ [ch], file)
      else
        (let strbuf1 = (if code ch \<noteq> 13 then strbuf @ [ch] else strbuf)
         in if length strbuf1 = bufsize then (-3, strbuf1, file) else readln_loop bufsize file (j + 1) strbuf1))"

definition readln :: "string \<Rightarrow> int \<times> string \<times> string" where
  "readln file = readln_loop READCONF_LINESIZE_MAX file 0 []"

lemma readln_shorter:
  assumes "readln fp = (nch, line, rest)" "0 \<le> nch"
  shows "length rest < length fp"
proof -
  have l: "readln_loop n f j b = (k, l, r) \<Longrightarrow> length r \<le> length f" for n f j b k l r
    by (induction n f j b rule: readln_loop.induct) (auto simp: Let_def split: if_splits)
  show ?thesis
  proof (cases fp)
    case Nil
    then show ?thesis using assms by (simp add: readln_def)
  next
    case (Cons c cs)
    then show ?thesis using assms l [of _ cs] by (auto simp: readln_def Let_def less_Suc_eq_le split: if_splits)
  qed
qed

text \<open>\<open>strchr\<close> and \<open>strrchr\<close> of the C library, for characters other than NUL.\<close>

definition strchr :: "string \<Rightarrow> char \<Rightarrow> nat option" where
  "strchr s c = find_loop (\<lambda>p. p = c) s 0 (length s)"

definition strrchr :: "string \<Rightarrow> char \<Rightarrow> nat option" where
  "strrchr s c = rfind_loop s c (length s)"

text \<open>\<open>splitpair\<close>: the key, and the value when there is a separator.\<close>

definition splitpair :: "string \<Rightarrow> char \<Rightarrow> string \<times> string option" where
  "splitpair strbuf sep =
     (case strchr strbuf sep of
        None \<Rightarrow> (dtrim (dtrim strbuf (CHR '' '')) (CHR 0x09), None)
      | Some i \<Rightarrow> (dtrim (dtrim (take i strbuf) (CHR '' '')) (CHR 0x09),
                    Some (dtrim (dtrim (dtrim (drop (i + 1) strbuf) (CHR '' '')) (CHR 0x09)) (CHR 0x22))))"

section \<open>Pairs\<close>

record conf_position =
  cp_fp :: string
  cp_encode :: string
  cp_secname :: string

text \<open>The first line as \<open>fgets\<close> reads it, and the encoding named there.\<close>

definition first_line :: "string \<Rightarrow> string" where
  "first_line file = takeWhile (\<lambda>c. c \<noteq> NUL) (take 4098 (takeWhile (\<lambda>c. code c \<noteq> 10) file @ take 1 (dropWhile (\<lambda>c. code c \<noteq> 10) file)))"

definition conf_encode :: "string \<Rightarrow> string" where
  "conf_encode file =
     (let line = first_line file
      in case strrchr line (CHR '')'') of
           None \<Rightarrow> []
         | Some e \<Rightarrow>
             if strncmp line ''#!encode('' 9 = 0 \<and> e > 8 \<and> e - 8 < 16 then take 15 (take (e - 8 - 1) (drop 9 line)) else [])"

definition ConfOpenFile :: "string option \<Rightarrow> conf_position option" where
  "ConfOpenFile conf =
     (case conf of
        None \<Rightarrow> None
      | Some file \<Rightarrow> Some \<lparr> cp_fp = file, cp_encode = (if file = [] then [] else conf_encode file), cp_secname = [] \<rparr>)"

text \<open>The key and the value found (\<open>None\<close> at the end).\<close>

function ConfGetNextPair :: "conf_position \<Rightarrow> (string \<times> string option) option \<times> conf_position" where
  "ConfGetNextPair cpos =
     (case readln (cp_fp cpos) of (nch, line, rest) \<Rightarrow>
        let cpos1 = cpos\<lparr>cp_fp := rest\<rparr>
        in if nch < 0 then (None, cpos1)
           else
             (let start = dtrim (dtrim line (CHR '' '')) (CHR 0x09); n = length start
              in if chr_at start 0 = CHR ''#'' then ConfGetNextPair cpos1
                 else if n > 2 then
                   (if n \<le> READCONF_SECNAME_MAX \<and> chr_at start 0 = CHR ''['' \<and> chr_at start (n - 1) = CHR '']''
                    then ConfGetNextPair (cpos1\<lparr>cp_secname := take (n - 2) (drop 1 start)\<rparr>)
                    else (Some (splitpair start (CHR ''='')), cpos1))
                 else ConfGetNextPair cpos1))"
  by auto
termination
  by (relation "measure (\<lambda>c. length (cp_fp c))") (auto simp: not_less dest: readln_shorter [OF sym])

declare ConfGetNextPair.simps [simp del]

text \<open>\<open>rewind\<close> needs the whole file again.\<close>

definition ConfGetFirstPair :: "string \<Rightarrow> conf_position \<Rightarrow> (string \<times> string option) option \<times> conf_position" where
  "ConfGetFirstPair file cpos = ConfGetNextPair (cpos\<lparr>cp_fp := file\<rparr>)"

lemma next_pair_shorter: "ConfGetNextPair cpos = (Some kv, cpos') \<Longrightarrow> length (cp_fp cpos') < length (cp_fp cpos)"
proof (induction "length (cp_fp cpos)" arbitrary: cpos rule: less_induct)
  case less
  obtain nch line rest where r: "readln (cp_fp cpos) = (nch, line, rest)" by (metis prod_cases3)
  show ?case
  proof (cases "nch < 0")
    case True
    then show ?thesis using less(2) r by (subst (asm) ConfGetNextPair.simps) simp
  next
    case False
    then have l: "length rest < length (cp_fp cpos)" using readln_shorter [OF r] by simp
    have "length (cp_fp cpos') < length rest" if "ConfGetNextPair c = (Some kv, cpos')" "cp_fp c = rest" for c
      using less(1) [of c] that l by simp
    then show ?thesis using less(2) r False l
      by (subst (asm) ConfGetNextPair.simps) (fastforce simp: Let_def split: if_splits)
  qed
qed

section \<open>Values\<close>

text \<open>
  The loop over the lines that continue a value: \<open>valbuf\<close> is the text in the buffer, \<open>valsz\<close> the size the
  code computes, which need not fit.  The result: the returned size and the text, or a write outside
  the buffer.
\<close>

function read_continued :: "int \<Rightarrow> string \<Rightarrow> int \<Rightarrow> string \<Rightarrow> conf_error + int \<times> string" where
  "read_continued maxbufsize fp valsz valbuf =
     (case readln fp of (nch, line, rest) \<Rightarrow>
        if nch < 0 then Inr (valsz, valbuf)
        else
          (let start = dtrim (dtrim line (CHR '' '')) (CHR 0x09)
           in if chr_at start 0 = CHR ''#'' then read_continued maxbufsize rest valsz valbuf
              else if chr_at start 0 \<noteq> CHR ''+'' then
                (if valsz - 2 \<ge> maxbufsize then Inl OutOfBounds else Inr (valsz - 1, take (nat (valsz - 2)) valbuf))
              else
                (let piece = dtrim (dtrim (drop 1 start) (CHR '' '')) (CHR 0x09); n = int (length piece);
                     valbuf1 = (if valsz - 2 + n < maxbufsize
                                then (if nat (valsz - 2) \<le> length valbuf then take (nat (valsz - 2)) valbuf @ piece else valbuf)
                                else valbuf);
                     valsz1 = valsz - 2 + n + 1
                 in if piece \<noteq> [] \<and> last piece = CHR 0x5C then read_continued maxbufsize rest valsz1 valbuf1
                    else Inr (valsz1, valbuf1))))"
  by auto
termination
  by (relation "measure (\<lambda>(m, fp, z, b). length fp)") (auto simp: not_less dest: readln_shorter [OF sym])

declare read_continued.simps [simp del]

text \<open>
  The loop of \<open>ConfReadValue\<close>.  \<open>buf\<close> is the size of the buffer, \<open>None\<close> for a NULL \<open>valbuf\<close>; \<open>before\<close> is the
  byte in front of the buffer, which the code reads for an empty value.  The text is \<open>None\<close> when the
  buffer is left alone.
\<close>

function read_value_loop ::
  "char \<Rightarrow> string option \<Rightarrow> string \<Rightarrow> nat option \<Rightarrow> (string \<times> string option) option \<times> conf_position \<Rightarrow>
     conf_error + int \<times> string option" where
  "read_value_loop before sectionName keyName buf (None, cpos) = Inr (0, None)"
| "read_value_loop before sectionName keyName buf (Some (key, val), cpos) =
     (if (case sectionName of None \<Rightarrow> True | Some sec \<Rightarrow> strcmp (cp_secname cpos) sec = 0) \<and> strcmp key keyName = 0 then
        (case (val, buf) of
           (None, None) \<Rightarrow> Inl NullPointer
         | (None, Some maxbufsize) \<Rightarrow> Inr (1, Some [])
         | (Some v, None) \<Rightarrow> Inr (int (length v) + 1, None)
         | (Some v, Some maxbufsize) \<Rightarrow>
             (let valsz = int (length v) + 1
              in if valsz > int maxbufsize then Inl OutOfBounds
                 else if v = [] then (if before = CHR 0x5C then Inl OutOfBounds else Inr (valsz, Some v))
                 else if last v \<noteq> CHR 0x5C then Inr (valsz, Some v)
                 else (case read_continued (int maxbufsize) (cp_fp cpos) valsz v of
                         Inl e \<Rightarrow> Inl e
                       | Inr (sz, txt) \<Rightarrow> Inr (sz, Some txt))))
      else read_value_loop before sectionName keyName buf (ConfGetNextPair cpos))"
  by pat_completeness auto
termination
proof (relation "measure (\<lambda>(b, s, k, m, kv, c). case kv of None \<Rightarrow> 0 | Some x \<Rightarrow> Suc (length (cp_fp c)))", goal_cases)
  case (2 before sec key buf k val cpos)
  obtain kv c where "ConfGetNextPair cpos = (kv, c)" by force
  then show ?case using next_pair_shorter [of cpos _ c] by (cases kv) auto
qed simp

text \<open>A file that cannot be opened: \<open>ConfCloseFile\<close> dereferences the NULL position.\<close>

definition ConfReadValue :: "char \<Rightarrow> string option \<Rightarrow> string option \<Rightarrow> string \<Rightarrow> nat option \<Rightarrow> conf_error + int \<times> string option" where
  "ConfReadValue before confFile sectionName keyName buf =
     (case (confFile, ConfOpenFile confFile) of
        (Some file, Some cpos) \<Rightarrow> read_value_loop before sectionName keyName buf (ConfGetFirstPair file cpos)
      | _ \<Rightarrow> Inl NullPointer)"

definition ConfReadValueParsed ::
  "char \<Rightarrow> string option \<Rightarrow> string \<Rightarrow> string option \<Rightarrow> string \<Rightarrow> nat option \<Rightarrow> conf_error + int \<times> string option" where
  "ConfReadValueParsed before confFile family qualifier key buf =
     (case qualifier of
        None \<Rightarrow> ConfReadValue before confFile (Some family) key buf
      | Some q \<Rightarrow> ConfReadValue before confFile (Some (take (READCONF_SECNAME_MAX + 4 - 1) (family @ '':'' @ q))) key buf)"

definition ConfReadValueParsed2 ::
  "char \<Rightarrow> string option \<Rightarrow> string \<Rightarrow> string option \<Rightarrow> int \<Rightarrow> string \<Rightarrow> nat option \<Rightarrow> conf_error + int \<times> string option" where
  "ConfReadValueParsed2 before confFile family qualifier qualifierlen key buf =
     (case qualifier of
        None \<Rightarrow> ConfReadValue before confFile (Some family) key buf
      | Some q \<Rightarrow>
          (let qlen = (if qualifierlen = -1 then min (length q) READCONF_KEYLEN_MAX else nat qualifierlen)
           in ConfReadValue before confFile
                (Some (take (READCONF_SECNAME_MAX + READCONF_KEYLEN_MAX + 4 - 1) (family @ '':'' @ take qlen q))) key buf))"

text \<open>The result: the size and the buffer, which \<open>ConfMemAlloc\<close> has filled with zeros.\<close>

definition ConfReadValueParsedAlloc ::
  "char \<Rightarrow> string option \<Rightarrow> string \<Rightarrow> string option \<Rightarrow> string \<Rightarrow> conf_error + int \<times> string" where
  "ConfReadValueParsedAlloc before confFile family qualifier key =
     (case ConfReadValueParsed before confFile family qualifier key (Some READCONF_LINESIZE_MAX) of
        Inl e \<Rightarrow> Inl e
      | Inr (valsz, txt) \<Rightarrow>
          if valsz > int READCONF_LINESIZE_MAX then
            (case ConfReadValueParsed before confFile family qualifier key (Some (nat valsz)) of
               Inl e \<Rightarrow> Inl e
             | Inr (valsz', txt') \<Rightarrow> Inr (valsz', case txt' of None \<Rightarrow> [] | Some t \<Rightarrow> t))
          else Inr (valsz, case txt of None \<Rightarrow> [] | Some t \<Rightarrow> t))"

section \<open>Sections\<close>

definition ConfCopySection :: "conf_position \<Rightarrow> string option \<times> int" where
  "ConfCopySection cpos =
     (if cp_secname cpos = [] then (None, -1) else (Some (cp_secname cpos), int (length (cp_secname cpos)) + 2))"

text \<open>
  \<open>ConfGetSectionList\<close> reads the file twice: \<open>count_sections\<close> counts the changes of the section, and
  \<open>list_sections\<close> copies them; \<open>secs\<close> are the names copied so far.  \<open>ConfMemAlloc\<close> ends the process
  when the size is negative.
\<close>

function count_sections :: "(string \<times> string option) option \<times> conf_position \<Rightarrow> string \<Rightarrow> nat \<Rightarrow> nat" where
  "count_sections (None, cpos) secName num = num"
| "count_sections (Some kv, cpos) secName num =
     (if strcmp (cp_secname cpos) secName \<noteq> 0
      then count_sections (ConfGetNextPair cpos) (case fst (ConfCopySection cpos) of None \<Rightarrow> secName | Some n \<Rightarrow> n) (num + 1)
      else count_sections (ConfGetNextPair cpos) secName num)"
  by pat_completeness auto
termination
proof (relation "measure (\<lambda>((kv, c), s, n). case kv of None \<Rightarrow> 0 | Some x \<Rightarrow> Suc (length (cp_fp c)))", goal_cases)
  case (2 kv cpos sec num)
  obtain kv' c where "ConfGetNextPair cpos = (kv', c)" by force
  then show ?case using next_pair_shorter [of cpos _ c] by (cases kv') auto
next
  case (3 kv cpos sec num)
  obtain kv' c where "ConfGetNextPair cpos = (kv', c)" by force
  then show ?case using next_pair_shorter [of cpos _ c] by (cases kv') auto
qed simp

function list_sections :: "nat \<Rightarrow> (string \<times> string option) option \<times> conf_position \<Rightarrow> string list \<Rightarrow> conf_error + string list" where
  "list_sections num (None, cpos) secs = Inr secs"
| "list_sections num (Some kv, cpos) secs =
     (if secs = [] \<or> strcmp (cp_secname cpos) (last secs) \<noteq> 0 then
        (case ConfCopySection cpos of
           (None, sz) \<Rightarrow> Inl ProcessExit
         | (Some n, sz) \<Rightarrow>
             if length secs + 1 < num then list_sections num (ConfGetNextPair cpos) (secs @ [n]) else Inr (secs @ [n]))
      else list_sections num (ConfGetNextPair cpos) secs)"
  by pat_completeness auto
termination
proof (relation "measure (\<lambda>(m, (kv, c), s). case kv of None \<Rightarrow> 0 | Some x \<Rightarrow> Suc (length (cp_fp c)))", goal_cases)
  case (2 num kv cpos secs)
  obtain kv' c where "ConfGetNextPair cpos = (kv', c)" by force
  then show ?case using next_pair_shorter [of cpos _ c] by (cases kv') auto
next
  case (3 num kv cpos secs)
  obtain kv' c where "ConfGetNextPair cpos = (kv', c)" by force
  then show ?case using next_pair_shorter [of cpos _ c] by (cases kv') auto
qed simp

text \<open>The result: the returned number and the list; -1 when the file cannot be opened.\<close>

definition ConfGetSectionList :: "string option \<Rightarrow> conf_error + int \<times> string list" where
  "ConfGetSectionList confFile =
     (case ConfOpenFile confFile of
        None \<Rightarrow> Inr (-1, [])
      | Some cpos \<Rightarrow>
          (let num = count_sections (ConfGetNextPair cpos) [] 0
           in if num > 0 then
                (case list_sections num (ConfGetNextPair cpos) [] of Inl e \<Rightarrow> Inl e | Inr secs \<Rightarrow> Inr (int num, secs))
              else Inr (0, [])))"

definition ConfSectionListGetAt :: "string list \<Rightarrow> int \<Rightarrow> string option" where
  "ConfSectionListGetAt sections secIndex =
     (if secIndex < 0 \<or> secIndex \<ge> int (length sections) then None else Some (sections ! nat secIndex))"

text \<open>The returned number, \<open>family\<close> and \<open>qualifier\<close>; -1 for NULL.\<close>

definition ConfSectionParse :: "string option \<Rightarrow> int \<times> string \<times> string option" where
  "ConfSectionParse sectionName =
     (case sectionName of
        None \<Rightarrow> (-1, [], None)
      | Some s \<Rightarrow>
          if s = [] then (0, [], None)
          else
            (case (strchr s (CHR '':''), strrchr s (CHR '':'')) of
               (Some p, Some q) \<Rightarrow> if p = q then (2, take p s, Some (drop (p + 1) s)) else (1, s, None)
             | _ \<Rightarrow> (1, s, None)))"

section \<open>Words for switches\<close>

definition ConfParseBoolValue :: "string option \<Rightarrow> int \<Rightarrow> int" where
  "ConfParseBoolValue value defvalue =
     (case value of
        None \<Rightarrow> defvalue
      | Some v \<Rightarrow>
          if v = [] then defvalue
          else
            (let c = min (length v) 10
             in if c > 8 then -1
                else if list_ex (\<lambda>w. strncasecmp w v c = 0) [''1'', ''yes'', ''y'', ''on'', ''open'', ''true'', ''t''] then 1
                else if list_ex (\<lambda>w. strncasecmp w v c = 0) [''0'', ''no'', ''n'', ''off'', ''close'', ''false'', ''f''] then 0
                else -1))"

section \<open>Sizes\<close>

definition namebytes :: "(string \<times> int \<times> nat) list" where
  "namebytes =
     [(''B'', 10, 0), (''KiB'', 2, 10), (''KB'', 10, 3), (''K'', 10, 3), (''MiB'', 2, 20), (''MB'', 10, 6), (''M'', 10, 6),
      (''GiB'', 2, 30), (''GB'', 10, 9), (''G'', 10, 9), (''TiB'', 2, 40), (''TB'', 10, 12), (''T'', 10, 12),
      (''PiB'', 2, 50), (''PB'', 10, 15), (''P'', 10, 15), (''EiB'', 2, 60), (''EB'', 10, 18), (''E'', 10, 18),
      (''ZiB'', 2, 70), (''ZB'', 10, 21), (''Z'', 10, 21), (''YiB'', 2, 80), (''YB'', 10, 24), (''Y'', 10, 24)]"

text \<open>\<open>trim_whitespace\<close> is the expression of \<open>cstr_trim_whitespace\<close>, with the same assignments to the string.\<close>

definition trim_whitespace :: "string \<Rightarrow> string" where
  "trim_whitespace s = (case trim_ws (length s) s of (m, k) \<Rightarrow> drop k m)"

text \<open>
  The loop from the last character to the first, and \<open>ConfParseSizeBytesValue\<close>: the text for \<open>atof\<close>, the base and the
  exponent of the unit, or \<open>None\<close> where the code returns the default.
\<close>

fun size_scan :: "string \<Rightarrow> nat \<Rightarrow> nat \<Rightarrow> (string \<times> int \<times> nat) option" where
  "size_scan value len 0 = None"
| "size_scan value len (Suc e) =
     (if code (value ! e) \<ge> 48 \<and> code (value ! e) \<le> 57 then
        (case List.find (\<lambda>(name, base, exponent). mem_eq name (drop (e + 1) value) (len - e)) namebytes of
           Some (name, base, exponent) \<Rightarrow> Some (take (e + 1) value, base, exponent)
         | None \<Rightarrow> size_scan value len e)
      else size_scan value len e)"

definition ConfParseSizeBytesValue :: "string option \<Rightarrow> (string \<times> int \<times> nat) option" where
  "ConfParseSizeBytesValue valuebuf =
     (case valuebuf of
        None \<Rightarrow> None
      | Some buf \<Rightarrow> (let value = trim_whitespace buf; len = min (length value) 128 in size_scan value len len))"

section \<open>Variables\<close>

text \<open>
  \<open>StringReplaceOutputNew\<close> is called with the lengths of its strings; the loops are those of
  \<open>cstr_replace_new\<close>.
\<close>

definition StringReplaceOutputNew :: "string \<Rightarrow> string \<Rightarrow> string \<Rightarrow> (int \<times> string option) option" where
  "StringReplaceOutputNew original pattern replacement =
     (case count_loop original pattern 0 of
        None \<Rightarrow> None
      | Some patcnt \<Rightarrow>
          if patcnt \<noteq> 0 then
            (let len = replaced_len (length original) patcnt (length replacement) (length pattern)
             in map_option (\<lambda>result. (to_int32 (int len), Some result)) (copy_loop original pattern replacement []))
          else Some (0, None))"

text \<open>The pattern that stands for a variable, and the value \<open>repstr\<close> after one replacement.\<close>

definition keypattern :: "string \<Rightarrow> string" where
  "keypattern key = take (READCONF_KEYLEN_MAX + 4 - 1) (''$('' @ key @ '')'')"

definition replace_var :: "string \<Rightarrow> string \<Rightarrow> string \<Rightarrow> string option" where
  "replace_var key val repstr =
     (case StringReplaceOutputNew repstr (keypattern key) val of
        None \<Rightarrow> None
      | Some (outlen, outstr) \<Rightarrow> Some (if outlen > 0 then (case outstr of None \<Rightarrow> repstr | Some r \<Rightarrow> r) else repstr))"

fun ConfVariablesReplace :: "string \<Rightarrow> (string \<times> string) list \<Rightarrow> string option" where
  "ConfVariablesReplace input [] = Some input"
| "ConfVariablesReplace input ((key, val) # vars) =
     (case replace_var key val input of None \<Rightarrow> None | Some repstr \<Rightarrow> ConfVariablesReplace repstr vars)"

text \<open>
  \<open>ConfReadSectionVariables\<close>: the pairs of a section, where a key without value is a NULL pointer; then each
  variable in turn is replaced in the values of all others.  The result: the returned number (-1
  when a key or a value is too long) with keys and values.
\<close>

function section_pairs ::
  "string option \<Rightarrow> (string \<times> string option) option \<times> conf_position \<Rightarrow> (string \<times> string option) list" where
  "section_pairs sectionName (None, cpos) = []"
| "section_pairs sectionName (Some kv, cpos) =
     (if (case sectionName of None \<Rightarrow> True | Some sec \<Rightarrow> strcmp (cp_secname cpos) sec = 0)
      then kv # section_pairs sectionName (ConfGetNextPair cpos) else section_pairs sectionName (ConfGetNextPair cpos))"
  by pat_completeness auto
termination
proof (relation "measure (\<lambda>(s, (kv, c)). case kv of None \<Rightarrow> 0 | Some x \<Rightarrow> Suc (length (cp_fp c)))", goal_cases)
  case (2 sec kv cpos)
  obtain kv' c where "ConfGetNextPair cpos = (kv', c)" by force
  then show ?case using next_pair_shorter [of cpos _ c] by (cases kv') auto
next
  case (3 sec kv cpos)
  obtain kv' c where "ConfGetNextPair cpos = (kv', c)" by force
  then show ?case using next_pair_shorter [of cpos _ c] by (cases kv') auto
qed simp

fun replace_in_others :: "nat \<Rightarrow> string \<Rightarrow> string \<Rightarrow> nat \<Rightarrow> (string \<times> string) list \<Rightarrow> (string \<times> string) list option" where
  "replace_in_others i key val j [] = Some []"
| "replace_in_others i key val j ((k, v) # rest) =
     (case (if i \<noteq> j then replace_var key val v else Some v) of
        None \<Rightarrow> None
      | Some v' \<Rightarrow> map_option (\<lambda>vs. (k, v') # vs) (replace_in_others i key val (j + 1) rest))"

fun replace_each :: "nat \<Rightarrow> nat \<Rightarrow> (string \<times> string) list \<Rightarrow> (string \<times> string) list option" where
  "replace_each 0 i vars = Some vars"
| "replace_each (Suc left) i vars =
     (case replace_in_others i (fst (vars ! i)) (snd (vars ! i)) 0 vars of
        None \<Rightarrow> None
      | Some vars' \<Rightarrow> replace_each left (i + 1) vars')"

definition ConfReadSectionVariables ::
  "string option \<Rightarrow> string option \<Rightarrow> (conf_error + int \<times> (string \<times> string) list) option" where
  "ConfReadSectionVariables confFile sectionName =
     (case (confFile, ConfOpenFile confFile) of
        (Some file, Some cpos) \<Rightarrow>
          (let ps = section_pairs sectionName (ConfGetFirstPair file cpos)
           in if ps = [] then Some (Inr (0, []))
              else if list_ex (\<lambda>kv. snd kv = None) ps then Some (Inl NullPointer)
              else if list_ex (\<lambda>kv. length (fst kv) > READCONF_KEYLEN_MAX \<or> length (the (snd kv)) \<ge> READCONF_LINESIZE_MAX) ps
              then Some (Inr (-1, []))
              else map_option (\<lambda>vars. Inr (int (length ps), vars)) (replace_each (length ps) 0 (map (\<lambda>(k, v). (k, the v)) ps)))
      | _ \<Rightarrow> Some (Inl NullPointer))"

section \<open>Trimming and lines\<close>

lemma ltrim_eq: "ltrim s c = dropWhile (\<lambda>x. x = c) s"
  by (induction s) auto

lemma rtrim_end_eq: "rtrim_end s c p q = (if \<forall>x \<in> set s. x = c then q else p + length (rdrop_while (\<lambda>x. x = c) s))"
proof (induction s arbitrary: p q)
  case (Cons x s)
  show ?case
  proof (cases "\<forall>y \<in> set s. y = c")
    case True
    then have "rdrop_while (\<lambda>x. x = c) s = []" by (simp add: rdrop_while_Nil)
    then show ?thesis using True Cons by (simp add: rdrop_while_Cons)
  next
    case False
    then have "rdrop_while (\<lambda>x. x = c) s \<noteq> []" by (simp add: rdrop_while_Nil)
    then show ?thesis using False Cons by (auto simp: rdrop_while_Cons)
  qed
qed simp

lemma rtrim_eq: "rtrim s c = (if \<forall>x \<in> set s. x = c then s else rdrop_while (\<lambda>x. x = c) s)"
proof (cases "\<forall>x \<in> set s. x = c")
  case False
  then have "rdrop_while (\<lambda>x. x = c) s \<noteq> []" by (simp add: rdrop_while_Nil)
  then show ?thesis using False by (auto simp: rtrim_def rtrim_end_eq Let_def rdrop_while_prefix [symmetric])
qed (simp add: rtrim_def rtrim_end_eq)

lemma dtrim_eq: "dtrim s c = rdrop_while (\<lambda>x. x = c) (dropWhile (\<lambda>x. x = c) s)"
proof (cases "dropWhile (\<lambda>x. x = c) s = []")
  case True
  show ?thesis unfolding dtrim_def ltrim_eq rtrim_eq True by simp
next
  case False
  then have "hd (dropWhile (\<lambda>x. x = c) s) \<noteq> c" "hd (dropWhile (\<lambda>x. x = c) s) \<in> set (dropWhile (\<lambda>x. x = c) s)"
    using hd_dropWhile [of "\<lambda>x. x = c" s] by (simp_all only: list.set_sel(1) not_False_eq_True)
  then have "\<not> (\<forall>x \<in> set (dropWhile (\<lambda>x. x = c) s). x = c)" by blast
  then show ?thesis unfolding dtrim_def ltrim_eq rtrim_eq by (rule if_not_P)
qed

lemma dtrim_id: "s = [] \<or> hd s \<noteq> c \<and> last s \<noteq> c \<Longrightarrow> dtrim s c = s"
proof (cases s rule: rev_cases)
  case (snoc xs x)
  assume "s = [] \<or> hd s \<noteq> c \<and> last s \<noteq> c"
  then have "hd s \<noteq> c" "x \<noteq> c" using snoc by auto
  moreover from this have "dropWhile (\<lambda>x. x = c) s = s" using snoc by (cases xs) auto
  ultimately show ?thesis using snoc by (simp add: dtrim_eq)
qed (simp add: dtrim_eq)

text \<open>Files made of lines.\<close>

definition plain_line :: "string \<Rightarrow> bool" where
  "plain_line l \<longleftrightarrow> length l < READCONF_LINESIZE_MAX \<and> (\<forall>c \<in> set l. code c \<noteq> 0 \<and> code c \<noteq> 10 \<and> code c \<noteq> 12 \<and> code c \<noteq> 13 \<and> code c \<noteq> 26)"

fun file_text :: "string list \<Rightarrow> string" where
  "file_text [] = []"
| "file_text (l # ls) = l @ CHR 0x0A # file_text ls"

lemma readln_line:
  assumes "plain_line l"
  shows "readln (l @ CHR 0x0A # rest) = (int (length l), l, rest)"
proof -
  have "readln_loop n (l @ CHR 0x0A # rest) j b = (int (length b + length l), b @ l, rest)"
    if "length b + length l < n" "\<forall>c \<in> set l. code c \<noteq> 0 \<and> code c \<noteq> 10 \<and> code c \<noteq> 12 \<and> code c \<noteq> 13 \<and> code c \<noteq> 26" for n j b
    using that by (induction l arbitrary: j b) (auto simp: Let_def)
  from this [of "[]" READCONF_LINESIZE_MAX 0] show ?thesis using assms by (simp add: readln_def plain_line_def)
qed

lemma readln_end: "readln [] = (-1, [], [])"
  by (simp add: readln_def)

section \<open>The entries of a file\<close>

text \<open>The specification of the reader: the entries of a list of lines, with their sections.\<close>

definition line_text :: "string \<Rightarrow> string" where
  "line_text l = dtrim (dtrim l (CHR '' '')) (CHR 0x09)"

fun conf_entries :: "string \<Rightarrow> string list \<Rightarrow> (string \<times> string \<times> string option) list" where
  "conf_entries sec [] = []"
| "conf_entries sec (l # ls) =
     (let start = line_text l; n = length start
      in if n \<le> 2 \<or> hd start = CHR ''#'' then conf_entries sec ls
         else if n \<le> READCONF_SECNAME_MAX \<and> hd start = CHR ''['' \<and> last start = CHR '']'' then conf_entries (butlast (tl start)) ls
         else (sec, splitpair start (CHR ''='')) # conf_entries sec ls)"

lemma next_pair_line:
  assumes "plain_line l" "cp_fp cpos = l @ CHR 0x0A # rest"
  defines "start \<equiv> line_text l"
  shows "ConfGetNextPair cpos =
    (if length start \<le> 2 \<or> hd start = CHR ''#'' then ConfGetNextPair (cpos\<lparr>cp_fp := rest\<rparr>)
     else if length start \<le> READCONF_SECNAME_MAX \<and> hd start = CHR ''['' \<and> last start = CHR '']''
     then ConfGetNextPair (cpos\<lparr>cp_fp := rest, cp_secname := butlast (tl start)\<rparr>)
     else (Some (splitpair start (CHR ''='')), cpos\<lparr>cp_fp := rest\<rparr>))"
proof -
  have r: "readln (cp_fp cpos) = (int (length l), l, rest)" using assms(1,2) by (simp add: readln_line)
  have hl: "start \<noteq> [] \<Longrightarrow> chr_at start 0 = hd start \<and> chr_at start (length start - 1) = last start"
    by (simp add: chr_at_def hd_conv_nth last_conv_nth)
  have sub: "take (length start - 2) (drop (Suc 0) start) = butlast (tl start)"
    by (simp add: butlast_conv_take drop_Suc numeral_2_eq_2)
  show ?thesis
    using hl by (subst ConfGetNextPair.simps) (cases "start = []"; auto simp: r line_text_def [symmetric] Let_def sub chr_at_def NUL_def
        start_def [symmetric])
qed

fun sec_after :: "string \<Rightarrow> string list \<Rightarrow> string" where
  "sec_after sec [] = sec"
| "sec_after sec (l # ls) =
     (let start = line_text l; n = length start
      in if 2 < n \<and> hd start \<noteq> CHR ''#'' \<and> n \<le> READCONF_SECNAME_MAX \<and> hd start = CHR ''['' \<and> last start = CHR '']''
         then sec_after (butlast (tl start)) ls else sec_after sec ls)"

lemma conf_entries_append: "conf_entries sec (pre @ ls) = conf_entries sec pre @ conf_entries (sec_after sec pre) ls"
  by (induction pre arbitrary: sec) (auto simp: Let_def)

text \<open>Lines without the entry are read over.\<close>

definition no_entry :: "string \<Rightarrow> string \<Rightarrow> (string \<times> string \<times> string option) list \<Rightarrow> bool" where
  "no_entry sec key es \<longleftrightarrow> (\<forall>e \<in> set es. \<not> (fst e = sec \<and> fst (snd e) = key))"

lemma no_entry_simps [simp]:
  "no_entry sec key []"
  "no_entry sec key ((s, k, v) # es) \<longleftrightarrow> \<not> (s = sec \<and> k = key) \<and> no_entry sec key es"
  "no_entry sec key (es @ es') \<longleftrightarrow> no_entry sec key es \<and> no_entry sec key es'"
  by (auto simp: no_entry_def)

lemma read_skips:
  assumes "list_all plain_line pre" "no_entry sec key (conf_entries (cp_secname cpos) pre)" "cp_fp cpos = file_text pre @ rest"
  shows "read_value_loop before (Some sec) key buf (ConfGetNextPair cpos) =
    read_value_loop before (Some sec) key buf (ConfGetNextPair (cpos\<lparr>cp_fp := rest, cp_secname := sec_after (cp_secname cpos) pre\<rparr>))"
  using assms
proof (induction pre arbitrary: cpos)
  case Nil
  then have "cpos\<lparr>cp_fp := rest, cp_secname := sec_after (cp_secname cpos) []\<rparr> = cpos" by simp
  then show ?case by (simp only:)
next
  case (Cons l pre)
  let ?start = "line_text l"
  have r: "cp_fp cpos = l @ CHR 0x0A # file_text pre @ rest" using Cons.prems(3) by simp
  have pl: "plain_line l" "list_all plain_line pre" using Cons.prems(1) by simp_all
  note step = next_pair_line [OF pl(1) r]
  let ?c1 = "cpos\<lparr>cp_fp := file_text pre @ rest\<rparr>"
  let ?c2 = "cpos\<lparr>cp_fp := file_text pre @ rest, cp_secname := butlast (tl ?start)\<rparr>"
  note ih1 = Cons.IH [OF pl(2), of ?c1] and ih2 = Cons.IH [OF pl(2), of ?c2]
  consider "length ?start \<le> 2 \<or> hd ?start = CHR ''#''"
    | "\<not> (length ?start \<le> 2 \<or> hd ?start = CHR ''#'')" "length ?start \<le> READCONF_SECNAME_MAX \<and> hd ?start = CHR ''['' \<and> last ?start = CHR '']''"
    | "\<not> (length ?start \<le> 2 \<or> hd ?start = CHR ''#'')" "\<not> (length ?start \<le> READCONF_SECNAME_MAX \<and> hd ?start = CHR ''['' \<and> last ?start = CHR '']'')"
    by blast
  then show ?case
  proof cases
    case 1
    then have "ConfGetNextPair cpos = ConfGetNextPair ?c1" using step by (simp only: if_True)
    moreover have "conf_entries (cp_secname cpos) (l # pre) = conf_entries (cp_secname cpos) pre"
      "sec_after (cp_secname cpos) (l # pre) = sec_after (cp_secname cpos) pre" using 1 by (auto simp: Let_def)
    ultimately show ?thesis using ih1 Cons.prems(2) by simp
  next
    case 2
    have "ConfGetNextPair cpos = ConfGetNextPair ?c2" using step unfolding if_not_P [OF 2(1)] if_P [OF 2(2)] .
    moreover have "conf_entries (cp_secname cpos) (l # pre) = conf_entries (butlast (tl ?start)) pre"
      "sec_after (cp_secname cpos) (l # pre) = sec_after (butlast (tl ?start)) pre" using 2 by (auto simp: Let_def)
    ultimately show ?thesis using ih2 Cons.prems(2) by simp
  next
    case 3
    obtain k v where kv: "splitpair ?start (CHR ''='') = (k, v)" by force
    have p: "ConfGetNextPair cpos = (Some (k, v), ?c1)" using 3 step kv by (simp only: if_False)
    have e: "conf_entries (cp_secname cpos) (l # pre) = (cp_secname cpos, k, v) # conf_entries (cp_secname cpos) pre"
      using 3 kv by (simp only: conf_entries.simps Let_def if_False)
    have a: "sec_after (cp_secname cpos) (l # pre) = sec_after (cp_secname cpos) pre" using 3 by (auto simp: Let_def)
    have ne: "\<not> (cp_secname cpos = sec \<and> k = key)" "no_entry sec key (conf_entries (cp_secname cpos) pre)"
      using Cons.prems(2) unfolding e by simp_all
    then have "read_value_loop before (Some sec) key buf (ConfGetNextPair cpos) =
        read_value_loop before (Some sec) key buf (ConfGetNextPair ?c1)"
      unfolding p by (auto simp: read_value_loop.simps)
    then show ?thesis using ih1 ne(2) a by simp
  qed
qed

text \<open>The entry itself.\<close>

lemma read_entry:
  assumes "plain_line l" "conf_entries (cp_secname cpos) [l] = [(sec, key, val)]" "cp_fp cpos = l @ CHR 0x0A # rest"
  shows "read_value_loop before (Some sec) key buf (ConfGetNextPair cpos) =
    read_value_loop before (Some sec) key buf (Some (key, val), cpos\<lparr>cp_fp := rest\<rparr>) \<and> cp_secname cpos = sec"
  using assms(2) next_pair_line [OF assms(1,3)] by (auto simp: Let_def split: if_splits)

lemma find_split:
  "List.find P xs = Some x \<Longrightarrow> \<exists>us vs. xs = us @ x # vs \<and> P x \<and> (\<forall>u \<in> set us. \<not> P u)"
proof (induction xs)
  case (Cons y ys)
  show ?case
  proof (cases "P y")
    case True
    then show ?thesis using Cons.prems by (intro exI [of _ "[]"] exI [of _ ys]) simp
  next
    case False
    then obtain us vs where "ys = us @ x # vs" "P x" "\<forall>u \<in> set us. \<not> P u" using Cons by auto
    then show ?thesis using False by (intro exI [of _ "y # us"] exI [of _ vs]) simp
  qed
qed simp

text \<open>Where an entry of the list of entries comes from.\<close>

lemma entry_line:
  assumes "conf_entries sec0 ls = es @ (sec, key, val) # es'"
  shows "\<exists>pre l ls'. ls = pre @ l # ls' \<and> conf_entries sec0 pre = es \<and> sec_after sec0 pre = sec \<and> conf_entries sec [l] = [(sec, key, val)]"
  using assms
proof (induction ls arbitrary: sec0 es)
  case (Cons l ls)
  show ?case
  proof (cases "conf_entries sec0 [l] = []")
    case True
    then have "conf_entries (sec_after sec0 [l]) ls = es @ (sec, key, val) # es'"
      using Cons.prems conf_entries_append [of sec0 "[l]" ls] by simp
    then obtain pre m ls' where p: "ls = pre @ m # ls'" "conf_entries (sec_after sec0 [l]) pre = es"
        "sec_after (sec_after sec0 [l]) pre = sec" "conf_entries sec [m] = [(sec, key, val)]" using Cons.IH by blast
    then have "conf_entries sec0 (l # pre) = es" "sec_after sec0 (l # pre) = sec"
      using conf_entries_append [of sec0 "[l]" pre] True by (auto simp: Let_def split: if_splits)
    then show ?thesis using p(1,4) by (intro exI [of _ "l # pre"] exI [of _ m] exI [of _ ls']) simp
  next
    case False
    then obtain e where e: "conf_entries sec0 [l] = [e]" "fst e = sec0" "sec_after sec0 [l] = sec0" by (auto simp: Let_def split: if_splits)
    then have all: "e # conf_entries sec0 ls = es @ (sec, key, val) # es'"
      using Cons.prems conf_entries_append [of sec0 "[l]" ls] by simp
    show ?thesis
    proof (cases es)
      case Nil
      then show ?thesis using all e by (intro exI [of _ "[]"] exI [of _ l] exI [of _ ls]) auto
    next
      case more: (Cons e1 es1)
      then have "conf_entries sec0 ls = es1 @ (sec, key, val) # es'" "e1 = e" using all by simp_all
      then obtain pre m ls' where p: "ls = pre @ m # ls'" "conf_entries sec0 pre = es1"
          "sec_after sec0 pre = sec" "conf_entries sec [m] = [(sec, key, val)]" using Cons.IH by blast
      then have "conf_entries sec0 (l # pre) = es" "sec_after sec0 (l # pre) = sec"
        using conf_entries_append [of sec0 "[l]" pre] e more \<open>e1 = e\<close> by (auto simp: Let_def split: if_splits)
      then show ?thesis using p(1,4) by (intro exI [of _ "l # pre"] exI [of _ m] exI [of _ ls']) simp
    qed
  qed
qed simp

section \<open>Writing a configuration\<close>

text \<open>A value may be split into pieces: all lines but the last end with a backslash, the lines that continue it begin with a plus.\<close>

fun cont_lines :: "string list \<Rightarrow> string list" where
  "cont_lines [] = []"
| "cont_lines [p] = [''+'' @ p]"
| "cont_lines (p # q # ps) = (''+'' @ p @ [CHR 0x5C]) # cont_lines (q # ps)"

fun item_lines :: "string \<Rightarrow> string list \<Rightarrow> string list" where
  "item_lines key [] = []"
| "item_lines key [p] = [key @ ''='' @ p]"
| "item_lines key (p # q # ps) = (key @ ''='' @ p @ [CHR 0x5C]) # cont_lines (q # ps)"

definition items_lines :: "(string \<times> string list) list \<Rightarrow> string list" where
  "items_lines items = concat (map (\<lambda>(key, ps). item_lines key ps) items)"

definition conf_lines :: "(string \<times> (string \<times> string list) list) list \<Rightarrow> string list" where
  "conf_lines cfg = concat (map (\<lambda>(name, items). (''['' @ name @ '']'') # items_lines items) cfg)"

definition plain_chars :: "string \<Rightarrow> bool" where
  "plain_chars s \<longleftrightarrow> list_all (\<lambda>c. code c \<noteq> 0 \<and> code c \<noteq> 10 \<and> code c \<noteq> 12 \<and> code c \<noteq> 13 \<and> code c \<noteq> 26) s"

definition no_blank :: "char \<Rightarrow> bool" where
  "no_blank c \<longleftrightarrow> c \<noteq> CHR '' '' \<and> c \<noteq> CHR 0x09"

definition good_key :: "string \<Rightarrow> bool" where
  "good_key key \<longleftrightarrow> key \<noteq> [] \<and> length key < 2000 \<and> plain_chars key \<and> CHR ''='' \<notin> set key \<and> no_blank (hd key) \<and> no_blank (last key)
     \<and> hd key \<noteq> CHR ''#'' \<and> hd key \<noteq> CHR ''['' \<and> hd key \<noteq> CHR ''+''"

definition good_piece :: "string \<Rightarrow> bool" where
  "good_piece p \<longleftrightarrow> p \<noteq> [] \<and> length p < 2000 \<and> plain_chars p \<and> no_blank (hd p) \<and> no_blank (last p) \<and> hd p \<noteq> CHR 0x22 \<and> last p \<noteq> CHR 0x22
     \<and> last p \<noteq> CHR 0x5C"

definition good_name :: "string \<Rightarrow> bool" where
  "good_name name \<longleftrightarrow> name \<noteq> [] \<and> length name \<le> 58 \<and> plain_chars name"

definition good_items :: "(string \<times> string list) list \<Rightarrow> bool" where
  "good_items items \<longleftrightarrow> list_all (\<lambda>(key, ps). good_key key \<and> ps \<noteq> [] \<and> list_all good_piece ps) items"

definition good_conf :: "(string \<times> (string \<times> string list) list) list \<Rightarrow> bool" where
  "good_conf cfg \<longleftrightarrow> list_all (\<lambda>(name, items). good_name name \<and> good_items items) cfg"

lemma line_text_id: "l \<noteq> [] \<Longrightarrow> no_blank (hd l) \<Longrightarrow> no_blank (last l) \<Longrightarrow> line_text l = l"
  by (simp add: line_text_def no_blank_def dtrim_id)

lemma plain_chars_simps [simp]:
  "plain_chars []"
  "plain_chars (c # s) \<longleftrightarrow> (code c \<noteq> 0 \<and> code c \<noteq> 10 \<and> code c \<noteq> 12 \<and> code c \<noteq> 13 \<and> code c \<noteq> 26) \<and> plain_chars s"
  "plain_chars (s @ t) \<longleftrightarrow> plain_chars s \<and> plain_chars t"
  by (auto simp: plain_chars_def)

lemma plain_line_iff: "plain_line l \<longleftrightarrow> length l < READCONF_LINESIZE_MAX \<and> plain_chars l"
  by (simp add: plain_line_def plain_chars_def list_all_iff)

lemma find_loop_skip: "hit c \<Longrightarrow> (\<forall>x \<in> set s. \<not> hit x) \<Longrightarrow> i + length s < n \<Longrightarrow> find_loop hit (s @ c # t) i n = Some (i + length s)"
  by (induction s arbitrary: i) auto

lemma find_loop_ge: "find_loop hit s i n = Some k \<Longrightarrow> i \<le> k"
  by (induction s arbitrary: i) (auto split: if_splits dest: Suc_leD)

lemma splitpair_at:
  assumes "CHR ''='' \<notin> set key" "key \<noteq> []" "no_blank (hd key)" "no_blank (last key)"
  shows "splitpair (key @ CHR ''='' # v) (CHR ''='') = (key, Some (dtrim (dtrim (dtrim v (CHR '' '')) (CHR 0x09)) (CHR 0x22)))"
proof -
  have "strchr (key @ CHR ''='' # v) (CHR ''='') = Some (length key)"
    using find_loop_skip [of "\<lambda>p. p = CHR ''=''" "CHR ''=''" key 0 "Suc (length key + length v)" v] assms(1) by (simp add: strchr_def) blast
  then show ?thesis using assms by (simp add: splitpair_def dtrim_id no_blank_def)
qed

text \<open>One line of an item is an entry of its key; the lines that continue it are entries of other keys.\<close>

lemma key_line:
  assumes "good_key key" "v \<noteq> []" "no_blank (hd v)" "no_blank (last v)" "hd v \<noteq> CHR 0x22" "last v \<noteq> CHR 0x22"
  shows "conf_entries sec [key @ ''='' @ v] = [(sec, key, Some v)] \<and> sec_after sec [key @ ''='' @ v] = sec"
proof -
  let ?l = "key @ CHR ''='' # v"
  have k: "key \<noteq> []" "CHR ''='' \<notin> set key" "no_blank (hd key)" "no_blank (last key)" "hd key \<noteq> CHR ''#''" "hd key \<noteq> CHR ''[''"
    using assms(1) by (simp_all add: good_key_def)
  have l: "line_text ?l = ?l" using k assms by (intro line_text_id) simp_all
  have "dtrim (dtrim (dtrim v (CHR '' '')) (CHR 0x09)) (CHR 0x22) = v" using assms(2-) by (simp add: dtrim_id no_blank_def)
  then have "splitpair ?l (CHR ''='') = (key, Some v)" using splitpair_at [of key v] k by simp
  moreover have "\<not> length ?l \<le> 2" using k(1) assms(2) by (cases key; cases v) simp_all
  ultimately show ?thesis using k by (simp add: l)
qed

lemma dtrim_keeps_hd: "s \<noteq> [] \<Longrightarrow> hd s \<noteq> c \<Longrightarrow> dtrim s c \<noteq> [] \<and> hd (dtrim s c) = hd s"
proof -
  assume s: "s \<noteq> []" "hd s \<noteq> c"
  then have d: "dropWhile (\<lambda>x. x = c) s = s" by (cases s) auto
  have "rdrop_while (\<lambda>x. x = c) s \<noteq> []" using s by (cases s) (auto simp: rdrop_while_Nil)
  moreover have "hd (rdrop_while (\<lambda>x. x = c) s) = hd s"
    using calculation rdrop_while_prefix [of "\<lambda>x. x = c" s] by (metis hd_take length_greater_0_conv)
  ultimately show ?thesis by (simp add: dtrim_eq d)
qed

lemma plus_line:
  assumes "p \<noteq> []" "no_blank (last p)" "hd key \<noteq> CHR ''+''"
  shows "no_entry s key (conf_entries sec [''+'' @ p]) \<and> sec_after sec [''+'' @ p] = sec"
proof -
  let ?l = "CHR ''+'' # p"
  have l: "line_text ?l = ?l" using assms by (intro line_text_id) (simp_all add: no_blank_def)
  obtain k v where kv: "splitpair ?l (CHR ''='') = (k, v)" by force
  have "hd k = CHR ''+''"
  proof (cases "strchr ?l (CHR ''='')")
    case None
    then have "k = dtrim (dtrim ?l (CHR '' '')) (CHR 0x09)" using kv by (simp add: splitpair_def)
    then show ?thesis using dtrim_keeps_hd [of ?l "CHR '' ''"] dtrim_keeps_hd [of "dtrim ?l (CHR '' '')" "CHR 0x09"] by simp
  next
    case (Some i)
    then have "k = dtrim (dtrim (take i ?l) (CHR '' '')) (CHR 0x09)" "i \<noteq> 0"
      using kv by (auto simp: splitpair_def strchr_def dest: find_loop_ge split: if_splits)
    moreover from this obtain j where "i = Suc j" by (cases i) auto
    ultimately show ?thesis
      using dtrim_keeps_hd [of "take i ?l" "CHR '' ''"] dtrim_keeps_hd [of "dtrim (take i ?l) (CHR '' '')" "CHR 0x09"] by simp
  qed
  then have "k \<noteq> key" using assms(3) by auto
  then show ?thesis using kv by (simp add: l Let_def)
qed

lemma cont_lines_skipped:
  assumes "list_all good_piece ps" "hd key \<noteq> CHR ''+''"
  shows "no_entry s key (conf_entries sec (cont_lines ps)) \<and> sec_after sec (cont_lines ps) = sec"
  using assms(1)
proof (induction ps rule: cont_lines.induct)
  case (2 p)
  then show ?case using plus_line [of p key s sec] assms(2) by (simp add: good_piece_def)
next
  case (3 p q ps)
  have "no_entry s key (conf_entries sec [''+'' @ p @ [CHR 0x5C]]) \<and> sec_after sec [''+'' @ p @ [CHR 0x5C]] = sec"
    using 3(2) assms(2) by (intro plus_line) (simp_all add: no_blank_def good_piece_def)
  then show ?case using 3 conf_entries_append [of sec "[''+'' @ p @ [CHR 0x5C]]" "cont_lines (q # ps)"]
    by (auto simp: Let_def split: if_splits)
qed simp

lemma list_shapes: obtains "ps = []" | p where "ps = [p]" | p q ps' where "ps = p # q # ps'"
  by (metis neq_Nil_conv)

lemma item_lines_skipped:
  assumes "good_key k" "ps \<noteq> []" "list_all good_piece ps" "hd key \<noteq> CHR ''+''" "\<not> (s = sec \<and> k = key)"
  shows "no_entry s key (conf_entries sec (item_lines k ps)) \<and> sec_after sec (item_lines k ps) = sec"
proof (cases ps rule: list_shapes)
  case 1
  then show ?thesis using assms(2) by simp
next
  case (2 p)
  then show ?thesis using key_line [of k p sec] assms by (auto simp: good_piece_def)
next
  case (3 p q ps')
  have h: "conf_entries sec [k @ ''='' @ p @ [CHR 0x5C]] = [(sec, k, Some (p @ [CHR 0x5C]))] \<and> sec_after sec [k @ ''='' @ p @ [CHR 0x5C]] = sec"
    using assms 3 by (intro key_line) (auto simp: good_piece_def no_blank_def)
  then show ?thesis using conf_entries_append [of sec "[k @ ''='' @ p @ [CHR 0x5C]]" "cont_lines (q # ps')"]
      cont_lines_skipped [of "q # ps'" key s sec] 3 assms
    by (auto simp: Let_def split: if_splits)
qed

lemma items_lines_skipped:
  assumes "good_items items" "hd key \<noteq> CHR ''+''" "\<not> (s = sec \<and> key \<in> fst ` set items)"
  shows "no_entry s key (conf_entries sec (items_lines items)) \<and> sec_after sec (items_lines items) = sec"
  using assms(1,3)
proof (induction items)
  case (Cons it items)
  obtain k ps where it: "it = (k, ps)" by force
  then have "no_entry s key (conf_entries sec (item_lines k ps)) \<and> sec_after sec (item_lines k ps) = sec"
    using Cons.prems assms(2) by (intro item_lines_skipped) (auto simp: good_items_def)
  moreover have "no_entry s key (conf_entries sec (items_lines items)) \<and> sec_after sec (items_lines items) = sec"
    using Cons by (auto simp: good_items_def)
  moreover have "sec_after sec (a @ b) = sec_after (sec_after sec a) b" for a b by (induction a arbitrary: sec) (auto simp: Let_def)
  ultimately show ?case by (simp add: items_lines_def it conf_entries_append)
qed (simp add: items_lines_def)

lemma sec_after_append: "sec_after sec (a @ b) = sec_after (sec_after sec a) b"
  by (induction a arbitrary: sec) (auto simp: Let_def)

lemma header_line:
  assumes "good_name name"
  shows "conf_entries sec [''['' @ name @ '']''] = [] \<and> sec_after sec [''['' @ name @ '']''] = name"
proof -
  let ?l = "CHR ''['' # name @ '']''"
  have "line_text ?l = ?l" by (intro line_text_id) (simp_all add: no_blank_def)
  then show ?thesis using assms by (simp add: good_name_def READCONF_SECNAME_MAX_def butlast_append)
qed

lemma conf_lines_skipped:
  assumes "good_conf cfg" "hd key \<noteq> CHR ''+''" "\<forall>(name, items) \<in> set cfg. \<not> (s = name \<and> key \<in> fst ` set items)"
  shows "no_entry s key (conf_entries sec (conf_lines cfg))"
  using assms(1,3)
proof (induction cfg arbitrary: sec)
  case (Cons c cfg)
  obtain name items where c: "c = (name, items)" by force
  have l: "conf_lines (c # cfg) = [''['' @ name @ '']''] @ items_lines items @ conf_lines cfg" by (simp add: conf_lines_def c)
  have "good_name name" "good_items items" using Cons.prems(1) by (simp_all add: good_conf_def c)
  then have "conf_entries sec [''['' @ name @ '']''] = []" "sec_after sec [''['' @ name @ '']''] = name"
      "no_entry s key (conf_entries name (items_lines items))" "sec_after name (items_lines items) = name"
    using header_line items_lines_skipped [of items key s name] Cons.prems(2) assms(2) by (auto simp: c)
  then show ?case unfolding l conf_entries_append using Cons by (simp add: good_conf_def)
qed (simp add: conf_lines_def)

text \<open>All written lines are plain.\<close>

lemma cont_lines_plain: "list_all good_piece ps \<Longrightarrow> list_all plain_line (cont_lines ps)"
  by (induction ps rule: cont_lines.induct) (auto simp: plain_line_iff good_piece_def READCONF_LINESIZE_MAX_def)

lemma item_lines_plain: "good_key k \<Longrightarrow> list_all good_piece ps \<Longrightarrow> list_all plain_line (item_lines k ps)"
  by (cases ps rule: list_shapes)
    (auto simp: plain_line_iff good_piece_def good_key_def READCONF_LINESIZE_MAX_def cont_lines_plain simp del: cont_lines.simps)

lemma items_lines_plain: "good_items items \<Longrightarrow> list_all plain_line (items_lines items)"
  by (induction items) (auto simp: items_lines_def good_items_def item_lines_plain)

lemma conf_lines_plain: "good_conf cfg \<Longrightarrow> list_all plain_line (conf_lines cfg)"
  by (induction cfg) (auto simp: conf_lines_def good_conf_def good_name_def plain_line_iff READCONF_LINESIZE_MAX_def items_lines_plain)

lemma file_text_append: "file_text (a @ b) = file_text a @ file_text b"
  by (induction a) auto

text \<open>The loop over the lines that continue a value.\<close>

lemma piece_line:
  assumes "good_piece p \<or> (\<exists>p'. good_piece p' \<and> p = p' @ [CHR 0x5C])"
  shows "plain_line (''+'' @ p) \<and> line_text (''+'' @ p) = ''+'' @ p \<and> dtrim (dtrim p (CHR '' '')) (CHR 0x09) = p"
proof -
  have p: "p \<noteq> []" "no_blank (hd p)" "no_blank (last p)" "plain_chars p" "length p \<le> 2000"
    using assms by (auto simp: good_piece_def no_blank_def)
  then show ?thesis
    by (auto intro!: line_text_id simp: plain_line_iff READCONF_LINESIZE_MAX_def dtrim_id no_blank_def)
qed

lemma read_pieces:
  assumes "ps \<noteq> []" "list_all good_piece ps" "int (length (t @ concat ps)) < m"
  shows "read_continued m (file_text (cont_lines ps) @ rest) (int (length t) + 2) (t @ [CHR 0x5C]) =
    Inr (int (length (t @ concat ps)) + 1, t @ concat ps)"
  using assms
proof (induction ps arbitrary: t rule: cont_lines.induct)
  case (2 p)
  have g: "good_piece p" using 2 by simp
  note l = piece_line [OF disjI1 [OF g]]
  then have r: "readln (file_text (cont_lines [p]) @ rest) = (int (length (''+'' @ p)), ''+'' @ p, rest)"
    using readln_line [of "''+'' @ p" rest] by simp
  have "p \<noteq> []" "last p \<noteq> CHR 0x5C" using g by (simp_all add: good_piece_def)
  then show ?case using l r 2(3)
    by (subst read_continued.simps) (simp add: line_text_def [symmetric] Let_def chr_at_def)
next
  case (3 p q ps)
  have g: "good_piece p" using 3(3) by simp
  let ?p = "p @ [CHR 0x5C]"
  note l = piece_line [OF disjI2, of ?p]
  have l: "plain_line (''+'' @ ?p) \<and> line_text (''+'' @ ?p) = ''+'' @ ?p \<and> dtrim (dtrim ?p (CHR '' '')) (CHR 0x09) = ?p"
    using g by (intro l) blast
  have r: "readln (file_text (cont_lines (p # q # ps)) @ rest) =
      (int (length (''+'' @ ?p)), ''+'' @ ?p, file_text (cont_lines (q # ps)) @ rest)"
    using readln_line [of "''+'' @ ?p" "file_text (cont_lines (q # ps)) @ rest"] l by simp
  have "q \<noteq> []" using 3(3) by (simp add: good_piece_def)
  then have small: "int (length t + length ?p) < m" using 3(4) by (cases q) simp_all
  have ih: "read_continued m (file_text (cont_lines (q # ps)) @ rest) (int (length (t @ p)) + 2) ((t @ p) @ [CHR 0x5C]) =
      Inr (int (length ((t @ p) @ concat (q # ps))) + 1, (t @ p) @ concat (q # ps))"
    using 3 by (intro 3(1)) simp_all
  have "read_continued m (file_text (cont_lines (p # q # ps)) @ rest) (int (length t) + 2) (t @ [CHR 0x5C]) =
      read_continued m (file_text (cont_lines (q # ps)) @ rest) (int (length (t @ p)) + 2) ((t @ p) @ [CHR 0x5C])"
    using l small by (subst read_continued.simps) (simp add: r [simplified] line_text_def [symmetric] Let_def chr_at_def add.assoc add.commute [of 2])
  then show ?case unfolding ih by simp
qed simp

section \<open>Sections and switches\<close>

lemma next_pair_entries:
  assumes "list_all plain_line ls" "cp_fp cpos = file_text ls"
  shows "(conf_entries (cp_secname cpos) ls = [] \<and> fst (ConfGetNextPair cpos) = None) \<or>
    (\<exists>s kv es ls' cpos'. conf_entries (cp_secname cpos) ls = (s, kv) # es \<and> ConfGetNextPair cpos = (Some kv, cpos')
      \<and> cp_secname cpos' = s \<and> cp_fp cpos' = file_text ls' \<and> list_all plain_line ls' \<and> conf_entries s ls' = es)"
  using assms
proof (induction ls arbitrary: cpos)
  case Nil
  then show ?case by (subst ConfGetNextPair.simps) (simp add: readln_end)
next
  case (Cons l ls)
  let ?start = "line_text l"
  have r: "cp_fp cpos = l @ CHR 0x0A # file_text ls" using Cons.prems(2) by simp
  have pl: "plain_line l" "list_all plain_line ls" using Cons.prems(1) by simp_all
  note step = next_pair_line [OF pl(1) r]
  consider "length ?start \<le> 2 \<or> hd ?start = CHR ''#''"
    | "\<not> (length ?start \<le> 2 \<or> hd ?start = CHR ''#'')" "length ?start \<le> READCONF_SECNAME_MAX \<and> hd ?start = CHR ''['' \<and> last ?start = CHR '']''"
    | "\<not> (length ?start \<le> 2 \<or> hd ?start = CHR ''#'')" "\<not> (length ?start \<le> READCONF_SECNAME_MAX \<and> hd ?start = CHR ''['' \<and> last ?start = CHR '']'')"
    by blast
  then show ?case
  proof cases
    case 1
    have s: "ConfGetNextPair cpos = ConfGetNextPair (cpos\<lparr>cp_fp := file_text ls\<rparr>)" using step unfolding if_P [OF 1] .
    have "conf_entries (cp_secname cpos) (l # ls) = conf_entries (cp_secname cpos) ls" using 1 by (auto simp: Let_def)
    then show ?thesis using Cons.IH [OF pl(2), of "cpos\<lparr>cp_fp := file_text ls\<rparr>"] unfolding s by simp
  next
    case 2
    let ?n = "butlast (tl ?start)"
    have s: "ConfGetNextPair cpos = ConfGetNextPair (cpos\<lparr>cp_fp := file_text ls, cp_secname := ?n\<rparr>)"
      using step unfolding if_not_P [OF 2(1)] if_P [OF 2(2)] .
    have "conf_entries (cp_secname cpos) (l # ls) = conf_entries ?n ls" using 2 by (auto simp: Let_def)
    then show ?thesis using Cons.IH [OF pl(2), of "cpos\<lparr>cp_fp := file_text ls, cp_secname := ?n\<rparr>"] unfolding s by simp
  next
    case 3
    have s: "ConfGetNextPair cpos = (Some (splitpair ?start (CHR ''='')), cpos\<lparr>cp_fp := file_text ls\<rparr>)"
      using step unfolding if_not_P [OF 3(1)] if_not_P [OF 3(2)] .
    have "conf_entries (cp_secname cpos) (l # ls) = (cp_secname cpos, splitpair ?start (CHR ''='')) # conf_entries (cp_secname cpos) ls"
      using 3 by (simp only: conf_entries.simps Let_def if_False)
    then show ?thesis using s pl(2) by (intro disjI2 exI [of _ ls] exI) auto
  qed
qed

text \<open>The counting loop and the copying loop on the sections of the entries.\<close>

fun changes :: "string \<Rightarrow> string list \<Rightarrow> nat" where
  "changes prev [] = 0"
| "changes prev (s # ss) = (if s \<noteq> prev then Suc (changes (if s = [] then prev else s) ss) else changes prev ss)"

lemma count_sections_eq:
  assumes "list_all plain_line ls" "cp_fp cpos = file_text ls"
  shows "count_sections (ConfGetNextPair cpos) secName num = num + changes secName (map fst (conf_entries (cp_secname cpos) ls))"
  using assms
proof (induction "conf_entries (cp_secname cpos) ls" arbitrary: ls cpos secName num)
  case Nil
  then obtain c' where "ConfGetNextPair cpos = (None, c')"
    using next_pair_entries [OF Nil(2,3)] by (cases "ConfGetNextPair cpos") auto
  then show ?case unfolding Nil.hyps [symmetric] by simp
next
  case (Cons e es)
  obtain s kv ls' cpos' where n: "e = (s, kv)" "ConfGetNextPair cpos = (Some kv, cpos')" "cp_secname cpos' = s"
      "cp_fp cpos' = file_text ls'" "list_all plain_line ls'" "conf_entries s ls' = es"
    using next_pair_entries [OF Cons(3,4)] Cons.hyps(2) by auto
  have ih: "count_sections (ConfGetNextPair cpos') a b = b + changes a (map fst es)" for a b
    using Cons.hyps(1) [of cpos' ls' a b] n by simp
  show ?case unfolding n(2) Cons.hyps(2) [symmetric] n(1)
    by (simp add: ih n(3) ConfCopySection_def)
qed

fun named_changes :: "string list \<Rightarrow> string list \<Rightarrow> string list" where
  "named_changes secs [] = secs"
| "named_changes secs (s # ss) = named_changes (if secs = [] \<or> s \<noteq> last secs then secs @ [s] else secs) ss"

lemma changes_named:
  "[] \<notin> set ss \<Longrightarrow> length (named_changes secs ss) = length secs + changes (if secs = [] then [] else last secs) ss"
  by (induction secs ss rule: named_changes.induct) auto

lemma named_changes_prefix: "\<exists>xs. named_changes secs ss = secs @ xs"
proof (induction secs ss rule: named_changes.induct)
  case (2 secs s ss)
  then show ?case by (cases "secs = [] \<or> s \<noteq> last secs") auto
qed simp

lemma named_changes_remdups: "named_changes secs ss = (if secs = [] then remdups_adj ss else butlast secs @ remdups_adj (last secs # ss))"
proof (induction secs ss rule: named_changes.induct)
  case (2 secs s ss)
  then show ?case by (cases "secs = []") auto
qed auto

lemma list_sections_eq:
  assumes "list_all plain_line ls" "cp_fp cpos = file_text ls" "[] \<notin> set (map fst (conf_entries (cp_secname cpos) ls))"
    "num = length (named_changes secs (map fst (conf_entries (cp_secname cpos) ls)))" "length secs < num"
  shows "list_sections num (ConfGetNextPair cpos) secs = Inr (named_changes secs (map fst (conf_entries (cp_secname cpos) ls)))"
  using assms
proof (induction "conf_entries (cp_secname cpos) ls" arbitrary: ls cpos secs)
  case Nil
  then show ?case unfolding Nil.hyps [symmetric] by simp
next
  case (Cons e es)
  obtain s kv ls' cpos' where n: "e = (s, kv)" "ConfGetNextPair cpos = (Some kv, cpos')" "cp_secname cpos' = s"
      "cp_fp cpos' = file_text ls'" "list_all plain_line ls'" "conf_entries s ls' = es"
    using next_pair_entries [OF Cons(3,4)] Cons.hyps(2) by auto
  have ne: "s \<noteq> []" "[] \<notin> set (map fst es)" using Cons.prems(3) unfolding Cons.hyps(2) [symmetric] n(1) by auto
  have num: "num = length (named_changes secs (s # map fst es))" using Cons.prems(4) unfolding Cons.hyps(2) [symmetric] n(1) by simp
  have ih: "list_sections num (ConfGetNextPair cpos') secs' = Inr (named_changes secs' (map fst es))"
    if "num = length (named_changes secs' (map fst es))" "length secs' < num" for secs'
    using Cons.hyps(1) [of cpos' ls' secs'] n ne(2) that by simp
  show ?case
  proof (cases "secs = [] \<or> s \<noteq> last secs")
    case True
    show ?thesis
    proof (cases "length secs + 1 < num")
      case more: True
      then show ?thesis using ih [of "secs @ [s]"] num True ne(1)
        unfolding n(2) Cons.hyps(2) [symmetric] n(1) by (simp add: n(3) ConfCopySection_def)
    next
      case False
      obtain xs where xs: "named_changes (secs @ [s]) (map fst es) = (secs @ [s]) @ xs" using named_changes_prefix by blast
      then have "xs = []" using num True False by simp
      then show ?thesis using False True ne(1) xs
        unfolding n(2) Cons.hyps(2) [symmetric] n(1) by (simp add: n(3) ConfCopySection_def)
    qed
  next
    case False
    then show ?thesis using ih [of secs] num Cons.prems(5)
      unfolding n(2) Cons.hyps(2) [symmetric] n(1) by (simp add: n(3))
  qed
qed

lemma no_case_prefix:
  "length v \<le> 8 \<Longrightarrow> strncasecmp w v (length v) = 0 \<longleftrightarrow> prefix (map tolower v) (map tolower w)"
proof -
  have "strncasecmp w v (length v) = 0 \<longleftrightarrow> take (length v) (map tolower w) = map tolower v"
    by (simp add: strncasecmp_def strcasecmp_def take_map)
  also have "\<dots> \<longleftrightarrow> prefix (map tolower v) (map tolower w)"
    by (metis append_eq_conv_conj length_map prefix_def)
  finally show "length v \<le> 8 \<Longrightarrow> ?thesis" by simp
qed

section \<open>Replacing variables\<close>

text \<open>
  Replacing a variable is replacing its pattern everywhere, unless this leaves nothing: then the text
  stays as it was, because a length of 0 also means that nothing was found.
\<close>

lemma replace_var_eq:
  assumes "length (replace_all s (keypattern key) val) < 2147483648"
  shows "replace_var key val s =
    Some (let r = replace_all s (keypattern key) val in if r = [] then s else r)"
proof -
  let ?pat = "keypattern key" and ?r = "replace_all s (keypattern key) val"
  have pat: "?pat \<noteq> []" by (simp add: keypattern_def READCONF_KEYLEN_MAX_def)
  obtain k where k: "count_loop s ?pat 0 = Some k" "k = 0 \<longleftrightarrow> \<not> sublist ?pat s"
      "int (length ?r) = int (length s) + int k * (int (length val) - int (length ?pat))"
    using count_loop_eq [OF pat, of s 0 val] by auto
  show ?thesis
  proof (cases "k = 0")
    case True
    then have "strstr s ?pat = None" using k(2) strstr_None by blast
    then have "?r = s" by (simp add: replace_all_strstr [OF pat])
    then show ?thesis using True k(1) by (simp add: replace_var_def StringReplaceOutputNew_def)
  next
    case False
    have "replaced_len (length s) k (length val) (length ?pat) = length ?r"
      using assms unfolding replaced_len_def k(3) [symmetric] by simp
    then show ?thesis using False k(1) assms
      by (simp add: replace_var_def StringReplaceOutputNew_def copy_loop_eq [OF pat] Let_def)
  qed
qed

lemma empty_variable_stays: "replace_var ''A'' [] ''$(A)'' = Some ''$(A)''"
proof -
  have "replace_all ''$(A)'' (keypattern ''A'') [] = []"
    by (simp add: keypattern_def READCONF_KEYLEN_MAX_def replace_all.simps)
  then show ?thesis by (simp add: replace_var_eq)
qed

text \<open>A replaced text without the pattern of a variable is left alone by it.\<close>

lemma replace_var_fresh: "\<not> sublist (keypattern key) s \<Longrightarrow> replace_var key val s = Some s"
proof -
  assume f: "\<not> sublist (keypattern key) s"
  have pat: "keypattern key \<noteq> []" by (simp add: keypattern_def READCONF_KEYLEN_MAX_def)
  have "count_loop s (keypattern key) 0 = Some 0" using f strstr_None [of s "keypattern key"] by (subst count_loop.simps) simp
  then show ?thesis by (simp add: replace_var_def StringReplaceOutputNew_def)
qed

section \<open>Properties\<close>

text \<open>
  C27.  Reading is looking up.  In every file of lines, the value of a key of a section, if it does not
  go on over several lines, is that of the first entry in the list of the file's entries, whatever
  comments, other sections and lines without sense stand around it; a key without value reads as the empty
  text of size 1, and 0 is returned when there is no entry.
\<close>

theorem ConfReadValue_lookup:
  assumes "list_all plain_line ls" "before \<noteq> CHR 0x5C"
    "\<forall>(s, k, v) \<in> set (conf_entries [] ls). s = sec \<and> k = key \<longrightarrow>
       (case v of None \<Rightarrow> True | Some t \<Rightarrow> length t < maxbufsize \<and> (t \<noteq> [] \<longrightarrow> last t \<noteq> CHR 0x5C))"
  shows "ConfReadValue before (Some (file_text ls)) (Some sec) key (Some maxbufsize) =
    (case List.find (\<lambda>(s, k, v). s = sec \<and> k = key) (conf_entries [] ls) of
       None \<Rightarrow> Inr (0, None)
     | Some (s, k, None) \<Rightarrow> Inr (1, Some [])
     | Some (s, k, Some t) \<Rightarrow> Inr (int (length t) + 1, Some t))"
proof -
  let ?es = "conf_entries [] ls"
  obtain c where c: "ConfOpenFile (Some (file_text ls)) = Some c" "cp_secname c = []" by (simp add: ConfOpenFile_def)
  define cpos where "cpos = c\<lparr>cp_fp := file_text ls\<rparr>"
  have cpos: "cp_fp cpos = file_text ls" "cp_secname cpos = []" using c(2) by (simp_all add: cpos_def)
  have start: "ConfReadValue before (Some (file_text ls)) (Some sec) key (Some maxbufsize) =
      read_value_loop before (Some sec) key (Some maxbufsize) (ConfGetNextPair cpos)"
    using c(1) by (simp add: ConfReadValue_def ConfGetFirstPair_def cpos_def)
  show ?thesis
  proof (cases "List.find (\<lambda>(s, k, v). s = sec \<and> k = key) ?es")
    case None
    then have "no_entry sec key ?es" by (auto simp: find_None_iff no_entry_def)
    let ?stop = "cpos\<lparr>cp_fp := [], cp_secname := sec_after (cp_secname cpos) ls\<rparr>"
    have "read_value_loop before (Some sec) key (Some maxbufsize) (ConfGetNextPair cpos) =
        read_value_loop before (Some sec) key (Some maxbufsize) (ConfGetNextPair ?stop)"
      by (rule read_skips [OF assms(1)]) (simp_all only: cpos append_Nil2 \<open>no_entry sec key ?es\<close>)
    moreover have "fst (ConfGetNextPair ?stop) = None"
      by (subst ConfGetNextPair.simps) (simp add: readln_end)
    then obtain c' where "ConfGetNextPair ?stop = (None, c')" by (cases "ConfGetNextPair ?stop") simp
    ultimately show ?thesis unfolding start None by (simp only: read_value_loop.simps(1) option.case)
  next
    case (Some e)
    then obtain us val vs where e: "?es = us @ e # vs" "e = (sec, key, val)" "\<forall>u \<in> set us. \<not> (case u of (s, k, v) \<Rightarrow> s = sec \<and> k = key)"
      using find_split [OF Some] by (cases e) auto
    then obtain pre l ls' where l: "ls = pre @ l # ls'" "conf_entries [] pre = us" "sec_after [] pre = sec"
        "conf_entries sec [l] = [(sec, key, val)]" using entry_line [of "[]" ls us sec key val vs] by auto
    have pl: "list_all plain_line pre" "plain_line l" using assms(1) l(1) by simp_all
    let ?c = "cpos\<lparr>cp_fp := file_text (l # ls'), cp_secname := sec_after (cp_secname cpos) pre\<rparr>"
    have none: "no_entry sec key us" using e(3) by (auto simp: no_entry_def)
    have sa: "sec_after (cp_secname cpos) pre = sec" using l(3) cpos(2) by simp
    have "read_value_loop before (Some sec) key (Some maxbufsize) (ConfGetNextPair cpos) =
        read_value_loop before (Some sec) key (Some maxbufsize) (ConfGetNextPair ?c)"
      by (rule read_skips [OF pl(1)]) (simp_all only: cpos l none file_text_append)
    moreover have "read_value_loop before (Some sec) key (Some maxbufsize) (ConfGetNextPair ?c) =
        read_value_loop before (Some sec) key (Some maxbufsize) (Some (key, val), ?c\<lparr>cp_fp := file_text ls'\<rparr>)" (is "_ = ?found")
      by (rule read_entry [OF pl(2), THEN conjunct1]) (simp_all add: sa l(4) del: conf_entries.simps)
    moreover have "case val of None \<Rightarrow> True | Some t \<Rightarrow> length t < maxbufsize \<and> (t \<noteq> [] \<longrightarrow> last t \<noteq> CHR 0x5C)"
      using assms(3) e(1,2) by auto
    then have "?found = (case val of None \<Rightarrow> Inr (1, Some []) | Some t \<Rightarrow> Inr (int (length t) + 1, Some t))"
      using assms(2) sa by (cases val) (auto simp: Let_def)
    ultimately show ?thesis unfolding start Some e(2) by simp
  qed
qed

definition sample_conf :: "(string \<times> (string \<times> string list) list) list" where
  "sample_conf = [(''clogger:ident'', [(''loglevel'', [''INFO'']), (''appender'', [''STDOUT,'', ''ROFILE''])])]"

definition sample_lines :: "string list" where
  "sample_lines = [''[a:b]'', ''# no'', ''k = v'', ''flag'']"

lemma ConfReadValue_lookup_witness:
  "ConfReadValue NUL (Some (file_text sample_lines)) (Some ''a:b'') ''flag'' (Some 9) = Inr (1, Some [])"
proof -
  have e: "conf_entries [] sample_lines = [(''a:b'', ''k'', Some ''v''), (''a:b'', ''flag'', None)]"
    by (simp add: sample_lines_def line_text_def dtrim_eq rdrop_while_def READCONF_SECNAME_MAX_def splitpair_def strchr_def)
  have "list_all plain_line sample_lines"
    by (simp add: sample_lines_def plain_line_def READCONF_LINESIZE_MAX_def)
  from ConfReadValue_lookup [OF this, of NUL "''a:b''" "''flag''" 9] show ?thesis unfolding e by (simp add: NUL_def)
qed

text \<open>
  C10.  What is written is read back.  A configuration of sections with keys and values, values split into pieces
  over several lines or not, printed line by line: \<open>ConfReadValue\<close> finds for each section and key the
  pieces put together, of the first item with this section and key, when the buffer can hold them.
\<close>

theorem conf_roundtrip:
  assumes "good_conf cfg" "cfg = cfg1 @ (sec, items1 @ (key, ps) # items2) # cfg2"
    "key \<notin> fst ` set items1" "\<forall>(name, items) \<in> set cfg1. \<not> (sec = name \<and> key \<in> fst ` set items)"
    "length (concat ps) < maxbufsize"
  shows "ConfReadValue before (Some (file_text (conf_lines cfg))) (Some sec) key (Some maxbufsize) =
    Inr (int (length (concat ps)) + 1, Some (concat ps))"
proof -
  let ?pre = "conf_lines cfg1 @ [''['' @ sec @ '']''] @ items_lines items1"
  define tl where "tl = file_text (items_lines items2 @ conf_lines cfg2)"
  have lines: "conf_lines cfg = ?pre @ item_lines key ps @ items_lines items2 @ conf_lines cfg2"
    unfolding assms(2) by (simp add: conf_lines_def items_lines_def)
  have g: "good_conf cfg1" "good_name sec" "good_items items1" "good_key key" "ps \<noteq> []" "list_all good_piece ps"
    using assms(1) unfolding assms(2) by (simp_all add: good_conf_def good_items_def)
  have hk: "hd key \<noteq> CHR ''+''" using g(4) by (simp add: good_key_def)
  have plain: "list_all plain_line ?pre"
    using conf_lines_plain [OF g(1)] items_lines_plain [OF g(3)] g(2) by (simp add: plain_line_iff good_name_def READCONF_LINESIZE_MAX_def)
  note hd = header_line [OF g(2), of "sec_after [] (conf_lines cfg1)"]
  have its: "no_entry sec key (conf_entries sec (items_lines items1))" "sec_after sec (items_lines items1) = sec"
    using items_lines_skipped [OF g(3) hk, of sec sec] assms(3) by simp_all
  have at: "sec_after [] ?pre = sec" by (simp only: sec_after_append hd its)
  have none: "no_entry sec key (conf_entries [] ?pre)"
    using conf_lines_skipped [OF g(1) hk assms(4), of "[]"]
    by (simp only: conf_entries_append hd its no_entry_simps append_Nil simp_thms)
  obtain c where c: "ConfOpenFile (Some (file_text (conf_lines cfg))) = Some c" "cp_secname c = []" by (simp add: ConfOpenFile_def)
  define cpos where "cpos = c\<lparr>cp_fp := file_text (conf_lines cfg)\<rparr>"
  have cpos: "cp_fp cpos = file_text ?pre @ file_text (item_lines key ps) @ tl" "cp_secname cpos = []"
    using c(2) by (simp_all add: cpos_def lines tl_def file_text_append)
  let ?c = "cpos\<lparr>cp_fp := file_text (item_lines key ps) @ tl, cp_secname := sec_after (cp_secname cpos) ?pre\<rparr>"
  obtain c1 where c1: "c1 = ?c" "cp_fp c1 = file_text (item_lines key ps) @ tl" "cp_secname c1 = sec" using at cpos(2) by simp
  let ?read = "read_value_loop before (Some sec) key (Some maxbufsize)"
  have "ConfReadValue before (Some (file_text (conf_lines cfg))) (Some sec) key (Some maxbufsize) = ?read (ConfGetNextPair cpos)"
    using c(1) by (simp add: ConfReadValue_def ConfGetFirstPair_def cpos_def)
  also have "\<dots> = ?read (ConfGetNextPair c1)"
    unfolding c1(1) by (rule read_skips [OF plain]) (simp_all only: cpos none)
  also have "\<dots> = Inr (int (length (concat ps)) + 1, Some (concat ps))"
  proof (cases ps rule: list_shapes)
    case 1
    then show ?thesis using g(5) by simp
  next
    case (2 p)
    let ?l = "key @ ''='' @ p"
    have p: "good_piece p" using g(6) 2 by simp
    have e: "conf_entries sec [?l] = [(sec, key, Some p)]" using p g(4) by (intro key_line [THEN conjunct1]) (simp_all add: good_piece_def)
    have "plain_line ?l" using item_lines_plain [OF g(4,6)] 2 by simp
    moreover have "cp_fp c1 = ?l @ CHR 0x0A # tl" using c1(2) 2 by simp
    ultimately have r: "?read (ConfGetNextPair c1) = ?read (Some (key, Some p), c1\<lparr>cp_fp := tl\<rparr>)"
      using read_entry [of ?l c1 sec key "Some p" tl] e c1(3) by blast
    show ?thesis unfolding r using 2 p assms(5) c1(3) by (simp add: good_piece_def Let_def)
  next
    case (3 p q ps')
    let ?v = "p @ [CHR 0x5C]" and ?rest = "file_text (cont_lines (q # ps')) @ tl"
    let ?l = "key @ ''='' @ ?v"
    have p: "good_piece p" "list_all good_piece (q # ps')" using g(6) 3 by simp_all
    have e: "conf_entries sec [?l] = [(sec, key, Some ?v)]"
      using p g(4) by (intro key_line [THEN conjunct1]) (simp_all add: good_piece_def no_blank_def)
    have pl: "plain_line ?l" using item_lines_plain [OF g(4,6)] 3 by simp
    have "cp_fp c1 = ?l @ CHR 0x0A # ?rest" using c1(2) 3 by simp
    then have r: "?read (ConfGetNextPair c1) = ?read (Some (key, Some ?v), c1\<lparr>cp_fp := ?rest\<rparr>)"
      using read_entry [OF pl, of c1 sec key "Some ?v" ?rest] e c1(3) by blast
    have "int (length (p @ concat (q # ps'))) < int maxbufsize" using assms(5) 3 by simp
    from read_pieces [OF _ p(2) this] have
      k: "read_continued (int maxbufsize) ?rest (int (length p) + 2) ?v = Inr (int (length (p @ concat (q # ps'))) + 1, p @ concat (q # ps'))" by blast
    have "q \<noteq> []" using p(2) by (simp add: good_piece_def)
    then have "int (length ?v) + 1 \<le> int maxbufsize" using assms(5) 3 by (cases q) simp_all
    then show ?thesis unfolding r using k 3 c1(3) by (simp add: Let_def add.commute)
  qed
  finally show ?thesis .
qed

lemma conf_roundtrip_witness:
  "ConfReadValue NUL (Some (file_text (conf_lines sample_conf))) (Some ''clogger:ident'') ''appender'' (Some 4096) =
    Inr (14, Some ''STDOUT,ROFILE'')"
proof -
  have "good_conf sample_conf"
    by (simp add: sample_conf_def good_conf_def good_name_def good_items_def good_key_def good_piece_def no_blank_def)
  from conf_roundtrip [OF this, of "[]" "''clogger:ident''" "[(''loglevel'', [''INFO''])]" "''appender''" "[''STDOUT,'', ''ROFILE'']" "[]" "[]" 4096 NUL]
  show ?thesis by (simp add: sample_conf_def)
qed

text \<open>
  The list of sections.  When every entry of the file stands in a section, \<open>ConfGetSectionList\<close> returns the
  names of the sections with entries, in order, once for each group of neighbours.  When the first
  entry stands before any section and a section with an entry follows, the process exits: the second reading asks
  \<open>ConfMemAlloc\<close> for -1 bytes.  A file that cannot be opened is -1 here, and a NULL dereference in
  \<open>ConfReadValue\<close>.
\<close>

theorem ConfGetSectionList_outcome:
  assumes "list_all plain_line ls"
  defines "secs \<equiv> map fst (conf_entries [] ls)"
  shows "([] \<notin> set secs \<longrightarrow> ConfGetSectionList (Some (file_text ls)) = Inr (int (length (remdups_adj secs)), remdups_adj secs))
    \<and> (secs \<noteq> [] \<and> hd secs = [] \<and> (\<exists>s \<in> set secs. s \<noteq> []) \<longrightarrow> ConfGetSectionList (Some (file_text ls)) = Inl ProcessExit)
    \<and> ConfGetSectionList None = Inr (-1, []) \<and> ConfReadValue before None sec key buf = Inl NullPointer"
proof -
  obtain c where c: "ConfOpenFile (Some (file_text ls)) = Some c" "cp_fp c = file_text ls" "cp_secname c = []" by (simp add: ConfOpenFile_def)
  have count: "count_sections (ConfGetNextPair c) [] 0 = changes [] secs"
    using count_sections_eq [OF assms(1) c(2), of "[]" 0] c(3) by (simp add: secs_def)
  have "ConfGetSectionList (Some (file_text ls)) = Inr (int (length (remdups_adj secs)), remdups_adj secs)" if s: "[] \<notin> set secs"
  proof -
    have nc: "named_changes [] secs = remdups_adj secs" using named_changes_remdups [of "[]" secs] by simp
    then have n: "changes [] secs = length (remdups_adj secs)" using changes_named [OF s, of "[]"] by simp
    show ?thesis
    proof (cases "secs = []")
      case True
      then show ?thesis using c(1) count n by (simp add: ConfGetSectionList_def)
    next
      case False
      then have "0 < changes [] secs" unfolding n by (cases secs) (simp_all add: remdups_adj_Cons')
      then show ?thesis
        using c(1) count list_sections_eq [OF assms(1) c(2), of "changes [] secs" "[]"] s nc n c(3)
        by (simp add: ConfGetSectionList_def secs_def)
    qed
  qed
  moreover have "ConfGetSectionList (Some (file_text ls)) = Inl ProcessExit"
    if s: "secs \<noteq> [] \<and> hd secs = [] \<and> (\<exists>s \<in> set secs. s \<noteq> [])"
  proof -
    have "0 < changes prev ss" if "\<exists>s \<in> set ss. s \<noteq> prev" for prev ss
      using that by (induction ss) auto
    then have pos: "0 < changes [] secs" using s by blast
    obtain kv es cpos' where n: "conf_entries [] ls = ([], kv) # es" "ConfGetNextPair c = (Some kv, cpos')" "cp_secname cpos' = []"
      using next_pair_entries [OF assms(1) c(2)] s c(3) by (auto simp: secs_def)
    have "list_sections num (ConfGetNextPair c) [] = Inl ProcessExit" for num
      unfolding n(2) by (simp add: n(3) ConfCopySection_def)
    then show ?thesis using c(1) count pos by (simp add: ConfGetSectionList_def)
  qed
  ultimately show ?thesis by (auto simp: ConfGetSectionList_def ConfOpenFile_def ConfReadValue_def)
qed

definition stray_lines :: "string list" where
  "stray_lines = [''k = v'', ''[a]'', ''k = w'']"

lemma ConfGetSectionList_outcome_witness:
  "ConfGetSectionList (Some (file_text sample_lines)) = Inr (1, [''a:b'']) \<and> ConfGetSectionList (Some (file_text stray_lines)) = Inl ProcessExit"
proof -
  have e: "map fst (conf_entries [] sample_lines) = [''a:b'', ''a:b'']" "map fst (conf_entries [] stray_lines) = [[], ''a'']"
    by (simp_all add: sample_lines_def stray_lines_def line_text_def dtrim_eq rdrop_while_def READCONF_SECNAME_MAX_def)
  have p: "list_all plain_line sample_lines" "list_all plain_line stray_lines"
    by (simp_all add: sample_lines_def stray_lines_def plain_line_def READCONF_LINESIZE_MAX_def)
  show ?thesis
    using ConfGetSectionList_outcome [OF p(1), unfolded e] ConfGetSectionList_outcome [OF p(2), unfolded e] by simp
qed

text \<open>
  A switch is off only for a word that begins \<open>0\<close>, \<open>no\<close>, \<open>off\<close>, \<open>close\<close> or \<open>false\<close> and not \<open>on\<close>, in any case of
  the letters; for every other text \<open>ConfParseBoolValue\<close> is 1 or -1, and both count as true where
  \<open>logger_conf_load_config\<close> tests it: \<open>none\<close> switches on.
\<close>

theorem ConfParseBoolValue_off:
  assumes "v \<noteq> []"
  shows "(ConfParseBoolValue (Some v) d = 0 \<longleftrightarrow>
      length v \<le> 8 \<and> (\<exists>w \<in> {''0'', ''no'', ''off'', ''close'', ''false''}. prefix (map tolower v) w) \<and> map tolower v \<noteq> ''o'')
    \<and> ConfParseBoolValue (Some v) d \<in> {-1, 0, 1} \<and> ConfParseBoolValue (Some ''none'') d = -1"
proof -
  have low: "map tolower w = w" if "w \<in> {''1'', ''yes'', ''y'', ''on'', ''open'', ''true'', ''t'', ''0'', ''no'', ''n'', ''off'', ''close'', ''false'', ''f''}" for w
    using that by (auto simp: tolower_def)
  let ?v = "map tolower v"
  have n: "?v \<noteq> []" using assms by simp
  have "length ?v = length v" by simp
  show ?thesis
  proof (cases "length v \<le> 8")
    case False
    then show ?thesis using assms by (auto simp: ConfParseBoolValue_def strncasecmp_def strcasecmp_def tolower_def)
  next
    case True
    note np = no_case_prefix [OF True]
    have "ConfParseBoolValue (Some v) d =
        (if list_ex (\<lambda>w. prefix ?v w) [''1'', ''yes'', ''y'', ''on'', ''open'', ''true'', ''t''] then 1
         else if list_ex (\<lambda>w. prefix ?v w) [''0'', ''no'', ''n'', ''off'', ''close'', ''false'', ''f''] then 0 else -1)"
      using True assms by (simp add: ConfParseBoolValue_def np tolower_def)
    moreover obtain x xs where "?v = x # xs" using n by (cases ?v) auto
    moreover have "ConfParseBoolValue (Some ''none'') d = -1" by (simp add: ConfParseBoolValue_def strncasecmp_def strcasecmp_def tolower_def)
    ultimately show ?thesis using True by (auto simp: prefix_Cons)
  qed
qed

lemma ConfParseBoolValue_off_witness: "ConfParseBoolValue (Some ''Off'') 1 = 0 \<and> ConfParseBoolValue (Some ''disabled'') 1 \<noteq> 0"
  using ConfParseBoolValue_off [of "''Off''" 1] ConfParseBoolValue_off [of "''disabled''" 1] by (simp add: tolower_def char_of_def bit_Suc_0_iff)

text \<open>A size is read with its unit; a bare number has none, and the default is used instead.\<close>

lemma size_units: "ConfParseSizeBytesValue (Some ''200 MB'') = Some (''200'', 10, 6)" "ConfParseSizeBytesValue (Some ''1KiB'') = Some (''1'', 2, 10)"
  by code_simp+

lemma size_scan_bare:
  assumes "\<forall>c \<in> set value. 48 \<le> code c \<and> code c \<le> 57" "e \<le> length value"
  shows "size_scan value (length value) e = None"
  using assms(2)
proof (induction e)
  case (Suc e)
  have "\<not> mem_eq name (drop (e + 1) value) (length value - e)" if "(name, b, x) \<in> set namebytes" for name b x
  proof -
    have n: "name \<noteq> []" "\<not> 48 \<le> code (hd name) \<or> \<not> code (hd name) \<le> 57" using that by (auto simp: namebytes_def)
    have "chr_at (drop (e + 1) value) 0 = NUL \<or> chr_at (drop (e + 1) value) 0 \<in> set value"
      by (auto simp: chr_at_def nth_mem)
    then have "chr_at name 0 \<noteq> chr_at (drop (e + 1) value) 0"
      using n assms(1) that by (cases name) (auto simp: chr_at_def namebytes_def NUL_def)
    then show ?thesis using Suc.prems by (auto simp: mem_eq_def)
  qed
  then have "List.find (\<lambda>(name, b, x). mem_eq name (drop (e + 1) value) (length value - e)) namebytes = None"
    by (auto simp: find_None_iff)
  then show ?case using Suc by simp
qed simp

end
