(* ===== verification/LoggerConf.thy ===== *)
theory LoggerConf
  imports ReadConf LogFormat
begin

text \<open>
  The configuration of a logger, \<open>source/clogger/loggerconf.c\<close>: the defaults, and \<open>logger_conf_load_config\<close>, which looks for
  the identity of the logger in the sections of a file (\<open>ReadConf\<close>), reads its settings one after the other and then
  those of its rolling policy.
\<close>

section \<open>Data\<close>

record logger_conf_t =
  cf_loggerid :: int
  cf_magickey :: nat
  cf_maxconcurrents :: int
  cf_maxmsgsize :: int
  cf_queuelength :: int
  cf_appender :: nat
  cf_maxfilesize :: nat
  cf_maxfilecount :: nat
  cf_rollingappend :: bool
  cf_timeunit :: nat
  cf_loctime :: nat
  cf_colorstyle :: nat
  cf_timestampid :: nat
  cf_filelineno :: nat
  cf_function :: nat
  cf_autowrapline :: bool
  cf_hideident :: bool
  cf_processid :: bool
  cf_threadno :: bool
  cf_ident :: cstrbuf_t
  cf_pathprefix :: cstrbuf_t
  cf_nameprefix :: cstrbuf_t
  cf_shmlogfile :: cstrbuf_t
  cf_winsyslogconf :: cstrbuf_t
  cf_loglevel :: clog_level_t
  cf_layout :: clog_layout_t
  cf_dateformat :: clog_dateformat_t
  cf_rollingtime :: rollingtime_t
  cf_errmsg :: string

definition CLOG_TIMEUNIT_SEC :: nat where "CLOG_TIMEUNIT_SEC = 0"
definition CLOG_TIMEUNIT_MSEC :: nat where "CLOG_TIMEUNIT_MSEC = 64"
definition CLOG_TIMEUNIT_USEC :: nat where "CLOG_TIMEUNIT_USEC = 128"
definition CLOG_TIMESTAMP_ID :: nat where "CLOG_TIMESTAMP_ID = 256"
definition CLOG_TIMEZONE_LOC :: nat where "CLOG_TIMEZONE_LOC = 512"
definition CLOG_LEVEL_COLORS :: nat where "CLOG_LEVEL_COLORS = 1024"
definition CLOG_LEVEL_STYLES :: nat where "CLOG_LEVEL_STYLES = 2048"
definition CLOG_FILE_LINENO :: nat where "CLOG_FILE_LINENO = 4096"
definition CLOG_FUNCTION_NAME :: nat where "CLOG_FUNCTION_NAME = 8192"

definition CLOG_ERRMSG_LEN_MAX :: nat where
  "CLOG_ERRMSG_LEN_MAX = 255"

definition CLOGGER_SECTION_IDENTS_MAX :: nat where
  "CLOGGER_SECTION_IDENTS_MAX = 512"

definition CLOGGER_SHMLOG_FILEPATTERN :: string where
  "CLOGGER_SHMLOG_FILEPATTERN = ''SHMLOG/clogger-<IDENT>.shmmbuf''"

definition CLOG_NAMEPATTERN_DEFAULT :: string where
  "CLOG_NAMEPATTERN_DEFAULT = ''<IDENT>-<PID>.<DATE>.log''"

text \<open>The length argument -1 of the string functions.\<close>

definition whole :: nat where
  "whole = cstrbuf_error_size_len"

text \<open>\<open>bzero\<close> leaves 0 where nothing is set; the enumerations start with 0, too.\<close>

definition logger_conf_init_default :: "string \<Rightarrow> string \<Rightarrow> string option \<Rightarrow> logger_conf_t" where
  "logger_conf_init_default ident pathpre winsyslogconf =
     \<lparr> cf_loggerid = 0, cf_magickey = 350137278, cf_maxconcurrents = 128, cf_maxmsgsize = 4000, cf_queuelength = 512,
       cf_appender = 1, cf_maxfilesize = 16777216, cf_maxfilecount = 10, cf_rollingappend = False,
       cf_timeunit = CLOG_TIMEUNIT_SEC, cf_loctime = 0, cf_colorstyle = 0, cf_timestampid = 0, cf_filelineno = 0, cf_function = 0,
       cf_autowrapline = False, cf_hideident = False, cf_processid = False, cf_threadno = False,
       cf_ident = cstrbufNew 0 (Some ident) whole, cf_pathprefix = cstrbufNew 0 (Some pathpre) whole,
       cf_nameprefix = cstrbufNew 128 (Some CLOG_NAMEPATTERN_DEFAULT) whole,
       cf_shmlogfile = cstrbufNew 0 (Some CLOGGER_SHMLOG_FILEPATTERN) whole,
       cf_winsyslogconf = cstrbufNew 0 (case winsyslogconf of None \<Rightarrow> Some ''localhost:514'' | Some s \<Rightarrow> Some s) whole,
       cf_loglevel = CLOG_LEVEL_DEBUG, cf_layout = CLOG_LAYOUT_DATED, cf_dateformat = CLOG_DATEFMT_RFC_3339,
       cf_rollingtime = ROLLING_TM_NONE, cf_errmsg = [] \<rparr>"

text \<open>The strings freed, \<open>None\<close> for the variables cleared.\<close>

definition logger_conf_final_release :: "logger_conf_t \<Rightarrow> cstrbuf_t list" where
  "logger_conf_final_release conf =
     [cf_ident conf, cf_pathprefix conf, cf_nameprefix conf, cf_shmlogfile conf, cf_winsyslogconf conf]"

definition logger_conf_get_creatflags :: "logger_conf_t \<Rightarrow> nat" where
  "logger_conf_get_creatflags conf =
     or (or (or (or (or (or (cf_colorstyle conf) (cf_timestampid conf)) (cf_loctime conf)) (cf_timeunit conf))
       (cf_appender conf)) (cf_filelineno conf)) (cf_function conf)"

section \<open>Splitting a list of flags\<close>

fun split_chkd :: "string \<Rightarrow> char \<Rightarrow> nat \<Rightarrow> string list" where
  "split_chkd sb delim 0 = []"
| "split_chkd sb delim (Suc left) =
     (case strchr sb delim of
        None \<Rightarrow> [fst (cstr_LRtrim_chr sb (CHR '' ''))]
      | Some p \<Rightarrow> fst (cstr_LRtrim_chr (take p sb) (CHR '' '')) # split_chkd (drop (p + 1) sb) delim left)"

text \<open>With \<open>outstrs\<close> NULL (\<open>None\<close>) only the number of parts is counted.\<close>

definition split_string_chkd :: "string \<Rightarrow> nat \<Rightarrow> char \<Rightarrow> nat option \<Rightarrow> nat \<times> string list" where
  "split_string_chkd str len delim maxoutnum =
     (case maxoutnum of
        None \<Rightarrow> (count_list (take len str) delim + 1, [])
      | Some n \<Rightarrow> (let outstrs = split_chkd (take len str) delim n in (length outstrs, outstrs)))"

section \<open>Settings\<close>

text \<open>
  What the loading changes: the configuration and the name of the rolling policy.  A setting is a key, what
  the returned size has to exceed, and the effect of the text and the size.
\<close>

type_synonym load_state = "logger_conf_t \<times> cstrbuf_t option"

type_synonym setting = "string \<times> int \<times> (string \<Rightarrow> int \<Rightarrow> load_state \<Rightarrow> load_state)"

type_synonym reader = "string \<Rightarrow> conf_error + int \<times> string option"

fun load_settings :: "reader \<Rightarrow> setting list \<Rightarrow> load_state \<Rightarrow> conf_error + load_state" where
  "load_settings read [] st = Inr st"
| "load_settings read ((key, least, f) # ss) st =
     (case read key of
        Inl e \<Rightarrow> Inl e
      | Inr (ncb, txt) \<Rightarrow>
          load_settings read ss (if ncb > least then f (case txt of None \<Rightarrow> [] | Some t \<Rightarrow> t) ncb st else st))"

definition on_conf :: "(logger_conf_t \<Rightarrow> logger_conf_t) \<Rightarrow> load_state \<Rightarrow> load_state" where
  "on_conf f st = (f (fst st), snd st)"

text \<open>The length of a copied text: \<open>ncb - 1\<close>, cut at \<open>n\<close>.\<close>

definition cut_at :: "nat \<Rightarrow> int \<Rightarrow> nat" where
  "cut_at n ncb = nat (if ncb - 1 > int n then int n else ncb - 1)"

definition strtol_int :: "string \<Rightarrow> int" where
  "strtol_int s = to_int32 (fst (strtoll 10 s))"

definition align_psize_int :: "int \<Rightarrow> int" where
  "align_psize_int i = to_int32 (int (memapi_align_psize (nat (i mod 18446744073709551616))))"

definition number_settings :: "setting list" where
  "number_settings =
     [(''magickey'', 1, \<lambda>buf ncb. on_conf (\<lambda>c. c\<lparr>cf_magickey := ub4 (fst (strtoll 10 buf))\<rparr>)),
      (''maxmsgsize'', 1, \<lambda>buf ncb. on_conf (\<lambda>c. c\<lparr>cf_maxmsgsize := align_psize_int (strtol_int buf)\<rparr>)),
      (''queuelength'', 1, \<lambda>buf ncb. on_conf (\<lambda>c. c\<lparr>cf_queuelength := strtol_int buf,
         cf_maxconcurrents := align_psize_int (strtol_int buf sdiv 4)\<rparr>))]"

text \<open>The number of a level as its value.\<close>

definition level_of :: "int \<Rightarrow> clog_level_t option" where
  "level_of n = List.find (\<lambda>l. int (level_num l) = n)
     [CLOG_LEVEL_OFF, CLOG_LEVEL_FATAL, CLOG_LEVEL_ERROR, CLOG_LEVEL_WARN, CLOG_LEVEL_INFO, CLOG_LEVEL_DEBUG, CLOG_LEVEL_TRACE, CLOG_LEVEL_ALL]"

definition or_keep :: "'a option \<Rightarrow> 'a \<Rightarrow> 'a" where
  "or_keep x y = (case x of None \<Rightarrow> y | Some z \<Rightarrow> z)"

definition text_settings :: "setting list" where
  "text_settings =
     [(''appender'', 1, \<lambda>buf ncb. on_conf (\<lambda>c. c\<lparr>cf_appender := or_keep (clog_appender_from_string buf (nat (ncb - 1))) (cf_appender c)\<rparr>)),
      (''pathprefix'', 1, \<lambda>buf ncb. on_conf (\<lambda>c. c\<lparr>cf_pathprefix := cstrbufDup (Some (cf_pathprefix c)) (Some buf) (cut_at 255 ncb)\<rparr>)),
      (''nameprefix'', 1, \<lambda>buf ncb. on_conf (\<lambda>c. c\<lparr>cf_nameprefix := cstrbufDup (Some (cf_nameprefix c)) (Some buf) (cut_at 127 ncb)\<rparr>)),
      (''shmlogfile'', 1, \<lambda>buf ncb. on_conf (\<lambda>c. c\<lparr>cf_shmlogfile := cstrbufDup (Some (cf_shmlogfile c)) (Some buf) (cut_at 127 ncb)\<rparr>)),
      (''rollingpolicy'', 1, \<lambda>buf ncb st. (fst st, Some (cstrbufDup (snd st) (Some buf) (cut_at 127 ncb)))),
      (''loglevel'', 1, \<lambda>buf ncb. on_conf (\<lambda>c. c\<lparr>cf_loglevel :=
         or_keep (Option.bind (clog_level_from_string (Some buf) (ncb - 1)) level_of) (cf_loglevel c)\<rparr>)),
      (''layout'', 1, \<lambda>buf ncb. on_conf (\<lambda>c. c\<lparr>cf_layout := or_keep (clog_layout_from_string (Some buf) (ncb - 1)) (cf_layout c)\<rparr>)),
      (''dateformat'', 1, \<lambda>buf ncb. on_conf (\<lambda>c. c\<lparr>cf_dateformat :=
         or_keep (clog_dateformat_from_string (Some buf) (ncb - 1)) (cf_dateformat c)\<rparr>)),
      (''timeunit'', 1, \<lambda>buf ncb. on_conf (\<lambda>c. c\<lparr>cf_timeunit :=
         (if cstr_compare_len (Some buf) (ncb - 1) (Some ''s'') 1 True = 0 then CLOG_TIMEUNIT_SEC
          else if cstr_compare_len (Some buf) (ncb - 1) (Some ''ms'') 2 True = 0 then CLOG_TIMEUNIT_MSEC
          else if cstr_compare_len (Some buf) (ncb - 1) (Some ''us'') 2 True = 0 then CLOG_TIMEUNIT_USEC else cf_timeunit c)\<rparr>))]"

text \<open>A switch, set when \<open>ConfParseBoolValue\<close> is not 0.\<close>

definition switch :: "(logger_conf_t \<Rightarrow> logger_conf_t) \<Rightarrow> string \<Rightarrow> int \<Rightarrow> load_state \<Rightarrow> load_state" where
  "switch f buf ncb = on_conf (\<lambda>c. if ConfParseBoolValue (Some buf) 1 \<noteq> 0 then f c else c)"

definition switch_settings :: "setting list" where
  "switch_settings =
     [(''autowrapline'', 0, switch (\<lambda>c. c\<lparr>cf_autowrapline := True\<rparr>)),
      (''processid'', 0, switch (\<lambda>c. c\<lparr>cf_processid := True\<rparr>)),
      (''threadno'', 0, switch (\<lambda>c. c\<lparr>cf_threadno := True, cf_processid := True\<rparr>)),
      (''hideident'', 0, switch (\<lambda>c. c\<lparr>cf_hideident := True\<rparr>)),
      (''timestampid'', 0, switch (\<lambda>c. c\<lparr>cf_timestampid := CLOG_TIMESTAMP_ID\<rparr>)),
      (''localtime'', 0, switch (\<lambda>c. c\<lparr>cf_loctime := CLOG_TIMEZONE_LOC\<rparr>)),
      (''colorstyle'', 0, switch (\<lambda>c. c\<lparr>cf_colorstyle := or CLOG_LEVEL_COLORS CLOG_LEVEL_STYLES\<rparr>)),
      (''filelineno'', 0, switch (\<lambda>c. c\<lparr>cf_filelineno := CLOG_FILE_LINENO\<rparr>)),
      (''function'', 0, switch (\<lambda>c. c\<lparr>cf_function := CLOG_FUNCTION_NAME\<rparr>))]"

definition on_key :: "bool \<Rightarrow> (logger_conf_t \<Rightarrow> logger_conf_t) \<Rightarrow> logger_conf_t \<Rightarrow> logger_conf_t" where
  "on_key has f conf = (if has then f conf else conf)"

text \<open>The keys of \<open>enableflags\<close>, at most ten.\<close>

definition enable_flags :: "string \<Rightarrow> logger_conf_t \<Rightarrow> logger_conf_t" where
  "enable_flags valuebuf conf =
     (let (numkeys, keys) = split_string_chkd valuebuf (nat (cstr_length (Some valuebuf) 255)) (CHR '','') (Some 10);
          has = (\<lambda>k. cstr_findstr_in (Some k) (cstr_length (Some k) 20) (map Some keys) True \<noteq> -1);
          on = (\<lambda>k. on_key (has k))
      in if numkeys > 0 then
           on ''threadno'' (\<lambda>c. c\<lparr>cf_threadno := True, cf_processid := True\<rparr>)
             (on ''processid'' (\<lambda>c. c\<lparr>cf_processid := True\<rparr>)
               (on ''function'' (\<lambda>c. c\<lparr>cf_function := CLOG_FUNCTION_NAME\<rparr>)
                 (on ''filelineno'' (\<lambda>c. c\<lparr>cf_filelineno := CLOG_FILE_LINENO\<rparr>)
                   (on ''colorstyle'' (\<lambda>c. c\<lparr>cf_colorstyle := or CLOG_LEVEL_COLORS CLOG_LEVEL_STYLES\<rparr>)
                     (on ''localtime'' (\<lambda>c. c\<lparr>cf_loctime := CLOG_TIMEZONE_LOC\<rparr>)
                       (on ''timestampid'' (\<lambda>c. c\<lparr>cf_timestampid := CLOG_TIMESTAMP_ID\<rparr>)
                         (on ''hideident'' (\<lambda>c. c\<lparr>cf_hideident := True\<rparr>)
                           (on ''autowrapline'' (\<lambda>c. c\<lparr>cf_autowrapline := True\<rparr>) conf))))))))
         else conf)"

section \<open>Loading\<close>

text \<open>What the section of the logger changes.\<close>

definition load_section :: "char \<Rightarrow> string option \<Rightarrow> string \<Rightarrow> string option \<Rightarrow> load_state \<Rightarrow> conf_error + load_state" where
  "load_section before cfgfile family qualifier st =
     (case load_settings (\<lambda>key. ConfReadValueParsed before cfgfile family qualifier key (Some READCONF_LINESIZE_MAX))
             (number_settings @ text_settings @ switch_settings) st of
        Inl e \<Rightarrow> Inl e
      | Inr st1 \<Rightarrow>
          (case ConfReadValueParsedAlloc before cfgfile family qualifier ''enableflags'' of
             Inl e \<Rightarrow> Inl e
           | Inr (ncb, valuebuf) \<Rightarrow> Inr (if ncb \<noteq> 0 then on_conf (enable_flags valuebuf) st1 else st1)))"

text \<open>The loop over the sections: the first of the family \<open>clogger\<close> that names \<open>ident\<close>; \<open>None\<close> when there is none.\<close>

definition names_ident :: "string \<Rightarrow> string \<Rightarrow> bool" where
  "names_ident ident qualifier \<longleftrightarrow>
     list_ex (\<lambda>i. cstr_compare_len (Some ident) (cstr_length (Some ident) 120) (Some i) (int (length i)) False = 0)
       (cstr_split_multi_chrs qualifier (nat (cstr_length (Some qualifier) (int READCONF_LINESIZE_MAX))) '' ,;|'' CLOGGER_SECTION_IDENTS_MAX)"

fun find_ident :: "char \<Rightarrow> string option \<Rightarrow> string \<Rightarrow> string option list \<Rightarrow> load_state \<Rightarrow> conf_error + load_state option" where
  "find_ident before cfgfile ident [] st = Inr None"
| "find_ident before cfgfile ident (sec # secs) st =
     (case ConfSectionParse sec of (n, family, qualifier) \<Rightarrow>
        if n = 2 \<and> cstr_compare_len (Some ''clogger'') 7 (Some family) (-1) False = 0 \<and> names_ident ident (the qualifier) then
          (case load_section before cfgfile family qualifier st of Inl e \<Rightarrow> Inl e | Inr st1 \<Rightarrow> Inr (Some st1))
        else find_ident before cfgfile ident secs st)"

text \<open>\<open>size_of text base exponent\<close> is \<open>(ub8) (atof(text) * pow(base, exponent))\<close>.\<close>

definition rolling_settings :: "(string \<Rightarrow> int \<Rightarrow> nat \<Rightarrow> nat) \<Rightarrow> setting list" where
  "rolling_settings size_of =
     [(''rollingtime'', 1, \<lambda>buf ncb. on_conf (\<lambda>c.
         let rotstr = cstr_trim_whitespace buf
         in c\<lparr>cf_rollingtime := or_keep (rollingtime_from_string (Some rotstr) (cstr_length (Some rotstr) (ncb - 1))) (cf_rollingtime c)\<rparr>)),
      (''maxfilesize'', 0, \<lambda>buf ncb. on_conf (\<lambda>c. c\<lparr>cf_maxfilesize :=
         or_keep (map_option (\<lambda>(value, base, exponent). size_of value base exponent) (ConfParseSizeBytesValue (Some buf))) (cf_maxfilesize c)\<rparr>)),
      (''maxfilecount'', 0, \<lambda>buf ncb. on_conf (\<lambda>c. c\<lparr>cf_maxfilecount := ub4 (int (fst (strtoull 10 buf)))\<rparr>)),
      (''rollingappend'', 0, switch (\<lambda>c. c\<lparr>cf_rollingappend := True\<rparr>))]"

definition errmsg :: "string \<Rightarrow> logger_conf_t \<Rightarrow> logger_conf_t" where
  "errmsg msg conf = conf\<lparr>cf_errmsg := take (CLOG_ERRMSG_LEN_MAX - 1) msg\<rparr>"

text \<open>The loop over the sections for the policy; the result says whether it was found.\<close>

fun find_policy ::
  "char \<Rightarrow> (string \<Rightarrow> int \<Rightarrow> nat \<Rightarrow> nat) \<Rightarrow> string option \<Rightarrow> string \<Rightarrow> string option list \<Rightarrow> logger_conf_t \<Rightarrow> conf_error + bool \<times> logger_conf_t" where
  "find_policy before size_of cfgfile policy [] conf = Inr (False, conf)"
| "find_policy before size_of cfgfile policy (sec # secs) conf =
     (case ConfSectionParse sec of (n, family, qualifier) \<Rightarrow>
        if n = 2 then
          (let conf1 = errmsg (''found section: ['' @ family @ '':'' @ the qualifier @ '']'') conf
           in if cstr_compare_len (Some ''rollingpolicy'') 13 (Some family) (-1) False = 0 \<and> strcmp (the qualifier) policy = 0 then
                (case load_settings (\<lambda>key. ConfReadValueParsed before cfgfile family qualifier key (Some READCONF_LINESIZE_MAX))
                        (rolling_settings size_of) (errmsg ''success'' conf1, None) of
                   Inl e \<Rightarrow> Inl e
                 | Inr (conf2, _) \<Rightarrow> Inr (True, conf2))
              else find_policy before size_of cfgfile policy secs conf1)
        else find_policy before size_of cfgfile policy secs conf)"

definition section_list :: "int \<times> string list \<Rightarrow> string option list" where
  "section_list r = map (\<lambda>i. ConfSectionListGetAt (snd r) (int i)) [0..<nat (fst r)]"

definition logger_conf_load_config ::
  "char \<Rightarrow> (string \<Rightarrow> int \<Rightarrow> nat \<Rightarrow> nat) \<Rightarrow> string \<Rightarrow> string option \<Rightarrow> string \<Rightarrow> logger_conf_t \<Rightarrow> conf_error + int \<times> logger_conf_t" where
  "logger_conf_load_config before size_of cfgname cfgfile ident conf =
     (case ConfGetSectionList cfgfile of
        Inl e \<Rightarrow> Inl e
      | Inr r \<Rightarrow>
          if fst r = -1 then Inr (-1, errmsg (''config file not found <'' @ cfgname @ ''>'') conf)
          else if fst r = 0 then Inr (-1, errmsg (''no section in config file <'' @ cfgname @ ''>'') conf)
          else
            (case find_ident before cfgfile ident (section_list r) (conf, None) of
               Inl e \<Rightarrow> Inl e
             | Inr None \<Rightarrow> Inr (-1, errmsg (''not found section: [clogger:'' @ ident @ '']'') conf)
             | Inr (Some (conf1, None)) \<Rightarrow> Inr (0, conf1)
             | Inr (Some (conf1, Some policy)) \<Rightarrow>
                 (let name = buf_string (cb_str policy);
                      conf2 = errmsg (''not found rollingpolicy: [rollingpolicy:'' @ fmt_star (int (cb_len policy)) name @ '']'') conf1
                  in case ConfGetSectionList cfgfile of
                       Inl e \<Rightarrow> Inl e
                     | Inr r2 \<Rightarrow>
                         (case find_policy before size_of cfgfile name (section_list r2) conf2 of
                            Inl e \<Rightarrow> Inl e
                          | Inr (found, conf3) \<Rightarrow> Inr (if found then 0 else 1, conf3)))))"

section \<open>Well-formed configurations\<close>

definition cb_fine :: "cstrbuf_t \<Rightarrow> bool" where
  "cb_fine d \<longleftrightarrow> cb_ok d \<and> cb_closed d"

definition conf_ok :: "logger_conf_t \<Rightarrow> bool" where
  "conf_ok c \<longleftrightarrow>
     cb_fine (cf_ident c) \<and> cb_fine (cf_pathprefix c) \<and> cb_fine (cf_nameprefix c) \<and> cb_fine (cf_shmlogfile c) \<and> cb_fine (cf_winsyslogconf c) \<and>
     cf_appender c \<in> {1..15} \<and> cf_timeunit c \<in> {0, 64, 128} \<and> cf_loctime c \<in> {0, 512} \<and> cf_colorstyle c \<in> {0, 3072} \<and>
     cf_timestampid c \<in> {0, 256} \<and> cf_filelineno c \<in> {0, 4096} \<and> cf_function c \<in> {0, 8192} \<and>
     (cf_threadno c \<longrightarrow> cf_processid c) \<and> cf_magickey c < 4294967296 \<and> cf_maxfilecount c < 4294967296 \<and>
     cf_maxmsgsize c \<in> {-2147483648..2147483647} \<and> cf_queuelength c \<in> {-2147483648..2147483647} \<and>
     cf_maxconcurrents c \<in> {-2147483648..2147483647}"

lemma to_int32_between: "-2147483648 \<le> to_int32 i" "to_int32 i \<le> 2147483647"
proof -
  have "0 \<le> (i + 2147483648) mod 4294967296" "(i + 2147483648) mod 4294967296 < 4294967296" by simp_all
  then show "-2147483648 \<le> to_int32 i" "to_int32 i \<le> 2147483647" unfolding to_int32_def by linarith+
qed

lemma ub4_less: "ub4 i < 4294967296"
  by (simp add: ub4_def nat_less_iff)

lemma dup_fine:
  assumes "cb_fine d" "n < 4294967295"
  shows "cb_fine (cstrbufDup (Some d) (Some buf) n)"
proof -
  have d: "length (cb_str d) = cb_maxsz d" "cb_len d < cb_maxsz d" "cb_maxsz d < 4294967296" using assms by (simp_all add: cb_fine_def cb_ok_def)
  have n: "n \<noteq> cstrbuf_error_size_len" using assms(2) by (simp add: cstrbuf_error_size_len_def error_len)
  show ?thesis
  proof (cases "n = 0 \<or> n < cb_maxsz d")
    case True
    then show ?thesis using d n
      by (auto simp: cstrbufDup_def cb_fine_def cb_ok_def cb_closed_def put_bytes_def)
  next
    case False
    then show ?thesis using assms(2) n by (auto simp: cstrbufDup_def cstrbufNew_def cb_fine_def cb_ok_def cb_closed_def nth_append Let_def nat_less_iff zless_nat_eq_int_zless)
  qed
qed

lemma new_fine:
  assumes "length s \<le> 1048576" "m < 4000000000"
  shows "cb_fine (cstrbufNew m (Some s) whole)"
proof -
  have "cstrbufNew m (Some s) whole = cstrbufNew m (Some s) (length s)"
    using assms by (simp add: cstrbufNew_def whole_def cstrbuf_error_size_len_def error_len cstr_length_def)
  moreover have "cb_grown (cstrbufNew m (Some s) (length s)) s" using new_grown [where str = "Some s" and len = "length s" and maxsz = m] assms by simp
  ultimately show ?thesis by (simp add: cb_grown_def cb_fine_def)
qed

lemma conf_ok_default:
  assumes "length ident \<le> 1048576" "length pathpre \<le> 1048576" "length (case winsyslogconf of None \<Rightarrow> [] | Some s \<Rightarrow> s) \<le> 1048576"
  shows "conf_ok (logger_conf_init_default ident pathpre winsyslogconf)"
proof -
  have "cb_fine (cstrbufNew 0 (case winsyslogconf of None \<Rightarrow> Some ''localhost:514'' | Some s \<Rightarrow> Some s) whole)"
    using assms(3) by (cases winsyslogconf) (simp_all add: new_fine)
  then show ?thesis using assms(1,2)
    by (simp add: conf_ok_def logger_conf_init_default_def new_fine CLOGGER_SHMLOG_FILEPATTERN_def CLOG_NAMEPATTERN_DEFAULT_def CLOG_TIMEUNIT_SEC_def)
qed

lemma appender_bits: "clog_appender_from_string s n = Some a \<Longrightarrow> a \<in> {1..15}"
  by (auto simp: clog_appender_from_string_def Let_def split: if_splits)

lemma load_settings_keep:
  assumes "load_settings read ss st = Inr st'" "P st" "\<And>key least f buf ncb st. (key, least, f) \<in> set ss \<Longrightarrow> least < ncb \<Longrightarrow> P st \<Longrightarrow> P (f buf ncb st)"
  shows "P st'"
  using assms
proof (induction ss arbitrary: st)
  case (Cons s ss)
  obtain k l f where s: "s = (k, l, f)" by (metis prod_cases3)
  then obtain ncb tx where r: "read k = Inr (ncb, tx)" using Cons.prems(1) by (cases "read k") auto
  define st1 where "st1 = (if ncb > l then f (case tx of None \<Rightarrow> [] | Some t \<Rightarrow> t) ncb st else st)"
  have "P st1" using Cons.prems(2) Cons.prems(3) [of k l f ncb st] s by (simp add: st1_def)
  moreover have "load_settings read ss st1 = Inr st'" using Cons.prems(1) s r by (simp add: st1_def)
  ultimately show ?case using Cons.IH Cons.prems(3) by fastforce
qed simp

lemma cut_at_le: "cut_at n ncb \<le> n"
  by (auto simp: cut_at_def)

lemma or_keep_in: "(\<And>x. o1 = Some x \<Longrightarrow> x \<in> A) \<Longrightarrow> y \<in> A \<Longrightarrow> or_keep o1 y \<in> A"
  by (cases o1) (simp_all add: or_keep_def)

lemma conf_ok_upds:
  assumes "conf_ok c"
  shows "cb_fine d \<Longrightarrow> conf_ok (c\<lparr>cf_pathprefix := d\<rparr>)" "cb_fine d \<Longrightarrow> conf_ok (c\<lparr>cf_nameprefix := d\<rparr>)"
    "cb_fine d \<Longrightarrow> conf_ok (c\<lparr>cf_shmlogfile := d\<rparr>)" "conf_ok (c\<lparr>cf_loglevel := lv\<rparr>)" "conf_ok (c\<lparr>cf_layout := ly\<rparr>)"
    "conf_ok (c\<lparr>cf_dateformat := df\<rparr>)" "conf_ok (c\<lparr>cf_rollingtime := rt\<rparr>)" "conf_ok (c\<lparr>cf_maxfilesize := n\<rparr>)"
    "conf_ok (c\<lparr>cf_rollingappend := b\<rparr>)" "conf_ok (c\<lparr>cf_autowrapline := b\<rparr>)" "conf_ok (c\<lparr>cf_hideident := b\<rparr>)"
    "conf_ok (c\<lparr>cf_processid := True\<rparr>)" "conf_ok (c\<lparr>cf_threadno := True, cf_processid := True\<rparr>)" "conf_ok (c\<lparr>cf_errmsg := t\<rparr>)"
    "conf_ok (c\<lparr>cf_magickey := ub4 i\<rparr>)" "conf_ok (c\<lparr>cf_maxfilecount := ub4 i\<rparr>)" "conf_ok (c\<lparr>cf_maxmsgsize := to_int32 i\<rparr>)"
    "conf_ok (c\<lparr>cf_queuelength := to_int32 i, cf_maxconcurrents := to_int32 j\<rparr>)"
    "conf_ok (c\<lparr>cf_timestampid := CLOG_TIMESTAMP_ID\<rparr>)" "conf_ok (c\<lparr>cf_loctime := CLOG_TIMEZONE_LOC\<rparr>)"
    "conf_ok (c\<lparr>cf_colorstyle := or CLOG_LEVEL_COLORS CLOG_LEVEL_STYLES\<rparr>)" "conf_ok (c\<lparr>cf_filelineno := CLOG_FILE_LINENO\<rparr>)"
    "conf_ok (c\<lparr>cf_function := CLOG_FUNCTION_NAME\<rparr>)" "a \<in> {1..15} \<Longrightarrow> conf_ok (c\<lparr>cf_appender := a\<rparr>)"
    "u \<in> {0, 64, 128} \<Longrightarrow> conf_ok (c\<lparr>cf_timeunit := u\<rparr>)"
  using assms by (simp_all add: conf_ok_def ub4_less to_int32_between CLOG_TIMESTAMP_ID_def CLOG_TIMEZONE_LOC_def
      CLOG_LEVEL_COLORS_def CLOG_LEVEL_STYLES_def CLOG_FILE_LINENO_def CLOG_FUNCTION_NAME_def)

definition load_ok :: "load_state \<Rightarrow> bool" where
  "load_ok st \<longleftrightarrow> conf_ok (fst st) \<and> (case snd st of None \<Rightarrow> True | Some p \<Rightarrow> cb_fine p)"

lemma load_ok_on_conf: "load_ok st \<Longrightarrow> (conf_ok (fst st) \<Longrightarrow> conf_ok (f (fst st))) \<Longrightarrow> load_ok (on_conf f st)"
  by (simp add: load_ok_def on_conf_def)

lemma load_ok_switch: "load_ok st \<Longrightarrow> (conf_ok (fst st) \<Longrightarrow> conf_ok (f (fst st))) \<Longrightarrow> load_ok (switch f buf ncb st)"
  by (simp add: switch_def load_ok_on_conf)

lemma number_settings_ok: "(key, least, f) \<in> set number_settings \<Longrightarrow> load_ok st \<Longrightarrow> load_ok (f buf ncb st)"
  unfolding number_settings_def
  by (auto intro!: load_ok_on_conf simp: conf_ok_upds strtol_int_def align_psize_int_def)

lemma switch_settings_ok: "(key, least, f) \<in> set switch_settings \<Longrightarrow> load_ok st \<Longrightarrow> load_ok (f buf ncb st)"
  unfolding switch_settings_def by (auto intro!: load_ok_switch simp: conf_ok_upds)

lemma rolling_settings_ok: "(key, least, f) \<in> set (rolling_settings size_of) \<Longrightarrow> load_ok st \<Longrightarrow> load_ok (f buf ncb st)"
  unfolding rolling_settings_def by (auto intro!: load_ok_switch load_ok_on_conf simp: conf_ok_upds Let_def)

lemma text_settings_ok:
  assumes "(key, least, f) \<in> set text_settings" "load_ok st"
  shows "load_ok (f buf ncb st)"
proof -
  have cut: "cut_at 255 ncb < 4294967295" "cut_at 127 ncb < 4294967295" using cut_at_le [of 255 ncb] cut_at_le [of 127 ncb] by simp_all
  have dup0: "cb_fine (cstrbufDup None (Some buf) (cut_at 127 ncb))" using cut(2)
    by (auto simp: cstrbufDup_def cstrbufNew_def cb_fine_def cb_ok_def cb_closed_def nth_append Let_def cstrbuf_error_size_len_def error_len
        nat_less_iff zless_nat_eq_int_zless)
  have fine: "cb_fine (cf_pathprefix (fst st))" "cb_fine (cf_nameprefix (fst st))" "cb_fine (cf_shmlogfile (fst st))"
    using assms(2) by (simp_all add: load_ok_def conf_ok_def)
  have ap: "or_keep (clog_appender_from_string buf (nat (ncb - 1))) (cf_appender (fst st)) \<in> {1..15}"
  proof (rule or_keep_in)
    show "x \<in> {1..15}" if "clog_appender_from_string buf (nat (ncb - 1)) = Some x" for x using that by (rule appender_bits)
    show "cf_appender (fst st) \<in> {1..15}" using assms(2) by (simp only: load_ok_def conf_ok_def)
  qed
  have tu: "(if a then CLOG_TIMEUNIT_SEC else if b then CLOG_TIMEUNIT_MSEC else if c then CLOG_TIMEUNIT_USEC else cf_timeunit (fst st)) \<in> {0, 64, 128}" for a b c
    using assms(2) by (simp add: load_ok_def conf_ok_def CLOG_TIMEUNIT_SEC_def CLOG_TIMEUNIT_MSEC_def CLOG_TIMEUNIT_USEC_def)
  have rp: "load_ok (fst st, Some (cstrbufDup (snd st) (Some buf) (cut_at 127 ncb)))"
    using assms(2) dup0 cut dup_fine by (cases "snd st") (auto simp: load_ok_def)
  show ?thesis using assms rp unfolding text_settings_def set_simps insert_iff empty_iff prod.inject
    by (elim disjE conjE; simp only:; intro load_ok_on_conf conf_ok_upds dup_fine cut fine ap tu; assumption?)
qed

lemma conf_ok_on_key: "conf_ok c \<Longrightarrow> (\<And>c. conf_ok c \<Longrightarrow> conf_ok (f c)) \<Longrightarrow> conf_ok (on_key has f c)"
  by (simp add: on_key_def)

lemma enable_flags_ok: "conf_ok c \<Longrightarrow> conf_ok (enable_flags v c)"
  by (simp add: enable_flags_def conf_ok_upds conf_ok_on_key Let_def split: prod.split)

lemma load_section_ok:
  assumes "load_section before cfgfile family qualifier st = Inr st'" "load_ok st"
  shows "load_ok st'"
proof -
  obtain st1 where 1: "load_settings (\<lambda>key. ConfReadValueParsed before cfgfile family qualifier key (Some READCONF_LINESIZE_MAX))
      (number_settings @ text_settings @ switch_settings) st = Inr st1"
    using assms(1) by (auto simp: load_section_def split: sum.splits)
  have "load_ok st1"
    by (rule load_settings_keep [where P = load_ok, OF 1 assms(2)]) (auto intro: number_settings_ok text_settings_ok switch_settings_ok)
  then show ?thesis using assms(1) 1 by (auto simp: load_section_def load_ok_on_conf enable_flags_ok split: sum.splits if_splits)
qed

lemma find_ident_ok: "find_ident before cfgfile ident secs st = Inr (Some st') \<Longrightarrow> load_ok st \<Longrightarrow> load_ok st'"
proof (induction secs)
  case (Cons sec secs)
  obtain n family qualifier where p: "ConfSectionParse sec = (n, family, qualifier)" by (metis prod_cases3)
  show ?case using Cons p load_section_ok [of before cfgfile family qualifier st st']
    by (auto split: sum.splits if_splits)
qed simp

lemma errmsg_ok: "conf_ok (errmsg m c) = conf_ok c"
  by (simp add: errmsg_def conf_ok_def)

lemma conf_ok_errmsg: "conf_ok (c\<lparr>cf_errmsg := m\<rparr>) = conf_ok c"
  by (simp add: conf_ok_def)

lemma find_policy_ok: "find_policy before size_of cfgfile policy secs conf = Inr (b, conf') \<Longrightarrow> conf_ok conf \<Longrightarrow> conf_ok conf'"
proof (induction secs arbitrary: conf)
  case (Cons sec secs)
  obtain n family qualifier where p: "ConfSectionParse sec = (n, family, qualifier)" by (metis prod_cases3)
  have ls: "conf_ok conf2" if "load_settings read (rolling_settings size_of) (errmsg a (errmsg d conf), None) = Inr (conf2, q)" for read a d conf2 q
  proof -
    have "load_ok (errmsg a (errmsg d conf), None)" using Cons.prems(2) by (simp add: load_ok_def errmsg_ok)
    then have "load_ok (conf2, q)" by (rule load_settings_keep [where P = load_ok, OF that]) (rule rolling_settings_ok)
    then show ?thesis by (simp add: load_ok_def)
  qed
  show ?case using Cons p ls by (auto simp: Let_def errmsg_ok split: sum.splits if_splits)
qed simp



end
