(* ===== verification/LogCreate.thy ===== *)
theory LogCreate
  imports LoggerConf LogNames LogThread
begin

text \<open>
  \<open>clog_logger_create\<close> of \<open>source/clogger/clogger.c\<close>: a configuration (\<open>LoggerConf\<close>) becomes a logger (\<open>Logger\<close>) with its pool of message
  buffers (\<open>RingBuf\<close>), its queue (\<open>RingBufSt\<close>), the names of its files (\<open>LogNames\<close>) and its rolling file (\<open>RollingFile\<close>).
\<close>

unbundle bit_operations_syntax

section \<open>Creation\<close>

definition chkconfig_int :: "int \<Rightarrow> int \<Rightarrow> int \<Rightarrow> int \<Rightarrow> int" where
  "chkconfig_int defval minval maxval var =
     (if var = 0 then defval else if var = -1 then maxval else if var < minval then minval
      else if var > maxval then maxval else var)"

definition has_flag :: "nat \<Rightarrow> nat \<Rightarrow> bool" where
  "has_flag f flags \<longleftrightarrow> f AND flags \<noteq> 0"

definition create_bf :: "nat \<Rightarrow> logger_conf_t \<Rightarrow> clog_bf" where
  "create_bf flags conf =
     \<lparr> bf_loctime = has_flag CLOG_TIMEZONE_LOC flags,
       bf_timeunitms = (has_flag CLOG_TIMEUNIT_MSEC flags \<and> \<not> has_flag CLOG_TIMEUNIT_USEC flags),
       bf_timeunitus = has_flag CLOG_TIMEUNIT_USEC flags,
       bf_timestampid = has_flag CLOG_TIMESTAMP_ID flags,
       bf_autowrapline = cf_autowrapline conf, bf_hideident = cf_hideident conf,
       bf_rollingsize = has_flag 16 flags, bf_rollingtime = has_flag 32 flags,
       bf_appenderstdout = has_flag 1 flags, bf_appendersyslog = has_flag 2 flags,
       bf_appenderrofile = has_flag 4 flags, bf_appendershmlog = has_flag 8 flags,
       bf_levelcolors = has_flag CLOG_LEVEL_COLORS flags, bf_levelstyles = has_flag CLOG_LEVEL_STYLES flags,
       bf_filelineno = has_flag CLOG_FILE_LINENO flags, bf_function = has_flag CLOG_FUNCTION_NAME flags,
       bf_processid = cf_processid conf, bf_threadno = cf_threadno conf \<rparr>"

text \<open>The loop that fills the pool; a buffer that is not accepted is freed.\<close>

fun fill_pool :: "nat \<Rightarrow> nat \<Rightarrow> ringbuf_elt_t ringbuf_t \<Rightarrow> ringbuf_elt_t ringbuf_t" where
  "fill_pool maxmsgsize 0 pool = pool"
| "fill_pool maxmsgsize (Suc n) pool = fill_pool maxmsgsize n (snd (ringbuf_push pool (Some (ringbuf_elt_new maxmsgsize True))))"

text \<open>The default colours and styles.\<close>

definition default_colors :: "clog_logger \<Rightarrow> clog_logger" where
  "default_colors lg =
     clog_set_levelcolor (clog_set_levelcolor (clog_set_levelcolor (clog_set_levelcolor (clog_set_levelcolor (clog_set_levelcolor lg
       CLOG_LEVEL_FATAL 31) CLOG_LEVEL_ERROR 35) CLOG_LEVEL_WARN 33) CLOG_LEVEL_INFO 36) CLOG_LEVEL_DEBUG 32) CLOG_LEVEL_TRACE 0"

definition default_styles :: "clog_logger \<Rightarrow> clog_logger" where
  "default_styles lg =
     clog_set_levelstyle (clog_set_levelstyle (clog_set_levelstyle (clog_set_levelstyle (clog_set_levelstyle (clog_set_levelstyle lg
       CLOG_LEVEL_FATAL 1) CLOG_LEVEL_ERROR 1) CLOG_LEVEL_WARN 1) CLOG_LEVEL_INFO 0) CLOG_LEVEL_DEBUG 0) CLOG_LEVEL_TRACE 0"

text \<open>What a handle of a logger gives access to; the attached data is an address.\<close>

record logger_handle =
  lh_logger :: clog_logger
  lh_mempool :: "ringbuf_elt_t ringbuf_t"
  lh_loggerid :: int
  lh_data :: nat

text \<open>
  The replaced names: the rolling file and the path of the log, \<open>None\<close> when the replacement does not return.
\<close>

definition replaced :: "string \<Rightarrow> string \<Rightarrow> string \<Rightarrow> cstrbuf_t \<Rightarrow> cstrbuf_t option" where
  "replaced ident pid timestr source = clog_replace_string (buf_string (cb_str source)) (name_symbols ident pid timestr)"

definition create_logfile :: "string \<Rightarrow> string \<Rightarrow> string \<Rightarrow> bool \<Rightarrow> logger_conf_t \<Rightarrow> (rollingfile_t \<times> string) option" where
  "create_logfile ident pid timestr rofile conf =
     (if rofile then
        (case replaced ident pid timestr (cf_nameprefix conf) of
           None \<Rightarrow> None
         | Some np \<Rightarrow>
             (case replaced ident pid timestr (cf_pathprefix conf) of
                None \<Rightarrow> None
              | Some pp \<Rightarrow> Some (rollingfile_init rollingfile_zero (buf_string (cb_str pp)) (buf_string (cb_str np)), buf_string (cb_str pp))))
      else Some (rollingfile_zero, []))"

text \<open>
  \<open>shm_init path file key size\<close> is the success of \<open>shmmaplog_init\<close>, with the digest made from the key.
  The result is \<open>None\<close> when the process ends, the replacement of names does not return or the size of the queue overflows.
\<close>

definition clog_logger_create ::
  "(string \<Rightarrow> string \<Rightarrow> nat \<Rightarrow> int \<Rightarrow> bool) \<Rightarrow> fsys \<Rightarrow> string \<Rightarrow> string \<Rightarrow> logger_conf_t \<Rightarrow> logger_handle option" where
  "clog_logger_create shm_init fs pid timestr conf =
     (let flags = logger_conf_get_creatflags conf;
          maxmsgsize = chkconfig_int 4000 1000 32640 (cf_maxmsgsize conf);
          concurrents = chkconfig_int 128 64 1024 (cf_maxconcurrents conf);
          maxconcurrents = (if concurrents > cf_queuelength conf then align_psize_int (cf_queuelength conf) else concurrents);
          bf = create_bf flags conf;
          ident = buf_string (cb_str (cstrbufDup None (Some (cb_str (cf_ident conf))) (cb_len (cf_ident conf))));
          mempool = fill_pool (nat maxmsgsize) (nat maxconcurrents) (ringbuf_init maxconcurrents)
      in case (ringbufst_init (cf_queuelength conf) maxmsgsize, create_logfile ident pid timestr (bf_appenderrofile bf) conf) of
           (Some ring, Some (rof, path)) \<Rightarrow>
             if bf_appendershmlog bf \<and>
                (case replaced ident pid timestr (cf_shmlogfile conf) of
                   None \<Rightarrow> True
                 | Some sl \<Rightarrow> \<not> shm_init path (buf_string (cb_str sl)) (cf_magickey conf) (to_int32 (maxmsgsize * cf_queuelength conf)))
             then None
             else Some \<lparr> lh_logger = default_styles (default_colors
                           \<lparr> lg_bf = bf, lg_level = cf_loglevel conf, lg_levelstyles = (\<lambda>_. 0), lg_levelcolors = (\<lambda>_. 0),
                             lg_layout = cf_layout conf, lg_dateformat = cf_dateformat conf,
                             lg_logfile = rollingfile_set_sizepolicy (rollingfile_set_timepolicy rof (cf_rollingtime conf))
                               (cf_maxfilesize conf) (cf_maxfilecount conf) (cf_rollingappend conf),
                             lg_ident = ident, lg_maxmsgsize = nat maxmsgsize, lg_pidcstr = pid, lg_ring = ring, lg_sema = 0,
                             lg_logmessages = 0, lg_logrounds = 0, lg_fs = fs, lg_stdout = [], lg_syslog = [], lg_status = Running \<rparr>),
                         lh_mempool = mempool, lh_loggerid = cf_loggerid conf, lh_data = 0 \<rparr>
         | _ \<Rightarrow> None)"

section \<open>Access\<close>

definition logger_attach_data :: "logger_handle \<Rightarrow> nat \<Rightarrow> nat \<times> logger_handle" where
  "logger_attach_data h data = (lh_data h, h\<lparr>lh_data := data\<rparr>)"

definition clog_logger_get_loggerid :: "logger_handle \<Rightarrow> int" where
  "clog_logger_get_loggerid h = lh_loggerid h"

definition clog_logger_get_ident :: "logger_handle \<Rightarrow> string" where
  "clog_logger_get_ident h = lg_ident (lh_logger h)"

definition clog_logger_get_logmessages :: "logger_handle \<Rightarrow> int \<times> int" where
  "clog_logger_get_logmessages h = (lg_logmessages (lh_logger h), lg_logrounds (lh_logger h))"

definition clog_logger_get_maxmsgsize :: "logger_handle \<Rightarrow> int" where
  "clog_logger_get_maxmsgsize h = to_int32 (int (lg_maxmsgsize (lh_logger h)))"

section \<open>Lemmas\<close>

lemma has_flag_bit: "has_flag (2 ^ n) flags \<longleftrightarrow> bit flags n"
proof
  assume "has_flag (2 ^ n) flags"
  then have "2 ^ n AND flags \<noteq> 0" by (simp add: has_flag_def)
  then obtain k where "bit (2 ^ n AND flags) k" using bit_eq_iff [of "2 ^ n AND flags" 0] by auto
  then show "bit flags n" by (auto simp: bit_and_iff bit_exp_iff)
next
  assume "bit flags n"
  then have "bit (2 ^ n AND flags) n" by (simp add: bit_and_iff bit_exp_iff)
  then have "2 ^ n AND flags \<noteq> 0" by (metis bit_0_eq bot_apply bot_bool_def)
  then show "has_flag (2 ^ n) flags" by (simp add: has_flag_def)
qed

lemma small_bits: "a < 2 ^ m \<Longrightarrow> m \<le> n \<Longrightarrow> \<not> bit (a :: nat) n"
proof -
  assume a: "a < 2 ^ m" "m \<le> n"
  have "(2::nat) ^ m \<le> 2 ^ n" using a(2) by (rule power_increasing) simp
  then have "a div 2 ^ n = 0" using a(1) by (intro div_less) (rule less_le_trans)
  then show "\<not> bit a n" by (simp add: bit_iff_odd)
qed

lemma flag_values: "has_flag 1 x = bit x 0" "has_flag 2 x = bit x 1" "has_flag 4 x = bit x 2" "has_flag 8 x = bit x 3" "has_flag 16 x = bit x 4"
  "has_flag 32 x = bit x 5" "has_flag 64 x = bit x 6" "has_flag 128 x = bit x 7" "has_flag 256 x = bit x 8" "has_flag 512 x = bit x 9"
  "has_flag 1024 x = bit x 10" "has_flag 2048 x = bit x 11" "has_flag 4096 x = bit x 12" "has_flag 8192 x = bit x 13"
  using has_flag_bit [of 0 x] has_flag_bit [of 1 x] has_flag_bit [of 2 x] has_flag_bit [of 3 x] has_flag_bit [of 4 x]
    has_flag_bit [of 5 x] has_flag_bit [of 6 x] has_flag_bit [of 7 x] has_flag_bit [of 8 x] has_flag_bit [of 9 x]
    has_flag_bit [of 10 x] has_flag_bit [of 11 x] has_flag_bit [of 12 x] has_flag_bit [of 13 x] by simp_all

lemma bit_two: "x \<in> {0, c} \<Longrightarrow> c \<noteq> (0::nat) \<Longrightarrow> bit c n = P \<Longrightarrow> bit x n = (P \<and> x \<noteq> 0)"
  by auto

lemma bit_three:
  "x \<in> {0, c, d} \<Longrightarrow> c \<noteq> d \<and> c \<noteq> (0::nat) \<and> d \<noteq> 0 \<Longrightarrow> bit c n = P \<Longrightarrow> bit d n = Q \<Longrightarrow> bit x n = (P \<and> x = c \<or> Q \<and> x = d)"
  by auto

lemma flag_bits:
  assumes "conf_ok conf"
  shows "bit (logger_conf_get_creatflags conf) n \<longleftrightarrow>
    (n < 4 \<and> bit (cf_appender conf) n) \<or> (n = 6 \<and> cf_timeunit conf = 64) \<or> (n = 7 \<and> cf_timeunit conf = 128) \<or>
    (n = 8 \<and> cf_timestampid conf \<noteq> 0) \<or> (n = 9 \<and> cf_loctime conf \<noteq> 0) \<or> ((n = 10 \<or> n = 11) \<and> cf_colorstyle conf \<noteq> 0) \<or>
    (n = 12 \<and> cf_filelineno conf \<noteq> 0) \<or> (n = 13 \<and> cf_function conf \<noteq> 0)"
proof -
  have b: "bit (64::nat) n = (n = 6)" "bit (128::nat) n = (n = 7)" "bit (256::nat) n = (n = 8)" "bit (512::nat) n = (n = 9)"
    "bit (4096::nat) n = (n = 12)" "bit (8192::nat) n = (n = 13)" "bit (1024::nat) n = (n = 10)" "bit (2048::nat) n = (n = 11)"
    using bit_exp_iff [of 6 n, where 'a = nat] bit_exp_iff [of 7 n, where 'a = nat] bit_exp_iff [of 8 n, where 'a = nat]
      bit_exp_iff [of 9 n, where 'a = nat] bit_exp_iff [of 12 n, where 'a = nat] bit_exp_iff [of 13 n, where 'a = nat]
      bit_exp_iff [of 10 n, where 'a = nat] bit_exp_iff [of 11 n, where 'a = nat] by auto
  have "(3072::nat) = 1024 OR 2048" by simp
  then have b3: "bit (3072::nat) n = (n = 10 \<or> n = 11)" using b by (metis bit_or_iff)
  have vals: "cf_appender conf \<in> {1..15}" "cf_timeunit conf \<in> {0, 64, 128}" "cf_loctime conf \<in> {0, 512}" "cf_colorstyle conf \<in> {0, 3072}"
    "cf_timestampid conf \<in> {0, 256}" "cf_filelineno conf \<in> {0, 4096}" "cf_function conf \<in> {0, 8192}"
    using assms by (simp_all only: conf_ok_def)
  then have "cf_appender conf < 2 ^ 4" by simp
  then have a: "bit (cf_appender conf) n = (n < 4 \<and> bit (cf_appender conf) n)" using small_bits [of "cf_appender conf" 4 n] by (cases "n < 4") auto
  have t: "bit (cf_timeunit conf) n = (n = 6 \<and> cf_timeunit conf = 64 \<or> n = 7 \<and> cf_timeunit conf = 128)"
    "bit (cf_timestampid conf) n = (n = 8 \<and> cf_timestampid conf \<noteq> 0)" "bit (cf_loctime conf) n = (n = 9 \<and> cf_loctime conf \<noteq> 0)"
    "bit (cf_colorstyle conf) n = ((n = 10 \<or> n = 11) \<and> cf_colorstyle conf \<noteq> 0)"
    "bit (cf_filelineno conf) n = (n = 12 \<and> cf_filelineno conf \<noteq> 0)" "bit (cf_function conf) n = (n = 13 \<and> cf_function conf \<noteq> 0)"
    using bit_three [OF vals(2) _ b(1,2)] bit_two [OF vals(5) _ b(3)] bit_two [OF vals(3) _ b(4)] bit_two [OF vals(4) _ b3]
      bit_two [OF vals(6) _ b(5)] bit_two [OF vals(7) _ b(6)] by simp_all
  show ?thesis unfolding logger_conf_get_creatflags_def bit_or_iff t using a by blast
qed

text \<open>The appenders of a configuration, as the bits of its field.\<close>

lemma create_bf_fields:
  assumes "conf_ok conf"
  shows "create_bf (logger_conf_get_creatflags conf) conf =
    \<lparr> bf_loctime = (cf_loctime conf \<noteq> 0), bf_timeunitms = (cf_timeunit conf = 64), bf_timeunitus = (cf_timeunit conf = 128),
      bf_timestampid = (cf_timestampid conf \<noteq> 0), bf_autowrapline = cf_autowrapline conf, bf_hideident = cf_hideident conf,
      bf_rollingsize = False, bf_rollingtime = False,
      bf_appenderstdout = bit (cf_appender conf) 0, bf_appendersyslog = bit (cf_appender conf) 1,
      bf_appenderrofile = bit (cf_appender conf) 2, bf_appendershmlog = bit (cf_appender conf) 3,
      bf_levelcolors = (cf_colorstyle conf \<noteq> 0), bf_levelstyles = (cf_colorstyle conf \<noteq> 0),
      bf_filelineno = (cf_filelineno conf \<noteq> 0), bf_function = (cf_function conf \<noteq> 0),
      bf_processid = cf_processid conf, bf_threadno = cf_threadno conf \<rparr>"
  unfolding create_bf_def CLOG_TIMEZONE_LOC_def CLOG_TIMEUNIT_MSEC_def CLOG_TIMEUNIT_USEC_def CLOG_TIMESTAMP_ID_def
    CLOG_LEVEL_COLORS_def CLOG_LEVEL_STYLES_def CLOG_FILE_LINENO_def CLOG_FUNCTION_NAME_def flag_values
  by (auto simp: flag_bits [OF assms])

lemma fill_pool_content:
  assumes "ringbuf_inv pool" "length (ringbuf_content pool) + n \<le> nat (rb_L pool)"
  shows "ringbuf_inv (fill_pool m n pool) \<and> ringbuf_content (fill_pool m n pool) = ringbuf_content pool @ replicate n (ringbuf_elt_new m True)"
  using assms
proof (induction n arbitrary: pool)
  case (Suc n)
  let ?p = "snd (ringbuf_push pool (Some (ringbuf_elt_new m True)))"
  have "ringbuf_inv ?p" using push_inv [OF Suc.prems(1)] by simp
  moreover have c: "ringbuf_content ?p = ringbuf_content pool @ [ringbuf_elt_new m True]"
    using push_content [OF Suc.prems(1)] push_accepts [OF Suc.prems(1)] Suc.prems(2) by simp
  moreover have "rb_L ?p = rb_L pool" by (rule push_L)
  ultimately show ?case using Suc.IH [of ?p] Suc.prems(2) by simp
qed simp

lemma buf_string_props:
  assumes "cb_fine d"
  shows "c_string (buf_string (cb_str d))" "length (buf_string (cb_str d)) \<le> cb_len d"
proof -
  show "c_string (buf_string (cb_str d))" by (auto simp: c_string_def buf_string_def dest: set_takeWhileD)
  have "cb_str d ! cb_len d = NUL" "cb_len d < length (cb_str d)" using assms by (simp_all add: cb_fine_def cb_closed_def cb_ok_def)
  then show "length (buf_string (cb_str d)) \<le> cb_len d" unfolding buf_string_def
    by (metis (mono_tags, lifting) leI nth_mem set_takeWhileD takeWhile_nth)
qed

lemma chkconfig_range: "minval \<le> defval \<Longrightarrow> defval \<le> maxval \<Longrightarrow> minval \<le> chkconfig_int defval minval maxval v \<and> chkconfig_int defval minval maxval v \<le> maxval"
  by (auto simp: chkconfig_int_def)

lemma ident_of_dup:
  assumes "cb_fine d" "cb_len d < 1000000"
  shows "length (buf_string (cb_str (cstrbufDup None (Some (cb_str d)) (cb_len d)))) < 1000000"
proof -
  have "cb_fine (cstrbufNew 0 (Some (cb_str d)) (cb_len d))" "cb_len (cstrbufNew 0 (Some (cb_str d)) (cb_len d)) = cb_len d"
    using assms by (auto simp: cstrbufNew_def cb_fine_def cb_ok_def cb_closed_def nth_append Let_def cstrbuf_error_size_len_def error_len
        nat_less_iff zless_nat_eq_int_zless)
  then show ?thesis using buf_string_props(2) [of "cstrbufNew 0 (Some (cb_str d)) (cb_len d)"] assms(2) by (simp add: cstrbufDup_def)
qed

lemma some_bit:
  assumes "(a::nat) \<in> {1..15}"
  shows "bit a 0 \<or> bit a 1 \<or> bit a 2 \<or> bit a 3"
proof (rule ccontr)
  assume n: "\<not> (bit a 0 \<or> bit a 1 \<or> bit a 2 \<or> bit a 3)"
  have "bit a k = bit 0 k" for k
  proof (cases "k < 4")
    case True
    then have "k = 0 \<or> k = 1 \<or> k = 2 \<or> k = 3" by linarith
    then show ?thesis using n by auto
  next
    case False
    then show ?thesis using small_bits [of a 4 k] assms by auto
  qed
  then have "a = 0" by (intro bit_eqI) simp
  then show False using assms by simp
qed

lemma pool_size:
  assumes "0 < q" "q < 1024"
  shows "q \<le> align_psize_int q" "align_psize_int q \<le> 1024"
proof -
  obtain n where n: "q = int n" "0 < n" "n < 1024" using assms by (metis int_nat_eq less_le nat_less_iff of_nat_0_less_iff of_nat_numeral zless_nat_conj)
  have e: "memapi_align_psize n = (n + 7) div 8 * 8" using n(3) align_bsize_eq [of 8 n] by (simp add: memapi_align_psize_def)
  have "(n + 7) div 8 * 8 = n + 7 - (n + 7) mod 8" by (rule minus_mod_eq_div_mult [symmetric])
  then have b: "n \<le> (n + 7) div 8 * 8" "(n + 7) div 8 * 8 \<le> n + 7" by simp_all
  have "n + 7 \<le> 1030" using n by simp
  then have "(n + 7) div 8 \<le> 128" using div_le_mono [of "n + 7" 1030 8] by simp
  then have c: "(n + 7) div 8 * 8 \<le> 1024" by simp
  have "nat (q mod 18446744073709551616) = n" using n by simp
  then have "align_psize_int q = int ((n + 7) div 8 * 8)" using c by (simp add: align_psize_int_def e)
  then show "q \<le> align_psize_int q" "align_psize_int q \<le> 1024" using b c n(1) by linarith+
qed

lemma create_result:
  assumes "clog_logger_create shm_init fs pid timestr conf = Some h"
  obtains ring rof path where "ringbufst_init (cf_queuelength conf) (chkconfig_int 4000 1000 32640 (cf_maxmsgsize conf)) = Some ring"
    "create_logfile (buf_string (cb_str (cstrbufDup None (Some (cb_str (cf_ident conf))) (cb_len (cf_ident conf))))) pid timestr
       (bf_appenderrofile (create_bf (logger_conf_get_creatflags conf) conf)) conf = Some (rof, path)"
    "lg_ring (lh_logger h) = ring" "lg_status (lh_logger h) = Running" "lg_sema (lh_logger h) = 0"
    "lg_logfile (lh_logger h) = rollingfile_set_sizepolicy (rollingfile_set_timepolicy rof (cf_rollingtime conf))
       (cf_maxfilesize conf) (cf_maxfilecount conf) (cf_rollingappend conf)"
    "lg_bf (lh_logger h) = create_bf (logger_conf_get_creatflags conf) conf"
    "lg_maxmsgsize (lh_logger h) = nat (chkconfig_int 4000 1000 32640 (cf_maxmsgsize conf))"
    "lg_ident (lh_logger h) = buf_string (cb_str (cstrbufDup None (Some (cb_str (cf_ident conf))) (cb_len (cf_ident conf))))"
    "lg_pidcstr (lh_logger h) = pid" "\<forall>l. lg_levelstyles (lh_logger h) l < 100 \<and> lg_levelcolors (lh_logger h) l < 100"
    "lh_mempool h = (let concurrents = chkconfig_int 128 64 1024 (cf_maxconcurrents conf);
        m = (if concurrents > cf_queuelength conf then align_psize_int (cf_queuelength conf) else concurrents)
      in fill_pool (lg_maxmsgsize (lh_logger h)) (nat m) (ringbuf_init m))"
    "lg_level (lh_logger h) = cf_loglevel conf"
  using assms
  by (auto simp: clog_logger_create_def Let_def default_styles_def default_colors_def clog_set_levelstyle_def clog_set_levelcolor_def
      split: option.splits if_splits prod.splits)

lemma replaced_returns:
  assumes "cb_fine d" "cb_len d \<le> 100000" "c_string ident" "CHR ''<'' \<notin> set ident" "length ident \<le> 10000"
    "digits pid" "length pid \<le> 20" "digits timestr" "length timestr \<le> 20"
  shows "\<exists>sb t. replaced ident pid timestr d = Some sb \<and> buf_string (cb_str sb) = t \<and> \<not> sublist ''<DATE>'' t"
proof -
  have "length (buf_string (cb_str d)) \<le> 100000" using buf_string_props(2) [OF assms(1)] assms(2) by simp
  from replace_names [OF buf_string_props(1) [OF assms(1)] this assms(3-9)]
  obtain sb t where "replaced ident pid timestr d = Some sb" "cb_grown sb t" "c_string t" "\<not> sublist ''<DATE>'' t"
    unfolding replaced_def by blast
  moreover from this have "buf_string (cb_str sb) = t" using cb_closed_string [of sb] by (simp add: cb_grown_def)
  ultimately show ?thesis by blast
qed

text \<open>What a configuration and the identity have to satisfy for the names of its files to be replaced.\<close>

definition names_ok :: "logger_conf_t \<Rightarrow> string \<Rightarrow> string \<Rightarrow> bool" where
  "names_ok conf pid timestr \<longleftrightarrow>
     CHR ''<'' \<notin> set (buf_string (cb_str (cstrbufDup None (Some (cb_str (cf_ident conf))) (cb_len (cf_ident conf))))) \<and>
     cb_len (cf_ident conf) \<le> 10000 \<and> cb_len (cf_nameprefix conf) \<le> 100000 \<and> cb_len (cf_pathprefix conf) \<le> 100000 \<and>
     cb_len (cf_shmlogfile conf) \<le> 100000 \<and> digits pid \<and> length pid \<le> 20 \<and> digits timestr \<and> length timestr \<le> 20"

lemma dup_ident:
  assumes "cb_fine d" "cb_len d \<le> 10000"
  shows "c_string (buf_string (cb_str (cstrbufDup None (Some (cb_str d)) (cb_len d))))"
    "length (buf_string (cb_str (cstrbufDup None (Some (cb_str d)) (cb_len d)))) \<le> 10000"
proof -
  let ?d = "cstrbufNew 0 (Some (cb_str d)) (cb_len d)"
  have "cb_fine ?d" "cb_len ?d = cb_len d"
    using assms by (auto simp: cstrbufNew_def cb_fine_def cb_ok_def cb_closed_def nth_append Let_def cstrbuf_error_size_len_def error_len
        nat_less_iff zless_nat_eq_int_zless)
  then show "c_string (buf_string (cb_str (cstrbufDup None (Some (cb_str d)) (cb_len d))))"
    "length (buf_string (cb_str (cstrbufDup None (Some (cb_str d)) (cb_len d)))) \<le> 10000"
    using buf_string_props [of ?d] assms(2) by (simp_all add: cstrbufDup_def)
qed

lemma create_logfile_returns:
  assumes "conf_ok conf" "names_ok conf pid timestr"
    "ident = buf_string (cb_str (cstrbufDup None (Some (cb_str (cf_ident conf))) (cb_len (cf_ident conf))))"
  shows "\<exists>rof path. create_logfile ident pid timestr rofile conf = Some (rof, path) \<and> loggingfile rof = None \<and> datesuffix rof = None"
proof -
  have f: "cb_fine (cf_nameprefix conf)" "cb_fine (cf_pathprefix conf)" "cb_fine (cf_ident conf)"
    using assms(1) by (simp_all only: conf_ok_def)
  note nm = assms(2) [unfolded names_ok_def, folded assms(3)]
  have i: "c_string ident" "length ident \<le> 10000" using dup_ident [OF f(3)] nm by (simp_all add: assms(3))
  obtain np t where 1: "replaced ident pid timestr (cf_nameprefix conf) = Some np" "buf_string (cb_str np) = t" "\<not> sublist ''<DATE>'' t"
    using replaced_returns [OF f(1) _ i(1) _ i(2)] nm by blast
  obtain pp where 2: "replaced ident pid timestr (cf_pathprefix conf) = Some pp"
    using replaced_returns [OF f(2) _ i(1) _ i(2)] nm by blast
  show ?thesis using 1 2 init_without_date [OF 1(3)]
    by (cases rofile) (simp_all add: create_logfile_def rollingfile_zero_def)
qed

lemma create_returns:
  assumes "conf_ok conf" "names_ok conf pid timestr" "0 < cf_queuelength conf" "cf_queuelength conf \<le> 32000"
    "bit (cf_appender conf) 3 \<Longrightarrow> \<forall>path file size. shm_init path file (cf_magickey conf) size"
  shows "\<exists>h. clog_logger_create shm_init fs pid timestr conf = Some h"
proof -
  let ?m = "chkconfig_int 4000 1000 32640 (cf_maxmsgsize conf)"
  let ?i = "buf_string (cb_str (cstrbufDup None (Some (cb_str (cf_ident conf))) (cb_len (cf_ident conf))))"
  have m: "1000 \<le> ?m" "?m \<le> 32640" using chkconfig_range [of 1000 4000 32640] by simp_all
  have "?m * max 2 (min 131071 (cf_queuelength conf)) \<le> 32640 * 32000" using m assms(3,4) by (intro mult_mono) simp_all
  then have "init_size_ok (cf_queuelength conf) ?m" using m by (simp add: init_size_ok_def)
  then obtain ring where r: "ringbufst_init (cf_queuelength conf) ?m = Some ring" using init_repr by blast
  obtain rof path where l: "create_logfile ?i pid timestr (bit (cf_appender conf) 2) conf = Some (rof, path)"
    using create_logfile_returns [OF assms(1,2) refl] by blast
  have f: "cb_fine (cf_ident conf)" "cb_fine (cf_shmlogfile conf)" using assms(1) by (simp_all only: conf_ok_def)
  note nm = assms(2) [unfolded names_ok_def]
  have i: "c_string ?i" "length ?i \<le> 10000" using dup_ident [OF f(1)] nm by simp_all
  obtain sl where s: "replaced ?i pid timestr (cf_shmlogfile conf) = Some sl"
    using replaced_returns [OF f(2) _ i(1) _ i(2)] nm by blast
  show ?thesis using r l s assms(5) by (simp add: clog_logger_create_def create_bf_fields [OF assms(1)] Let_def)
qed

lemma default_conf_names:
  assumes "c_string ident" "length ident \<le> 10000" "CHR ''<'' \<notin> set ident" "c_string pathpre" "length pathpre \<le> 100000"
    "digits pid" "length pid \<le> 20" "digits timestr" "length timestr \<le> 20"
  shows "names_ok (logger_conf_init_default ident pathpre None) pid timestr"
    "conf_ok (logger_conf_init_default ident pathpre None)"
proof -
  let ?c = "logger_conf_init_default ident pathpre None"
  have cs: "c_string CLOGGER_SHMLOG_FILEPATTERN" "c_string CLOG_NAMEPATTERN_DEFAULT"
    by (simp_all add: CLOGGER_SHMLOG_FILEPATTERN_def CLOG_NAMEPATTERN_DEFAULT_def c_string_def NUL_def)
  have len: "length CLOGGER_SHMLOG_FILEPATTERN \<le> 100000" "length CLOG_NAMEPATTERN_DEFAULT \<le> 100000"
    by (simp_all add: CLOGGER_SHMLOG_FILEPATTERN_def CLOG_NAMEPATTERN_DEFAULT_def)
  have gr: "cb_grown (cstrbufNew 0 (Some s) whole) s" if "c_string s" "length s \<le> 100000" for s
    using new_whole [OF that(1)] that(2) by (simp add: whole_def)
  have cl: "cb_len d = length t" if "cb_grown d t" for d t using that content_length [of d] by (auto simp: cb_grown_def)
  have np: "cb_len (cf_nameprefix ?c) \<le> 100000"
    using len(2) by (simp add: logger_conf_init_default_def cstrbufNew_def whole_def cstrbuf_error_size_len_def error_len cstr_length_def Let_def)
  let ?d = "cstrbufNew 0 (Some ident) whole"
  have d: "cb_grown ?d ident" "cb_len ?d = length ident" using gr [OF assms(1)] assms(2) cl by simp_all
  have "take (length ident) (cb_str ?d) = ident" using d by (simp add: cb_grown_def cb_content_def)
  moreover have "length ident \<le> length (cb_str ?d)" using d by (auto simp: cb_grown_def cb_ok_def)
  ultimately have "cb_grown (cstrbufNew 0 (Some (cb_str ?d)) (length ident)) ident"
    using new_grown [where str = "Some (cb_str ?d)" and len = "length ident" and maxsz = 0] assms(2) by simp
  then have "buf_string (cb_str (cstrbufDup None (Some (cb_str (cf_ident ?c))) (cb_len (cf_ident ?c)))) = ident"
    using cb_closed_string [of "cstrbufNew 0 (Some (cb_str ?d)) (length ident)"] assms(1) d(2)
    by (simp add: logger_conf_init_default_def cstrbufDup_def cb_grown_def)
  moreover have "cb_len (cf_pathprefix ?c) = length pathpre" "cb_len (cf_ident ?c) = length ident"
    "cb_len (cf_shmlogfile ?c) = length CLOGGER_SHMLOG_FILEPATTERN"
    using cl [OF gr [OF assms(4,5)]] d(2) cl [OF gr [OF cs(1) len(1)]] by (simp_all add: logger_conf_init_default_def)
  ultimately show "names_ok ?c pid timestr" using assms np len(1) by (simp add: names_ok_def)
  show "conf_ok ?c" using assms by (intro conf_ok_default) simp_all
qed

lemmas sample_default = default_conf_names [of "''app''" "''/log''" "''42''" "''1700000000''"]

lemma sample_conf_ok:
  "names_ok (logger_conf_init_default ''app'' ''/log'' None) ''42'' ''1700000000''" "conf_ok (logger_conf_init_default ''app'' ''/log'' None)"
  by (rule sample_default; simp add: c_string_def NUL_def digits_def)+



text \<open>
  Creating a logger returns: for a well-formed configuration with a queue of 1 to 32000 entries, an identity without \<open><\<close> and,
  if the shared-memory log is on, a successful \<open>shmmaplog_init\<close>, \<open>clog_logger_create\<close> produces a logger.
\<close>

theorem clog_logger_create_returns:
  assumes "conf_ok conf" and "names_ok conf pid timestr" and "0 < cf_queuelength conf" and "cf_queuelength conf \<le> 32000" and
    "bit (cf_appender conf) 3 \<Longrightarrow> \<forall>path file size. shm_init path file (cf_magickey conf) size"
  shows "\<exists>h. clog_logger_create shm_init fs pid timestr conf = Some h"
  by (rule create_returns) (use assms in auto)

theorem clog_logger_create_returns_witness:
  "\<exists>h. clog_logger_create (\<lambda>_ _ _ _. True) (\<lambda>_. None) ''42'' ''1700000000'' (logger_conf_init_default ''app'' ''/log'' None) = Some h"
  using sample_conf_ok by (intro clog_logger_create_returns) (simp_all add: logger_conf_init_default_def)

text \<open>
  C16. The date never gets into the name of a log file where the pattern asks for it: creation replaces every \<open><DATE>\<close> by the
  seconds of the creation, before \<open>rollingfile_init\<close> looks for the symbol.  So the rolling file of a created logger has
  no date suffix, and the first file of a period is the pattern with the seconds of the creation, extension included, and the
  date of the period behind it.
\<close>

theorem created_log_path:
  assumes "clog_logger_create shm_init fs pid timestr conf = Some h" and "conf_ok conf" and "names_ok conf pid timestr"
  shows "datesuffix (lg_logfile (lh_logger h)) = None \<and>
    loggingfile (snd (rollingfile_apply can fs' (lg_logfile (lh_logger h)) datemin)) = Some (pathname (lg_logfile (lh_logger h)) @ datemin)"
proof -
  obtain rof path where h: "create_logfile (buf_string (cb_str (cstrbufDup None (Some (cb_str (cf_ident conf))) (cb_len (cf_ident conf))))) pid timestr
       (bf_appenderrofile (create_bf (logger_conf_get_creatflags conf) conf)) conf = Some (rof, path)"
    "lg_logfile (lh_logger h) = rollingfile_set_sizepolicy (rollingfile_set_timepolicy rof (cf_rollingtime conf))
       (cf_maxfilesize conf) (cf_maxfilecount conf) (cf_rollingappend conf)"
    by (rule create_result [OF assms(1)])
  have "loggingfile rof = None" "datesuffix rof = None"
    using create_logfile_returns [OF assms(2,3) refl, of "bf_appenderrofile (create_bf (logger_conf_get_creatflags conf) conf)"] h(1) by auto
  then have n: "loggingfile (lg_logfile (lh_logger h)) = None" "datesuffix (lg_logfile (lh_logger h)) = None"
    by (simp_all add: h(2) rollingfile_set_sizepolicy_def rollingfile_set_timepolicy_def)
  then show ?thesis using apply_new_path [OF n(1)] by (simp add: log_path_def)
qed

theorem created_log_path_witness:
  "\<exists>h. clog_logger_create (\<lambda>_ _ _ _. True) (\<lambda>_. None) ''42'' ''1700000000'' ((logger_conf_init_default ''app'' ''/log'' None)\<lparr>cf_appender := 4\<rparr>) = Some h \<and>
    loggingfile (snd (rollingfile_apply (\<lambda>_. True) (\<lambda>_. None) (lg_logfile (lh_logger h)) ''202411'')) =
      Some (pathname (lg_logfile (lh_logger h)) @ ''202411'')"
proof -
  let ?c = "(logger_conf_init_default ''app'' ''/log'' None)\<lparr>cf_appender := 4\<rparr>"
  have c: "conf_ok ?c" "names_ok ?c ''42'' ''1700000000''"
    using sample_conf_ok conf_ok_upds(24) [of "logger_conf_init_default ''app'' ''/log'' None" 4] by (simp_all add: names_ok_def)
  have "cf_queuelength ?c = 512" by (simp add: logger_conf_init_default_def)
  then obtain h where h: "clog_logger_create (\<lambda>_ _ _ _. True) (\<lambda>_. None) ''42'' ''1700000000'' ?c = Some h"
    using create_returns [OF c, of "\<lambda>_ _ _ _. True" "\<lambda>_. None"] by auto
  from created_log_path [OF h c] h show ?thesis by blast
qed

end
