(* ===== verification/RandCtx.thy ===== *)
theory RandCtx
  imports Prelude
begin

unbundle bit_operations_syntax

text \<open>
  \<open>source/common/randctx.h\<close>: the ISAAC random number generators of 32 and 64 bits, Gray codes, and the
  linear congruential generator with its fast variant.  \<open>shmmap_buffer_create\<close> of \<open>shmmbuf.h\<close> draws the
  magic number of a new shared buffer from the 64-bit generator.

  Pointers into the tables of a context are indices: \<open>m\<close>, \<open>m2\<close> and \<open>r\<close> of \<open>isaac32\<close>.  The two
  generators have the same structure, so the steps are written once, with the word operations that
  differ as arguments.
\<close>

type_synonym ub4w = "32 word"
type_synonym ub8w = "64 word"

section \<open>Gray codes\<close>

definition binary2graycode :: "ub4w \<Rightarrow> ub4w" where
  "binary2graycode x = drop_bit 1 x XOR x"

definition graycode2binary :: "ub4w \<Rightarrow> ub4w" where
  "graycode2binary x =
     (let x1 = x XOR drop_bit 16 x;
          x2 = x1 XOR drop_bit 8 x1;
          x3 = x2 XOR drop_bit 4 x2;
          x4 = x3 XOR drop_bit 2 x3
      in x4 XOR drop_bit 1 x4)"

definition binary2graycode64 :: "ub8w \<Rightarrow> ub8w" where
  "binary2graycode64 x =
     (let h = ucast (binary2graycode (ucast (drop_bit 32 (x AND 0xffffffff00000000))));
          l = ucast (binary2graycode (ucast (x AND 0x00000000ffffffff)))
      in push_bit 32 h OR l)"

definition graycode2binary64 :: "ub8w \<Rightarrow> ub8w" where
  "graycode2binary64 g =
     (let h = ucast (graycode2binary (ucast (drop_bit 32 (g AND 0xffffffff00000000))));
          l = ucast (graycode2binary (ucast (g AND 0x00000000ffffffff)))
      in push_bit 32 h OR l)"

text \<open>One step of the inverse; doing it twice doubles the shift.\<close>

definition xor_shift :: "nat \<Rightarrow> 'a::len word \<Rightarrow> 'a word" where
  "xor_shift k x = x XOR drop_bit k x"

lemma xor_shift_twice: "xor_shift k (xor_shift k x) = xor_shift (2 * k) x"
  by (simp add: xor_shift_def bit_eq_iff bit_simps) (auto simp: add.assoc mult_2)

lemma xor_shift_swap: "xor_shift j (xor_shift k x) = xor_shift k (xor_shift j x)"
  by (simp add: xor_shift_def bit_eq_iff bit_simps) (auto simp: ac_simps)

lemma xor_shift_full: "xor_shift 32 (x :: ub4w) = x"
  by (simp add: xor_shift_def bit_eq_iff bit_simps)

lemma gray_xor_shift: "binary2graycode x = xor_shift 1 x"
  "graycode2binary x = xor_shift 1 (xor_shift 2 (xor_shift 4 (xor_shift 8 (xor_shift 16 x))))"
  by (simp_all add: binary2graycode_def graycode2binary_def xor_shift_def Let_def ac_simps)

lemma gray_inverse: "graycode2binary (binary2graycode x) = x" "binary2graycode (graycode2binary x) = x"
proof -
  have c: "xor_shift 1 (xor_shift 1 (xor_shift 2 (xor_shift 4 (xor_shift 8 (xor_shift 16 y))))) = y" for y :: ub4w
    by (simp add: xor_shift_twice numeral_eq_Suc [of "num.One"] xor_shift_full)
  show "binary2graycode (graycode2binary x) = x" by (simp only: gray_xor_shift c)
  show "graycode2binary (binary2graycode x) = x"
    using c [of x] by (simp only: gray_xor_shift xor_shift_swap [of 16 1] xor_shift_swap [of 8 1] xor_shift_swap [of 4 1] xor_shift_swap [of 2 1])
qed

text \<open>The 64-bit functions convert the two halves separately.\<close>

definition word_halves :: "ub8w \<Rightarrow> ub4w \<times> ub4w" where
  "word_halves x = (ucast (drop_bit 32 x), ucast x)"

definition join_halves :: "ub4w \<times> ub4w \<Rightarrow> ub8w" where
  "join_halves p = push_bit 32 (ucast (fst p)) OR ucast (snd p)"

lemma halves_join [simp]: "word_halves (join_halves p) = p"
  by (cases p) (auto simp: word_halves_def join_halves_def bit_eq_iff bit_simps dest: bit_imp_le_length)

lemma join_halves_halves: "join_halves (word_halves x) = x"
  by (auto simp: word_halves_def join_halves_def bit_eq_iff bit_simps not_less dest: bit_imp_le_length)

lemma low_mask: "(0xffffffff :: ub8w) = mask 32" "(0xffffffff00000000 :: ub8w) = push_bit 32 (mask 32)"
  by (simp_all add: mask_eq_exp_minus_1 push_bit_eq_mult)

lemma mask_halves: "ucast (x AND mask 32 :: ub8w) = (ucast x :: ub4w)"
  "drop_bit 32 (x AND push_bit 32 (mask 32) :: ub8w) = drop_bit 32 x"
  by (auto simp: bit_eq_iff bit_simps dest: bit_imp_le_length)

lemma gray64_halves:
  "binary2graycode64 x = join_halves (map_prod binary2graycode binary2graycode (word_halves x))"
  "graycode2binary64 x = join_halves (map_prod graycode2binary graycode2binary (word_halves x))"
  unfolding binary2graycode64_def graycode2binary64_def low_mask mask_halves word_halves_def join_halves_def
  by simp_all

text \<open>Next numbers: \<open>x XOR (x + 1)\<close> is a mask, whose Gray code is a single bit.\<close>

lemma xor_next_mask: "\<exists>k. (a :: nat) XOR (a + 1) = mask (Suc k)"
proof (induction a rule: less_induct)
  case (less a)
  show ?case
  proof (cases "even a")
    case True
    then have "a XOR (a + 1) = mask (Suc 0)" by (simp add: xor_rec [of a])
    then show ?thesis by blast
  next
    case False
    then have "a div 2 < a" by (cases a) auto
    then obtain k where k: "(a div 2) XOR (a div 2 + 1) = mask (Suc k)" using less by blast
    have "a XOR (a + 1) = 1 + 2 * (a div 2 XOR (a div 2 + 1))" using False by (simp add: xor_rec [of a])
    also have "\<dots> = mask (Suc (Suc k))" unfolding k mask_eq_exp_minus_1 power_Suc using one_le_power [of "2 :: nat" k] by linarith
    finally show ?thesis by blast
  qed
qed

lemma word_xor_next: "\<exists>k<32. (x :: ub4w) XOR (x + 1) = mask (Suc k)"
proof -
  obtain k where k: "unat x XOR (unat x + 1) = mask (Suc k)" using xor_next_mask by blast
  have "x XOR (x + 1) = word_of_nat (unat x XOR (unat x + 1))"
    by (simp add: of_nat_xor_eq add.commute)
  then have m: "x XOR (x + 1) = mask (Suc k)" unfolding k by (simp only: of_nat_mask_eq)
  show ?thesis
  proof (cases "k < 32")
    case False
    then have "(mask (Suc k) :: ub4w) = mask (Suc 31)" by (auto simp: bit_eq_iff bit_simps)
    then show ?thesis using m by (intro exI [of _ 31]) simp
  qed (use m in blast)
qed

lemma gray_mask: "k < 32 \<Longrightarrow> binary2graycode (mask (Suc k)) = 2 ^ k"
  by (rule bit_word_eqI) (auto simp: binary2graycode_def bit_simps)

lemma gray_xor: "binary2graycode (x XOR y) = binary2graycode x XOR binary2graycode y"
  by (auto simp: binary2graycode_def bit_eq_iff bit_simps)

lemma graycode_correct:
  "graycode2binary (binary2graycode x) = x \<and> binary2graycode (graycode2binary x) = x
   \<and> graycode2binary64 (binary2graycode64 y) = y \<and> binary2graycode64 (graycode2binary64 y) = y
   \<and> (\<exists>j<32. binary2graycode x XOR binary2graycode (x + 1) = 2 ^ j)"
proof (intro conjI)
  show "graycode2binary (binary2graycode x) = x" "binary2graycode (graycode2binary x) = x" by (rule gray_inverse)+
  show "graycode2binary64 (binary2graycode64 y) = y" "binary2graycode64 (graycode2binary64 y) = y"
    by (simp_all add: gray64_halves gray_inverse prod.map_comp o_def join_halves_halves prod.map_ident)
  obtain k where "k < 32" "x XOR (x + 1) = mask (Suc k)" using word_xor_next by blast
  then show "\<exists>j<32. binary2graycode x XOR binary2graycode (x + 1) = 2 ^ j"
    by (metis gray_mask gray_xor)
qed

text \<open>The 64-bit code is not a Gray code: where a carry crosses the halves, two bits change.\<close>

lemma graycode64_jump:
  "binary2graycode64 0xffffffff XOR binary2graycode64 (0xffffffff + 1) = 2 ^ 32 + 2 ^ 31"
  by code_simp

section \<open>Linear congruential generator\<close>

definition RAND32_LCG_A :: nat where "RAND32_LCG_A = 1103515245"
definition RAND32_LCG_C :: nat where "RAND32_LCG_C = 12345"
definition RAND32_LCG_M :: nat where "RAND32_LCG_M = 2147483647"

fun lcg_loop :: "nat \<Rightarrow> nat \<Rightarrow> nat" where
  "lcg_loop 0 sd = sd"
| "lcg_loop (Suc i) sd = lcg_loop i (size_wrap (RAND32_LCG_A * sd + RAND32_LCG_C) mod RAND32_LCG_M mod 4294967296)"

definition random_uint32_safe :: "nat \<Rightarrow> nat \<Rightarrow> nat" where
  "random_uint32_safe sd loops = (if loops = 0 then sd mod RAND32_LCG_M else lcg_loop loops sd)"

text \<open>\<open>jump_loop n a_pow c_sum curr_a curr_c\<close>: the \<open>while\<close> loop of \<open>random_uint32_fast\<close>.\<close>

function jump_loop :: "nat \<Rightarrow> nat \<Rightarrow> nat \<Rightarrow> nat \<Rightarrow> nat \<Rightarrow> nat \<times> nat" where
  "jump_loop n a_pow c_sum curr_a curr_c =
     (if n > 0 then
        (let a_pow' = (if n mod 2 = 1 then size_wrap (a_pow * curr_a) mod RAND32_LCG_M else a_pow);
             c_sum' = (if n mod 2 = 1 then size_wrap (c_sum * curr_a + curr_c) mod RAND32_LCG_M else c_sum);
             curr_c' = size_wrap (curr_c * size_wrap (curr_a + 1)) mod RAND32_LCG_M;
             curr_a' = size_wrap (curr_a * curr_a) mod RAND32_LCG_M
         in jump_loop (n div 2) a_pow' c_sum' curr_a' curr_c')
      else (a_pow, c_sum))"
  by pat_completeness auto
termination by (relation "measure fst") auto

declare jump_loop.simps [simp del]

definition random_uint32_fast :: "nat \<Rightarrow> nat \<Rightarrow> nat" where
  "random_uint32_fast sd loops =
     (if loops = 0 then sd mod RAND32_LCG_M
      else case jump_loop loops 1 0 RAND32_LCG_A 1 of (a_pow, c_sum) \<Rightarrow>
        size_wrap (a_pow * sd + RAND32_LCG_C * c_sum) mod RAND32_LCG_M mod 4294967296)"

text \<open>The geometric sum \<open>1 + a + ... + a ^ (n - 1)\<close>, modulo \<open>RAND32_LCG_M\<close>.\<close>

primrec geo :: "nat \<Rightarrow> nat \<Rightarrow> nat" where
  "geo a 0 = 0"
| "geo a (Suc n) = 1 + a * geo a n"

lemma geo_add: "geo a (m + n) = geo a m + a ^ m * geo a n"
  by (induction m) (simp_all add: algebra_simps)

lemma geo_Suc_end: "geo a (Suc n) = geo a n + a ^ n"
  using geo_add [of a n 1] by simp

lemma geo_double: "geo a (2 * n) = (a + 1) * geo (a * a) n"
  by (induction n) (simp_all add: algebra_simps)

lemma geo_mod: "geo (a mod m) n mod m = geo a n mod m"
proof (induction n)
  case (Suc n)
  show ?case unfolding geo.simps by (intro mod_add_cong mod_mult_cong refl Suc) simp
qed simp

lemma mod_poly: "((s mod m) * (a mod m) ^ k + (c mod m) * geo (a mod m) k) mod m = (s * a ^ k + c * geo a k) mod m"
  by (intro mod_add_cong mod_mult_cong) (simp_all add: power_mod geo_mod)

lemma lcg_small: "(x :: nat) < 2147483647 \<Longrightarrow> y < 4294967296 \<Longrightarrow> z < 4294967296 * 4294967296 \<Longrightarrow> x * y + z < 9223372036854775808 + z"
  using mult_le_mono [of x 2147483646 y 4294967295] by simp

lemmas lcg_consts = RAND32_LCG_A_def RAND32_LCG_C_def RAND32_LCG_M_def

lemma lcg_loop_closed:
  "0 < n \<Longrightarrow> sd < 4294967296 \<Longrightarrow>
     lcg_loop n sd = (RAND32_LCG_A ^ n * sd + RAND32_LCG_C * geo RAND32_LCG_A n) mod RAND32_LCG_M"
proof (induction n arbitrary: sd)
  case (Suc n)
  define x where "x = RAND32_LCG_A * sd + RAND32_LCG_C"
  have "size_wrap x = x" using Suc.prems(2) by (intro size_wrap_id) (simp add: x_def lcg_consts)
  moreover have b: "x mod RAND32_LCG_M < 4294967296"
    using mod_less_divisor [of RAND32_LCG_M x] by (simp add: lcg_consts)
  ultimately have e: "lcg_loop (Suc n) sd = lcg_loop n (x mod RAND32_LCG_M)" by (simp add: x_def)
  show ?case
  proof (cases "n = 0")
    case True
    then show ?thesis using e by (simp add: x_def)
  next
    case False
    have "lcg_loop (Suc n) sd = (RAND32_LCG_A ^ n * (x mod RAND32_LCG_M) + RAND32_LCG_C * geo RAND32_LCG_A n) mod RAND32_LCG_M"
      using Suc.IH [OF _ b] False e by simp
    also have "\<dots> = (RAND32_LCG_A ^ n * x + RAND32_LCG_C * geo RAND32_LCG_A n) mod RAND32_LCG_M"
      by (intro mod_add_cong mod_mult_cong refl) simp
    also have "RAND32_LCG_A ^ n * x + RAND32_LCG_C * geo RAND32_LCG_A n
        = RAND32_LCG_A ^ Suc n * sd + RAND32_LCG_C * geo RAND32_LCG_A (Suc n)"
      by (simp only: x_def geo_Suc_end power_Suc) (simp add: algebra_simps)
    finally show ?thesis .
  qed
qed simp

text \<open>The loop of the fast variant multiplies by the power and adds the sum of the bits not yet read.\<close>

lemma jump_loop_closed:
  assumes "p < RAND32_LCG_M" "s < RAND32_LCG_M" "a < RAND32_LCG_M" "c < RAND32_LCG_M"
  shows "jump_loop n p s a c = ((p * a ^ n) mod RAND32_LCG_M, (s * a ^ n + c * geo a n) mod RAND32_LCG_M)"
  using assms
proof (induction n arbitrary: p s a c rule: less_induct)
  case (less n)
  let ?M = RAND32_LCG_M
  note M = lcg_consts(3)
  show ?case
  proof (cases "n = 0")
    case True
    then show ?thesis using less.prems by (simp add: jump_loop.simps)
  next
    case False
    define k where "k = n div 2"
    have k: "k < n" "n = (if n mod 2 = 1 then 2 * k + 1 else 2 * k)" using False unfolding k_def by presburger+
    have w: "size_wrap (p * a) = p * a" "size_wrap (s * a + c) = s * a + c" "size_wrap (a + 1) = a + 1"
      "size_wrap (c * (a + 1)) = c * (a + 1)" "size_wrap (a * a) = a * a"
      using less.prems lcg_small [of p a 0] lcg_small [of s a c] lcg_small [of c "a + 1" 0] lcg_small [of a a 0]
      by (simp_all add: M)
    have lt: "x mod ?M < ?M" for x by (simp add: M)
    have pw: "a * a = a ^ 2" "(a ^ 2) ^ k = a ^ (2 * k)" by (simp_all add: power2_eq_square power_mult)
    show ?thesis
    proof (cases "n mod 2 = 1")
      case True
      have an: "a ^ n = a * (a * a) ^ k" "geo a n = (a * a) ^ k + (a + 1) * geo (a * a) k"
        using k(2) True geo_Suc_end [of a "2 * k"] geo_double [of a k] by (simp_all add: pw)
      have "jump_loop n p s a c = jump_loop k (p * a mod ?M) ((s * a + c) mod ?M) (a * a mod ?M) (c * (a + 1) mod ?M)"
        using False True by (subst jump_loop.simps) (simp only: Let_def w k_def if_True, simp)
      also have "\<dots> = ((p * a mod ?M) * (a * a mod ?M) ^ k mod ?M,
          ((s * a + c) mod ?M * (a * a mod ?M) ^ k + (c * (a + 1) mod ?M) * geo (a * a mod ?M) k) mod ?M)"
        by (rule less.IH [OF k(1) lt lt lt lt])
      also have "\<dots> = (p * a * (a * a) ^ k mod ?M, ((s * a + c) * (a * a) ^ k + c * (a + 1) * geo (a * a) k) mod ?M)"
        unfolding mod_poly prod.inject by (intro conjI refl mod_mult_cong) (simp_all add: power_mod)
      also have "(s * a + c) * (a * a) ^ k + c * (a + 1) * geo (a * a) k = s * a ^ n + c * geo a n"
        by (simp add: an algebra_simps)
      also have "p * a * (a * a) ^ k = p * a ^ n" by (simp add: an)
      finally show ?thesis .
    next
      case odd: False
      have an: "a ^ n = (a * a) ^ k" "geo a n = (a + 1) * geo (a * a) k"
        using k(2) odd geo_double [of a k] by (simp_all add: pw)
      have "jump_loop n p s a c = jump_loop k p s (a * a mod ?M) (c * (a + 1) mod ?M)"
        using False odd by (subst jump_loop.simps) (simp only: Let_def w k_def if_False, simp)
      also have "\<dots> = (p * (a * a mod ?M) ^ k mod ?M,
          (s * (a * a mod ?M) ^ k + (c * (a + 1) mod ?M) * geo (a * a mod ?M) k) mod ?M)"
        by (rule less.IH [OF k(1) less.prems(1,2) lt lt])
      also have "\<dots> = (p * (a * a) ^ k mod ?M, (s * (a * a) ^ k + c * (a + 1) * geo (a * a) k) mod ?M)"
        unfolding prod.inject by (intro conjI refl mod_add_cong mod_mult_cong) (simp_all add: power_mod geo_mod)
      also have "s * (a * a) ^ k + c * (a + 1) * geo (a * a) k = s * a ^ n + c * geo a n"
        by (simp add: an algebra_simps)
      also have "p * (a * a) ^ k = p * a ^ n" by (simp add: an)
      finally show ?thesis .
    qed
  qed
qed

text \<open>
  C28.  The fast generator is the safe one: for every seed and number of rounds \<open>random_uint32_fast\<close> (powers by squaring, in
  64-bit arithmetic that never wraps) gives what \<open>random_uint32_safe\<close> computes round by round, a value below the modulus.
\<close>

theorem random_uint32_fast_safe:
  assumes "sd < 4294967296"
  shows "random_uint32_fast sd loops = random_uint32_safe sd loops \<and> random_uint32_safe sd loops < RAND32_LCG_M"
proof (rule conjI)
  show b: "random_uint32_safe sd loops < RAND32_LCG_M"
    using assms by (simp add: random_uint32_safe_def lcg_loop_closed lcg_consts(3))
  define P S where "P = RAND32_LCG_A ^ loops mod RAND32_LCG_M" "S = geo RAND32_LCG_A loops mod RAND32_LCG_M"
  have PS: "P < 2147483647" "S < 2147483647" by (simp_all add: P_S_def lcg_consts(3))
  show "random_uint32_fast sd loops = random_uint32_safe sd loops"
  proof (cases "loops = 0")
    case False
    have "size_wrap (P * sd + RAND32_LCG_C * S) = P * sd + RAND32_LCG_C * S"
      using lcg_small [OF PS(1) assms, of "RAND32_LCG_C * S"] PS(2) by (intro size_wrap_id) (simp add: lcg_consts(2))
    then have "random_uint32_fast sd loops = (P * sd + RAND32_LCG_C * S) mod RAND32_LCG_M mod 4294967296"
      using False jump_loop_closed [of 1 0 RAND32_LCG_A 1 loops]
      by (simp add: random_uint32_fast_def P_S_def lcg_consts(1,3))
    also have "(P * sd + RAND32_LCG_C * S) mod RAND32_LCG_M = random_uint32_safe sd loops"
      using False assms unfolding P_S_def by (simp add: random_uint32_safe_def lcg_loop_closed) (intro mod_add_cong mod_mult_cong refl, simp_all)
    finally show ?thesis using b by (simp add: lcg_consts(3))
  qed (simp add: random_uint32_fast_def random_uint32_safe_def)
qed

theorem random_uint32_fast_safe_witness:
  "random_uint32_fast 42 5 = random_uint32_safe 42 5 \<and> random_uint32_safe 42 5 < 2147483647"
  using random_uint32_fast_safe [of 42 5] by (simp add: lcg_consts(3))

section \<open>ISAAC\<close>

definition RANDSIZL :: nat where "RANDSIZL = 8"
definition RANDSIZ :: nat where "RANDSIZ = 2 ^ RANDSIZL"

record 'w randctx =
  randcnt :: 'w
  rc_seed :: "'w list"
  rc_mm :: "'w list"
  rc_aa :: 'w
  rc_bb :: 'w
  rc_cc :: 'w

type_synonym randctx32 = "ub4w randctx"
type_synonym randctx64 = "ub8w randctx"

text \<open>
  \<open>ind32\<close> and \<open>ind64\<close> take a byte offset into the table, masked to a multiple of the word size.
  \<open>isaac_step\<close> is one \<open>rngstep\<close>: \<open>a\<close> has been mixed already; the state is \<open>(a, b, mm, r)\<close>.
\<close>

definition ind32 :: "ub4w list \<Rightarrow> ub4w \<Rightarrow> ub4w" where
  "ind32 mm x = mm ! (unat (x AND push_bit 2 0xff) div 4)"

definition ind64 :: "ub8w list \<Rightarrow> ub8w \<Rightarrow> ub8w" where
  "ind64 mm x = mm ! (unat (x AND push_bit 3 0xff) div 8)"

type_synonym 'w isaac = "'w \<times> 'w \<times> 'w list \<times> 'w list"

definition rngstep ::
  "('a::len word list \<Rightarrow> 'a word \<Rightarrow> 'a word) \<Rightarrow> ('a word \<Rightarrow> 'a word) \<Rightarrow> nat \<Rightarrow> nat \<Rightarrow> 'a word isaac \<Rightarrow> 'a word isaac"
where
  "rngstep ind mix m m2 = (\<lambda>(a, b, mm, r).
     let x = mm ! m; a' = mix a + mm ! m2;
         y = ind mm x + a' + b; mm' = mm[m := y];
         b' = ind mm' (drop_bit RANDSIZL y) + x
     in (a', b', mm', r[m := b']))"

definition rngstep32 :: "(ub4w \<Rightarrow> ub4w) \<Rightarrow> nat \<Rightarrow> nat \<Rightarrow> ub4w isaac \<Rightarrow> ub4w isaac" where
  "rngstep32 mix = rngstep ind32 (\<lambda>a. a XOR mix a)"

definition rngstep64 :: "(ub8w \<Rightarrow> ub8w) \<Rightarrow> nat \<Rightarrow> nat \<Rightarrow> ub8w isaac \<Rightarrow> ub8w isaac" where
  "rngstep64 mix = rngstep ind64 mix"

text \<open>The body of the two loops of \<open>isaac32\<close>: four steps from \<open>m\<close> on, the other pointer at \<open>m2\<close>.\<close>

definition isaac32_four :: "nat \<times> nat \<Rightarrow> ub4w isaac \<Rightarrow> ub4w isaac" where
  "isaac32_four = (\<lambda>(m, m2) st.
     let st1 = rngstep32 (push_bit 13) m m2 st;
         st2 = rngstep32 (drop_bit 6) (m + 1) (m2 + 1) st1;
         st3 = rngstep32 (push_bit 2) (m + 2) (m2 + 2) st2
     in rngstep32 (drop_bit 16) (m + 3) (m2 + 3) st3)"

definition isaac64_four :: "nat \<times> nat \<Rightarrow> ub8w isaac \<Rightarrow> ub8w isaac" where
  "isaac64_four = (\<lambda>(m, m2) st.
     let st1 = rngstep64 (\<lambda>a. NOT (a XOR push_bit 21 a)) m m2 st;
         st2 = rngstep64 (\<lambda>a. a XOR drop_bit 5 a) (m + 1) (m2 + 1) st1;
         st3 = rngstep64 (\<lambda>a. a XOR push_bit 12 a) (m + 2) (m2 + 2) st2
     in rngstep64 (\<lambda>a. a XOR drop_bit 33 a) (m + 3) (m2 + 3) st3)"

text \<open>The pointers of the first and the second loop: the other half of the table is read.\<close>

definition isaac_pointers :: "(nat \<times> nat) list" where
  "isaac_pointers = map (\<lambda>k. (4 * k, 128 + 4 * k)) [0..<32] @ map (\<lambda>k. (128 + 4 * k, 4 * k)) [0..<32]"

definition isaac_with ::
  "(nat \<times> nat \<Rightarrow> 'a::len word isaac \<Rightarrow> 'a word isaac) \<Rightarrow> 'a word randctx \<Rightarrow> 'a word randctx" where
  "isaac_with four ctx =
     (let cc = rc_cc ctx + 1 in
      case fold four isaac_pointers (rc_aa ctx, rc_bb ctx + cc, rc_mm ctx, rc_seed ctx) of
        (a, b, mm, r) \<Rightarrow> ctx\<lparr>rc_aa := a, rc_bb := b, rc_cc := cc, rc_mm := mm, rc_seed := r\<rparr>)"

definition isaac32 :: "randctx32 \<Rightarrow> randctx32" where "isaac32 = isaac_with isaac32_four"
definition isaac64 :: "randctx64 \<Rightarrow> randctx64" where "isaac64 = isaac_with isaac64_four"

subsection \<open>Initialisation\<close>

type_synonym 'w oct = "'w \<times> 'w \<times> 'w \<times> 'w \<times> 'w \<times> 'w \<times> 'w \<times> 'w"

definition mix32 :: "ub4w oct \<Rightarrow> ub4w oct" where
  "mix32 = (\<lambda>(a, b, c, d, e, f, g, h).
     let a = a XOR push_bit 11 b; d = d + a; b = b + c;
         b = b XOR drop_bit 2 c;  e = e + b; c = c + d;
         c = c XOR push_bit 8 d;  f = f + c; d = d + e;
         d = d XOR drop_bit 16 e; g = g + d; e = e + f;
         e = e XOR push_bit 10 f; h = h + e; f = f + g;
         f = f XOR drop_bit 4 g;  a = a + f; g = g + h;
         g = g XOR push_bit 8 h;  b = b + g; h = h + a;
         h = h XOR drop_bit 9 a;  c = c + h; a = a + b
     in (a, b, c, d, e, f, g, h))"

definition mix64 :: "ub8w oct \<Rightarrow> ub8w oct" where
  "mix64 = (\<lambda>(a, b, c, d, e, f, g, h).
     let a = a - e; f = f XOR drop_bit 9 h;  h = h + a;
         b = b - f; g = g XOR push_bit 9 a;  a = a + b;
         c = c - g; h = h XOR drop_bit 23 b; b = b + c;
         d = d - h; a = a XOR push_bit 15 c; c = c + d;
         e = e - a; b = b XOR drop_bit 14 d; d = d + e;
         f = f - b; c = c XOR push_bit 20 e; e = e + f;
         g = g - c; d = d XOR drop_bit 17 f; f = f + g;
         h = h - d; e = e XOR push_bit 14 g; g = g + h
     in (a, b, c, d, e, f, g, h))"

text \<open>One round of an initialisation loop: eight words of \<open>src\<close> are added, and the result stored in \<open>m\<close>.\<close>

definition add_oct :: "'a::len word list \<Rightarrow> nat \<Rightarrow> 'a word oct \<Rightarrow> 'a word oct" where
  "add_oct src i = (\<lambda>(a, b, c, d, e, f, g, h).
     (a + src ! i, b + src ! (i + 1), c + src ! (i + 2), d + src ! (i + 3),
      e + src ! (i + 4), f + src ! (i + 5), g + src ! (i + 6), h + src ! (i + 7)))"

definition put_oct :: "'w list \<Rightarrow> nat \<Rightarrow> 'w oct \<Rightarrow> 'w list" where
  "put_oct m i = (\<lambda>(a, b, c, d, e, f, g, h).
     m[i := a, i + 1 := b, i + 2 := c, i + 3 := d, i + 4 := e, i + 5 := f, i + 6 := g, i + 7 := h])"

definition init_pass ::
  "('a::len word oct \<Rightarrow> 'a word oct) \<Rightarrow> ('a word list \<Rightarrow> 'a word list) \<Rightarrow> 'a word oct \<times> 'a word list \<Rightarrow> 'a word oct \<times> 'a word list"
where
  "init_pass mix src =
     fold (\<lambda>i (oc, m). let oc' = mix (add_oct (src m) i oc) in (oc', put_oct m i oc')) (map (\<lambda>k. 8 * k) [0..<32])"

definition randctx_init_with ::
  "'a::len word \<Rightarrow> ('a word oct \<Rightarrow> 'a word oct) \<Rightarrow> ('a word randctx \<Rightarrow> 'a word randctx) \<Rightarrow>
    'a word list \<Rightarrow> 'a word \<Rightarrow> 'a word randctx" where
  "randctx_init_with golden mix isaac m0 sd =
     (let r = replicate 256 sd;
          o1 = (mix ^^ 4) (golden, golden, golden, golden, golden, golden, golden, golden);
          st2 = init_pass mix (\<lambda>_. r) (o1, m0);
          st3 = init_pass mix (\<lambda>m. m) st2
      in isaac \<lparr>randcnt = 0, rc_seed = r, rc_mm = snd st3, rc_aa = 0, rc_bb = 0, rc_cc = 0\<rparr>
           \<lparr>randcnt := word_of_nat RANDSIZ\<rparr>)"

text \<open>\<open>m0\<close> is the content of the uninitialised table \<open>mm\<close>.\<close>

definition randctx_init :: "ub4w list \<Rightarrow> ub4w \<Rightarrow> randctx32" where
  "randctx_init = randctx_init_with 0x9e3779b9 mix32 isaac32"

definition randctx64_init :: "ub8w list \<Rightarrow> ub8w \<Rightarrow> randctx64" where
  "randctx64_init = randctx_init_with 0x9e3779b97f4a7c13 mix64 isaac64"

subsection \<open>Drawing numbers\<close>

text \<open>\<open>!r->randcnt--\<close>: the count wraps below zero and is set again after a refill.\<close>

definition rand_take :: "('a::len word randctx \<Rightarrow> 'a word randctx) \<Rightarrow> 'a word randctx \<Rightarrow> 'a word \<times> 'a word randctx" where
  "rand_take isaac r =
     (let refill = randcnt r = 0; r1 = r\<lparr>randcnt := randcnt r - 1\<rparr>;
          r2 = (if refill then (isaac r1)\<lparr>randcnt := word_of_nat (RANDSIZ - 1)\<rparr> else r1)
      in (rc_seed r2 ! unat (randcnt r2), r2))"

definition rand_gen :: "randctx32 \<Rightarrow> ub4w \<times> randctx32" where
  "rand_gen = rand_take isaac32"

definition rand64_gen :: "randctx64 \<Rightarrow> ub8w \<times> randctx64" where
  "rand64_gen = rand_take isaac64"

text \<open>The remainder by \<open>rmax - rmin + 1\<close> divides by zero for the full range: \<open>None\<close>.\<close>

definition rand_int_with ::
  "('a::len word randctx \<Rightarrow> 'a word randctx) \<Rightarrow> 'a word randctx \<Rightarrow> 'a word \<Rightarrow> 'a word \<Rightarrow> ('a word \<times> 'a word randctx) option" where
  "rand_int_with isaac r rmin rmax =
     (case rand_take isaac r of (ret, r') \<Rightarrow>
        if rmax - rmin + 1 = 0 then None else Some (ret mod (rmax - rmin + 1) + rmin, r'))"

definition rand_gen_int :: "randctx32 \<Rightarrow> ub4w \<Rightarrow> ub4w \<Rightarrow> (ub4w \<times> randctx32) option" where
  "rand_gen_int = rand_int_with isaac32"

definition rand64_gen_int :: "randctx64 \<Rightarrow> ub8w \<Rightarrow> ub8w \<Rightarrow> (ub8w \<times> randctx64) option" where
  "rand64_gen_int = rand_int_with isaac64"

subsection \<open>Contexts stay well formed\<close>

definition rand_ok :: "'a::len word randctx \<Rightarrow> bool" where
  "rand_ok r \<longleftrightarrow> length (rc_seed r) = RANDSIZ \<and> length (rc_mm r) = RANDSIZ \<and> unat (randcnt r) \<le> RANDSIZ"

lemma RANDSIZ_eq [simp]: "RANDSIZ = 256" by (simp add: RANDSIZ_def RANDSIZL_def)

text \<open>The masked offsets are indices of the table.\<close>

lemma ind_bound: "unat (x AND push_bit 2 0xff :: ub4w) div 4 < 256" "unat (z AND push_bit 3 0xff :: ub8w) div 8 < 256"
proof -
  have "unat (x AND push_bit 2 0xff :: ub4w) \<le> unat (push_bit 2 0xff :: ub4w)" by (intro word_le_nat_alt [THEN iffD1] word_and_le1)
  then show "unat (x AND push_bit 2 0xff :: ub4w) div 4 < 256" by simp
  have "unat (z AND push_bit 3 0xff :: ub8w) \<le> unat (push_bit 3 0xff :: ub8w)" by (intro word_le_nat_alt [THEN iffD1] word_and_le1)
  then show "unat (z AND push_bit 3 0xff :: ub8w) div 8 < 256" by simp
qed

definition isaac_lengths :: "'w isaac \<Rightarrow> nat \<times> nat" where
  "isaac_lengths st = (length (fst (snd (snd st))), length (snd (snd (snd st))))"

lemma rngstep_lengths [simp]: "isaac_lengths (rngstep ind mix m m2 st) = isaac_lengths st"
  by (simp add: isaac_lengths_def rngstep_def Let_def split: prod.split)

lemma four_lengths: "isaac_lengths (isaac32_four p st) = isaac_lengths st" "isaac_lengths (isaac64_four p st') = isaac_lengths st'"
  by (simp_all add: isaac32_four_def isaac64_four_def rngstep32_def rngstep64_def Let_def split: prod.split)

lemma fold_lengths:
  assumes "\<And>p st. isaac_lengths (four p st) = isaac_lengths st"
  shows "isaac_lengths (fold four ps st) = isaac_lengths st"
  by (induction ps arbitrary: st) (simp_all add: assms)

lemma isaac_with_ok:
  assumes "\<And>p st. isaac_lengths (four p st) = isaac_lengths st"
  shows "length (rc_seed (isaac_with four r)) = length (rc_seed r)" "length (rc_mm (isaac_with four r)) = length (rc_mm r)"
    "randcnt (isaac_with four r) = randcnt r"
  using fold_lengths [of four, OF assms, of isaac_pointers "(rc_aa r, rc_bb r + (rc_cc r + 1), rc_mm r, rc_seed r)"]
  by (auto simp: isaac_with_def isaac_lengths_def Let_def split: prod.split)

lemmas isaac32_ok = isaac_with_ok [of isaac32_four, OF four_lengths(1), folded isaac32_def]
lemmas isaac64_ok = isaac_with_ok [of isaac64_four, OF four_lengths(2), folded isaac64_def]

lemma isaac_with_cnt: "isaac_with four (r\<lparr>randcnt := n\<rparr>) = isaac_with four r\<lparr>randcnt := n\<rparr>"
  by (simp add: isaac_with_def Let_def split: prod.split)

lemmas isaac32_cnt = isaac_with_cnt [of isaac32_four, folded isaac32_def]
lemmas isaac64_cnt = isaac_with_cnt [of isaac64_four, folded isaac64_def]

subsection \<open>What the numbers are\<close>

text \<open>\<open>n\<close> draws in a row.\<close>

primrec draws :: "('s \<Rightarrow> 'v \<times> 's) \<Rightarrow> nat \<Rightarrow> 's \<Rightarrow> 'v list \<times> 's" where
  "draws gen 0 s = ([], s)"
| "draws gen (Suc n) s = (case gen s of (v, s1) \<Rightarrow> case draws gen n s1 of (vs, s2) \<Rightarrow> (v # vs, s2))"

lemma draws_add: "draws gen (m + n) s =
    (case draws gen m s of (vs, s1) \<Rightarrow> case draws gen n s1 of (ws, s2) \<Rightarrow> (vs @ ws, s2))"
  by (induction m arbitrary: s) (simp_all split: prod.split)

text \<open>
  The interface between the drawing functions and a generator: it fills both tables and leaves the
  count alone.
\<close>

lemma init_pass_length: "length (snd (init_pass mix src om)) = length (snd om)"
proof -
  have "length (snd (fold (\<lambda>i (oc, m). let oc' = mix (add_oct (src m) i oc) in (oc', put_oct m i oc')) idx om)) = length (snd om)" for idx
    by (induction idx arbitrary: om) (simp_all add: put_oct_def Let_def split: prod.split)
  then show ?thesis by (simp only: init_pass_def)
qed

locale isaac_generator =
  fixes isaac :: "'a::len word randctx \<Rightarrow> 'a word randctx"
  assumes big: "(256 :: nat) < 2 ^ LENGTH('a)"
    and keeps: "length (rc_seed (isaac r)) = length (rc_seed r)" "length (rc_mm (isaac r)) = length (rc_mm r)"
    and count: "isaac (r\<lparr>randcnt := n\<rparr>) = isaac r\<lparr>randcnt := n\<rparr>"
begin

lemma unat_small: "n \<le> 256 \<Longrightarrow> unat (word_of_nat n :: 'a word) = n"
  using big by (simp add: unat_of_nat take_bit_nat_eq_self)

lemma rand_take_more:
  assumes "randcnt r = word_of_nat (Suc n)" "n < 256"
  shows "rand_take isaac r = (rc_seed r ! n, r\<lparr>randcnt := word_of_nat n\<rparr>)"
proof -
  have "randcnt r \<noteq> 0" using assms unat_small [of "Suc n"] by auto
  then show ?thesis using assms unat_small [of n] by (simp add: rand_take_def Let_def)
qed

lemma rand_take_refill:
  assumes "randcnt r = 0"
  shows "rand_take isaac r = (rc_seed (isaac r) ! 255, isaac r\<lparr>randcnt := word_of_nat 255\<rparr>)"
  using assms unat_small [of 255] by (simp add: rand_take_def Let_def count)

lemma draws_rest:
  "n \<le> 256 \<Longrightarrow> length (rc_seed r) = 256 \<Longrightarrow> randcnt r = word_of_nat n \<Longrightarrow>
     draws (rand_take isaac) n r = (rev (take n (rc_seed r)), r\<lparr>randcnt := 0\<rparr>)"
proof (induction n arbitrary: r)
  case (Suc n)
  have "draws (rand_take isaac) n (r\<lparr>randcnt := word_of_nat n\<rparr>) = (rev (take n (rc_seed r)), r\<lparr>randcnt := 0\<rparr>)"
    using Suc.IH [of "r\<lparr>randcnt := word_of_nat n\<rparr>"] Suc.prems by simp
  then show ?case using Suc.prems rand_take_more [of r n] by (simp add: take_Suc_conv_app_nth)
qed simp

lemma draws_refill:
  assumes "length (rc_seed r) = 256" "randcnt r = 0"
  shows "draws (rand_take isaac) 256 r = (rev (rc_seed (isaac r)), isaac r\<lparr>randcnt := 0\<rparr>)"
proof -
  have l: "length (rc_seed (isaac r)) = 256" using assms keeps by simp
  have "rc_seed (isaac r) = take 255 (rc_seed (isaac r)) @ [rc_seed (isaac r) ! 255]"
    using l take_Suc_conv_app_nth [of 255 "rc_seed (isaac r)"] by simp
  then have e: "rev (rc_seed (isaac r)) = rc_seed (isaac r) ! 255 # rev (take 255 (rc_seed (isaac r)))"
    by (metis rev_eq_Cons_iff rev_rev_ident)
  have "draws (rand_take isaac) (Suc 255) r = (rev (rc_seed (isaac r)), isaac r\<lparr>randcnt := 0\<rparr>)"
    using draws_rest [of 255 "isaac r\<lparr>randcnt := word_of_nat 255\<rparr>"] l
    by (simp only: draws.simps(2) rand_take_refill [OF assms(2)] prod.case e) simp
  moreover have "Suc 255 = 256" by simp
  ultimately show ?thesis by metis
qed

text \<open>Every word a generator makes is delivered once, each table from its end.\<close>

lemma stream:
  assumes "length (rc_seed r) = 256" "randcnt r = word_of_nat 256"
  shows "draws (rand_take isaac) (256 * Suc k) r
    = (concat (map (\<lambda>i. rev (rc_seed ((isaac ^^ i) r))) [0..<Suc k]), (isaac ^^ k) r\<lparr>randcnt := 0\<rparr>)"
proof (induction k)
  case 0
  show ?case using draws_rest [of 256 r] assms by simp
next
  case (Suc k)
  have l: "length (rc_seed ((isaac ^^ k) r)) = 256" by (induction k) (simp_all add: assms keeps)
  have "256 * Suc (Suc k) = 256 * Suc k + 256" by simp
  then have "draws (rand_take isaac) (256 * Suc (Suc k)) r
      = (case draws (rand_take isaac) (256 * Suc k) r of (vs, s1) \<Rightarrow>
           case draws (rand_take isaac) 256 s1 of (ws, s2) \<Rightarrow> (vs @ ws, s2))"
    by (simp only: draws_add)
  then show ?case using Suc draws_refill [of "(isaac ^^ k) r\<lparr>randcnt := 0\<rparr>"] l
    by (simp add: count del: draws.simps)
qed

lemma rand_ok_take: "rand_ok r \<Longrightarrow> rand_ok (snd (rand_take isaac r))"
proof -
  assume a: "rand_ok r"
  show ?thesis
  proof (cases "randcnt r = 0")
    case False
    then have "unat (randcnt r - 1) \<le> unat (randcnt r)" by (simp add: unat_minus_one)
    then show ?thesis using a False by (simp add: rand_take_def rand_ok_def Let_def)
  qed (use a unat_small [of 255] in \<open>simp add: rand_take_def rand_ok_def Let_def keeps\<close>)
qed

lemma int_range:
  assumes "rand_ok r" "rmin \<le> rmax"
  shows "rand_int_with isaac r rmin rmax = None \<longleftrightarrow> rmin = 0 \<and> rmax = - 1"
    "rand_int_with isaac r rmin rmax = Some (v, r') \<Longrightarrow> rmin \<le> v \<and> v \<le> rmax \<and> rand_ok r'"
proof -
  define d where "d = rmax - rmin"
  have d: "unat d = unat rmax - unat rmin" "unat rmin \<le> unat rmax"
    using assms(2) by (simp_all add: d_def unat_sub word_le_nat_alt)
  have lt: "unat rmax < 2 ^ LENGTH('a)" by (rule unsigned_less)
  have z: "d + 1 = 0 \<longleftrightarrow> rmin = 0 \<and> rmax = - 1"
  proof
    assume "d + 1 = 0"
    then have "d = - 1" by (simp add: eq_neg_iff_add_eq_0)
    then have "unat rmax - unat rmin = 2 ^ LENGTH('a) - 1" using d(1) by (simp add: unsigned_minus_1_eq_mask mask_eq_exp_minus_1)
    then have "unat rmin = 0" "unat rmax = 2 ^ LENGTH('a) - 1" using d(2) lt by linarith+
    then have "unat rmin = 0" "unat rmax = unat (- 1 :: 'a word)"
      by (simp_all add: unsigned_minus_1_eq_mask mask_eq_exp_minus_1)
    then show "rmin = 0 \<and> rmax = - 1" by (simp add: unat_eq_0 unsigned_word_eqI)
  qed (simp add: d_def)
  then show "rand_int_with isaac r rmin rmax = None \<longleftrightarrow> rmin = 0 \<and> rmax = - 1"
    by (simp add: rand_int_with_def d_def split: prod.split)
  assume e: "rand_int_with isaac r rmin rmax = Some (v, r')"
  obtain x where x: "rand_take isaac r = (x, r')" "v = x mod (d + 1) + rmin" "d + 1 \<noteq> 0"
    using e by (auto simp: rand_int_with_def d_def split: prod.splits if_splits)
  have "unat (d + 1) = Suc (unat d)" using x(3) by (simp add: add.commute unatSuc)
  then have m: "unat (x mod (d + 1)) \<le> unat d" by (simp add: unat_mod mod_Suc_le_divisor)
  then have "unat (x mod (d + 1)) + unat rmin \<le> unat rmax" using d by linarith
  then have "unat v = unat (x mod (d + 1)) + unat rmin"
    unfolding x(2) using lt by (intro unat_add_lem [THEN iffD1]) linarith
  then have "rmin \<le> v \<and> v \<le> rmax" using m d by (simp add: word_le_nat_alt)
  then show "rmin \<le> v \<and> v \<le> rmax \<and> rand_ok r'" using rand_ok_take [OF assms(1)] x(1) by simp
qed

lemma init_ok:
  assumes "length m0 = 256"
  shows "rand_ok (randctx_init_with golden mix isaac m0 sd)"
    "randcnt (randctx_init_with golden mix isaac m0 sd) = word_of_nat 256"
    "length (rc_seed (randctx_init_with golden mix isaac m0 sd)) = 256"
  using assms unat_small [of 256]
  by (simp_all add: randctx_init_with_def rand_ok_def keeps Let_def init_pass_length del: of_nat_numeral)

end

interpretation g32: isaac_generator isaac32
  by unfold_locales (simp_all add: isaac32_ok isaac32_cnt)

interpretation g64: isaac_generator isaac64
  by unfold_locales (simp_all add: isaac64_ok isaac64_cnt)

text \<open>
  C29.  The streams of the two generators.  Drawing values from a fresh context gives the blocks of results that \<open>isaac32\<close>
  (\<open>isaac64\<close>) produces when run again and again on the context, each block from its last word to its first: no result is
  skipped or used twice where one block ends and the next is computed.
\<close>

theorem rand_streams:
  assumes "length m0 = 256" "length m1 = 256"
  shows "fst (draws rand_gen (256 * Suc k) (randctx_init m0 sd))
        = concat (map (\<lambda>i. rev (rc_seed ((isaac32 ^^ i) (randctx_init m0 sd)))) [0..<Suc k])
    \<and> fst (draws rand64_gen (256 * Suc k) (randctx64_init m1 sd64))
        = concat (map (\<lambda>i. rev (rc_seed ((isaac64 ^^ i) (randctx64_init m1 sd64)))) [0..<Suc k])"
  unfolding rand_gen_def rand64_gen_def randctx_init_def randctx64_init_def
  by (simp only: g32.stream [OF g32.init_ok(3,2) [OF assms(1)]] g64.stream [OF g64.init_ok(3,2) [OF assms(2)]] fst_conv)

theorem rand_streams_witness:
  "fst (draws rand_gen 512 (randctx_init (replicate 256 0) 7))
     = rev (rc_seed (randctx_init (replicate 256 0) 7)) @ rev (rc_seed (isaac32 (randctx_init (replicate 256 0) 7)))"
  using rand_streams [of "replicate 256 0" "replicate 256 0" 1 7] by simp

lemma rand_int_in_range:
  assumes "rand_ok r" "rand_ok s" "lo \<le> hi" "lo64 \<le> hi64"
  shows "rand_gen_int r lo hi = None \<longleftrightarrow> lo = 0 \<and> hi = - 1"
    "rand_gen_int r lo hi = Some (v, r') \<Longrightarrow> lo \<le> v \<and> v \<le> hi \<and> rand_ok r'"
    "rand64_gen_int s lo64 hi64 = None \<longleftrightarrow> lo64 = 0 \<and> hi64 = - 1"
    "rand64_gen_int s lo64 hi64 = Some (v64, s') \<Longrightarrow> lo64 \<le> v64 \<and> v64 \<le> hi64 \<and> rand_ok s'"
  unfolding rand_gen_int_def rand64_gen_int_def
  using g32.int_range [OF assms(1,3)] g64.int_range [OF assms(2,4)] by simp_all

end
