(* ===== verification/ShmBuf.thy ===== *)
theory ShmBuf
  imports RandCtx RingBufSt_Fifo "HOL-Library.Monad_Syntax"
begin

text \<open>
  \<open>source/common/shmmbuf.h\<close>: the ring of log messages in shared memory.  A logging process writes it
  (\<open>shmmaplog_write\<close>), another process reads it.  The layout of the ring is that of \<open>RingBufSt\<close>; its locks are
  process-shared robust mutexes, its offsets have a mutex each, and a semaphore tells the reader of new entries.
  A process that finds a mutex whose owner died makes it consistent and goes on.

  Robust mutexes follow the POSIX description.  \<open>None\<close> as a result is a call that blocks for ever, or a
  process that exits or is killed.
\<close>

section \<open>Robust mutexes\<close>

datatype pmutex =
    Unlocked
  | Locked
  | OwnerDead       \<comment> \<open>the owner died holding it\<close>
  | Inconsistent    \<comment> \<open>locked by the process that was told of the death\<close>
  | NotRecoverable

definition EBUSY :: int where "EBUSY = 16"
definition EINVAL :: int where "EINVAL = 22"
definition ETIMEDOUT :: int where "ETIMEDOUT = 110"
definition EOWNERDEAD :: int where "EOWNERDEAD = 130"
definition ENOTRECOVERABLE :: int where "ENOTRECOVERABLE = 131"

lemmas errno_defs = EBUSY_def EINVAL_def ETIMEDOUT_def EOWNERDEAD_def ENOTRECOVERABLE_def

fun pthread_mutex_trylock :: "pmutex \<Rightarrow> int \<times> pmutex" where
  "pthread_mutex_trylock Unlocked = (0, Locked)"
| "pthread_mutex_trylock OwnerDead = (EOWNERDEAD, Inconsistent)"
| "pthread_mutex_trylock NotRecoverable = (ENOTRECOVERABLE, NotRecoverable)"
| "pthread_mutex_trylock m = (EBUSY, m)"

text \<open>\<open>pthread_mutex_lock\<close> waits for another owner; no wait ends here (\<open>None\<close>).\<close>

definition pthread_mutex_lock :: "pmutex \<Rightarrow> (int \<times> pmutex) option" where
  "pthread_mutex_lock m =
     (case pthread_mutex_trylock m of (err, m') \<Rightarrow> if err = EBUSY then None else Some (err, m'))"

text \<open>\<open>later\<close> is the mutex when the wait ends; an absolute time with too many nanoseconds is an error.\<close>

definition pthread_mutex_timedlock :: "pmutex \<Rightarrow> int \<Rightarrow> pmutex \<Rightarrow> int \<times> pmutex" where
  "pthread_mutex_timedlock m tv_nsec later =
     (case pthread_mutex_trylock m of (err, m') \<Rightarrow>
        if err \<noteq> EBUSY then (err, m')
        else if tv_nsec \<ge> 1000000000 then (EINVAL, m)
        else case pthread_mutex_trylock later of (err2, m2) \<Rightarrow>
          if err2 = EBUSY then (ETIMEDOUT, m2) else (err2, m2))"

fun pthread_mutex_consistent :: "pmutex \<Rightarrow> int \<times> pmutex" where
  "pthread_mutex_consistent Inconsistent = (0, Locked)"
| "pthread_mutex_consistent m = (EINVAL, m)"

fun pthread_mutex_unlock :: "pmutex \<Rightarrow> int \<times> pmutex" where
  "pthread_mutex_unlock Locked = (0, Unlocked)"
| "pthread_mutex_unlock Inconsistent = (0, NotRecoverable)"
| "pthread_mutex_unlock m = (1, m)"

definition shmmap_mutex_consistent :: "pmutex \<Rightarrow> pmutex option" where
  "shmmap_mutex_consistent m =
     (case pthread_mutex_consistent m of (err, m1) \<Rightarrow>
        if err \<noteq> 0 then None
        else case pthread_mutex_unlock m1 of (err2, m2) \<Rightarrow> if err2 \<noteq> 0 then None else Some m2)"

fun mutex_rank :: "pmutex \<Rightarrow> nat" where
  "mutex_rank OwnerDead = 1"
| "mutex_rank _ = 0"

lemma after_death:
  assumes "pthread_mutex_trylock m = (EOWNERDEAD, m1)" "shmmap_mutex_consistent m1 = Some m2"
  shows "m = OwnerDead" "m2 = Unlocked"
  using assms by (cases m; auto simp: errno_defs shmmap_mutex_consistent_def)+

lemma rank_death:
  "pthread_mutex_trylock m = (EOWNERDEAD, m1) \<Longrightarrow> shmmap_mutex_consistent m1 = Some m2 \<Longrightarrow> mutex_rank m2 < mutex_rank m"
  using after_death [of m m1 m2] by simp

lemma lock_death: "pthread_mutex_lock m = Some (EOWNERDEAD, m1) \<Longrightarrow> pthread_mutex_trylock m = (EOWNERDEAD, m1)"
  by (auto simp: pthread_mutex_lock_def split: prod.splits if_splits)

function process_shared_mutex_lock :: "pmutex \<Rightarrow> bool \<Rightarrow> (int \<times> pmutex) option" where
  "process_shared_mutex_lock m istry =
     (case (if istry then Some (pthread_mutex_trylock m) else pthread_mutex_lock m) of
        None \<Rightarrow> None
      | Some (err, m1) \<Rightarrow>
          if err = EOWNERDEAD then
            (case shmmap_mutex_consistent m1 of
               None \<Rightarrow> None
             | Some m2 \<Rightarrow> process_shared_mutex_lock m2 istry)
          else Some (err, m1))"
  by pat_completeness auto
termination
  by (relation "measure (mutex_rank \<circ> fst)") (auto dest!: lock_death dest: rank_death split: if_splits)

declare process_shared_mutex_lock.simps [simp del]

lemma process_lock_try:
  "process_shared_mutex_lock Unlocked t = Some (0, Locked)" "process_shared_mutex_lock OwnerDead t = Some (0, Locked)"
  "process_shared_mutex_lock Locked True = Some (EBUSY, Locked)"
  "process_shared_mutex_lock Inconsistent True = Some (EBUSY, Inconsistent)"
  "process_shared_mutex_lock NotRecoverable t = Some (ENOTRECOVERABLE, NotRecoverable)"
  by (simp_all add: process_shared_mutex_lock.simps pthread_mutex_lock_def errno_defs shmmap_mutex_consistent_def)

section \<open>Shared states\<close>

record shmmbuf_state =
  st_state :: int
  st_mutex :: pmutex

text \<open>
  \<open>access st f\<close>: the pattern of \<open>shmmbuf_state_get\<close>, \<open>_set\<close> and \<open>_comp_exch\<close>: lock, replace the state by \<open>f\<close> of it,
  unlock, return the old state; after a death the mutex is made consistent and the call repeated, after any
  other error the process exits.
\<close>

function state_access :: "shmmbuf_state \<Rightarrow> (int \<Rightarrow> int) \<Rightarrow> (int \<times> shmmbuf_state) option" where
  "state_access st f =
     (case pthread_mutex_lock (st_mutex st) of
        None \<Rightarrow> None
      | Some (err, m) \<Rightarrow>
          if err = 0 then
            Some (st_state st, \<lparr>st_state = f (st_state st), st_mutex = snd (pthread_mutex_unlock m)\<rparr>)
          else if err = EOWNERDEAD then
            (case shmmap_mutex_consistent m of
               None \<Rightarrow> None
             | Some m2 \<Rightarrow> state_access (st\<lparr>st_mutex := m2\<rparr>) f)
          else None)"
  by pat_completeness auto
termination
  by (relation "measure (mutex_rank \<circ> st_mutex \<circ> fst)") (auto dest!: lock_death dest: rank_death)

declare state_access.simps [simp del]

definition shmmbuf_state_get :: "shmmbuf_state \<Rightarrow> (int \<times> shmmbuf_state) option" where
  "shmmbuf_state_get st = state_access st (\<lambda>v. v)"

definition shmmbuf_state_set :: "shmmbuf_state \<Rightarrow> int \<Rightarrow> (int \<times> shmmbuf_state) option" where
  "shmmbuf_state_set st newval = state_access st (\<lambda>_. newval)"

definition shmmbuf_state_comp_exch :: "shmmbuf_state \<Rightarrow> int \<Rightarrow> int \<Rightarrow> (int \<times> shmmbuf_state) option" where
  "shmmbuf_state_comp_exch st cmp exch = state_access st (\<lambda>v. if v = cmp then exch else v)"

definition recoverable :: "pmutex \<Rightarrow> bool" where
  "recoverable m \<longleftrightarrow> m = Unlocked \<or> m = OwnerDead"

lemma state_access_eq:
  "recoverable (st_mutex st) \<Longrightarrow>
     state_access st f = Some (st_state st, \<lparr>st_state = f (st_state st), st_mutex = Unlocked\<rparr>)"
  by (auto simp: recoverable_def state_access.simps pthread_mutex_lock_def errno_defs shmmap_mutex_consistent_def)

lemmas state_ops_eq = shmmbuf_state_get_def shmmbuf_state_set_def shmmbuf_state_comp_exch_def state_access_eq

section \<open>Semaphore\<close>

record shmmbuf_semaphore =
  sem_lock :: pmutex
  sem_count :: int

definition SHMMBUF_TIMEOUT_INFINITE :: nat where "SHMMBUF_TIMEOUT_INFINITE = 18446744073709551615"
definition SHMMBUF_TIMEOUT_NOWAIT :: nat where "SHMMBUF_TIMEOUT_NOWAIT = 0"

definition shmmbuf_semaphore_init :: shmmbuf_semaphore where
  "shmmbuf_semaphore_init = \<lparr>sem_lock = Unlocked, sem_count = 0\<rparr>"

text \<open>The absolute time keeps the nanoseconds of the sum; they may exceed a second.\<close>

definition abstime_nsec :: "int \<Rightarrow> nat \<Rightarrow> int" where
  "abstime_nsec now_nsec timeout_us = now_nsec + int (timeout_us mod 1000000) * 1000"

definition shmmbuf_semaphore_lock :: "pmutex \<Rightarrow> nat \<Rightarrow> int \<Rightarrow> pmutex \<Rightarrow> (int \<times> pmutex) option" where
  "shmmbuf_semaphore_lock m timeout_us now_nsec later =
     (if timeout_us = SHMMBUF_TIMEOUT_NOWAIT then Some (pthread_mutex_trylock m)
      else if timeout_us = SHMMBUF_TIMEOUT_INFINITE then pthread_mutex_lock m
      else Some (pthread_mutex_timedlock m (abstime_nsec now_nsec timeout_us) later))"

text \<open>
  \<open>shmmbuf_semaphore_post\<close>.  After the death of an owner the call is repeated with the mutex unlocked, which
  succeeds (\<open>semaphore_posted\<close>).
\<close>

definition semaphore_posted :: "shmmbuf_semaphore \<Rightarrow> pmutex \<Rightarrow> int \<times> shmmbuf_semaphore" where
  "semaphore_posted semap m =
     (case pthread_mutex_unlock m of (err, m') \<Rightarrow> (err, \<lparr>sem_lock = m', sem_count = sem_count semap + 1\<rparr>))"

definition shmmbuf_semaphore_post ::
  "shmmbuf_semaphore \<Rightarrow> nat \<Rightarrow> int \<Rightarrow> pmutex \<Rightarrow> (int \<times> shmmbuf_semaphore) option" where
  "shmmbuf_semaphore_post semap timeout_us now_nsec later =
     do {
       (err, m) \<leftarrow> shmmbuf_semaphore_lock (sem_lock semap) timeout_us now_nsec later;
       if err = 0 then Some (semaphore_posted semap m)
       else if err = EOWNERDEAD then do {
         m1 \<leftarrow> shmmap_mutex_consistent m;
         (err2, m2) \<leftarrow> shmmbuf_semaphore_lock m1 timeout_us now_nsec later;
         Some (semaphore_posted semap m2)
       }
       else Some (err, semap\<lparr>sem_lock := m\<rparr>)
     }"

text \<open>
  The waiting loop.  \<open>wakes\<close> are the counts found at each return of the condition wait, when the mutex
  is held again; with a time limit there is one wait only, whatever its result.
\<close>

fun wait_loop :: "bool \<Rightarrow> int \<Rightarrow> int list \<Rightarrow> int option" where
  "wait_loop forever cnt wakes =
     (if cnt \<noteq> 0 then Some cnt
      else case wakes of
        [] \<Rightarrow> None
      | c # wakes' \<Rightarrow> if forever then wait_loop forever c wakes' else Some c)"

declare wait_loop.simps [simp del]

definition semaphore_waited :: "nat \<Rightarrow> shmmbuf_semaphore \<Rightarrow> pmutex \<Rightarrow> int list \<Rightarrow> (int \<times> shmmbuf_semaphore) option" where
  "semaphore_waited timeout_us semap m wakes =
     do {
       c \<leftarrow> wait_loop (timeout_us = SHMMBUF_TIMEOUT_INFINITE) (sem_count semap) wakes;
       let (err, m') = pthread_mutex_unlock m;
       Some (err, \<lparr>sem_lock = m', sem_count = (if c > 0 then c - 1 else c)\<rparr>)
     }"

definition shmmbuf_semaphore_wait ::
  "shmmbuf_semaphore \<Rightarrow> nat \<Rightarrow> int \<Rightarrow> pmutex \<Rightarrow> int list \<Rightarrow> (int \<times> shmmbuf_semaphore) option" where
  "shmmbuf_semaphore_wait semap timeout_us now_nsec later wakes =
     do {
       (err, m) \<leftarrow> shmmbuf_semaphore_lock (sem_lock semap) timeout_us now_nsec later;
       if err = 0 then semaphore_waited timeout_us semap m wakes
       else if err = EOWNERDEAD then do {
         m1 \<leftarrow> shmmap_mutex_consistent m;
         (err2, m2) \<leftarrow> shmmbuf_semaphore_lock m1 timeout_us now_nsec later;
         semaphore_waited timeout_us semap m2 wakes
       }
       else Some (err, semap\<lparr>sem_lock := m\<rparr>)
     }"

section \<open>The ring\<close>

record shmmap_buffer =
  shmfilesize :: nat
  shm_magic :: ub8w
  shm_cipher :: ub8w
  shm_semaphore :: shmmbuf_semaphore
  shm_RLock :: pmutex
  shm_WLock :: pmutex
  shm_WOffset :: shmmbuf_state
  shm_ROffset :: shmmbuf_state
  shm_Length :: int
  shm_Buffer :: "byte list"

definition SHMMBUF_ENTRY_HDRSIZE :: nat where "SHMMBUF_ENTRY_HDRSIZE = 8"
definition SHMMBUF_PAGE_SIZE :: nat where "SHMMBUF_PAGE_SIZE = 4096"

definition shmmbuf_align_bsize :: "nat \<Rightarrow> nat \<Rightarrow> nat" where
  "shmmbuf_align_bsize bsz alignsize = size_wrap (size_wrap (bsz + (alignsize - 1)) div alignsize * alignsize)"

definition shmmbuf_align_entrysize :: "nat \<Rightarrow> nat" where
  "shmmbuf_align_entrysize chunksz = shmmbuf_align_bsize (size_wrap (chunksz + SHMMBUF_ENTRY_HDRSIZE)) SHMMBUF_ENTRY_HDRSIZE"

definition shmringbuf_restore_wrap :: "int \<Rightarrow> int \<Rightarrow> int \<Rightarrow> int" where
  "shmringbuf_restore_wrap Ro Wo L = (if Ro sdiv L = Wo sdiv L then 0 else 1)"

definition shmringbuf_normalize_offset :: "int \<Rightarrow> int \<Rightarrow> int" where
  "shmringbuf_normalize_offset Ao L = ((Ao sdiv L) smod 2) * L + Ao smod L"

text \<open>
  Where a write goes, as the branches of \<open>shmmap_buffer_write\<close> decide it: the position of the entry, the start of
  a tail to clear, and the next write offset; \<open>None\<close> is no room.
\<close>

definition write_choice :: "int \<Rightarrow> int \<Rightarrow> int \<Rightarrow> int \<Rightarrow> (int \<times> int option \<times> int) option" where
  "write_choice L Ro Wo AENTSZ =
     (let wrap = shmringbuf_restore_wrap Ro Wo L; R = Ro smod L; W = Wo smod L
      in if L - (wrap * L + W - R) \<ge> AENTSZ then
           (if wrap \<noteq> 0 then Some (W, None, shmringbuf_normalize_offset (Wo + AENTSZ) L)
            else if L - W \<ge> AENTSZ then Some (W, None, shmringbuf_normalize_offset (Wo + AENTSZ) L)
            else if R - 0 \<ge> AENTSZ then Some (0, Some W, AENTSZ + (1 - to_int32 (Ro sdiv L)) * L)
            else None)
         else None)"

text \<open>The bytes a write stores, in order: the cleared tail, the size, the chunk.\<close>

definition at_offset :: "nat \<Rightarrow> byte list \<Rightarrow> (nat \<times> byte) list" where
  "at_offset off bs = zip [off..<off + length bs] bs"

definition store_bytes :: "int \<Rightarrow> int \<times> int option \<times> int \<Rightarrow> byte list \<Rightarrow> (nat \<times> byte) list" where
  "store_bytes L ch chunk =
     (case ch of (pos, clear, off) \<Rightarrow>
        (case clear of None \<Rightarrow> [] | Some W \<Rightarrow> at_offset (nat W) (replicate (nat (L - W)) 0))
        @ at_offset (nat pos) (le_bytes SHMMBUF_ENTRY_HDRSIZE (length chunk))
        @ at_offset (nat pos + SHMMBUF_ENTRY_HDRSIZE) chunk)"

definition store_all :: "(nat \<times> byte) list \<Rightarrow> byte list \<Rightarrow> byte list" where
  "store_all ps buf = fold (\<lambda>(i, b) bs. bs[i := b]) ps buf"

definition SHMMBUF_WRITE_FATAL :: int where "SHMMBUF_WRITE_FATAL = -1"
definition SHMMBUF_WRITE_AGAIN :: int where "SHMMBUF_WRITE_AGAIN = 0"
definition SHMMBUF_WRITE_SUCCESS :: int where "SHMMBUF_WRITE_SUCCESS = 1"

definition write_size_ok :: "int \<Rightarrow> byte list \<Rightarrow> bool" where
  "write_size_ok L chunk \<longleftrightarrow>
     (let AENTSZ = to_ssize (shmmbuf_align_entrysize (length chunk))
      in \<not> (AENTSZ = 0 \<or> AENTSZ = -1 \<or> AENTSZ > L div int SHMMBUF_ENTRY_HDRSIZE))"

definition shmmap_buffer_write :: "shmmap_buffer \<Rightarrow> byte list \<Rightarrow> (int \<times> shmmap_buffer) option" where
  "shmmap_buffer_write sb chunk =
     (let L = shm_Length sb; AENTSZ = to_ssize (shmmbuf_align_entrysize (length chunk))
      in if \<not> write_size_ok L chunk then Some (SHMMBUF_WRITE_FATAL, sb)
         else do {
           (err, m) \<leftarrow> process_shared_mutex_lock (shm_WLock sb) True;
           if err = 0 then do {
             (Ro, st) \<leftarrow> shmmbuf_state_get (shm_ROffset sb);
             let sb1 = sb\<lparr>shm_WLock := m, shm_ROffset := st\<rparr>;
             let Wo = st_state (shm_WOffset sb1);
             case write_choice L Ro Wo AENTSZ of
               None \<Rightarrow> Some (SHMMBUF_WRITE_AGAIN, sb1\<lparr>shm_WLock := snd (pthread_mutex_unlock m)\<rparr>)
             | Some ch \<Rightarrow> do {
                 let sb2 = sb1\<lparr>shm_Buffer := store_all (store_bytes L ch chunk) (shm_Buffer sb1)\<rparr>;
                 (old, wst) \<leftarrow> shmmbuf_state_set (shm_WOffset sb2) (snd (snd ch));
                 Some (SHMMBUF_WRITE_SUCCESS, sb2\<lparr>shm_WOffset := wst, shm_WLock := snd (pthread_mutex_unlock m)\<rparr>)
               }
           }
           else Some (SHMMBUF_WRITE_AGAIN, sb\<lparr>shm_WLock := m\<rparr>)
         })"

text \<open>
  What a reader finds, as the branches of \<open>shmmap_buffer_read_copy\<close> and \<open>__shmmap_buffer_read_internal\<close> decide it:
  nothing, a corrupt entry, a cleared tail (with the next read offset), or the entry at a position, with its size and
  the next read offset.
\<close>

datatype shm_read = RAgain | RFatal | RSkip int | REntry int nat int

definition HENTSZ_shm :: int where
  "HENTSZ_shm = to_ssize (shmmbuf_align_entrysize 0)"

definition read_choice :: "byte list \<Rightarrow> int \<Rightarrow> int \<Rightarrow> int \<Rightarrow> shm_read" where
  "read_choice buf L Ro Wo =
     (let wrap = shmringbuf_restore_wrap Ro Wo L; R = Ro smod L; W = Wo smod L
      in if wrap * L + W - R > HENTSZ_shm then
           if wrap \<noteq> 0 then
             if L - R > HENTSZ_shm then
               let size = entry_size buf R in
               if size \<noteq> 0 then
                 let AENTSZ = to_ssize (shmmbuf_align_entrysize size) in
                 if L - R \<ge> AENTSZ then REntry R size (shmringbuf_normalize_offset (Ro + AENTSZ) L) else RFatal
               else RSkip (Wo sdiv L * L)
             else if W - 0 > HENTSZ_shm then
               let size = entry_size buf 0 in
               if size \<noteq> 0 then
                 let AENTSZ = to_ssize (shmmbuf_align_entrysize size) in
                 if W - 0 \<ge> AENTSZ then REntry 0 size (AENTSZ + Wo sdiv L * L) else RFatal
               else RFatal
             else RAgain
           else
             let size = entry_size buf R in
             if size \<noteq> 0 then
               let AENTSZ = to_ssize (shmmbuf_align_entrysize size) in
               if W - R \<ge> AENTSZ then REntry R size (shmringbuf_normalize_offset (Ro + AENTSZ) L) else RFatal
             else RFatal
         else RAgain)"

text \<open>
  \<open>shmmap_buffer_read_copy\<close>: at a cleared tail it moves the read offset, releases the lock and starts again.  The
  size is returned as a \<open>size_t\<close> (\<open>-1\<close> is its largest value); a size larger than the buffer copies nothing.
\<close>

partial_function (option)
  shmmap_buffer_read_copy :: "shmmap_buffer \<Rightarrow> nat \<Rightarrow> (int \<times> byte list \<times> shmmap_buffer) option"
where
  "shmmap_buffer_read_copy sb rdbufsz =
     Option.bind (process_shared_mutex_lock (shm_RLock sb) True) (\<lambda>(err, m).
       if err = 0 then
         Option.bind (shmmbuf_state_get (shm_WOffset sb)) (\<lambda>(Wo, st).
           let sb1 = sb\<lparr>shm_RLock := m, shm_WOffset := st\<rparr>; free = snd (pthread_mutex_unlock m)
           in case read_choice (shm_Buffer sb1) (shm_Length sb1) (st_state (shm_ROffset sb1)) Wo of
                RAgain \<Rightarrow> Some (0, [], sb1\<lparr>shm_RLock := free\<rparr>)
              | RFatal \<Rightarrow> Some (-1, [], sb1\<lparr>shm_RLock := free\<rparr>)
              | RSkip off \<Rightarrow>
                  Option.bind (shmmbuf_state_set (shm_ROffset sb1) off) (\<lambda>(old, rst).
                    shmmap_buffer_read_copy (sb1\<lparr>shm_ROffset := rst, shm_RLock := free\<rparr>) rdbufsz)
              | REntry pos sz off \<Rightarrow>
                  if to_ssize sz > to_ssize rdbufsz then Some (to_ssize sz, [], sb1\<lparr>shm_RLock := free\<rparr>)
                  else Option.bind (shmmbuf_state_set (shm_ROffset sb1) off) (\<lambda>(old, rst).
                    Some (to_ssize sz, entry_chunk (shm_Buffer sb1) pos sz,
                      sb1\<lparr>shm_ROffset := rst, shm_RLock := free\<rparr>)))
       else Some (0, [], sb\<lparr>shm_RLock := m\<rparr>))"

lemma locked_after: "process_shared_mutex_lock m True = Some (0, m1) \<Longrightarrow> m1 = Locked \<and> recoverable m"
  by (cases m) (auto simp: process_lock_try errno_defs recoverable_def)

text \<open>
  \<open>shmmap_buffer_read_next\<close> and \<open>__shmmap_buffer_read_internal\<close>.  At a cleared tail the second calls the first again,
  with the lock held: the try fails and the result is \<open>0\<close>.  (The private function is only called with the lock held;
  for other states it is left undefined as \<open>None\<close>.)
\<close>

function (sequential)
  shmmap_buffer_read_next ::
    "(byte list \<Rightarrow> 's \<Rightarrow> bool \<times> 's) \<Rightarrow> shmmap_buffer \<Rightarrow> 's \<Rightarrow> (int \<times> shmmap_buffer \<times> 's) option"
  and shmmap_buffer_read_internal ::
    "(byte list \<Rightarrow> 's \<Rightarrow> bool \<times> 's) \<Rightarrow> shmmap_buffer \<Rightarrow> int \<Rightarrow> int \<Rightarrow> 's \<Rightarrow> (int \<times> shmmap_buffer \<times> 's) option"
where
  "shmmap_buffer_read_next nextentry_cb sb arg =
     (case process_shared_mutex_lock (shm_RLock sb) True of
        None \<Rightarrow> None
      | Some (err, m) \<Rightarrow>
          if err = 0 then
            (case shmmbuf_state_get (shm_WOffset sb) of
               None \<Rightarrow> None
             | Some (Wo, st) \<Rightarrow>
                 (case shmmap_buffer_read_internal nextentry_cb (sb\<lparr>shm_RLock := m, shm_WOffset := st\<rparr>)
                         (st_state (shm_ROffset sb)) Wo arg of
                    None \<Rightarrow> None
                  | Some (ret, sb2, arg2) \<Rightarrow>
                      Some (ret, sb2\<lparr>shm_RLock := snd (pthread_mutex_unlock (shm_RLock sb2))\<rparr>, arg2)))
          else Some (0, sb\<lparr>shm_RLock := m\<rparr>, arg))"
| "shmmap_buffer_read_internal nextentry_cb sb Ro Wo arg =
     (case read_choice (shm_Buffer sb) (shm_Length sb) Ro Wo of
        RAgain \<Rightarrow> Some (0, sb, arg)
      | RFatal \<Rightarrow> Some (-1, sb, arg)
      | RSkip off \<Rightarrow>
          (case shmmbuf_state_set (shm_ROffset sb) off of
             None \<Rightarrow> None
           | Some (old, rst) \<Rightarrow>
               (if shm_RLock sb = Locked then shmmap_buffer_read_next nextentry_cb (sb\<lparr>shm_ROffset := rst\<rparr>) arg
                else None))
      | REntry pos sz off \<Rightarrow>
          (case nextentry_cb (entry_chunk (shm_Buffer sb) pos sz) arg of (taken, arg2) \<Rightarrow>
             if taken then
               (case shmmbuf_state_set (shm_ROffset sb) off of
                  None \<Rightarrow> None
                | Some (old, rst) \<Rightarrow> Some (1, sb\<lparr>shm_ROffset := rst\<rparr>, arg2))
             else Some (0, sb, arg2)))"
  by pat_completeness auto

termination
  by (relation "measure (\<lambda>x. case x of
        Inl (cb, sb, arg) \<Rightarrow> if shm_RLock sb = Locked then 0 else 2
      | Inr (cb, sb, Ro, Wo, arg) \<Rightarrow> 1)")
    (auto dest: locked_after simp: process_lock_try errno_defs)

declare shmmap_buffer_read_next.simps [simp del] shmmap_buffer_read_internal.simps [simp del]

fun shm_batch_loop ::
  "nat \<Rightarrow> (byte list \<Rightarrow> 's \<Rightarrow> bool \<times> 's) \<Rightarrow> int \<Rightarrow> shmmap_buffer \<Rightarrow> 's \<Rightarrow> (int \<times> shmmap_buffer \<times> 's) option" where
  "shm_batch_loop 0 nextentry_cb num sb arg = Some (num, sb, arg)"
| "shm_batch_loop (Suc batch) nextentry_cb num sb arg =
     do {
       (Wo, st) \<leftarrow> shmmbuf_state_get (shm_WOffset sb);
       (ret, sb2, arg2) \<leftarrow> shmmap_buffer_read_internal nextentry_cb (sb\<lparr>shm_WOffset := st\<rparr>) (st_state (shm_ROffset sb)) Wo arg;
       if ret = 1 then shm_batch_loop batch nextentry_cb (num + 1) sb2 arg2
       else if ret = 0 then Some (num, sb2, arg2)
       else if ret = -1 then Some (-1, sb2, arg2)
       else shm_batch_loop batch nextentry_cb num sb2 arg2
     }"

definition shmmap_buffer_read_next_batch ::
  "(byte list \<Rightarrow> 's \<Rightarrow> bool \<times> 's) \<Rightarrow> shmmap_buffer \<Rightarrow> 's \<Rightarrow> int \<Rightarrow> (int \<times> shmmap_buffer \<times> 's) option" where
  "shmmap_buffer_read_next_batch nextentry_cb sb arg batch =
     do {
       (err, m) \<leftarrow> process_shared_mutex_lock (shm_RLock sb) True;
       if err = 0 then do {
         (num, sb2, arg2) \<leftarrow> shm_batch_loop (nat batch) nextentry_cb 0 (sb\<lparr>shm_RLock := m\<rparr>) arg;
         Some (num, sb2\<lparr>shm_RLock := snd (pthread_mutex_unlock (shm_RLock sb2))\<rparr>, arg2)
       }
       else Some (0, sb\<lparr>shm_RLock := m\<rparr>, arg)
     }"

definition shmmap_buffer_post :: "shmmap_buffer \<Rightarrow> nat \<Rightarrow> int \<Rightarrow> pmutex \<Rightarrow> (int \<times> shmmap_buffer) option" where
  "shmmap_buffer_post sb timeout_us now_nsec later =
     map_option (\<lambda>(err, sem). (err, sb\<lparr>shm_semaphore := sem\<rparr>))
       (shmmbuf_semaphore_post (shm_semaphore sb) timeout_us now_nsec later)"

definition shmmap_buffer_wait :: "shmmap_buffer \<Rightarrow> nat \<Rightarrow> int \<Rightarrow> pmutex \<Rightarrow> int list \<Rightarrow> (int \<times> shmmap_buffer) option" where
  "shmmap_buffer_wait sb timeout_us now_nsec later wakes =
     map_option (\<lambda>(err, sem). (err, sb\<lparr>shm_semaphore := sem\<rparr>))
       (shmmbuf_semaphore_wait (shm_semaphore sb) timeout_us now_nsec later wakes)"

definition shmmap_buffer_force_unlock :: "shmmap_buffer \<Rightarrow> nat \<Rightarrow> shmmap_buffer" where
  "shmmap_buffer_force_unlock sb statelock =
     (let sb1 = (if bit statelock 0 then sb\<lparr>shm_RLock := snd (pthread_mutex_unlock (shm_RLock sb))\<rparr> else sb)
      in if bit statelock 1 then sb1\<lparr>shm_WLock := snd (pthread_mutex_unlock (shm_WLock sb1))\<rparr> else sb1)"

section \<open>Tokens and creation\<close>

definition shmmbuf_encipher_token :: "ub8w \<Rightarrow> ub8w \<Rightarrow> ub8w" where
  "shmmbuf_encipher_token magic token = magic XOR token"

definition shmmbuf_decipher_token :: "ub8w \<Rightarrow> ub8w \<Rightarrow> ub8w" where
  "shmmbuf_decipher_token cipher token = cipher XOR token"

text \<open>Callbacks are \<open>NULL\<close> (\<open>None\<close>) for the default algorithm.\<close>

definition shmmap_verify_token :: "shmmap_buffer \<Rightarrow> ub8w option \<Rightarrow> (ub8w \<Rightarrow> ub8w \<Rightarrow> ub8w) option \<Rightarrow> bool" where
  "shmmap_verify_token sb token decipher_cb =
     (if shm_cipher sb = 0 then True
      else case token of
        None \<Rightarrow> False
      | Some tk \<Rightarrow>
          (let magic = (case decipher_cb of Some cb \<Rightarrow> cb (shm_cipher sb) tk | None \<Rightarrow> shmmbuf_decipher_token (shm_cipher sb) tk)
           in magic = shm_magic sb))"

text \<open>
  The objects of \<open>shm_open\<close>: an object is empty until \<open>ftruncate\<close> gives it a size.  \<open>sizeof(shmmap_buffer_t)\<close> is
  below a page.  \<open>sys\<close> tells which system calls succeed; \<open>mmap\<close> reports a failure by \<open>MAP_FAILED\<close>, which the code does
  not test for, so the process dies at the first access, as it does on reading the header of an empty object.
\<close>

datatype shm_object = Empty | Mapped shmmap_buffer

record shm_system =
  sys_open :: bool
  sys_mmap :: bool
  sys_truncate :: bool

definition SHMMBUF_CREATE_SUCCESS :: int where "SHMMBUF_CREATE_SUCCESS = 0"
definition SHMMBUF_CREATE_ERROPEN :: int where "SHMMBUF_CREATE_ERROPEN = 1"
definition SHMMBUF_CREATE_ERRSIZE :: int where "SHMMBUF_CREATE_ERRSIZE = 3"
definition SHMMBUF_CREATE_ERRTRUNC :: int where "SHMMBUF_CREATE_ERRTRUNC = 4"
definition SHMMBUF_CREATE_ERRTOKEN :: int where "SHMMBUF_CREATE_ERRTOKEN = 5"

lemmas create_codes = SHMMBUF_CREATE_SUCCESS_def SHMMBUF_CREATE_ERROPEN_def SHMMBUF_CREATE_ERRSIZE_def
  SHMMBUF_CREATE_ERRTRUNC_def SHMMBUF_CREATE_ERRTOKEN_def

text \<open>
  The new header: the magic number is drawn from a generator seeded with the microseconds of the clock (\<open>garbage\<close> is
  the uninitialised memory of its context).
\<close>

definition shm_seed :: "int \<Rightarrow> int \<Rightarrow> ub8w" where
  "shm_seed now_sec now_nsec = word_of_int (now_sec * 1000000 + now_nsec div 1000)"

definition shm_fresh ::
  "ub8w list \<Rightarrow> int \<times> int \<Rightarrow> nat \<Rightarrow> nat \<Rightarrow> ub8w option \<Rightarrow> (ub8w \<Rightarrow> ub8w \<Rightarrow> ub8w) option \<Rightarrow> shmmap_buffer option" where
  "shm_fresh garbage now mapfilesize bufferLength token encipher_cb =
     do {
       (magic, rctx) \<leftarrow> rand64_gen_int (randctx64_init garbage (shm_seed (fst now) (snd now))) 0x0111111111111111 0x1fffffffffffffff;
       let cipher = (case token of None \<Rightarrow> 0
         | Some tk \<Rightarrow> (case encipher_cb of Some cb \<Rightarrow> cb magic tk | None \<Rightarrow> shmmbuf_encipher_token magic tk));
       Some \<lparr>shmfilesize = mapfilesize, shm_magic = magic, shm_cipher = cipher,
         shm_semaphore = shmmbuf_semaphore_init, shm_RLock = Unlocked, shm_WLock = Unlocked,
         shm_WOffset = \<lparr>st_state = 0, st_mutex = Unlocked\<rparr>, shm_ROffset = \<lparr>st_state = 0, st_mutex = Unlocked\<rparr>,
         shm_Length = int bufferLength, shm_Buffer = replicate bufferLength 0\<rparr>
     }"

text \<open>
  \<open>shmmap_buffer_create\<close>: the return value, the opened buffer, and the objects afterwards.
\<close>

definition shmmap_buffer_create ::
  "shm_system \<Rightarrow> ub8w list \<Rightarrow> int \<times> int \<Rightarrow> (string \<rightharpoonup> shm_object) \<Rightarrow> string \<Rightarrow> nat \<Rightarrow> ub8w option \<Rightarrow>
    (ub8w \<Rightarrow> ub8w \<Rightarrow> ub8w) option \<Rightarrow> (ub8w \<Rightarrow> ub8w \<Rightarrow> ub8w) option \<Rightarrow>
    (int \<times> shmmap_buffer option \<times> (string \<rightharpoonup> shm_object)) option" where
  "shmmap_buffer_create sys garbage now shms shmfilename filesize token encipher_cb decipher_cb =
     (if filesize = 18446744073709551615 then Some (SHMMBUF_CREATE_ERRSIZE, None, shms)
      else if \<not> sys_open sys then Some (SHMMBUF_CREATE_ERROPEN, None, shms)
      else
        (let bufferLength = (if filesize \<noteq> 0 then shmmbuf_align_bsize filesize SHMMBUF_PAGE_SIZE else 0);
             mapfilesize = (if filesize \<noteq> 0 then size_wrap (SHMMBUF_PAGE_SIZE + bufferLength) else 0)
         in case shms shmfilename of
              None \<Rightarrow>
                (let shms1 = shms(shmfilename \<mapsto> Empty) in
                 if filesize = 0 then Some (SHMMBUF_CREATE_ERRSIZE, None, shms1)
                 else if mapfilesize = 0 then Some (SHMMBUF_CREATE_ERRSIZE, None, shms1)
                 else if \<not> sys_truncate sys then Some (SHMMBUF_CREATE_ERRTRUNC, None, shms1)
                 else if \<not> sys_mmap sys then None
                 else do {
                   sb \<leftarrow> shm_fresh garbage now mapfilesize bufferLength token encipher_cb;
                   let shms2 = shms(shmfilename \<mapsto> Mapped sb);
                   if shmmap_verify_token sb token decipher_cb then Some (SHMMBUF_CREATE_SUCCESS, Some sb, shms2)
                   else Some (SHMMBUF_CREATE_ERRTOKEN, None, shms2)
                 })
            | Some Empty \<Rightarrow> None
            | Some (Mapped sb) \<Rightarrow>
                if \<not> sys_mmap sys then None
                else
                  (let bufferLength1 = (if filesize = 0 then nat (shm_Length sb) else bufferLength);
                       mapfilesize1 = (if filesize = 0 then shmfilesize sb else mapfilesize)
                   in if mapfilesize1 \<noteq> shmfilesize sb \<or> int bufferLength1 \<noteq> shm_Length sb then Some (SHMMBUF_CREATE_ERRSIZE, None, shms)
                      else if \<not> shmmap_verify_token sb token decipher_cb then Some (SHMMBUF_CREATE_ERRTOKEN, None, shms)
                      else if mapfilesize1 = 0 then Some (SHMMBUF_CREATE_ERRSIZE, None, shms)
                      else if \<not> sys_truncate sys then Some (SHMMBUF_CREATE_ERRTRUNC, None, shms)
                      else Some (SHMMBUF_CREATE_SUCCESS, Some sb, shms))))"

definition shmmap_buffer_delete :: "(string \<rightharpoonup> shm_object) \<Rightarrow> string \<Rightarrow> int \<times> (string \<rightharpoonup> shm_object)" where
  "shmmap_buffer_delete shms shmfilename =
     (if shms shmfilename = None then (-1, shms) else (0, shms(shmfilename := None)))"

end
