(* ===== verification/ShmRing.thy ===== *)
theory ShmRing
  imports ShmBuf
begin

text \<open>
  What the operations of the shared-memory ring do: on a ring at rest they are those of \<open>RingBufSt\<close>, whose layout
  and lemmas are used; the contract of a queue (\<open>fifo_queue\<close>) is interpreted on them.  Then the tokens, the creation of
  buffers and the semaphore.
\<close>

section \<open>The same macros\<close>

lemma shm_align_eq: "shmmbuf_align_entrysize = ringbufst_align_entrysize"
  by (rule ext) (simp add: shmmbuf_align_entrysize_def shmmbuf_align_bsize_def ringbufst_align_entrysize_def memapi_align_bsize_def
      SHMMBUF_ENTRY_HDRSIZE_def RINGBUFST_ENTRY_HDRSIZE_def)

lemma shm_wrap_eq: "shmringbuf_restore_wrap = ringbufst_restore_wrap" "shmringbuf_normalize_offset = ringbufst_normalize_offset"
  by (intro ext, simp add: shmringbuf_restore_wrap_def ringbufst_restore_wrap_def
      shmringbuf_normalize_offset_def ringbufst_normalize_offset_def)+

lemma HENTSZ_shm_eq [simp]: "HENTSZ_shm = 8"
  unfolding HENTSZ_shm_def shm_align_eq by (rule HENTSZ_eq [unfolded HENTSZ_def])

section \<open>Storing bytes\<close>

lemma store_all_append: "store_all (ps @ qs) buf = store_all qs (store_all ps buf)"
  by (simp add: store_all_def)

lemma store_all_offset: "off + length bs \<le> length buf \<Longrightarrow> store_all (at_offset off bs) buf = put_bytes buf off bs"
proof (induction bs arbitrary: off buf)
  case Nil
  then show ?case by (simp add: at_offset_def store_all_def put_bytes_def)
next
  case (Cons b bs)
  have "at_offset off (b # bs) = (off, b) # at_offset (Suc off) bs"
    by (simp add: at_offset_def upt_conv_Cons del: upt_Suc)
  then have "store_all (at_offset off (b # bs)) buf = put_bytes (buf[off := b]) (Suc off) bs"
    using Cons.IH [of "Suc off" "buf[off := b]"] Cons.prems by (simp add: store_all_def)
  also have "\<dots> = put_bytes buf off (b # bs)"
    using Cons.prems by (simp add: put_bytes_def take_Suc_conv_app_nth upd_conv_take_nth_drop take_update_swap add.commute)
  finally show ?case .
qed

definition stored :: "int \<Rightarrow> int \<times> int option \<times> int \<Rightarrow> byte list \<Rightarrow> byte list \<Rightarrow> byte list" where
  "stored L ch chunk buf = store_all (store_bytes L ch chunk) buf"

lemma stored_write_entry:
  assumes "length buf = nat L" "0 < length chunk" "length chunk \<le> 1073741824" "p + asz (length chunk) \<le> nat L"
    "case cl of None \<Rightarrow> True | Some W \<Rightarrow> 0 \<le> W \<and> W \<le> L"
  shows "stored L (int p, cl, off) chunk buf
    = write_entry (case cl of None \<Rightarrow> buf | Some W \<Rightarrow> clear_tail buf W L) (int p) (length chunk) (\<lambda>_. chunk)"
proof -
  define b1 where "b1 = (case cl of None \<Rightarrow> buf | Some W \<Rightarrow> clear_tail buf W L)"
  have c1: "store_all (case cl of None \<Rightarrow> [] | Some W \<Rightarrow> at_offset (nat W) (replicate (nat (L - W)) 0)) buf = b1"
  proof (cases cl)
    case None
    then show ?thesis by (simp add: b1_def store_all_def)
  next
    case (Some W)
    then have "nat W + nat (L - W) \<le> length buf" using assms(1,5) nat_add_distrib [of W "L - W"] by simp
    then show ?thesis using Some by (simp add: b1_def clear_tail_def store_all_offset)
  qed
  have l1: "length b1 = nat L"
  proof (cases cl)
    case (Some W)
    then have "nat W + nat (L - W) \<le> length buf" using assms(1,5) nat_add_distrib [of W "L - W"] by simp
    then show ?thesis using Some assms(1) by (simp add: b1_def clear_tail_def mem_simps)
  qed (simp add: b1_def assms(1))
  have fit: "p + 8 + length chunk \<le> nat L" using asz_bounds(1) [of "length chunk"] assms(4) by simp
  have "stored L (int p, cl, off) chunk buf = store_all (at_offset (p + 8) chunk) (store_all (at_offset p (le_bytes 8 (length chunk))) b1)"
    by (simp add: stored_def store_bytes_def store_all_append c1 SHMMBUF_ENTRY_HDRSIZE_def)
  also have "\<dots> = put_bytes (put_bytes b1 p (le_bytes 8 (length chunk))) (p + 8) chunk"
    using fit l1 by (simp add: store_all_offset mem_simps)
  finally show ?thesis unfolding b1_def [symmetric] by (simp add: write_entry_def Let_def RINGBUFST_ENTRY_HDRSIZE_def)
qed

section \<open>A ring at rest\<close>

definition ring_of :: "shmmap_buffer \<Rightarrow> ring_buffer_st" where
  "ring_of sb = \<lparr>RLock = 0, WLock = 0, WOffset = st_state (shm_WOffset sb), ROffset = st_state (shm_ROffset sb),
     Length = shm_Length sb, Buffer = shm_Buffer sb\<rparr>"

lemma ring_of_sel [simp]:
  "WOffset (ring_of sb) = st_state (shm_WOffset sb)" "ROffset (ring_of sb) = st_state (shm_ROffset sb)"
  "Length (ring_of sb) = shm_Length sb" "Buffer (ring_of sb) = shm_Buffer sb"
  by (simp_all add: ring_of_def)

definition shm_locks_ok :: "shmmap_buffer \<Rightarrow> bool" where
  "shm_locks_ok sb \<longleftrightarrow> recoverable (shm_RLock sb) \<and> recoverable (shm_WLock sb) \<and>
     recoverable (st_mutex (shm_WOffset sb)) \<and> recoverable (st_mutex (shm_ROffset sb))"

definition shm_repr :: "shmmap_buffer \<Rightarrow> byte list list \<Rightarrow> bool" where
  "shm_repr sb cs \<longleftrightarrow> shm_locks_ok sb \<and> rbst_repr (ring_of sb) cs"

text \<open>The branches of a write are the plan of \<open>RingBufSt\<close>.\<close>

lemma write_choice_plan:
  assumes "rbst_repr st cs" "asz n \<le> nat (Length st) div 8"
  shows "write_choice (Length st) (ROffset st) (WOffset st) (int (asz n)) =
    (case plan_write st n of
       AtEnd \<Rightarrow> Some (int (wpos st), None, ringbufst_normalize_offset (WOffset st + int (asz n)) (Length st))
     | AtStart \<Rightarrow> Some (0, Some (int (wpos st)), int (asz n) + (1 - ROffset st div Length st) * Length st)
     | _ \<Rightarrow> None)"
proof -
  have g: "geometry st" and lo: "laid_out (Buffer st) (same_lap st) (rpos st) (wpos st) (nat (Length st)) cs"
    using assms(1) by (simp_all add: rbst_repr_def)
  have L: "0 < Length st" "0 \<le> ROffset st" "ROffset st < 2 * Length st" using g by (simp_all add: geometry_def)
  have le: "if same_lap st then rpos st \<le> wpos st else wpos st \<le> rpos st" using lo by (simp add: laid_out_def split: if_splits)
  have lap: "to_int32 (ROffset st div Length st) = ROffset st div Length st" using lap_div_mod [OF L(2,3)] by auto
  have len: "int (nat (Length st)) = Length st" using L by simp
  note pf = pos_facts [OF g]
  show ?thesis
  proof (cases "same_lap st")
    case other: False
    then have "Length st - (1 * Length st + int (wpos st) - int (rpos st)) \<ge> int (asz n) \<longleftrightarrow> asz n \<le> rpos st - wpos st"
      using le by auto
    moreover have "asz n \<le> rpos st - wpos st \<longleftrightarrow> wpos st + asz n \<le> rpos st" using le other by auto
    ultimately show ?thesis using assms(2) other
      by (simp add: write_choice_def plan_write_def shm_wrap_eq pf(1-4,7) Let_def)
  next
    case True
    have "Length st - int (wpos st) \<ge> int (asz n) \<longleftrightarrow> wpos st + asz n \<le> nat (Length st)" using L by linarith
    moreover have "Length st - (0 * Length st + int (wpos st) - int (rpos st)) \<ge> int (asz n)"
      if "wpos st + asz n \<le> nat (Length st) \<or> asz n \<le> rpos st" using that pf(6) L le True by auto
    ultimately show ?thesis using True assms(2) lap
      by (simp add: write_choice_def plan_write_def shm_wrap_eq pf(1-4,7) Let_def)
  qed
qed

text \<open>Offsets stay in the two laps, where the truncations of \<open>RingBufSt\<close> change nothing.\<close>

lemma write_offset_id:
  assumes "rbst_repr st cs"
  shows "plan_write st n = AtEnd \<Longrightarrow> to_int32 (ringbufst_normalize_offset (WOffset st + int (asz n)) (Length st))
      = ringbufst_normalize_offset (WOffset st + int (asz n)) (Length st)"
    "plan_write st n = AtStart \<Longrightarrow> to_int32 (int (asz n) + (1 - ROffset st div Length st) * Length st)
      = int (asz n) + (1 - ROffset st div Length st) * Length st"
proof -
  have g: "geometry st" using assms by (simp add: rbst_repr_def)
  have L: "0 < Length st" "Length st \<le> 1073741824" "0 \<le> WOffset st" "0 \<le> ROffset st" "ROffset st < 2 * Length st"
    using g by (simp_all add: geometry_def)
  define x where "x = WOffset st + int (asz n)"
  have x: "0 \<le> x" using L by (simp add: x_def)
  have "0 \<le> x div Length st" using x L by (simp add: pos_imp_zdiv_nonneg_iff)
  then have "x div Length st smod 2 = x div Length st mod 2" by simp
  then have e: "ringbufst_normalize_offset x (Length st) = x div Length st mod 2 * Length st + x mod Length st"
    using x L by (simp add: ringbufst_normalize_offset_def)
  have "0 \<le> x div Length st mod 2 * Length st" "x div Length st mod 2 * Length st \<le> 1 * Length st"
    using L by (simp, intro mult_right_mono, simp_all)
  moreover have "0 \<le> x mod Length st" "x mod Length st < Length st" using L by simp_all
  ultimately show "to_int32 (ringbufst_normalize_offset (WOffset st + int (asz n)) (Length st))
      = ringbufst_normalize_offset (WOffset st + int (asz n)) (Length st)"
    unfolding x_def [symmetric] e using L(2) by (intro to_int32_id) linarith+
  assume "plan_write st n = AtStart"
  then have "int (asz n) < Length st" using pos_facts(5) [OF g] L(1) by (auto simp: plan_write_def Let_def split: if_splits)
  then show "to_int32 (int (asz n) + (1 - ROffset st div Length st) * Length st)
      = int (asz n) + (1 - ROffset st div Length st) * Length st"
    using lap_div_mod [OF L(4,5)] L by auto
qed

section \<open>Writing\<close>

lemma shm_write_size:
  assumes "0 < length chunk" "length chunk \<le> 1073741824" "0 < L"
  shows "write_size_ok L chunk \<longleftrightarrow> asz (length chunk) \<le> nat L div 8"
proof -
  have "asz (length chunk) \<noteq> 0" using asz_bounds(1) [of "length chunk"] by simp
  moreover have "int (nat L div 8) = L div 8" using assms(3) by (simp add: zdiv_int)
  ultimately show ?thesis using align_entrysize_asz(2) [OF assms(2)]
    by (simp add: write_size_ok_def shm_align_eq SHMMBUF_ENTRY_HDRSIZE_def Let_def) linarith
qed

lemma recoverable_lock: "recoverable m \<Longrightarrow> process_shared_mutex_lock m True = Some (0, Locked)"
  by (auto simp: recoverable_def process_lock_try)

definition shm_after_write :: "shmmap_buffer \<Rightarrow> ring_buffer_st \<Rightarrow> bool \<Rightarrow> shmmap_buffer" where
  "shm_after_write sb st done1 = sb\<lparr>shm_WLock := Unlocked,
     shm_ROffset := \<lparr>st_state = st_state (shm_ROffset sb), st_mutex = Unlocked\<rparr>,
     shm_WOffset := (if done1 then \<lparr>st_state = WOffset st, st_mutex = Unlocked\<rparr> else shm_WOffset sb),
     shm_Buffer := Buffer st\<rparr>"

lemma shm_write_eq:
  assumes r: "shm_repr sb cs" and c: "0 < length chunk" "length chunk \<le> 1073741824"
  defines "res \<equiv> ringbufst_write (ring_of sb) (length chunk) (\<lambda>_. chunk)"
  shows "shmmap_buffer_write sb chunk =
    Some (fst res, if fst res = -1 then sb else shm_after_write sb (snd res) (fst res = 1))"
proof -
  let ?st = "ring_of sb" and ?n = "length chunk"
  have rr: "rbst_repr ?st cs" and lk: "recoverable (shm_WLock sb)" "recoverable (st_mutex (shm_WOffset sb))"
      "recoverable (st_mutex (shm_ROffset sb))"
    using r by (simp_all add: shm_repr_def shm_locks_ok_def)
  have g: "geometry ?st" using rr by (simp add: rbst_repr_def)
  have L: "0 < shm_Length sb" "length (shm_Buffer sb) = nat (shm_Length sb)" using g by (simp_all add: geometry_def ring_of_def)
  note sel = ring_buffer_st.simps ring_of_def
  note weq = write_plan_eq [OF rr c, of "\<lambda>_. chunk"]
  note a = align_entrysize_asz(2) [OF c(2)]
  show ?thesis
  proof (cases "asz ?n \<le> nat (shm_Length sb) div 8")
    case False
    then have "plan_write ?st ?n = TooLarge" by (simp add: plan_write_def Let_def ring_of_def)
    then have "fst res = -1" using weq by (simp add: res_def)
    then show ?thesis using False shm_write_size [OF c L(1)] by (simp add: shmmap_buffer_write_def Let_def SHMMBUF_WRITE_FATAL_def)
  next
    case True
    then have ok: "write_size_ok (shm_Length sb) chunk" using shm_write_size [OF c L(1)] by simp
    have ch: "write_choice (shm_Length sb) (st_state (shm_ROffset sb)) (st_state (shm_WOffset sb)) (int (asz ?n)) =
      (case plan_write ?st ?n of
         AtEnd \<Rightarrow> Some (int (wpos ?st), None, ringbufst_normalize_offset (WOffset ?st + int (asz ?n)) (Length ?st))
       | AtStart \<Rightarrow> Some (0, Some (int (wpos ?st)), int (asz ?n) + (1 - ROffset ?st div Length ?st) * Length ?st)
       | _ \<Rightarrow> None)"
      using write_choice_plan [OF rr, of ?n] True by (simp add: ring_of_def)
    note base = shmmap_buffer_write_def ok a shm_align_eq recoverable_lock [OF lk(1)] state_ops_eq lk Let_def
      SHMMBUF_WRITE_AGAIN_def SHMMBUF_WRITE_SUCCESS_def shm_after_write_def ch
    have nt: "plan_write ?st ?n \<noteq> TooLarge" using True by (simp add: plan_write_def Let_def ring_of_def)
    have wm: "wpos ?st < nat (shm_Length sb)" "rpos ?st < nat (shm_Length sb)" using pos_facts(5,6) [OF g] by (simp_all add: ring_of_def)
    show ?thesis
    proof (cases "plan_write ?st ?n")
      case TooLarge
      with nt show ?thesis by simp
    next
      case NoRoom
      then show ?thesis using weq by (simp add: res_def base)
    next
      case AtEnd
      have lo: "if same_lap ?st then rpos ?st \<le> wpos ?st else wpos ?st \<le> rpos ?st"
        using rr by (simp add: rbst_repr_def laid_out_def split: if_splits)
      then have fit: "wpos ?st + asz ?n \<le> nat (shm_Length sb)"
        using AtEnd wm by (auto simp: plan_write_def Let_def ring_of_def split: if_splits)
      have "stored (shm_Length sb) (int (wpos ?st), None, off) chunk (shm_Buffer sb)
          = write_entry (shm_Buffer sb) (int (wpos ?st)) ?n (\<lambda>_. chunk)" for off
        using stored_write_entry [of "shm_Buffer sb" "shm_Length sb" chunk "wpos ?st" None off] L c fit by simp
      then show ?thesis using AtEnd weq write_offset_id(1) [OF rr AtEnd]
        by (simp add: res_def base stored_def wrote_def)
    next
      case AtStart
      then have fit: "asz ?n \<le> nat (shm_Length sb)" using wm by (auto simp: plan_write_def Let_def split: if_splits)
      have "stored (shm_Length sb) (0, Some (int (wpos ?st)), off) chunk (shm_Buffer sb)
          = write_entry (clear_tail (shm_Buffer sb) (int (wpos ?st)) (shm_Length sb)) 0 ?n (\<lambda>_. chunk)" for off
        using stored_write_entry [of "shm_Buffer sb" "shm_Length sb" chunk 0 "Some (int (wpos ?st))" off] L c fit wm by simp
      then show ?thesis using AtStart weq write_offset_id(2) [OF rr AtStart]
        by (simp add: res_def base stored_def wrote_def)
    qed
  qed
qed

lemma shm_after_write_ring:
  assumes "shm_repr sb cs" "0 < length chunk" "length chunk \<le> 1073741824"
    "ringbufst_write (ring_of sb) (length chunk) (\<lambda>_. chunk) = (ret, st)" "ret \<noteq> -1"
  shows "ring_of (shm_after_write sb st (ret = 1)) = st" "shm_locks_ok (shm_after_write sb st d)"
proof -
  have rr: "rbst_repr (ring_of sb) cs" using assms(1) by (simp add: shm_repr_def)
  show "shm_locks_ok (shm_after_write sb st d)" using assms(1) by (simp add: shm_repr_def shm_locks_ok_def shm_after_write_def recoverable_def)
  show "ring_of (shm_after_write sb st (ret = 1)) = st"
    using write_plan_eq [OF rr assms(2,3), of "\<lambda>_. chunk"] assms(4,5)
    by (auto simp: ring_of_def shm_after_write_def wrote_def split: write_plan.splits)
qed

text \<open>The outcome of a write on a ring at rest.\<close>

lemma shm_write_repr:
  assumes "shm_repr sb cs" "0 < length chunk" "length chunk \<le> 1073741824"
  obtains ret sb' where "shmmap_buffer_write sb chunk = Some (ret, sb')" "ret \<in> {-1, 0, 1}"
    "shm_repr sb' (if ret = 1 then cs @ [chunk] else cs)" "shm_Length sb' = shm_Length sb"
    "ret = -1 \<longleftrightarrow> nat (shm_Length sb) div 8 < asz (length chunk)" "shm_semaphore sb' = shm_semaphore sb"
proof -
  obtain ret st where w: "ringbufst_write (ring_of sb) (length chunk) (\<lambda>_. chunk) = (ret, st)" by force
  have rr: "rbst_repr (ring_of sb) cs" using assms(1) by (simp add: shm_repr_def)
  have cb: "callback_ok (length chunk) (\<lambda>_. chunk)" using assms(2,3) by (simp add: callback_ok_def)
  note wr = write_repr [OF rr cb, unfolded w prod.case enq_chunk_const]
  have tl: "plan_write (ring_of sb) (length chunk) = TooLarge \<longleftrightarrow> nat (shm_Length sb) div 8 < asz (length chunk)"
    by (simp add: too_large_iff ring_of_def)
  show thesis
  proof (cases "ret = -1")
    case True
    then show thesis using wr tl shm_write_eq [OF assms, unfolded w] assms(1) by (intro that [of ret sb]) simp_all
  next
    case False
    let ?sb = "shm_after_write sb st (ret = 1)"
    have "shm_repr ?sb (if ret = 1 then cs @ [chunk] else cs)"
      using shm_after_write_ring [OF assms w False] wr rr by (auto simp: shm_repr_def)
    then show thesis using False wr tl shm_write_eq [OF assms, unfolded w]
      by (intro that [of ret ?sb]) (auto simp: shm_after_write_def)
  qed
qed

section \<open>Reading\<close>

lemma took_offset_id:
  assumes "rbst_repr st cs" "plan_read st = TakeAt p"
  shows "ROffset (took st p (length (hd cs))) =
    (if p = rpos st then ringbufst_normalize_offset (ROffset st + int (asz (length (hd cs)))) (Length st)
     else int (asz (length (hd cs))) + WOffset st div Length st * Length st)"
proof -
  have g: "geometry st" using assms(1) by (simp add: rbst_repr_def)
  have L: "0 < Length st" "Length st \<le> 1073741824" "0 \<le> ROffset st" "0 \<le> WOffset st" "WOffset st < 2 * Length st"
    using g by (simp_all add: geometry_def)
  define x where "x = ROffset st + int (asz (length (hd cs)))"
  have x: "0 \<le> x" using L by (simp add: x_def)
  have "0 \<le> x div Length st" using x L by (simp add: pos_imp_zdiv_nonneg_iff)
  then have e: "ringbufst_normalize_offset x (Length st) = x div Length st mod 2 * Length st + x mod Length st"
    using x L by (simp add: ringbufst_normalize_offset_def)
  have "0 \<le> x div Length st mod 2 * Length st" "x div Length st mod 2 * Length st \<le> 1 * Length st"
    using L by (simp, intro mult_right_mono, simp_all)
  moreover have "0 \<le> x mod Length st" "x mod Length st < Length st" using L by simp_all
  ultimately have "to_int32 (ringbufst_normalize_offset x (Length st)) = ringbufst_normalize_offset x (Length st)"
    unfolding e using L(2) by (intro to_int32_id) linarith+
  moreover have "to_int32 (int (asz (length (hd cs))) + WOffset st div Length st * Length st)
      = int (asz (length (hd cs))) + WOffset st div Length st * Length st" if "p \<noteq> rpos st"
  proof -
    have "asz (length (hd cs)) \<le> wpos st" using plan_read_content [OF assms(1)] assms(2) that by auto
    then have "int (asz (length (hd cs))) < Length st" using pos_facts(6) [OF g] L(1) by simp
    then show ?thesis using lap_div_mod [OF L(4,5)] L by auto
  qed
  ultimately show ?thesis by (simp add: took_def x_def)
qed

lemma read_choice_plan:
  assumes "rbst_repr st cs"
  shows "read_choice (Buffer st) (Length st) (ROffset st) (WOffset st) =
    (case plan_read st of
       Nothing \<Rightarrow> RAgain
     | SkipTail \<Rightarrow> RSkip (WOffset st div Length st * Length st)
     | TakeAt p \<Rightarrow> REntry (int p) (length (hd cs)) (ROffset (took st p (length (hd cs)))))"
proof -
  have g: "geometry st" using assms by (simp add: rbst_repr_def)
  have L: "0 < Length st" using g by (simp_all add: geometry_def)
  note pf = pos_facts [OF g] and pc = plan_read_content [OF assms]
  have lo: "if same_lap st then rpos st \<le> wpos st else wpos st \<le> rpos st"
    using assms by (simp add: rbst_repr_def laid_out_def split: if_splits)
  have len: "int (nat (Length st)) = Length st" using L by simp
  note base = read_choice_def shm_wrap_eq shm_align_eq pf(2,4,7) Let_def
  show ?thesis
  proof (cases "plan_read st")
    case Nothing
    then show ?thesis using lo by (simp add: base plan_read_def split: if_splits)
  next
    case SkipTail
    then have s: "\<not> same_lap st" "0 < wpos st" "rpos st + 8 < nat (Length st)"
      "entry_size (Buffer st) (int (rpos st)) = 0"
      using pc by (auto simp: plan_read_def split: if_splits)
    then show ?thesis using SkipTail len lo pf(3) by (auto simp: base)
  next
    case (TakeAt p)
    then obtain c cs' where c: "cs = c # cs'" "c \<noteq> []" "length c \<le> 1073741824"
        "entry_size (Buffer st) (int p) = length c" "entry_chunk (Buffer st) (int p) (length c) = c"
      and p: "p = rpos st \<and> (same_lap st \<and> p + asz (length c) \<le> wpos st \<or>
            \<not> same_lap st \<and> p + asz (length c) \<le> nat (Length st) \<and> p + 8 < nat (Length st))
         \<or> p = 0 \<and> p < rpos st \<and> \<not> same_lap st \<and> nat (Length st) \<le> rpos st + 8 \<and> asz (length c) \<le> wpos st"
      using pc by auto
    have a: "16 \<le> asz (length c)" using c(2) asz_bounds(3) [of "length c"] by simp
    note al = align_entrysize_asz [OF c(3)]
    note tk = took_offset_id [OF assms TakeAt]
    from p show ?thesis
    proof (elim disjE conjE)
      assume q: "p = rpos st" "same_lap st" "p + asz (length c) \<le> wpos st"
      then have "8 < int (wpos st) - int (rpos st)" using a by linarith
      then show ?thesis using TakeAt c a al q tk by (simp add: base)
    next
      assume q: "p = rpos st" "\<not> same_lap st" "p + asz (length c) \<le> nat (Length st)" "p + 8 < nat (Length st)"
      then have "8 < Length st + int (wpos st) - int (rpos st)" "8 < Length st - int (rpos st)"
        "int (asz (length c)) \<le> Length st - int (rpos st)" using a len by linarith+
      then show ?thesis using TakeAt c a al q tk by (simp add: base)
    next
      assume q: "p = 0" "p < rpos st" "\<not> same_lap st" "nat (Length st) \<le> rpos st + 8" "asz (length c) \<le> wpos st"
      then have "8 < Length st + int (wpos st) - int (rpos st)" "\<not> 8 < Length st - int (rpos st)" "8 < int (wpos st)"
        using a len pf(5) by linarith+
      then show ?thesis using TakeAt c a al q tk pf(3) by (simp add: base)
    qed
  qed
qed

definition shm_after_read :: "shmmap_buffer \<Rightarrow> int option \<Rightarrow> shmmap_buffer" where
  "shm_after_read sb off = sb\<lparr>shm_RLock := Unlocked,
     shm_WOffset := \<lparr>st_state = st_state (shm_WOffset sb), st_mutex = Unlocked\<rparr>,
     shm_ROffset := (case off of None \<Rightarrow> shm_ROffset sb | Some v \<Rightarrow> \<lparr>st_state = v, st_mutex = Unlocked\<rparr>)\<rparr>"

lemma shm_after_read_ring:
  "ring_of (shm_after_read sb None) = ring_of sb"
  "ring_of (shm_after_read sb (Some v)) = (ring_of sb)\<lparr>ROffset := v\<rparr>"
  "shm_locks_ok sb \<Longrightarrow> shm_locks_ok (shm_after_read sb off)"
  by (auto simp: ring_of_def shm_after_read_def shm_locks_ok_def recoverable_def split: option.split)

lemma skipped_update: "skipped st = st\<lparr>ROffset := WOffset st div Length st * Length st\<rparr>"
  by (simp add: skipped_def)

lemma took_update: "took st p n = st\<lparr>ROffset := ROffset (took st p n)\<rparr>"
  by (simp add: took_def)

text \<open>One round of \<open>shmmap_buffer_read_copy\<close>.\<close>

lemma shm_read_copy_round:
  assumes "shm_repr sb cs"
  shows "shmmap_buffer_read_copy sb n =
    (case plan_read (ring_of sb) of
       Nothing \<Rightarrow> Some (0, [], shm_after_read sb None)
     | SkipTail \<Rightarrow> shmmap_buffer_read_copy (shm_after_read sb (Some (ROffset (skipped (ring_of sb))))) n
     | TakeAt p \<Rightarrow>
         if to_ssize (length (hd cs)) > to_ssize n then Some (to_ssize (length (hd cs)), [], shm_after_read sb None)
         else Some (to_ssize (length (hd cs)), hd cs, shm_after_read sb (Some (ROffset (took (ring_of sb) p (length (hd cs)))))))"
proof -
  have rr: "rbst_repr (ring_of sb) cs" and lk: "recoverable (shm_RLock sb)" "recoverable (st_mutex (shm_WOffset sb))"
      "recoverable (st_mutex (shm_ROffset sb))"
    using assms by (simp_all add: shm_repr_def shm_locks_ok_def)
  have rc: "read_choice (shm_Buffer sb) (shm_Length sb) (st_state (shm_ROffset sb)) (st_state (shm_WOffset sb)) =
    (case plan_read (ring_of sb) of
       Nothing \<Rightarrow> RAgain
     | SkipTail \<Rightarrow> RSkip (ROffset (skipped (ring_of sb)))
     | TakeAt p \<Rightarrow> REntry (int p) (length (hd cs)) (ROffset (took (ring_of sb) p (length (hd cs)))))"
    using read_choice_plan [OF rr] by (cases "plan_read (ring_of sb)") (simp_all add: skipped_def)
  note base = recoverable_lock [OF lk(1)] state_ops_eq lk Let_def rc shm_after_read_def
  show ?thesis
  proof (cases "plan_read (ring_of sb)")
    case (TakeAt p)
    have "entry_chunk (shm_Buffer sb) (int p) (length (hd cs)) = hd cs"
      using plan_read_content [OF rr] TakeAt by (auto simp: ring_of_def)
    then show ?thesis using TakeAt by (subst shmmap_buffer_read_copy.simps) (simp add: base)
  next
    case SkipTail
    then show ?thesis
      by (subst shmmap_buffer_read_copy.simps) (simp add: base, rule arg_cong [of _ _ "\<lambda>x. shmmap_buffer_read_copy x n"], simp)
  next
    case Nothing
    then show ?thesis by (subst shmmap_buffer_read_copy.simps) (simp add: base)
  qed
qed

lemma shm_read_copy_repr:
  assumes "shm_repr sb cs" "n < 9223372036854775808"
  obtains ret bytes sb' where "shmmap_buffer_read_copy sb n = Some (ret, bytes, sb')"
    "cs = [] \<Longrightarrow> ret = 0 \<and> bytes = [] \<and> shm_repr sb' []"
    "cs \<noteq> [] \<Longrightarrow> ret = int (length (hd cs)) \<and>
       (if length (hd cs) \<le> n then bytes = hd cs \<and> shm_repr sb' (tl cs) else bytes = [] \<and> shm_repr sb' cs)"
proof -
  note found = that
  have take: thesis if r: "shm_repr sb0 cs" and t: "plan_read (ring_of sb0) = TakeAt p"
    and e: "shmmap_buffer_read_copy sb n = shmmap_buffer_read_copy sb0 n" for sb0 p
  proof -
    have rr: "rbst_repr (ring_of sb0) cs" "shm_locks_ok sb0" using r by (simp_all add: shm_repr_def)
    obtain c cs' where c: "cs = c # cs'" "length c \<le> 1073741824" using plan_read_content [OF rr(1)] t by auto
    have s: "to_ssize (length c) = int (length c)" "to_ssize n = int n" using c(2) assms(2) by simp_all
    have "shm_repr (shm_after_read sb0 (Some (ROffset (took (ring_of sb0) p (length c))))) cs'"
      using took_repr [OF rr(1) t] c(1) rr(2) took_update [of "ring_of sb0" p "length c"]
      by (simp add: shm_repr_def shm_after_read_ring)
    moreover have "shm_repr (shm_after_read sb0 None) cs" using r by (simp add: shm_repr_def shm_after_read_ring)
    moreover have "shmmap_buffer_read_copy sb n = (if length c > n then Some (int (length c), [], shm_after_read sb0 None)
        else Some (int (length c), c, shm_after_read sb0 (Some (ROffset (took (ring_of sb0) p (length c))))))"
      using shm_read_copy_round [OF r, of n] t c(1) s e by simp
    ultimately show thesis using c(1) by (cases "length c \<le> n") (rule found, simp, simp, simp)+
  qed
  have rr: "rbst_repr (ring_of sb) cs" "shm_locks_ok sb" using assms(1) by (simp_all add: shm_repr_def)
  show thesis
  proof (cases "plan_read (ring_of sb)")
    case Nothing
    then have "cs = []" using plan_read_content [OF rr(1)] by simp
    then show thesis using shm_read_copy_round [OF assms(1), of n] Nothing assms(1)
      by (intro that [of 0 "[]" "shm_after_read sb None"]) (simp_all add: shm_repr_def shm_after_read_ring)
  next
    case SkipTail
    let ?sb = "shm_after_read sb (Some (ROffset (skipped (ring_of sb))))"
    have "ring_of ?sb = skipped (ring_of sb)" by (simp add: shm_after_read_ring skipped_def)
    then have "shm_repr ?sb cs" "plan_read (ring_of ?sb) = TakeAt 0"
      using skipped_repr [OF rr(1) SkipTail] rr(2) by (simp_all add: shm_repr_def shm_after_read_ring)
    then show thesis using take [of ?sb 0] shm_read_copy_round [OF assms(1), of n] SkipTail by simp
  next
    case (TakeAt p)
    then show thesis using take [of sb p] assms(1) by simp
  qed
qed

section \<open>The FIFO contract\<close>

definition shm_inv :: "shmmap_buffer \<Rightarrow> bool" where
  "shm_inv sb \<longleftrightarrow> (\<exists>cs. shm_repr sb cs)"

definition shm_content :: "shmmap_buffer \<Rightarrow> byte list list" where
  "shm_content sb = rbst_content (ring_of sb)"

lemma shm_repr_content: "shm_repr sb cs \<Longrightarrow> shm_content sb = cs"
  by (simp add: shm_repr_def shm_content_def repr_content)

lemma shm_inv_repr: "shm_inv sb \<longleftrightarrow> shm_repr sb (shm_content sb)"
  by (auto simp: shm_inv_def shm_repr_content)

definition shm_enq :: "byte list \<Rightarrow> shmmap_buffer \<Rightarrow> bool \<times> shmmap_buffer" where
  "shm_enq chunk sb = (case shmmap_buffer_write sb chunk of None \<Rightarrow> (False, sb) | Some (ret, sb') \<Rightarrow> (ret = 1, sb'))"

text \<open>A reader with a buffer of \<open>n\<close> bytes.\<close>

definition shm_deq :: "nat \<Rightarrow> shmmap_buffer \<Rightarrow> byte list option \<times> shmmap_buffer" where
  "shm_deq n sb = (case shmmap_buffer_read_copy sb n of
      None \<Rightarrow> (None, sb)
    | Some (ret, bytes, sb') \<Rightarrow> (if 0 < ret \<and> ret \<le> int n then Some bytes else None, sb'))"

definition shm_chunk_ok :: "byte list \<Rightarrow> bool" where
  "shm_chunk_ok chunk \<longleftrightarrow> 0 < length chunk \<and> length chunk \<le> 1073741824"

lemma repr_chunks: "shm_repr sb (c # cs) \<Longrightarrow> c \<noteq> []"
proof -
  assume a: "shm_repr sb (c # cs)"
  then have r: "rbst_repr (ring_of sb) (c # cs)" by (simp add: shm_repr_def)
  show ?thesis
  proof (cases "plan_read (ring_of sb)")
    case SkipTail
    then show ?thesis using plan_read_content [OF r] by auto
  qed (use plan_read_content [OF r] in auto)
qed

interpretation shmq: fifo_queue shm_inv shm_content shm_enq "shm_deq 1073741824" "\<lambda>chunk sb. chunk" "\<lambda>chunk sb. shm_chunk_ok chunk"
proof unfold_locales
  fix q e
  assume q: "shm_inv q"
  then have r: "shm_repr q (shm_content q)" by (simp add: shm_inv_repr)
  obtain ret bytes q' where d: "shmmap_buffer_read_copy q 1073741824 = Some (ret, bytes, q')"
    "shm_content q = [] \<Longrightarrow> ret = 0 \<and> bytes = [] \<and> shm_repr q' []"
    "shm_content q \<noteq> [] \<Longrightarrow> ret = int (length (hd (shm_content q))) \<and>
       (if length (hd (shm_content q)) \<le> 1073741824 then bytes = hd (shm_content q) \<and> shm_repr q' (tl (shm_content q))
        else bytes = [] \<and> shm_repr q' (shm_content q))"
    by (rule shm_read_copy_repr [OF r, of 1073741824]) auto
  have nz: "shm_content q = c # cs \<Longrightarrow> 0 < length c" for c cs using repr_chunks [of q c cs] r by simp
  show "shm_inv (snd (shm_deq 1073741824 q))"
    using d by (cases "shm_content q") (auto simp: shm_deq_def shm_inv_def split: if_splits)
  show "shm_content q = (case fst (shm_deq 1073741824 q) of None \<Rightarrow> [] | Some a \<Rightarrow> [a]) @ shm_content (snd (shm_deq 1073741824 q))"
    using d nz by (cases "shm_content q") (auto simp: shm_deq_def shm_repr_content split: if_splits)
  assume ok: "shm_chunk_ok e"
  obtain ret' q'' where w: "shmmap_buffer_write q e = Some (ret', q'')" "shm_repr q'' (if ret' = 1 then shm_content q @ [e] else shm_content q)"
    by (rule shm_write_repr [OF r, of e]) (use ok in \<open>auto simp: shm_chunk_ok_def\<close>)
  show "shm_inv (snd (shm_enq e q))" using w by (auto simp: shm_enq_def shm_inv_def)
  show "shm_content (snd (shm_enq e q)) = (if fst (shm_enq e q) then shm_content q @ [e] else shm_content q)"
    using w by (auto simp: shm_enq_def shm_repr_content)
qed

end
