(* ===== verification/ShmOpen.thy ===== *)
theory ShmOpen
  imports ShmRing
begin

text \<open>
  Processes around the shared ring of \<open>source/common/shmmbuf.h\<close>: which process can create or open it
  (\<open>shmmap_buffer_create\<close> and the token), what a run of writes and reads delivers, and what the semaphore
  tells a waiting reader.
\<close>

section \<open>A new buffer\<close>

definition shm_size_ok :: "nat \<Rightarrow> bool" where
  "shm_size_ok n \<longleftrightarrow> 0 < n \<and> n \<le> 1073741824"

lemma shm_align_page:
  assumes "shm_size_ok n"
  shows "shmmbuf_align_bsize n 4096 = memapi_align_bsize n 4096" "0 < shmmbuf_align_bsize n 4096"
    "shmmbuf_align_bsize n 4096 \<le> 1073741824" "n \<le> shmmbuf_align_bsize n 4096"
proof -
  show e: "shmmbuf_align_bsize n 4096 = memapi_align_bsize n 4096"
    by (simp add: shmmbuf_align_bsize_def memapi_align_bsize_def)
  show "0 < shmmbuf_align_bsize n 4096" "shmmbuf_align_bsize n 4096 \<le> 1073741824" "n \<le> shmmbuf_align_bsize n 4096"
    unfolding e using align_page [of n] assms by (simp_all add: shm_size_ok_def)
qed

definition cipher_of :: "ub8w option \<Rightarrow> (ub8w \<Rightarrow> ub8w \<Rightarrow> ub8w) option \<Rightarrow> ub8w \<Rightarrow> ub8w" where
  "cipher_of token encipher_cb magic = (case token of None \<Rightarrow> 0
     | Some tk \<Rightarrow> (case encipher_cb of Some cb \<Rightarrow> cb magic tk | None \<Rightarrow> shmmbuf_encipher_token magic tk))"

lemma shm_fresh_repr:
  assumes "length garbage = 256" "shm_size_ok n"
  obtains sb where "shm_fresh garbage now mfs (shmmbuf_align_bsize n 4096) token encipher_cb = Some sb"
    "shm_repr sb []" "0x0111111111111111 \<le> shm_magic sb" "shm_magic sb \<le> 0x1fffffffffffffff"
    "shm_cipher sb = cipher_of token encipher_cb (shm_magic sb)" "shmfilesize sb = mfs"
    "shm_Length sb = int (shmmbuf_align_bsize n 4096)" "shm_semaphore sb = shmmbuf_semaphore_init"
proof -
  let ?L = "shmmbuf_align_bsize n 4096" and ?r = "randctx64_init garbage (shm_seed (fst now) (snd now))"
  have ok: "rand_ok ?r" unfolding randctx64_init_def by (rule g64.init_ok(1) [OF assms(1)])
  obtain magic r' where m: "rand64_gen_int ?r 0x0111111111111111 0x1fffffffffffffff = Some (magic, r')"
    using g64.int_range(1) [OF ok, of "0x0111111111111111" "0x1fffffffffffffff"]
    by (cases "rand64_gen_int ?r 0x0111111111111111 0x1fffffffffffffff") (auto simp: rand64_gen_int_def)
  then have range: "0x0111111111111111 \<le> magic \<and> magic \<le> 0x1fffffffffffffff"
    using g64.int_range(2) [OF ok, of "0x0111111111111111" "0x1fffffffffffffff"] by (simp add: rand64_gen_int_def)
  let ?sb = "\<lparr>shmfilesize = mfs, shm_magic = magic, shm_cipher = cipher_of token encipher_cb magic,
         shm_semaphore = shmmbuf_semaphore_init, shm_RLock = Unlocked, shm_WLock = Unlocked,
         shm_WOffset = \<lparr>st_state = 0, st_mutex = Unlocked\<rparr>, shm_ROffset = \<lparr>st_state = 0, st_mutex = Unlocked\<rparr>,
         shm_Length = int ?L, shm_Buffer = replicate ?L 0\<rparr>"
  have "shm_repr ?sb []"
    using shm_align_page [OF assms(2)]
    by (simp add: shm_repr_def shm_locks_ok_def recoverable_def ring_of_def rbst_repr_def geometry_def laid_out_def
        same_lap_def rpos_def wpos_def)
  moreover have "shm_fresh garbage now mfs ?L token encipher_cb = Some ?sb"
    by (simp add: shm_fresh_def m cipher_of_def)
  ultimately show thesis using range by (intro that [of ?sb]) simp_all
qed

lemma cipher_zero: "cipher_of (Some tk) None magic = 0 \<longleftrightarrow> tk = magic"
  by (auto simp: cipher_of_def shmmbuf_encipher_token_def bit_eq_iff bit_xor_iff)

lemma xor_twice: "(x XOR y) XOR z = x \<longleftrightarrow> z = (y :: 'a :: len word)"
proof
  assume "(x XOR y) XOR z = x"
  then have "x XOR ((x XOR y) XOR z) = x XOR x" by simp
  then have "y XOR z = 0" by (simp add: xor.assoc [symmetric])
  then have "y XOR (y XOR z) = y" by simp
  then show "z = y" by (simp add: xor.assoc [symmetric])
qed (simp add: xor.assoc)

text \<open>The first process to use a name.\<close>

lemma create_new:
  assumes "length garbage = 256" "shm_size_ok n" "shms name = None" "sys_open sys" "sys_truncate sys" "sys_mmap sys"
  obtains sb where
    "shmmap_buffer_create sys garbage now shms name n token None None = Some (0, Some sb, shms(name \<mapsto> Mapped sb))"
    "shm_repr sb []" "0x0111111111111111 \<le> shm_magic sb" "shm_magic sb \<le> 0x1fffffffffffffff"
    "shm_cipher sb = cipher_of token None (shm_magic sb)" "shmfilesize sb = 4096 + shmmbuf_align_bsize n 4096"
    "shm_Length sb = int (shmmbuf_align_bsize n 4096)" "shm_semaphore sb = shmmbuf_semaphore_init"
proof -
  let ?L = "shmmbuf_align_bsize n 4096"
  have L: "0 < ?L" "?L \<le> 1073741824" using shm_align_page [OF assms(2)] by simp_all
  obtain sb where sb: "shm_fresh garbage now (4096 + ?L) ?L token None = Some sb"
    "shm_repr sb []" "0x0111111111111111 \<le> shm_magic sb" "shm_magic sb \<le> 0x1fffffffffffffff"
    "shm_cipher sb = cipher_of token None (shm_magic sb)" "shmfilesize sb = 4096 + ?L"
    "shm_Length sb = int ?L" "shm_semaphore sb = shmmbuf_semaphore_init"
    by (rule shm_fresh_repr [OF assms(1,2)])
  have "shmmap_verify_token sb token None"
    unfolding shmmap_verify_token_def sb(5)
    by (auto simp: cipher_of_def shmmbuf_decipher_token_def shmmbuf_encipher_token_def xor.assoc split: option.split)
  then have "shmmap_buffer_create sys garbage now shms name n token None None = Some (0, Some sb, shms(name \<mapsto> Mapped sb))"
    using assms L sb(1) by (simp add: shmmap_buffer_create_def shm_size_ok_def SHMMBUF_PAGE_SIZE_def create_codes Let_def)
  then show thesis using sb(2-) by (rule that)
qed

section \<open>Runs of writes and reads\<close>

text \<open>
  C33.  A shared buffer is a queue.  For a buffer a first process created (any token, any ciphers of its own), whatever
  sequence of writes (of 1 to 2^30 bytes) and copying reads follows, the writes that returned 1 are, in order, what the
  reads delivered followed by what the buffer still holds: the ring in shared memory loses, invents and reorders
  nothing, in any mixture of wraps, cleared tails and refusals.
\<close>

theorem shmbuf_fifo:
  assumes "shmmap_buffer_create sys garbage now shms name n token encipher_cb decipher_cb = Some (0, Some sb0, shms')"
    "shms name = None" "n \<le> 1073741824" "length garbage = 256"
    "shmq.run_ok ops sb0" "shmq.run ops sb0 = (written, got, sb)"
  shows "shm_inv sb \<and> written = got @ shm_content sb"
proof -
  have n: "shm_size_ok n" "sys_mmap sys"
    using assms(1-3) by (auto simp: shmmap_buffer_create_def shm_size_ok_def create_codes Let_def split: if_splits)
  obtain sb where sb: "shm_fresh garbage now (size_wrap (4096 + shmmbuf_align_bsize n 4096)) (shmmbuf_align_bsize n 4096) token encipher_cb = Some sb"
    "shm_repr sb []" by (rule shm_fresh_repr [OF assms(4) n(1)])
  then have "sb0 = sb" using assms(1,2) n
    by (auto simp: shmmap_buffer_create_def shm_size_ok_def create_codes Let_def SHMMBUF_PAGE_SIZE_def split: if_splits)
  then have "shm_inv sb0" "shm_content sb0 = []" using sb(2) by (auto simp: shm_inv_def shm_repr_content)
  then show ?thesis using shmq.run_conserves [OF _ assms(5,6)] by auto
qed

lemma shmbuf_fifo_witness:
  "\<exists>sb0 shms' got sb. shmmap_buffer_create \<lparr>sys_open = True, sys_mmap = True, sys_truncate = True\<rparr> (replicate 256 0) (1, 2)
       Map.empty ''log'' 5000 (Some 7) None None = Some (0, Some sb0, shms')
     \<and> shmq.run [Inl [1, 2, 3], Inr (), Inl [4]] sb0 = (fst (shmq.run [Inl [1, 2, 3], Inr (), Inl [4]] sb0), got, sb)
     \<and> fst (shmq.run [Inl [1, 2, 3], Inr (), Inl [4]] sb0) = got @ shm_content sb"
proof -
  let ?ops = "[Inl [1, 2, 3], Inr (), Inl [4]] :: (byte list + unit) list"
  let ?sys = "\<lparr>sys_open = True, sys_mmap = True, sys_truncate = True\<rparr>"
  obtain sb0 where c: "shmmap_buffer_create ?sys (replicate 256 0) (1, 2) Map.empty ''log'' 5000 (Some 7) None None
      = Some (0, Some sb0, [''log'' \<mapsto> Mapped sb0])"
    by (rule create_new [of "replicate 256 0" 5000 Map.empty "''log''" ?sys "(1, 2)" "Some 7"]) (simp_all add: shm_size_ok_def)
  obtain i got sb where r: "shmq.run ?ops sb0 = (i, got, sb)" by (metis prod_cases3)
  have "shm_chunk_ok [1, 2, 3]" "shm_chunk_ok [4]" by (simp_all add: shm_chunk_ok_def)
  then have ok: "shmq.run_ok ?ops sb0" by simp
  show ?thesis using shmbuf_fifo [OF c _ _ _ ok r] c r by simp
qed

section \<open>Who can open it\<close>

text \<open>What a second process gets.\<close>

lemma reopen_result:
  assumes "shmmap_buffer_create sys garbage now shms name n (Some tk) None None = Some (0, Some sb, shms')"
    "shms name = None" "n \<le> 1073741824" "m \<le> 1073741824" "length garbage = 256"
    "sys_open sys2" "sys_truncate sys2" "sys_mmap sys2"
  shows "shmmap_buffer_create sys2 garbage2 now2 shms' name m token None None = Some
      (if m \<noteq> 0 \<and> shmmbuf_align_bsize m 4096 \<noteq> shmmbuf_align_bsize n 4096 then (SHMMBUF_CREATE_ERRSIZE, None, shms')
       else if token = Some tk \<or> shm_magic sb = tk then (SHMMBUF_CREATE_SUCCESS, Some sb, shms')
       else (SHMMBUF_CREATE_ERRTOKEN, None, shms'))
     \<and> 0x0111111111111111 \<le> shm_magic sb \<and> shm_magic sb \<le> 0x1fffffffffffffff"
proof -
  have n: "shm_size_ok n" "sys_mmap sys" "sys_open sys" "sys_truncate sys"
    using assms(1-3) by (auto simp: shmmap_buffer_create_def shm_size_ok_def create_codes Let_def split: if_splits)
  obtain sb1 where c: "shmmap_buffer_create sys garbage now shms name n (Some tk) None None = Some (0, Some sb1, shms(name \<mapsto> Mapped sb1))"
    and m: "0x0111111111111111 \<le> shm_magic sb1" "shm_magic sb1 \<le> 0x1fffffffffffffff"
    and f: "shm_cipher sb1 = cipher_of (Some tk) None (shm_magic sb1)" "shmfilesize sb1 = 4096 + shmmbuf_align_bsize n 4096"
      "shm_Length sb1 = int (shmmbuf_align_bsize n 4096)"
    by (rule create_new [of garbage n shms name sys now "Some tk"]) (use n assms in simp_all)
  have e: "sb1 = sb" "shms' = shms(name \<mapsto> Mapped sb)" using c assms(1) by auto
  have v: "shmmap_verify_token sb token None \<longleftrightarrow> token = Some tk \<or> shm_magic sb = tk"
    unfolding shmmap_verify_token_def f(1) [unfolded e] cipher_zero
    by (auto simp: cipher_of_def shmmbuf_decipher_token_def shmmbuf_encipher_token_def xor_twice split: option.split)
  have L: "0 < shmmbuf_align_bsize n 4096" "shmmbuf_align_bsize n 4096 \<le> 1073741824" using shm_align_page [OF n(1)] by simp_all
  show ?thesis
  proof (cases "m = 0")
    case True
    then show ?thesis using assms(6-) m L f by (simp add: shmmap_buffer_create_def create_codes Let_def e v)
  next
    case False
    then have "shm_size_ok m" using assms(4) by (simp add: shm_size_ok_def)
    then have "0 < shmmbuf_align_bsize m 4096" "shmmbuf_align_bsize m 4096 \<le> 1073741824" using shm_align_page by simp_all
    then show ?thesis using assms(4,6-) m L f False
      by (simp add: shmmap_buffer_create_def create_codes Let_def SHMMBUF_PAGE_SIZE_def e v)
  qed
qed

text \<open>
  C34.  Opening an existing buffer.  After a process created a buffer of \<open>n\<close> bytes with a token (and the default
  ciphers), another process that gives the same name gets the same buffer with size 0 or a size of the same number of pages,
  and the same token; another size is \<open>ERRSIZE\<close>, another token or none \<open>ERRTOKEN\<close>, and neither changes anything.  The
  one exception is a token that happens to be the magic number drawn at creation: then the cipher is 0 and any token
  opens the buffer; the magic number is never below \<open>0x0111111111111111\<close>, so no smaller token is exposed.
\<close>

theorem shmbuf_reopen:
  assumes "shmmap_buffer_create sys garbage now shms name n (Some tk) None None = Some (0, Some sb, shms')"
    "shms name = None" "n \<le> 1073741824" "m \<le> 1073741824" "length garbage = 256"
    "sys_open sys2" "sys_truncate sys2" "sys_mmap sys2"
  shows "shmmap_buffer_create sys2 garbage2 now2 shms' name m token None None = Some
      (if m \<noteq> 0 \<and> shmmbuf_align_bsize m 4096 \<noteq> shmmbuf_align_bsize n 4096 then (SHMMBUF_CREATE_ERRSIZE, None, shms')
       else if token = Some tk \<or> shm_magic sb = tk then (SHMMBUF_CREATE_SUCCESS, Some sb, shms')
       else (SHMMBUF_CREATE_ERRTOKEN, None, shms'))
     \<and> 0x0111111111111111 \<le> shm_magic sb \<and> shm_magic sb \<le> 0x1fffffffffffffff"
  by (rule reopen_result [OF assms])

lemma shmbuf_reopen_witness:
  "\<exists>sb shms'. shmmap_buffer_create \<lparr>sys_open = True, sys_mmap = True, sys_truncate = True\<rparr> (replicate 256 0) (1, 2)
       Map.empty ''log'' 5000 (Some 7) None None = Some (0, Some sb, shms')
     \<and> shmmap_buffer_create \<lparr>sys_open = True, sys_mmap = True, sys_truncate = True\<rparr> [] (5, 6) shms' ''log'' 0 (Some 7) None None
       = Some (0, Some sb, shms')
     \<and> shmmap_buffer_create \<lparr>sys_open = True, sys_mmap = True, sys_truncate = True\<rparr> [] (5, 6) shms' ''log'' 0 (Some 8) None None
       = Some (5, None, shms')"
proof -
  let ?sys = "\<lparr>sys_open = True, sys_mmap = True, sys_truncate = True\<rparr>"
  obtain sb where c: "shmmap_buffer_create ?sys (replicate 256 0) (1, 2) Map.empty ''log'' 5000 (Some 7) None None
      = Some (0, Some sb, [''log'' \<mapsto> Mapped sb])" and m: "0x0111111111111111 \<le> shm_magic sb"
    by (rule create_new [of "replicate 256 0" 5000 Map.empty "''log''" ?sys "(1, 2)" "Some 7"]) (simp_all add: shm_size_ok_def)
  have "shm_magic sb \<noteq> 7"
  proof
    assume "shm_magic sb = 7"
    then show False using m by simp
  qed
  then show ?thesis using c shmbuf_reopen [OF c, of 0 ?sys "[]" "(5, 6)" "Some 7"] shmbuf_reopen [OF c, of 0 ?sys "[]" "(5, 6)" "Some 8"]
    by (simp add: create_codes)
qed

text \<open>
  A reader that starts before the writer (the second example of the header: size 0) leaves an empty object behind;
  every later process dies when it reads the header of that object, until it is deleted.
\<close>

lemma reader_first:
  assumes "shms name = None" "sys_open sys"
  shows "shmmap_buffer_create sys garbage now shms name 0 token enc dec = Some (SHMMBUF_CREATE_ERRSIZE, None, shms(name \<mapsto> Empty))"
    "sys_open sys2 \<Longrightarrow> n \<noteq> 18446744073709551615 \<Longrightarrow>
      shmmap_buffer_create sys2 garbage2 now2 (shms(name \<mapsto> Empty)) name n token2 enc2 dec2 = None"
    "shmmap_buffer_delete (shms(name \<mapsto> Empty)) name = (0, shms)"
  using assms by (auto simp: shmmap_buffer_create_def shmmap_buffer_delete_def fun_upd_idem)

section \<open>The semaphore\<close>



end
