(* ===== verification/ShmRegion.thy ===== *)
theory ShmRegion
  imports ShmOpen "HOL-Library.Sublist"
begin

text \<open>
  Which bytes of the shared ring a write may touch while readers run, and why the decisions of a process stay right
  when it took them from an old offset of the other side: a writer with an old read offset only sees less room than
  there is, a reader with an old write offset only sees fewer entries.
\<close>

section \<open>The used region\<close>

definition shm_used :: "ring_buffer_st \<Rightarrow> nat \<Rightarrow> bool" where
  "shm_used st i \<longleftrightarrow> (if same_lap st then rpos st \<le> i \<and> i < wpos st
     else rpos st \<le> i \<and> i < nat (Length st) \<or> i < wpos st)"

lemma agree_update: "hi \<le> length b \<Longrightarrow> (lo \<le> i \<Longrightarrow> i < hi \<Longrightarrow> False) \<Longrightarrow> agree b (b[i := x]) lo hi"
  by (auto simp: agree_def) (metis nth_list_update_neq)

lemma ring_update_pos [simp]:
  "rpos (st\<lparr>Buffer := b\<rparr>) = rpos st" "wpos (st\<lparr>Buffer := b\<rparr>) = wpos st" "same_lap (st\<lparr>Buffer := b\<rparr>) = same_lap st"
  "rpos (st\<lparr>WOffset := v\<rparr>) = rpos st" "wpos (st\<lparr>ROffset := v\<rparr>) = wpos st"
  by (simp_all add: rpos_def wpos_def same_lap_def)

lemma used_buffer [simp]: "shm_used (st\<lparr>Buffer := b\<rparr>) = shm_used st"
  by (rule ext) (simp add: shm_used_def)

lemma repr_order: "rbst_repr st cs \<Longrightarrow> if same_lap st then rpos st \<le> wpos st else wpos st \<le> rpos st"
  by (simp add: rbst_repr_def laid_out_def split: if_splits)

text \<open>A byte stored outside it changes neither what the ring holds nor what a reader finds next.\<close>

lemma repr_store:
  assumes "rbst_repr st cs" "\<not> shm_used st i"
  shows "rbst_repr (st\<lparr>Buffer := (Buffer st)[i := x]\<rparr>) cs"
proof -
  let ?b = "(Buffer st)[i := x]" and ?L = "nat (Length st)"
  have g: "geometry st" and lo: "laid_out (Buffer st) (same_lap st) (rpos st) (wpos st) ?L cs"
    and lk: "RLock st = 0" "WLock st = 0"
    using assms(1) by (simp_all add: rbst_repr_def)
  have len: "length (Buffer st) = ?L" using g by (simp add: geometry_def)
  note pf = pos_facts(5,6) [OF g]
  have "laid_out ?b (same_lap st) (rpos st) (wpos st) ?L cs"
  proof (cases "same_lap st")
    case True
    then have "agree (Buffer st) ?b (rpos st) (wpos st)"
      using assms(2) pf len by (intro agree_update) (auto simp: shm_used_def)
    then show ?thesis using lo True by (auto simp: laid_out_def intro: chain_agree)
  next
    case False
    then obtain e cs1 cs2 where e: "cs = cs1 @ cs2" "chain (Buffer st) (rpos st) e cs1" "chain (Buffer st) 0 (wpos st) cs2"
        "tail_ok (Buffer st) e ?L (wpos st)" "wpos st \<le> rpos st"
      using lo by (auto simp: laid_out_def)
    have ag: "agree (Buffer st) ?b (rpos st) ?L" "agree (Buffer st) ?b 0 (wpos st)"
      using assms(2) pf len False by (auto intro!: agree_update simp: shm_used_def)
    have el: "rpos st \<le> e" "e \<le> ?L" using chain_le [OF e(2)] e(4) by (auto simp: tail_ok_def)
    have "chain ?b (rpos st) e cs1" using el by (intro chain_agree [OF _ e(2)] agree_mono [OF ag(1)]) simp_all
    moreover have "chain ?b 0 (wpos st) cs2" by (rule chain_agree [OF ag(2) e(3)])
    moreover have "tail_ok ?b e ?L (wpos st)"
    proof (cases "e = ?L")
      case False
      then have "0 < wpos st" using e(4) by (auto simp: tail_ok_def)
      then show ?thesis by (rule tail_agree [OF e(4) ag(1) el(1)])
    qed (simp add: tail_ok_def)
    ultimately show ?thesis using e(1,5) False laid_out_other by simp
  qed
  moreover have "geometry (st\<lparr>Buffer := ?b\<rparr>)" using g by (simp add: geometry_def)
  ultimately show ?thesis using lk by (simp add: rbst_repr_def)
qed

lemma plan_read_store:
  assumes "rbst_repr st cs" "\<not> shm_used st i"
  shows "plan_read (st\<lparr>Buffer := (Buffer st)[i := x]\<rparr>) = plan_read st"
proof (cases "\<not> same_lap st \<and> rpos st + 8 < nat (Length st)")
  case True
  have "length (Buffer st) = nat (Length st)" using assms(1) by (simp add: rbst_repr_def geometry_def)
  then have "agree (Buffer st) ((Buffer st)[i := x]) (rpos st) (nat (Length st))"
    using assms(2) True by (intro agree_update) (auto simp: shm_used_def)
  then have "entry_size ((Buffer st)[i := x]) (int (rpos st)) = entry_size (Buffer st) (int (rpos st))"
    using agree_get [of "Buffer st" "(Buffer st)[i := x]" "rpos st" "nat (Length st)" "rpos st" 8] True
    by (simp add: entry_size_def RINGBUFST_ENTRY_HDRSIZE_def)
  then show ?thesis by (simp add: plan_read_def)
qed (auto simp: plan_read_def)

section \<open>What a write stores, and publishes\<close>

definition fits :: "ring_buffer_st \<Rightarrow> byte list \<Rightarrow> bool" where
  "fits st chunk \<longleftrightarrow> shm_chunk_ok chunk \<and> asz (length chunk) \<le> nat (Length st) div 8"

abbreviation choice_at :: "ring_buffer_st \<Rightarrow> byte list \<Rightarrow> (int \<times> int option \<times> int) option" where
  "choice_at st chunk \<equiv> write_choice (Length st) (ROffset st) (WOffset st) (int (asz (length chunk)))"

lemma at_offset_set: "(i, x) \<in> set (at_offset off bs) \<Longrightarrow> off \<le> i \<and> i < off + length bs"
  unfolding at_offset_def by (drule set_zip_leftD) auto

text \<open>The two places of an entry.\<close>

lemma choice_cases:
  assumes "rbst_repr st cs" "fits st chunk" "choice_at st chunk = Some ch"
  obtains "plan_write st (length chunk) = AtEnd" "wpos st + asz (length chunk) \<le> nat (Length st)"
      "\<not> same_lap st \<Longrightarrow> wpos st + asz (length chunk) \<le> rpos st"
      "ch = (int (wpos st), None, ringbufst_normalize_offset (WOffset st + int (asz (length chunk))) (Length st))"
    | "plan_write st (length chunk) = AtStart" "same_lap st" "asz (length chunk) \<le> rpos st"
      "ch = (0, Some (int (wpos st)), int (asz (length chunk)) + (1 - ROffset st div Length st) * Length st)"
proof -
  have g: "geometry st" using assms(1) by (simp add: rbst_repr_def)
  note pf = pos_facts(5,6) [OF g] and ord = repr_order [OF assms(1)]
  have le: "asz (length chunk) \<le> nat (Length st) div 8" using assms(2) by (simp add: fits_def)
  note c = write_choice_plan [OF assms(1) le] assms(3)
  show thesis
  proof (cases "plan_write st (length chunk)")
    case AtEnd
    then show thesis using c pf ord that(1) by (auto simp: plan_write_def Let_def split: if_splits)
  next
    case AtStart
    then show thesis using c that(2) by (auto simp: plan_write_def Let_def split: if_splits)
  qed (use c in simp_all)
qed

lemma store_free:
  assumes "rbst_repr st cs" "fits st chunk" "choice_at st chunk = Some ch" "(i, x) \<in> set (store_bytes (Length st) ch chunk)"
  shows "\<not> shm_used st i"
proof -
  have g: "geometry st" using assms(1) by (simp add: rbst_repr_def)
  have L: "0 < Length st" using g by (simp add: geometry_def)
  note pf = pos_facts(5,6) [OF g] and ord = repr_order [OF assms(1)]
  have a: "length chunk + 8 \<le> asz (length chunk)" using asz_bounds(1) by simp
  show ?thesis
  proof (rule choice_cases [OF assms(1-3)])
    assume b: "wpos st + asz (length chunk) \<le> nat (Length st)" "\<not> same_lap st \<Longrightarrow> wpos st + asz (length chunk) \<le> rpos st"
      "ch = (int (wpos st), None, ringbufst_normalize_offset (WOffset st + int (asz (length chunk))) (Length st))"
    have "wpos st \<le> i \<and> i < wpos st + asz (length chunk)"
      using assms(4) a b(3) by (auto simp: store_bytes_def SHMMBUF_ENTRY_HDRSIZE_def dest!: at_offset_set)
    then show ?thesis using b(2) by (auto simp: shm_used_def)
  next
    assume b: "same_lap st" "asz (length chunk) \<le> rpos st"
      "ch = (0, Some (int (wpos st)), int (asz (length chunk)) + (1 - ROffset st div Length st) * Length st)"
    have "wpos st \<le> i \<or> i < asz (length chunk)"
      using assms(4) a b(3) by (auto simp: store_bytes_def SHMMBUF_ENTRY_HDRSIZE_def dest!: at_offset_set)
    then show ?thesis using b(1,2) ord by (auto simp: shm_used_def)
  qed
qed

lemma publish_repr:
  assumes "rbst_repr st cs" "fits st chunk" "choice_at st chunk = Some ch"
  shows "rbst_repr (st\<lparr>Buffer := stored (Length st) ch chunk (Buffer st), WOffset := snd (snd ch)\<rparr>) (cs @ [chunk])"
proof -
  have g: "geometry st" using assms(1) by (simp add: rbst_repr_def)
  have L: "length (Buffer st) = nat (Length st)" "0 < Length st" using g by (simp_all add: geometry_def)
  have n: "0 < length chunk" "length chunk \<le> 1073741824" using assms(2) by (simp_all add: fits_def shm_chunk_ok_def)
  have cb: "callback_ok (length chunk) (\<lambda>_. chunk)" using n by (simp add: callback_ok_def)
  note pf = pos_facts(5,6) [OF g]
  show ?thesis
  proof (rule choice_cases [OF assms])
    assume b: "plan_write st (length chunk) = AtEnd" "wpos st + asz (length chunk) \<le> nat (Length st)"
      "ch = (int (wpos st), None, ringbufst_normalize_offset (WOffset st + int (asz (length chunk))) (Length st))"
    show ?thesis
      using write_at_end [OF assms(1) cb b(1)] write_offset_id(1) [OF assms(1) b(1)]
        stored_write_entry [OF L(1) n b(2), of None "snd (snd ch)"] b(3)
      by (simp add: wrote_def stored_chunk_def)
  next
    assume b: "plan_write st (length chunk) = AtStart" "same_lap st" "asz (length chunk) \<le> rpos st"
      "ch = (0, Some (int (wpos st)), int (asz (length chunk)) + (1 - ROffset st div Length st) * Length st)"
    show ?thesis
      using write_at_start [OF assms(1) cb b(1)] write_offset_id(2) [OF assms(1) b(1)]
        stored_write_entry [OF L(1) n, of 0 "Some (int (wpos st))" "snd (snd ch)"] b pf L(2)
      by (simp add: wrote_def stored_chunk_def)
  qed
qed

lemma publish_offset:
  assumes "rbst_repr st cs" "fits st chunk" "choice_at st chunk = Some ch"
  shows "(same_lap (st\<lparr>WOffset := snd (snd ch)\<rparr>) = same_lap st \<and> wpos st \<le> wpos (st\<lparr>WOffset := snd (snd ch)\<rparr>)) \<or>
    (same_lap st \<and> \<not> same_lap (st\<lparr>WOffset := snd (snd ch)\<rparr>))"
proof -
  have g: "geometry st" using assms(1) by (simp add: rbst_repr_def)
  have L: "0 < Length st" "Length st \<le> 1073741824" "0 \<le> ROffset st" "ROffset st < 2 * Length st"
    "0 \<le> WOffset st" "WOffset st < 2 * Length st" using g by (simp_all add: geometry_def)
  note pf = pos_facts(5,6) [OF g]
  have laps: "ROffset st div Length st = 0 \<or> ROffset st div Length st = 1" "WOffset st div Length st = 0 \<or> WOffset st div Length st = 1"
    using lap_div_mod [OF L(3,4)] lap_div_mod [OF L(5,6)] by auto
  have wm: "WOffset st mod Length st = int (wpos st)" using L by (simp add: wpos_def)
  have a0: "0 < asz (length chunk)" using asz_bounds(1) [of "length chunk"] by simp
  show ?thesis
  proof (rule choice_cases [OF assms])
    let ?a = "int (asz (length chunk))"
    assume b: "plan_write st (length chunk) = AtEnd" "wpos st + asz (length chunk) \<le> nat (Length st)"
      "\<not> same_lap st \<Longrightarrow> wpos st + asz (length chunk) \<le> rpos st"
      "ch = (int (wpos st), None, ringbufst_normalize_offset (WOffset st + ?a) (Length st))"
    note id = write_offset_id(1) [OF assms(1) b(1)]
    show ?thesis
    proof (cases "wpos st + asz (length chunk) = nat (Length st)")
      case True
      have en: "WOffset st mod Length st + ?a = Length st" using True wm L by linarith
      have "same_lap st" using b(3) True pf by linarith
      have "snd (snd ch) = (1 - WOffset st div Length st) * Length st"
        using offset_lap_end(1) [OF L(5,6) en L(2)] id b(4) by simp
      then have "snd (snd ch) div Length st = 1 - WOffset st div Length st"
        using offset_lap_end(4) [OF L(5,6) en L(2)] by (simp only:)
      then have "\<not> same_lap (st\<lparr>WOffset := snd (snd ch)\<rparr>)" using \<open>same_lap st\<close> laps(2) by (auto simp: same_lap_def)
      then show ?thesis using \<open>same_lap st\<close> by simp
    next
      case False
      have fw: "WOffset st mod Length st + ?a < Length st" using False b(2) wm L by linarith
      note off = offset_forward [OF L(5,6) of_nat_0_le_iff fw L(2)]
      have "snd (snd ch) = WOffset st + ?a" using off(1) id b(4) by simp
      moreover have "nat (WOffset st mod Length st) \<le> nat (WOffset st mod Length st + ?a)" by simp
      ultimately show ?thesis using off(2,3) by (simp add: same_lap_def wpos_def)
    qed
  next
    let ?off = "int (asz (length chunk)) + (1 - ROffset st div Length st) * Length st"
    assume b: "plan_write st (length chunk) = AtStart" "same_lap st" "asz (length chunk) \<le> rpos st"
      "ch = (0, Some (int (wpos st)), ?off)"
    have "int (asz (length chunk)) < Length st" using b(3) pf L by linarith
    then have "?off div Length st = 1 - ROffset st div Length st" using laps L by auto
    then show ?thesis using b(2,4) laps by (auto simp: same_lap_def)
  qed
qed

text \<open>A later write offset uses more.\<close>

lemma publish_used:
  assumes "rbst_repr st cs" "fits st chunk" "choice_at st chunk = Some ch" "i < nat (Length st)" "shm_used st i"
  shows "shm_used (st\<lparr>WOffset := snd (snd ch)\<rparr>) i"
  using publish_offset [OF assms(1-3)] assms(4,5) by (auto simp: shm_used_def split: if_splits)

section \<open>A writer with an old read offset\<close>

lemma took_pos:
  assumes r: "rbst_repr st cs" and t: "plan_read st = TakeAt p"
  defines "st' \<equiv> took st p (length (hd cs))"
  shows "same_lap st \<and> same_lap st' \<and> rpos st \<le> rpos st' \<and> ROffset st' div Length st = ROffset st div Length st
     \<or> \<not> same_lap st \<and> \<not> same_lap st' \<and> rpos st \<le> rpos st'
     \<or> \<not> same_lap st \<and> same_lap st' \<and> rpos st' \<le> wpos st"
proof -
  have g: "geometry st" using r by (simp add: rbst_repr_def)
  have L: "0 < Length st" "Length st \<le> 1073741824" "0 \<le> ROffset st" "ROffset st < 2 * Length st"
      "0 \<le> WOffset st" "WOffset st < 2 * Length st"
    using g by (simp_all add: geometry_def)
  note pf = pos_facts [OF g]
  let ?r = "rpos st" and ?w = "wpos st" and ?L = "nat (Length st)"
  obtain c cs' where c: "cs = c # cs'"
    and pp: "p = ?r \<and> (same_lap st \<and> p + asz (length c) \<le> ?w \<or>
          \<not> same_lap st \<and> p + asz (length c) \<le> ?L \<and> p + 8 < ?L)
       \<or> p = 0 \<and> p < ?r \<and> \<not> same_lap st \<and> ?L \<le> ?r + 8 \<and> asz (length c) \<le> ?w"
    using plan_read_content [OF r] t by auto
  let ?a = "asz (length c)"
  have rm: "ROffset st mod Length st = int ?r" using L by (simp add: rpos_def)
  have laps: "ROffset st div Length st = 0 \<or> ROffset st div Length st = 1"
      "WOffset st div Length st = 0 \<or> WOffset st div Length st = 1"
    using lap_div_mod [OF L(3,4)] lap_div_mod [OF L(5,6)] by auto
  show ?thesis
  proof (cases "p = ?r")
    case False
    let ?off = "int ?a + WOffset st div Length st * Length st"
    have q: "\<not> same_lap st" "?a \<le> ?w" using pp False by auto
    have al: "int ?a < Length st" using q(2) pf(6) by linarith
    have o: "?off div Length st = WOffset st div Length st" "?off mod Length st = int ?a" "to_int32 ?off = ?off"
      using laps(2) al L(1,2) by auto
    then show ?thesis using q c False unfolding st'_def took_def same_lap_def rpos_def by simp
  next
    case True
    have fit: "?r + ?a \<le> ?L" using pp True pf(6) by auto
    show ?thesis
    proof (cases "?r + ?a = ?L")
      case stop: True
      have en: "ROffset st mod Length st + int ?a = Length st" using stop rm L by linarith
      note off = offset_lap_end [OF L(3,4) en L(2)]
      have "\<not> same_lap st" using pp True stop pf(6) by auto
      then show ?thesis using True c off laps unfolding st'_def took_def same_lap_def rpos_def by auto
    next
      case False
      have fw: "ROffset st mod Length st + int ?a < Length st" using False fit rm L by linarith
      note off = offset_forward [OF L(3,4) _ fw L(2)]
      show ?thesis using True c off(1-3) rm unfolding st'_def took_def same_lap_def rpos_def by (auto simp: nat_add_distrib)
    qed
  qed
qed

lemma skipped_pos:
  assumes r: "rbst_repr st cs" and t: "plan_read st = SkipTail"
  shows "\<not> same_lap st \<and> same_lap (skipped st) \<and> rpos (skipped st) \<le> wpos st"
proof -
  have L: "0 < Length st" using r by (simp add: rbst_repr_def geometry_def)
  have "\<not> same_lap st" using plan_read_content [OF r] t by simp
  then show ?thesis using L by (simp add: skipped_def same_lap_def rpos_def)
qed

lemma choice_later:
  assumes "rbst_repr st cs" "fits st chunk" "choice_at st chunk = Some ch"
    "rbst_repr (st\<lparr>ROffset := v\<rparr>) cs'"
    "same_lap st \<and> same_lap (st\<lparr>ROffset := v\<rparr>) \<and> rpos st \<le> rpos (st\<lparr>ROffset := v\<rparr>) \<and> v div Length st = ROffset st div Length st
     \<or> \<not> same_lap st \<and> \<not> same_lap (st\<lparr>ROffset := v\<rparr>) \<and> rpos st \<le> rpos (st\<lparr>ROffset := v\<rparr>)
     \<or> \<not> same_lap st \<and> same_lap (st\<lparr>ROffset := v\<rparr>) \<and> rpos (st\<lparr>ROffset := v\<rparr>) \<le> wpos st"
  shows "choice_at (st\<lparr>ROffset := v\<rparr>) chunk = Some ch"
proof -
  let ?st = "st\<lparr>ROffset := v\<rparr>" and ?n = "length chunk"
  have g: "geometry st" using assms(1) by (simp add: rbst_repr_def)
  note pf = pos_facts(5,6) [OF g] and ord = repr_order [OF assms(1)] and ord' = repr_order [OF assms(4)]
  have le: "asz ?n \<le> nat (Length ?st) div 8" using assms(2) by (simp add: fits_def)
  note c = write_choice_plan [OF assms(4) le]
  show ?thesis
  proof (rule choice_cases [OF assms(1-3)])
    assume b: "wpos st + asz ?n \<le> nat (Length st)" "\<not> same_lap st \<Longrightarrow> wpos st + asz ?n \<le> rpos st"
      "ch = (int (wpos st), None, ringbufst_normalize_offset (WOffset st + int (asz ?n)) (Length st))"
    then have "plan_write ?st ?n = AtEnd" using assms(5) le by (auto simp: plan_write_def Let_def)
    then show ?thesis using c b(3) by simp
  next
    assume b: "plan_write st ?n = AtStart" "same_lap st" "asz ?n \<le> rpos st"
      "ch = (0, Some (int (wpos st)), int (asz ?n) + (1 - ROffset st div Length st) * Length st)"
    then have "plan_write ?st ?n = AtStart" using assms(5) le by (auto simp: plan_write_def Let_def split: if_splits)
    then show ?thesis using c b assms(5) by auto
  qed
qed

lemma choice_took:
  assumes "rbst_repr st cs" "fits st chunk" "choice_at st chunk = Some ch" "plan_read st = TakeAt p"
  shows "choice_at (took st p (length (hd cs))) chunk = Some ch"
proof -
  define v where "v = ROffset (took st p (length (hd cs)))"
  have e: "took st p (length (hd cs)) = st\<lparr>ROffset := v\<rparr>" unfolding v_def by (rule took_update)
  show ?thesis unfolding e
    using choice_later [OF assms(1-3), of v "tl cs"] took_repr [OF assms(1,4)] took_pos [OF assms(1,4)] by (simp add: e)
qed

lemma choice_skipped:
  assumes "rbst_repr st cs" "fits st chunk" "choice_at st chunk = Some ch" "plan_read st = SkipTail"
  shows "choice_at (skipped st) chunk = Some ch"
  using choice_later [OF assms(1-3), of "WOffset st div Length st * Length st" cs] skipped_repr [OF assms(1,4)]
    skipped_pos [OF assms(1,4)]
  by (simp add: skipped_update)

section \<open>A reader with an old write offset\<close>

definition stale :: "ring_buffer_st \<Rightarrow> byte list list \<Rightarrow> int \<Rightarrow> bool" where
  "stale st cs Wo \<longleftrightarrow> (\<exists>csW. rbst_repr (st\<lparr>WOffset := Wo\<rparr>) csW \<and> prefix csW cs) \<and>
     (\<forall>i < nat (Length st). shm_used (st\<lparr>WOffset := Wo\<rparr>) i \<longrightarrow> shm_used st i)"

lemma stale_plan:
  assumes "rbst_repr st cs" "stale st cs Wo" "plan_read (st\<lparr>WOffset := Wo\<rparr>) \<noteq> Nothing"
  shows "plan_read st = plan_read (st\<lparr>WOffset := Wo\<rparr>)" "cs \<noteq> []"
    "read_choice (Buffer st) (Length st) (ROffset st) Wo = read_choice (Buffer st) (Length st) (ROffset st) (WOffset st)"
proof -
  let ?st = "st\<lparr>WOffset := Wo\<rparr>"
  obtain csW where r: "rbst_repr ?st csW" "prefix csW cs" using assms(2) by (auto simp: stale_def)
  have u: "shm_used st i" if "shm_used ?st i" "i < nat (Length st)" for i using that assms(2) by (simp add: stale_def)
  have g: "geometry st" "geometry ?st" using assms(1) r(1) by (simp_all add: rbst_repr_def)
  have L: "0 < Length st" "0 \<le> ROffset st" "ROffset st < 2 * Length st" "0 \<le> WOffset st" "WOffset st < 2 * Length st"
      "0 \<le> Wo" "Wo < 2 * Length st" using g by (simp_all add: geometry_def)
  have laps: "ROffset st div Length st = 0 \<or> ROffset st div Length st = 1" "WOffset st div Length st = 0 \<or> WOffset st div Length st = 1"
      "Wo div Length st = 0 \<or> Wo div Length st = 1"
    using lap_div_mod [OF L(2,3)] lap_div_mod [OF L(4,5)] lap_div_mod [OF L(6,7)] by auto
  note pf = pos_facts(5,6) [OF g(1)] and pfW = pos_facts(5,6) [OF g(2)]
  have ne: "csW \<noteq> []" using plan_read_content [OF r(1)] assms(3) by (cases "plan_read ?st") auto
  then show cs: "cs \<noteq> []" using r(2) by auto
  have hd: "hd csW = hd cs" using ne r(2) by (cases csW) (auto simp: prefix_def)
  have other: "\<not> same_lap st \<and> Wo div Length st = WOffset st div Length st" if "\<not> same_lap ?st"
  proof -
    have "shm_used ?st (nat (Length st) - 1)" using that pf by (simp add: shm_used_def) linarith
    then have "shm_used st (nat (Length st) - 1)" using L(1) by (intro u) simp_all
    then have "\<not> same_lap st" using pf by (auto simp: shm_used_def split: if_splits)
    then show ?thesis using that laps by (auto simp: same_lap_def)
  qed
  have bufeq: "Buffer ?st = Buffer st" "Length ?st = Length st" by simp_all
  show pl: "plan_read st = plan_read ?st"
  proof (cases "same_lap ?st")
    case False
    then show ?thesis using other by (simp add: plan_read_def)
  next
    case True
    have lt: "rpos st < wpos ?st" "plan_read ?st = TakeAt (rpos st)" using True assms(3) by (simp_all add: plan_read_def split: if_splits)
    obtain c cs' where "csW = c # cs'"
      and c: "c \<noteq> []" "entry_size (Buffer st) (int (rpos st)) = length c" "rpos st + asz (length c) \<le> wpos ?st"
      using plan_read_content [OF r(1)] lt True by auto
    have "16 \<le> asz (length c)" using c(1) asz_bounds(3) [of "length c"] by simp
    then have "rpos st + 8 < nat (Length st)" using c(3) pfW(2) by simp
    moreover have "shm_used st (rpos st)" using lt True pf by (intro u) (simp_all add: shm_used_def)
    then have "same_lap st \<Longrightarrow> rpos st < wpos st" by (simp add: shm_used_def)
    ultimately show ?thesis using lt c by (auto simp: plan_read_def)
  qed
  have "p \<noteq> rpos st \<Longrightarrow> plan_read ?st = TakeAt p \<Longrightarrow> \<not> same_lap ?st" for p
    by (auto simp: plan_read_def split: if_splits)
  then have tk: "ROffset (took ?st p n) = ROffset (took st p n)" if "plan_read ?st = TakeAt p" for p n
    using that other by (auto simp: took_def)
  show "read_choice (Buffer st) (Length st) (ROffset st) Wo = read_choice (Buffer st) (Length st) (ROffset st) (WOffset st)"
  proof (cases "plan_read ?st")
    case SkipTail
    then have "\<not> same_lap ?st" by (auto simp: plan_read_def split: if_splits)
    then show ?thesis using read_choice_plan [OF assms(1)] read_choice_plan [OF r(1)] SkipTail pl other by simp
  next
    case (TakeAt p)
    then show ?thesis using read_choice_plan [OF assms(1)] read_choice_plan [OF r(1)] pl tk hd by simp
  qed (use assms(3) in simp)
qed

lemma stale_now: "rbst_repr st cs \<Longrightarrow> stale st cs (WOffset st)"
proof -
  assume "rbst_repr st cs"
  moreover have "st\<lparr>WOffset := WOffset st\<rparr> = st" by simp
  ultimately show ?thesis by (auto simp: stale_def)
qed

lemma stale_publish:
  assumes "rbst_repr st cs" "stale st cs Wo" "fits st chunk" "choice_at st chunk = Some ch"
  shows "stale (st\<lparr>WOffset := snd (snd ch)\<rparr>) (cs @ [chunk]) Wo"
  using assms publish_used [OF assms(1,3,4)] by (auto simp: stale_def)

lemma stale_store:
  assumes "rbst_repr st cs" "stale st cs Wo" "\<not> shm_used st i" "i < nat (Length st)"
  shows "stale (st\<lparr>Buffer := (Buffer st)[i := x]\<rparr>) cs Wo"
proof -
  obtain csW where r: "rbst_repr (st\<lparr>WOffset := Wo\<rparr>) csW" "prefix csW cs" using assms(2) by (auto simp: stale_def)
  have "\<not> shm_used (st\<lparr>WOffset := Wo\<rparr>) i" using assms(2-4) by (auto simp: stale_def)
  then have "rbst_repr (st\<lparr>WOffset := Wo, Buffer := (Buffer st)[i := x]\<rparr>) csW" using repr_store [OF r(1), of i x] by simp
  moreover have "st\<lparr>WOffset := Wo, Buffer := (Buffer st)[i := x]\<rparr> = st\<lparr>Buffer := (Buffer st)[i := x], WOffset := Wo\<rparr>" by simp
  ultimately have "rbst_repr (st\<lparr>Buffer := (Buffer st)[i := x], WOffset := Wo\<rparr>) csW" by argo
  moreover have "shm_used (st\<lparr>Buffer := (Buffer st)[i := x], WOffset := Wo\<rparr>) = shm_used (st\<lparr>WOffset := Wo\<rparr>)"
    by (rule ext) (simp add: shm_used_def rpos_def wpos_def same_lap_def)
  ultimately show ?thesis using r(2) assms(2) by (auto simp: stale_def)
qed

end
