(* ===== verification/ShmCrash.thy ===== *)
theory ShmCrash
  imports ShmRegion
begin

text \<open>
  The shared ring of \<open>source/common/shmmbuf.h\<close> between processes that run at the same time and may die at any point.
  A step of \<open>shm_step\<close> is one access of a process to the shared memory, in the order of \<open>shmmap_buffer_write\<close> and
  \<open>shmmap_buffer_read_copy\<close>: a try on a lock, the recovery of a lock whose owner died, the read of an offset, one stored
  byte, the publication of an offset, an unlock.  Memory is sequentially consistent.  A process that dies leaves
  the mutexes it holds to the next one that tries them (\<open>OwnerDead\<close>); the bytes it has stored stay.
  Ghosts: \<open>w_written\<close> grows when a write publishes its offset, \<open>w_taken\<close> when a read does, \<open>w_seen\<close> when a read returns.
\<close>

section \<open>Processes and steps\<close>

datatype shm_pc =
    Away
  | Crashed
  | WTry "byte list"
  | WDead "byte list"      \<comment> \<open>told that the owner died\<close>
  | WFixed "byte list"     \<comment> \<open>made it consistent\<close>
  | WLocked "byte list"
  | WChoose "byte list" int
  | WStore "byte list" "int \<times> int option \<times> int" "(nat \<times> byte) list"
  | WUnlock
  | RTry nat
  | RDead nat
  | RFixed nat
  | RLocked nat
  | RChoose nat int
  | RCopy int nat int
  | RPublish "byte list" int
  | RSkipTo nat int
  | RRelease nat           \<comment> \<open>skipped a tail: unlock and start again\<close>
  | RUnlock int "byte list option"

record shm_world =
  w_shm :: shmmap_buffer
  w_pcs :: "nat \<Rightarrow> shm_pc"
  w_written :: "byte list list"
  w_taken :: "byte list list"
  w_seen :: "byte list list"

text \<open>The lock states of a process inside the write or read section.\<close>

fun holds_w :: "shm_pc \<Rightarrow> pmutex option" where
  "holds_w (WDead c) = Some Inconsistent"
| "holds_w (WFixed c) = Some Locked"
| "holds_w (WLocked c) = Some Locked"
| "holds_w (WChoose c Ro) = Some Locked"
| "holds_w (WStore c ch ps) = Some Locked"
| "holds_w WUnlock = Some Locked"
| "holds_w _ = None"

fun holds_r :: "shm_pc \<Rightarrow> pmutex option" where
  "holds_r (RDead n) = Some Inconsistent"
| "holds_r (RFixed n) = Some Locked"
| "holds_r (RLocked n) = Some Locked"
| "holds_r (RChoose n Wo) = Some Locked"
| "holds_r (RCopy pos sz off) = Some Locked"
| "holds_r (RPublish c off) = Some Locked"
| "holds_r (RSkipTo n off) = Some Locked"
| "holds_r (RRelease n) = Some Locked"
| "holds_r (RUnlock ret b) = Some Locked"
| "holds_r _ = None"

abbreviation go :: "shm_world \<Rightarrow> nat \<Rightarrow> shm_pc \<Rightarrow> shmmap_buffer \<Rightarrow> shm_world" where
  "go s p pc sb \<equiv> s\<lparr>w_shm := sb, w_pcs := (w_pcs s)(p := pc)\<rparr>"

text \<open>
  The death of a process: its locks, and the mutexes of the offsets if it died inside \<open>shmmbuf_state_get\<close> or
  \<open>shmmbuf_state_set\<close> (\<open>dr\<close>, \<open>dw\<close>).
\<close>

definition dead_lock :: "pmutex option \<Rightarrow> pmutex \<Rightarrow> pmutex" where
  "dead_lock held m = (if held = None then m else OwnerDead)"

definition dead_state :: "bool \<Rightarrow> shmmbuf_state \<Rightarrow> shmmbuf_state" where
  "dead_state d st = (if d then st\<lparr>st_mutex := OwnerDead\<rparr> else st)"

definition shm_die :: "shm_pc \<Rightarrow> bool \<Rightarrow> bool \<Rightarrow> shmmap_buffer \<Rightarrow> shmmap_buffer" where
  "shm_die pc dr dw sb = sb\<lparr>shm_WLock := dead_lock (holds_w pc) (shm_WLock sb), shm_RLock := dead_lock (holds_r pc) (shm_RLock sb),
     shm_ROffset := dead_state dr (shm_ROffset sb), shm_WOffset := dead_state dw (shm_WOffset sb)\<rparr>"

abbreviation entry_room :: "byte list \<Rightarrow> int" where
  "entry_room chunk \<equiv> to_ssize (shmmbuf_align_entrysize (length chunk))"

inductive shm_step :: "nat \<Rightarrow> shm_world \<Rightarrow> shm_world \<Rightarrow> bool" for p where
  w_call: "w_pcs s p = Away \<Longrightarrow> shm_chunk_ok c \<Longrightarrow> write_size_ok (shm_Length (w_shm s)) c \<Longrightarrow>
    shm_step p s (go s p (WTry c) (w_shm s))"
| w_lock: "w_pcs s p = WTry c \<Longrightarrow> pthread_mutex_trylock (shm_WLock (w_shm s)) = (0, m) \<Longrightarrow>
    shm_step p s (go s p (WLocked c) ((w_shm s)\<lparr>shm_WLock := m\<rparr>))"
| w_dead: "w_pcs s p = WTry c \<Longrightarrow> pthread_mutex_trylock (shm_WLock (w_shm s)) = (EOWNERDEAD, m) \<Longrightarrow>
    shm_step p s (go s p (WDead c) ((w_shm s)\<lparr>shm_WLock := m\<rparr>))"
| w_busy: "w_pcs s p = WTry c \<Longrightarrow> pthread_mutex_trylock (shm_WLock (w_shm s)) = (err, m) \<Longrightarrow> err \<noteq> 0 \<Longrightarrow> err \<noteq> EOWNERDEAD \<Longrightarrow>
    shm_step p s (go s p Away ((w_shm s)\<lparr>shm_WLock := m\<rparr>))"
| w_consistent: "w_pcs s p = WDead c \<Longrightarrow> pthread_mutex_consistent (shm_WLock (w_shm s)) = (0, m) \<Longrightarrow>
    shm_step p s (go s p (WFixed c) ((w_shm s)\<lparr>shm_WLock := m\<rparr>))"
| w_again: "w_pcs s p = WFixed c \<Longrightarrow> pthread_mutex_unlock (shm_WLock (w_shm s)) = (0, m) \<Longrightarrow>
    shm_step p s (go s p (WTry c) ((w_shm s)\<lparr>shm_WLock := m\<rparr>))"
| w_get_R: "w_pcs s p = WLocked c \<Longrightarrow> shmmbuf_state_get (shm_ROffset (w_shm s)) = Some (Ro, st) \<Longrightarrow>
    shm_step p s (go s p (WChoose c Ro) ((w_shm s)\<lparr>shm_ROffset := st\<rparr>))"
| w_room: "w_pcs s p = WChoose c Ro \<Longrightarrow>
    write_choice (shm_Length (w_shm s)) Ro (st_state (shm_WOffset (w_shm s))) (entry_room c) = Some ch \<Longrightarrow>
    shm_step p s (go s p (WStore c ch (store_bytes (shm_Length (w_shm s)) ch c)) (w_shm s))"
| w_full: "w_pcs s p = WChoose c Ro \<Longrightarrow>
    write_choice (shm_Length (w_shm s)) Ro (st_state (shm_WOffset (w_shm s))) (entry_room c) = None \<Longrightarrow>
    shm_step p s (go s p WUnlock (w_shm s))"
| w_store: "w_pcs s p = WStore c ch ((i, b) # ps) \<Longrightarrow>
    shm_step p s (go s p (WStore c ch ps) ((w_shm s)\<lparr>shm_Buffer := (shm_Buffer (w_shm s))[i := b]\<rparr>))"
| w_publish: "w_pcs s p = WStore c ch [] \<Longrightarrow> shmmbuf_state_set (shm_WOffset (w_shm s)) (snd (snd ch)) = Some (old, st) \<Longrightarrow>
    shm_step p s ((go s p WUnlock ((w_shm s)\<lparr>shm_WOffset := st\<rparr>))\<lparr>w_written := w_written s @ [c]\<rparr>)"
| w_unlock: "w_pcs s p = WUnlock \<Longrightarrow> pthread_mutex_unlock (shm_WLock (w_shm s)) = (err, m) \<Longrightarrow>
    shm_step p s (go s p Away ((w_shm s)\<lparr>shm_WLock := m\<rparr>))"
| r_call: "w_pcs s p = Away \<Longrightarrow> shm_step p s (go s p (RTry n) (w_shm s))"
| r_lock: "w_pcs s p = RTry n \<Longrightarrow> pthread_mutex_trylock (shm_RLock (w_shm s)) = (0, m) \<Longrightarrow>
    shm_step p s (go s p (RLocked n) ((w_shm s)\<lparr>shm_RLock := m\<rparr>))"
| r_dead: "w_pcs s p = RTry n \<Longrightarrow> pthread_mutex_trylock (shm_RLock (w_shm s)) = (EOWNERDEAD, m) \<Longrightarrow>
    shm_step p s (go s p (RDead n) ((w_shm s)\<lparr>shm_RLock := m\<rparr>))"
| r_busy: "w_pcs s p = RTry n \<Longrightarrow> pthread_mutex_trylock (shm_RLock (w_shm s)) = (err, m) \<Longrightarrow> err \<noteq> 0 \<Longrightarrow> err \<noteq> EOWNERDEAD \<Longrightarrow>
    shm_step p s (go s p Away ((w_shm s)\<lparr>shm_RLock := m\<rparr>))"
| r_consistent: "w_pcs s p = RDead n \<Longrightarrow> pthread_mutex_consistent (shm_RLock (w_shm s)) = (0, m) \<Longrightarrow>
    shm_step p s (go s p (RFixed n) ((w_shm s)\<lparr>shm_RLock := m\<rparr>))"
| r_again: "w_pcs s p = RFixed n \<Longrightarrow> pthread_mutex_unlock (shm_RLock (w_shm s)) = (0, m) \<Longrightarrow>
    shm_step p s (go s p (RTry n) ((w_shm s)\<lparr>shm_RLock := m\<rparr>))"
| r_get_W: "w_pcs s p = RLocked n \<Longrightarrow> shmmbuf_state_get (shm_WOffset (w_shm s)) = Some (Wo, st) \<Longrightarrow>
    shm_step p s (go s p (RChoose n Wo) ((w_shm s)\<lparr>shm_WOffset := st\<rparr>))"
| r_choose: "w_pcs s p = RChoose n Wo \<Longrightarrow>
    read_choice (shm_Buffer (w_shm s)) (shm_Length (w_shm s)) (st_state (shm_ROffset (w_shm s))) Wo = rc \<Longrightarrow>
    shm_step p s (go s p (case rc of
        RAgain \<Rightarrow> RUnlock 0 None
      | RFatal \<Rightarrow> RUnlock (-1) None
      | RSkip off \<Rightarrow> RSkipTo n off
      | REntry pos sz off \<Rightarrow> if to_ssize sz > to_ssize n then RUnlock (to_ssize sz) None else RCopy pos sz off) (w_shm s))"
| r_copy: "w_pcs s p = RCopy pos sz off \<Longrightarrow>
    shm_step p s (go s p (RPublish (entry_chunk (shm_Buffer (w_shm s)) pos sz) off) (w_shm s))"
| r_publish: "w_pcs s p = RPublish c off \<Longrightarrow> shmmbuf_state_set (shm_ROffset (w_shm s)) off = Some (old, st) \<Longrightarrow>
    shm_step p s ((go s p (RUnlock (to_ssize (length c)) (Some c)) ((w_shm s)\<lparr>shm_ROffset := st\<rparr>))\<lparr>w_taken := w_taken s @ [c]\<rparr>)"
| r_skip: "w_pcs s p = RSkipTo n off \<Longrightarrow> shmmbuf_state_set (shm_ROffset (w_shm s)) off = Some (old, st) \<Longrightarrow>
    shm_step p s (go s p (RRelease n) ((w_shm s)\<lparr>shm_ROffset := st\<rparr>))"
| r_release: "w_pcs s p = RRelease n \<Longrightarrow> pthread_mutex_unlock (shm_RLock (w_shm s)) = (err, m) \<Longrightarrow>
    shm_step p s (go s p (RTry n) ((w_shm s)\<lparr>shm_RLock := m\<rparr>))"
| r_unlock: "w_pcs s p = RUnlock ret b \<Longrightarrow> pthread_mutex_unlock (shm_RLock (w_shm s)) = (err, m) \<Longrightarrow>
    shm_step p s ((go s p Away ((w_shm s)\<lparr>shm_RLock := m\<rparr>))\<lparr>w_seen := w_seen s @ (case b of None \<Rightarrow> [] | Some c \<Rightarrow> [c])\<rparr>)"
| crash: "w_pcs s p \<noteq> Crashed \<Longrightarrow> shm_step p s (go s p Crashed (shm_die (w_pcs s p) dr dw (w_shm s)))"

definition shm_start :: "shmmap_buffer \<Rightarrow> shm_world" where
  "shm_start sb = \<lparr>w_shm = sb, w_pcs = (\<lambda>p. Away), w_written = [], w_taken = [], w_seen = []\<rparr>"

inductive shm_reach :: "shmmap_buffer \<Rightarrow> shm_world \<Rightarrow> bool" for sb where
  start: "shm_reach sb (shm_start sb)"
| step: "shm_reach sb s \<Longrightarrow> shm_step p s s' \<Longrightarrow> shm_reach sb s'"

section \<open>The locks\<close>

definition lock_ok :: "(shm_pc \<Rightarrow> pmutex option) \<Rightarrow> pmutex \<Rightarrow> (nat \<Rightarrow> shm_pc) \<Rightarrow> bool" where
  "lock_ok h m pcs \<longleftrightarrow> (\<forall>p. h (pcs p) \<noteq> None \<longrightarrow> h (pcs p) = Some m) \<and>
     (\<forall>p q. h (pcs p) \<noteq> None \<and> h (pcs q) \<noteq> None \<longrightarrow> p = q) \<and>
     m \<noteq> NotRecoverable \<and> ((\<forall>p. h (pcs p) = None) \<longrightarrow> recoverable m)"

lemma holds_range: "holds_w pc = Some m \<Longrightarrow> \<not> recoverable m \<and> m \<noteq> NotRecoverable" "holds_r pc = Some m \<Longrightarrow> \<not> recoverable m \<and> m \<noteq> NotRecoverable"
  by (cases pc; auto simp: recoverable_def)+

lemma lock_alone: "lock_ok h m pcs \<Longrightarrow> h (pcs p) = Some z \<Longrightarrow> q \<noteq> p \<Longrightarrow> h (pcs q) = None"
  unfolding lock_ok_def by (metis option.distinct(1))

lemma lock_held: "lock_ok h m pcs \<Longrightarrow> h (pcs p) = Some z \<Longrightarrow> m = z"
  unfolding lock_ok_def by force

lemma lock_keep:
  assumes "lock_ok h m pcs" "h x = h (pcs p)"
  shows "lock_ok h m (pcs(p := x))"
proof -
  have "h ((pcs(p := x)) q) = h (pcs q)" for q using assms(2) by simp
  then show ?thesis using assms(1) by (simp add: lock_ok_def del: fun_upd_apply)
qed

lemma lock_change:
  assumes "lock_ok h m pcs" "h (pcs p) = Some m0" "h x = Some m'" "m' \<noteq> NotRecoverable"
  shows "lock_ok h m' (pcs(p := x))"
proof -
  have "h (pcs q) = None" if "q \<noteq> p" for q using lock_alone [OF assms(1,2) that] .
  then show ?thesis using assms(3,4) by (auto simp: lock_ok_def)
qed

lemma lock_leave:
  assumes "lock_ok h m pcs" "h (pcs p) = Some m0" "h x = None" "recoverable m'"
  shows "lock_ok h m' (pcs(p := x))"
proof -
  have "h (pcs q) = None" if "q \<noteq> p" for q using lock_alone [OF assms(1,2) that] .
  then show ?thesis using assms(3,4) by (auto simp: lock_ok_def recoverable_def)
qed

lemma lock_enter:
  assumes "lock_ok h m pcs" "recoverable m" "\<And>pc z. h pc = Some z \<Longrightarrow> \<not> recoverable z" "h x = Some m'" "m' \<noteq> NotRecoverable"
  shows "lock_ok h m' (pcs(p := x))"
proof -
  have "h (pcs q) = None" for q using assms(1-3) unfolding lock_ok_def by (metis not_None_eq)
  then show ?thesis using assms(4,5) by (auto simp: lock_ok_def)
qed

lemma try_cases:
  "pthread_mutex_trylock m = (0, m') \<Longrightarrow> m = Unlocked \<and> m' = Locked"
  "pthread_mutex_trylock m = (EOWNERDEAD, m') \<Longrightarrow> m = OwnerDead \<and> m' = Inconsistent"
  "pthread_mutex_trylock m = (err, m') \<Longrightarrow> err \<noteq> 0 \<Longrightarrow> err \<noteq> EOWNERDEAD \<Longrightarrow> m' = m"
  by (cases m; auto simp: errno_defs)+

section \<open>What a process knows\<close>

fun pc_ok :: "ring_buffer_st \<Rightarrow> byte list list \<Rightarrow> shm_pc \<Rightarrow> bool" where
  "pc_ok st cs (WTry c) = fits st c"
| "pc_ok st cs (WDead c) = fits st c"
| "pc_ok st cs (WFixed c) = fits st c"
| "pc_ok st cs (WLocked c) = fits st c"
| "pc_ok st cs (WChoose c Ro) = (fits st c \<and>
     (\<forall>ch. write_choice (Length st) Ro (WOffset st) (int (asz (length c))) = Some ch \<longrightarrow> choice_at st c = Some ch))"
| "pc_ok st cs (WStore c ch ps) = (fits st c \<and> choice_at st c = Some ch \<and> set ps \<subseteq> set (store_bytes (Length st) ch c) \<and>
     store_all ps (Buffer st) = stored (Length st) ch c (Buffer st))"
| "pc_ok st cs (RChoose n Wo) = stale st cs Wo"
| "pc_ok st cs (RCopy pos sz off) = (\<exists>p. plan_read st = TakeAt p \<and> pos = int p \<and> sz = length (hd cs) \<and>
     off = ROffset (took st p (length (hd cs))))"
| "pc_ok st cs (RPublish c off) = (\<exists>p. plan_read st = TakeAt p \<and> cs \<noteq> [] \<and> c = hd cs \<and> off = ROffset (took st p (length (hd cs))))"
| "pc_ok st cs (RSkipTo n off) = (plan_read st = SkipTail \<and> off = ROffset (skipped st))"
| "pc_ok st cs (RUnlock ret b) = (ret \<noteq> -1)"
| "pc_ok st cs _ = True"

text \<open>Stored bytes.\<close>

lemma store_all_overwrites:
  assumes "i \<in> fst ` set ps"
  shows "store_all ps (buf[i := x]) = store_all ps buf"
  using assms
proof (induction ps arbitrary: buf)
  case (Cons a ps)
  obtain j y where a: "a = (j, y)" by force
  show ?case
  proof (cases "j = i")
    case False
    then have "i \<in> fst ` set ps" using Cons.prems a by auto
    then show ?thesis using Cons.IH [of "buf[j := y]"] a False by (simp add: store_all_def list_update_swap [of j i])
  qed (simp add: a store_all_def)
qed simp

lemma stored_step:
  assumes "store_all ((i, x) # ps) buf = stored L ch c buf" "set ((i, x) # ps) \<subseteq> set (store_bytes L ch c)"
  shows "store_all ps (buf[i := x]) = stored L ch c (buf[i := x])"
proof -
  have "i \<in> fst ` set (store_bytes L ch c)" using assms(2) by force
  then have "stored L ch c (buf[i := x]) = stored L ch c buf" by (simp add: stored_def store_all_overwrites)
  then show ?thesis using assms(1) by (simp add: store_all_def)
qed

lemma length_store_all [simp]: "length (store_all ps buf) = length buf"
  by (induction ps arbitrary: buf) (auto simp: store_all_def)

text \<open>The steps of one side keep what the processes of the other side know.\<close>

lemma know_store:
  assumes r: "rbst_repr st cs" and ok: "pc_ok st cs pc" and h: "holds_w pc = None" and i: "\<not> shm_used st i"
  shows "pc_ok (st\<lparr>Buffer := (Buffer st)[i := x]\<rparr>) cs pc"
proof -
  note pl = plan_read_store [OF r i, of x]
  show ?thesis
  proof (cases "i < nat (Length st)")
    case True
    then show ?thesis using ok h pl stale_store [OF r _ i True] by (cases pc) (auto simp: fits_def took_def skipped_def)
  next
    case False
    then have "(Buffer st)[i := x] = Buffer st" using r by (intro list_update_beyond) (simp add: rbst_repr_def geometry_def)
    then show ?thesis using ok by simp
  qed
qed

lemma know_publish:
  assumes r: "rbst_repr st cs" and f: "fits st c" and ch: "choice_at st c = Some ch"
    and r': "rbst_repr (st\<lparr>WOffset := snd (snd ch)\<rparr>) (cs @ [c])" and ok: "pc_ok st cs pc" and h: "holds_w pc = None"
  shows "pc_ok (st\<lparr>WOffset := snd (snd ch)\<rparr>) (cs @ [c]) pc"
proof -
  let ?st = "st\<lparr>WOffset := snd (snd ch)\<rparr>"
  have "stale st cs (WOffset st)" by (rule stale_now [OF r])
  then have st: "stale ?st (cs @ [c]) (WOffset st)" by (rule stale_publish [OF r _ f ch])
  have same: "?st\<lparr>WOffset := WOffset st\<rparr> = st" by simp
  note sp = stale_plan [OF r' st, unfolded same]
  have ne: "plan_read st \<noteq> Nothing \<Longrightarrow> cs \<noteq> []"
    using plan_read_content [OF r] by (cases "plan_read st") auto
  have hd: "plan_read st \<noteq> Nothing \<Longrightarrow> hd (cs @ [c]) = hd cs" using ne by simp
  have off: "ROffset (took ?st p n) = ROffset (took st p n)" if "plan_read st = TakeAt p" for p n
  proof -
    have "rbst_repr ?st (cs @ [c])" by (rule r')
    note a = read_choice_plan [OF r] and b = read_choice_plan [OF r']
    have "p = rpos st \<or> \<not> same_lap st" using that by (auto simp: plan_read_def split: if_splits)
    moreover have "\<not> same_lap st \<Longrightarrow> snd (snd ch) div Length st = WOffset st div Length st"
    proof -
      assume nl: "\<not> same_lap st"
      then have "same_lap ?st = same_lap st" using publish_offset [OF r f ch] by auto
      moreover have "0 \<le> WOffset st" "WOffset st < 2 * Length st" "0 \<le> snd (snd ch)" "snd (snd ch) < 2 * Length st"
          "0 \<le> ROffset st" "ROffset st < 2 * Length st"
        using r r' by (simp_all add: rbst_repr_def geometry_def)
      ultimately show ?thesis using nl lap_div_mod [of "WOffset st" "Length st"] lap_div_mod [of "snd (snd ch)" "Length st"]
          lap_div_mod [of "ROffset st" "Length st"]
        by (auto simp: same_lap_def)
    qed
    ultimately show ?thesis by (auto simp: took_def)
  qed
  show ?thesis
  proof (cases pc)
    case (RChoose n Wo)
    then show ?thesis using ok stale_publish [OF r _ f ch] by simp
  next
    case (RCopy pos sz o1)
    then show ?thesis using ok sp(1) hd off by auto
  next
    case (RPublish c1 o1)
    then show ?thesis using ok sp(1) hd off by auto
  next
    case (RSkipTo n o1)
    then have s: "plan_read st = SkipTail" "o1 = ROffset (skipped st)" using ok by simp_all
    have "plan_read ?st = SkipTail" using sp(1) s by simp
    moreover have "ROffset (skipped ?st) = ROffset (skipped st)"
      using sp(3) read_choice_plan [OF r] read_choice_plan [OF r'] s calculation by (auto simp: skipped_def)
    ultimately show ?thesis using RSkipTo s by simp
  qed (use ok h in \<open>simp_all add: fits_def\<close>)
qed

lemma know_read:
  assumes r: "rbst_repr st cs" and ok: "pc_ok st cs pc" and h: "holds_r pc = None"
    and mv: "plan_read st = TakeAt p \<and> st' = took st p (length (hd cs)) \<or> plan_read st = SkipTail \<and> st' = skipped st"
  shows "pc_ok st' cs' pc"
proof -
  have e: "Length st' = Length st" "Buffer st' = Buffer st" "WOffset st' = WOffset st"
    using mv by (auto simp: took_def skipped_def)
  have ch: "choice_at st' c = Some x" if "fits st c" "choice_at st c = Some x" for c x
    using mv choice_took [OF r that] choice_skipped [OF r that] by auto
  show ?thesis using ok h ch by (cases pc) (auto simp: fits_def e)
qed

section \<open>The invariant\<close>

lemma ring_of_updates [simp]:
  "ring_of (sb\<lparr>shm_WLock := m\<rparr>) = ring_of sb" "ring_of (sb\<lparr>shm_RLock := m\<rparr>) = ring_of sb"
  "ring_of (sb\<lparr>shm_Buffer := b\<rparr>) = (ring_of sb)\<lparr>Buffer := b\<rparr>"
  "ring_of (sb\<lparr>shm_WOffset := st\<rparr>) = (ring_of sb)\<lparr>WOffset := st_state st\<rparr>"
  "ring_of (sb\<lparr>shm_ROffset := st\<rparr>) = (ring_of sb)\<lparr>ROffset := st_state st\<rparr>"
  by (simp_all add: ring_of_def)

lemma ring_of_same [simp]:
  "(ring_of sb)\<lparr>WOffset := st_state (shm_WOffset sb)\<rparr> = ring_of sb" "(ring_of sb)\<lparr>ROffset := st_state (shm_ROffset sb)\<rparr> = ring_of sb"
  by (simp_all add: ring_of_def)

definition locks_fine :: "shmmap_buffer \<Rightarrow> (nat \<Rightarrow> shm_pc) \<Rightarrow> bool" where
  "locks_fine sb pcs \<longleftrightarrow> recoverable (st_mutex (shm_ROffset sb)) \<and> recoverable (st_mutex (shm_WOffset sb)) \<and>
     lock_ok holds_w (shm_WLock sb) pcs \<and> lock_ok holds_r (shm_RLock sb) pcs"

definition seen_ok :: "shm_world \<Rightarrow> bool" where
  "seen_ok s \<longleftrightarrow> subseq (w_seen s) (w_taken s) \<and>
     (\<forall>p ret c. w_pcs s p = RUnlock ret (Some c) \<longrightarrow> subseq (w_seen s @ [c]) (w_taken s))"

definition know_all :: "shm_world \<Rightarrow> byte list list \<Rightarrow> bool" where
  "know_all s cs \<longleftrightarrow> rbst_repr (ring_of (w_shm s)) cs \<and> w_written s = w_taken s @ cs \<and>
     (\<forall>p. pc_ok (ring_of (w_shm s)) cs (w_pcs s p))"

text \<open>A step of a process \<open>p\<close> that keeps what the others know.\<close>

lemma know_step:
  assumes "know_all s cs" "rbst_repr (ring_of sb') cs'" "w_written s' = w_taken s' @ cs'" "pc_ok (ring_of sb') cs' pc"
    "\<And>q. q \<noteq> p \<Longrightarrow> pc_ok (ring_of sb') cs' (w_pcs s q)" "w_shm s' = sb'" "w_pcs s' = (w_pcs s)(p := pc)"
  shows "know_all s' cs'"
  using assms by (auto simp: know_all_def)

lemma know_local:
  assumes "know_all s cs" "ring_of sb' = ring_of (w_shm s)" "pc_ok (ring_of (w_shm s)) cs pc"
  shows "know_all (go s p pc sb') cs"
  using assms by (auto simp: know_all_def)

text \<open>The locks after each step.\<close>

lemma trylock_id: "pthread_mutex_trylock m = (err, m') \<Longrightarrow> err \<noteq> 0 \<Longrightarrow> err \<noteq> EOWNERDEAD \<Longrightarrow> m' = m"
  by (rule try_cases(3))

lemma step_locks_fine:
  assumes "shm_step p s s'" "locks_fine (w_shm s) (w_pcs s)"
  shows "locks_fine (w_shm s') (w_pcs s')"
proof -
  have off: "recoverable (st_mutex (shm_ROffset (w_shm s)))" "recoverable (st_mutex (shm_WOffset (w_shm s)))"
    and W: "lock_ok holds_w (shm_WLock (w_shm s)) (w_pcs s)" and R: "lock_ok holds_r (shm_RLock (w_shm s)) (w_pcs s)"
    using assms(2) by (simp_all add: locks_fine_def)
  have rec: "recoverable Unlocked" "recoverable OwnerDead" by (simp_all add: recoverable_def)
  have hr: "\<And>pc z. holds_w pc = Some z \<Longrightarrow> \<not> recoverable z" "\<And>pc z. holds_r pc = Some z \<Longrightarrow> \<not> recoverable z"
    using holds_range by blast+
  note get = state_ops_eq off
  note wk = lock_keep [OF W, of _ p] and rk = lock_keep [OF R, of _ p]
  have we: "recoverable (shm_WLock (w_shm s)) \<Longrightarrow> holds_w x = Some m' \<Longrightarrow> m' \<noteq> NotRecoverable \<Longrightarrow>
      lock_ok holds_w m' ((w_pcs s)(p := x))" for x m' by (rule lock_enter [OF W]) (use hr in blast)+
  have re: "recoverable (shm_RLock (w_shm s)) \<Longrightarrow> holds_r x = Some m' \<Longrightarrow> m' \<noteq> NotRecoverable \<Longrightarrow>
      lock_ok holds_r m' ((w_pcs s)(p := x))" for x m' by (rule lock_enter [OF R]) (use hr in blast)+
  note wc = lock_change [OF W, of p] and rc = lock_change [OF R, of p]
  note wl = lock_leave [OF W, of p] and rl = lock_leave [OF R, of p]
  have wm: "holds_w (w_pcs s p) = Some z \<Longrightarrow> shm_WLock (w_shm s) = z" for z by (rule lock_held [OF W])
  have rm: "holds_r (w_pcs s p) = Some z \<Longrightarrow> shm_RLock (w_shm s) = z" for z by (rule lock_held [OF R])
  from assms(1) show ?thesis
  proof cases
    case (w_lock c m)
    then show ?thesis using off try_cases(1) [OF w_lock(3)] rec by (auto simp: locks_fine_def intro!: we rk)
  next
    case (w_dead c m)
    then show ?thesis using off try_cases(2) [OF w_dead(3)] rec by (auto simp: locks_fine_def intro!: we rk)
  next
    case (w_busy c err m)
    then show ?thesis using off trylock_id [OF w_busy(3-5)] by (auto simp: locks_fine_def intro!: wk rk)
  next
    case (w_consistent c m)
    then show ?thesis using off wm by (auto simp: locks_fine_def intro!: wc rk)
  next
    case (w_again c m)
    then show ?thesis using off wm rec by (auto simp: locks_fine_def intro!: wl rk)
  next
    case (w_unlock err m)
    then show ?thesis using off wm rec by (auto simp: locks_fine_def intro!: wl rk)
  next
    case (r_lock n m)
    then show ?thesis using off try_cases(1) [OF r_lock(3)] rec by (auto simp: locks_fine_def intro!: re wk)
  next
    case (r_dead n m)
    then show ?thesis using off try_cases(2) [OF r_dead(3)] rec by (auto simp: locks_fine_def intro!: re wk)
  next
    case (r_busy n err m)
    then show ?thesis using off trylock_id [OF r_busy(3-5)] by (auto simp: locks_fine_def intro!: wk rk)
  next
    case (r_consistent n m)
    then show ?thesis using off rm by (auto simp: locks_fine_def intro!: rc wk)
  next
    case (r_again n m)
    then show ?thesis using off rm rec by (auto simp: locks_fine_def intro!: rl wk)
  next
    case (r_unlock ret b err m)
    then show ?thesis using off rm rec by (auto simp: locks_fine_def intro!: rl wk)
  next
    case (r_release n err m)
    then show ?thesis using off rm rec by (auto simp: locks_fine_def intro!: rl wk)
  next
    case (crash dr dw)
    have "lock_ok holds_w (dead_lock (holds_w (w_pcs s p)) (shm_WLock (w_shm s))) ((w_pcs s)(p := Crashed))"
      by (cases "holds_w (w_pcs s p)") (auto simp: dead_lock_def rec intro: wk wl)
    moreover have "lock_ok holds_r (dead_lock (holds_r (w_pcs s p)) (shm_RLock (w_shm s))) ((w_pcs s)(p := Crashed))"
      by (cases "holds_r (w_pcs s p)") (auto simp: dead_lock_def rec intro: rk rl)
    ultimately show ?thesis using crash off rec by (simp add: locks_fine_def shm_die_def dead_state_def)
  next
    case (r_choose n Wo rc)
    then show ?thesis using off by (auto simp: locks_fine_def intro!: wk rk split: shm_read.split)
  qed (use off get rec in \<open>auto simp: locks_fine_def intro!: wk rk\<close>)
qed

text \<open>What the processes know after each step.\<close>

lemma entry_room_eq: "shm_chunk_ok c \<Longrightarrow> entry_room c = int (asz (length c))"
  using align_entrysize_asz(2) [of "length c"] by (simp add: shm_chunk_ok_def shm_align_eq)

lemma call_fits:
  assumes "rbst_repr (ring_of sb) cs" "shm_chunk_ok c" "write_size_ok (shm_Length sb) c"
  shows "fits (ring_of sb) c"
  using assms shm_write_size [of c "shm_Length sb"] by (simp add: fits_def shm_chunk_ok_def rbst_repr_def geometry_def)

lemma choose_know:
  assumes r: "rbst_repr st cs" and s: "stale st cs Wo" and rc: "read_choice (Buffer st) (Length st) (ROffset st) Wo = rc"
  shows "pc_ok st cs (case rc of RAgain \<Rightarrow> RUnlock 0 None | RFatal \<Rightarrow> RUnlock (-1) None | RSkip off \<Rightarrow> RSkipTo n off
     | REntry pos sz off \<Rightarrow> if to_ssize sz > to_ssize n then RUnlock (to_ssize sz) None else RCopy pos sz off)"
proof (cases "plan_read (st\<lparr>WOffset := Wo\<rparr>) = Nothing")
  case True
  obtain csW where "rbst_repr (st\<lparr>WOffset := Wo\<rparr>) csW" using s by (auto simp: stale_def)
  then have "rc = RAgain" using read_choice_plan [of "st\<lparr>WOffset := Wo\<rparr>" csW] True rc by simp
  then show ?thesis by simp
next
  case False
  note sp = stale_plan [OF r s False]
  have c: "read_choice (Buffer st) (Length st) (ROffset st) (WOffset st) = rc" using sp(3) rc by simp
  show ?thesis
  proof (cases "plan_read st")
    case (TakeAt p)
    have "length (hd cs) \<le> 1073741824" using plan_read_content [OF r] TakeAt by auto
    then have "to_ssize (length (hd cs)) = int (length (hd cs))" by simp
    then show ?thesis using c read_choice_plan [OF r] TakeAt by auto
  qed (use c read_choice_plan [OF r] in \<open>auto simp: skipped_def\<close>)
qed

lemma step_know:
  assumes "shm_step p s s'" "locks_fine (w_shm s) (w_pcs s)" "know_all s cs"
  shows "\<exists>cs'. know_all s' cs'"
proof -
  let ?st = "ring_of (w_shm s)"
  have r: "rbst_repr ?st cs" and wr: "w_written s = w_taken s @ cs" and k: "\<And>q. pc_ok ?st cs (w_pcs s q)"
    using assms(3) by (simp_all add: know_all_def)
  have get: "recoverable (st_mutex (shm_ROffset (w_shm s)))" "recoverable (st_mutex (shm_WOffset (w_shm s)))"
    and W: "lock_ok holds_w (shm_WLock (w_shm s)) (w_pcs s)" and R: "lock_ok holds_r (shm_RLock (w_shm s)) (w_pcs s)"
    using assms(2) by (simp_all add: locks_fine_def)
  have aw: "holds_w (w_pcs s p) = Some z \<Longrightarrow> q \<noteq> p \<Longrightarrow> holds_w (w_pcs s q) = None" for q z by (rule lock_alone [OF W])
  have ar: "holds_r (w_pcs s p) = Some z \<Longrightarrow> q \<noteq> p \<Longrightarrow> holds_r (w_pcs s q) = None" for q z by (rule lock_alone [OF R])
  have loc: "ring_of sb' = ?st \<Longrightarrow> pc_ok ?st cs pc \<Longrightarrow> \<exists>cs'. know_all (go s p pc sb') cs'" for sb' pc
    using know_local [OF assms(3)] by blast
  have loc2: "pc_ok ?st cs pc \<Longrightarrow> \<exists>cs'. know_all (s\<lparr>w_pcs := (w_pcs s)(p := pc)\<rparr>) cs'" for pc
    using loc [of "w_shm s" pc] by simp
  note me = k [of p]
  from assms(1) show ?thesis
  proof cases
    case (w_call c)
    then show ?thesis using call_fits [OF r] by (auto intro!: loc loc2)
  next
    case (w_get_R c Ro st)
    then show ?thesis using me get by (auto intro!: loc loc2 simp: state_ops_eq)
  next
    case (w_room c Ro ch)
    then have f: "fits ?st c" using me by simp
    then have "entry_room c = int (asz (length c))" by (simp add: fits_def entry_room_eq)
    then show ?thesis using w_room me f by (auto intro!: loc loc2 simp: stored_def)
  next
    case (w_store c ch i b ps)
    have f: "fits ?st c" "choice_at ?st c = Some ch" using me w_store by simp_all
    have "(i, b) \<in> set (store_bytes (Length ?st) ch c)" using me w_store by simp
    then have i: "\<not> shm_used ?st i" by (rule store_free [OF r f])
    have nx: "store_all ps ((Buffer ?st)[i := b]) = stored (Length ?st) ch c ((Buffer ?st)[i := b])"
      by (rule stored_step) (use me w_store in simp_all)
    have "know_all s' cs"
    proof (rule know_step [OF assms(3)])
      show "w_shm s' = (w_shm s)\<lparr>shm_Buffer := (shm_Buffer (w_shm s))[i := b]\<rparr>" "w_pcs s' = (w_pcs s)(p := WStore c ch ps)"
        "w_written s' = w_taken s' @ cs" using w_store wr by simp_all
      show "rbst_repr (ring_of ((w_shm s)\<lparr>shm_Buffer := (shm_Buffer (w_shm s))[i := b]\<rparr>)) cs"
        using repr_store [OF r i, of b] by simp
      show "pc_ok (ring_of ((w_shm s)\<lparr>shm_Buffer := (shm_Buffer (w_shm s))[i := b]\<rparr>)) cs (WStore c ch ps)"
        using nx f me w_store by (simp add: fits_def)
      fix q assume "q \<noteq> p"
      then have "holds_w (w_pcs s q) = None" using aw w_store by simp
      then show "pc_ok (ring_of ((w_shm s)\<lparr>shm_Buffer := (shm_Buffer (w_shm s))[i := b]\<rparr>)) cs (w_pcs s q)"
        using know_store [OF r k _ i, of q b] by simp
    qed
    then show ?thesis ..
  next
    case (w_publish c ch old st)
    have f: "fits ?st c" "choice_at ?st c = Some ch" and b: "stored (Length ?st) ch c (Buffer ?st) = Buffer ?st"
      using me w_publish by (simp_all add: store_all_def)
    have st: "st_state st = snd (snd ch)" using w_publish get by (auto simp: state_ops_eq)
    have e: "?st\<lparr>Buffer := Buffer ?st, WOffset := snd (snd ch)\<rparr> = ?st\<lparr>WOffset := snd (snd ch)\<rparr>" by (simp add: ring_of_def)
    have r': "rbst_repr (?st\<lparr>WOffset := snd (snd ch)\<rparr>) (cs @ [c])" using publish_repr [OF r f] unfolding b e .
    have "know_all s' (cs @ [c])"
    proof (rule know_step [OF assms(3)])
      show "w_shm s' = (w_shm s)\<lparr>shm_WOffset := st\<rparr>" "w_pcs s' = (w_pcs s)(p := WUnlock)"
        "w_written s' = w_taken s' @ cs @ [c]" using w_publish wr by simp_all
      show "rbst_repr (ring_of ((w_shm s)\<lparr>shm_WOffset := st\<rparr>)) (cs @ [c])" using r' st by simp
      show "pc_ok (ring_of ((w_shm s)\<lparr>shm_WOffset := st\<rparr>)) (cs @ [c]) WUnlock" by simp
      fix q assume "q \<noteq> p"
      then have "holds_w (w_pcs s q) = None" using aw w_publish by simp
      then show "pc_ok (ring_of ((w_shm s)\<lparr>shm_WOffset := st\<rparr>)) (cs @ [c]) (w_pcs s q)"
        using know_publish [OF r f r' k, of q] st by simp
    qed
    then show ?thesis ..
  next
    case (r_get_W n Wo st)
    then show ?thesis using stale_now [OF r] get by (auto intro!: loc loc2 simp: state_ops_eq)
  next
    case (r_choose n Wo rc)
    then have "stale ?st cs Wo" using me by simp
    then show ?thesis using choose_know [OF r, of Wo rc n] r_choose by (auto intro!: loc loc2)
  next
    case (r_copy pos sz off)
    then obtain t where t: "plan_read ?st = TakeAt t" "pos = int t" "sz = length (hd cs)" "off = ROffset (took ?st t (length (hd cs)))"
      using me by auto
    then have "cs \<noteq> []" "entry_chunk (shm_Buffer (w_shm s)) pos sz = hd cs" using plan_read_content [OF r] by auto
    then show ?thesis using r_copy t by (auto intro!: loc loc2)
  next
    case (r_publish c off old st)
    then obtain t where t: "plan_read ?st = TakeAt t" "cs \<noteq> []" "c = hd cs" "off = ROffset (took ?st t (length (hd cs)))"
      using me by auto
    have st: "?st\<lparr>ROffset := st_state st\<rparr> = took ?st t (length (hd cs))"
      using took_update [of ?st t "length (hd cs)"] t r_publish get by (auto simp: state_ops_eq)
    have "know_all s' (tl cs)"
    proof (rule know_step [OF assms(3)])
      show "w_shm s' = (w_shm s)\<lparr>shm_ROffset := st\<rparr>" "w_pcs s' = (w_pcs s)(p := RUnlock (to_ssize (length c)) (Some c))"
        "w_written s' = w_taken s' @ tl cs" using r_publish wr t by simp_all
      show "rbst_repr (ring_of ((w_shm s)\<lparr>shm_ROffset := st\<rparr>)) (tl cs)" using took_repr [OF r t(1)] st by simp
      have "length c \<le> 1073741824" using plan_read_content [OF r] t by auto
      then show "pc_ok (ring_of ((w_shm s)\<lparr>shm_ROffset := st\<rparr>)) (tl cs) (RUnlock (to_ssize (length c)) (Some c))" by simp
      fix q assume "q \<noteq> p"
      then have "holds_r (w_pcs s q) = None" using ar r_publish by simp
      then show "pc_ok (ring_of ((w_shm s)\<lparr>shm_ROffset := st\<rparr>)) (tl cs) (w_pcs s q)"
        using know_read [OF r k, of q t] t st by simp
    qed
    then show ?thesis ..
  next
    case (r_skip n off old st)
    then have t: "plan_read ?st = SkipTail" "off = ROffset (skipped ?st)" using me by simp_all
    have st: "?st\<lparr>ROffset := st_state st\<rparr> = skipped ?st"
      using skipped_update [of ?st] t r_skip get by (auto simp: state_ops_eq)
    have "know_all s' cs"
    proof (rule know_step [OF assms(3)])
      show "w_shm s' = (w_shm s)\<lparr>shm_ROffset := st\<rparr>" "w_pcs s' = (w_pcs s)(p := RRelease n)"
        "w_written s' = w_taken s' @ cs" using r_skip wr by simp_all
      show "rbst_repr (ring_of ((w_shm s)\<lparr>shm_ROffset := st\<rparr>)) cs" using skipped_repr [OF r t(1)] st by simp
      show "pc_ok (ring_of ((w_shm s)\<lparr>shm_ROffset := st\<rparr>)) cs (RRelease n)" by simp
      fix q assume "q \<noteq> p"
      then have "holds_r (w_pcs s q) = None" using ar r_skip by simp
      then show "pc_ok (ring_of ((w_shm s)\<lparr>shm_ROffset := st\<rparr>)) cs (w_pcs s q)"
        using know_read [OF r k, of q] t st by simp
    qed
    then show ?thesis ..
  next
    case (r_unlock ret b err m)
    then have "know_all s' cs" using assms(3) by (auto simp: know_all_def)
    then show ?thesis ..
  next
    case (crash dr dw)
    have "ring_of (shm_die (w_pcs s p) dr dw (w_shm s)) = ?st" by (simp add: ring_of_def shm_die_def dead_state_def)
    then show ?thesis using crash by (auto intro!: loc loc2)
  qed (use me in \<open>auto intro!: loc loc2\<close>)
qed

lemma step_seen:
  assumes "shm_step p s s'" "locks_fine (w_shm s) (w_pcs s)" "seen_ok s"
  shows "seen_ok s'"
proof -
  have R: "lock_ok holds_r (shm_RLock (w_shm s)) (w_pcs s)" using assms(2) by (simp add: locks_fine_def)
  have su: "subseq (w_seen s) (w_taken s)" and pu: "w_pcs s q = RUnlock ret (Some c) \<Longrightarrow> subseq (w_seen s @ [c]) (w_taken s)" for q ret c
    using assms(3) by (simp_all add: seen_ok_def)
  from assms(1) show ?thesis
  proof cases
    case (r_publish c off old st)
    have "subseq (w_seen s @ [c]) (w_taken s @ [c])" using su by (simp add: list_emb_append_mono)
    then show ?thesis using r_publish su pu by (auto simp: seen_ok_def intro: subseq_rev_drop_many)
  next
    case (r_unlock ret b err m)
    have "w_pcs s q \<noteq> RUnlock r2 (Some c)" if "q \<noteq> p" for q r2 c
    proof
      assume "w_pcs s q = RUnlock r2 (Some c)"
      then show False using lock_alone [OF R, of p Locked q] r_unlock that by simp
    qed
    then show ?thesis using r_unlock su pu [of p] by (auto simp: seen_ok_def split: option.split)
  next
    case (r_choose n Wo rc)
    then show ?thesis using su pu by (auto simp: seen_ok_def split: shm_read.splits if_splits)
  qed (use su pu in \<open>auto simp: seen_ok_def\<close>)
qed

lemma reach_inv:
  assumes "shm_repr sb []" "shm_reach sb s"
  shows "(\<exists>cs. know_all s cs) \<and> locks_fine (w_shm s) (w_pcs s) \<and> seen_ok s"
  using assms(2)
proof induction
  case start
  have "know_all (shm_start sb) []" using assms(1) by (simp add: know_all_def shm_start_def shm_repr_def)
  moreover have "locks_fine sb (\<lambda>p. Away)"
    using assms(1) by (auto simp: locks_fine_def shm_repr_def shm_locks_ok_def lock_ok_def recoverable_def)
  ultimately show ?case by (auto simp: shm_start_def seen_ok_def)
next
  case (step s p s')
  then show ?case using step_know step_locks_fine step_seen by metis
qed

section \<open>Safety\<close>

text \<open>
  C31.  Nothing is lost or corrupted, even when processes die.  Any number of processes write and read one shared ring; each
  may die at any step: between two stored bytes, with a lock or an offset's mutex held, after storing and before
  publishing, after reading and before publishing.  In every reachable state the published writes are, in order, the entries
  taken followed by the content of the ring; what readers returned to their callers is a subsequence of what was
  taken (an entry taken by a process that dies before it returns is gone, none is delivered twice); no read ends with
  \<open>SHMMBUF_READ_FATAL\<close>.
\<close>

theorem shm_crash_safe:
  assumes "shm_repr sb []" "shm_reach sb s"
  shows "w_written s = w_taken s @ shm_content (w_shm s) \<and> subseq (w_seen s) (w_taken s) \<and>
    rbst_repr (ring_of (w_shm s)) (shm_content (w_shm s)) \<and> (\<forall>p b. w_pcs s p \<noteq> RUnlock (-1) b)"
proof -
  obtain cs where k: "know_all s cs" and "seen_ok s" using reach_inv [OF assms] by blast
  moreover have "w_pcs s p \<noteq> RUnlock (-1) b" for p b
  proof
    assume "w_pcs s p = RUnlock (-1) b"
    then show False using k unfolding know_all_def by (metis pc_ok.simps(11))
  qed
  ultimately show ?thesis by (auto simp: know_all_def seen_ok_def shm_content_def repr_content)
qed

section \<open>Progress\<close>

lemma stores_run:
  "w_pcs s p = WStore c ch ps \<Longrightarrow>
    (shm_step p)\<^sup>*\<^sup>* s (go s p (WStore c ch []) ((w_shm s)\<lparr>shm_Buffer := store_all ps (shm_Buffer (w_shm s))\<rparr>))"
proof (induction ps arbitrary: s)
  case Nil
  then have "s = go s p (WStore c ch []) ((w_shm s)\<lparr>shm_Buffer := store_all [] (shm_Buffer (w_shm s))\<rparr>)"
    by (simp add: store_all_def fun_upd_idem)
  then show ?case by (metis rtranclp.rtrancl_refl)
next
  case (Cons a ps)
  obtain i b where a: "a = (i, b)" by force
  let ?s = "go s p (WStore c ch ps) ((w_shm s)\<lparr>shm_Buffer := (shm_Buffer (w_shm s))[i := b]\<rparr>)"
  have 1: "shm_step p s ?s" using Cons.prems a by (intro shm_step.w_store) simp
  have 2: "(shm_step p)\<^sup>*\<^sup>* ?s (go ?s p (WStore c ch []) ((w_shm ?s)\<lparr>shm_Buffer := store_all ps (shm_Buffer (w_shm ?s))\<rparr>))"
    by (rule Cons.IH) simp
  have e: "go ?s p (WStore c ch []) ((w_shm ?s)\<lparr>shm_Buffer := store_all ps (shm_Buffer (w_shm ?s))\<rparr>)
      = go s p (WStore c ch []) ((w_shm s)\<lparr>shm_Buffer := store_all (a # ps) (shm_Buffer (w_shm s))\<rparr>)"
    by (simp add: store_all_def a)
  show ?case using converse_rtranclp_into_rtranclp [of "shm_step p", OF 1 2] unfolding e .
qed

lemma locked_run:
  assumes "w_pcs s p = WLocked c" "recoverable (st_mutex (shm_ROffset (w_shm s)))" "recoverable (st_mutex (shm_WOffset (w_shm s)))"
    "shm_WLock (w_shm s) = Locked"
    "write_choice (shm_Length (w_shm s)) (st_state (shm_ROffset (w_shm s))) (st_state (shm_WOffset (w_shm s))) (entry_room c) = Some ch"
  shows "\<exists>s'. (shm_step p)\<^sup>*\<^sup>* s s' \<and> w_pcs s' p = Away \<and> w_written s' = w_written s @ [c]"
proof -
  let ?st = "\<lparr>st_state = st_state (shm_ROffset (w_shm s)), st_mutex = Unlocked\<rparr>"
  define s1 where "s1 = go s p (WChoose c (st_state (shm_ROffset (w_shm s)))) ((w_shm s)\<lparr>shm_ROffset := ?st\<rparr>)"
  have 1: "shm_step p s s1" unfolding s1_def
    by (rule shm_step.w_get_R) (use assms in \<open>simp_all add: state_ops_eq\<close>)
  define s2 where "s2 = go s1 p (WStore c ch (store_bytes (shm_Length (w_shm s1)) ch c)) (w_shm s1)"
  have 2: "shm_step p s1 s2" unfolding s2_def by (rule shm_step.w_room) (use assms in \<open>simp_all add: s1_def\<close>)
  define s3 where "s3 = go s2 p (WStore c ch []) ((w_shm s2)\<lparr>shm_Buffer := store_all (store_bytes (shm_Length (w_shm s1)) ch c) (shm_Buffer (w_shm s2))\<rparr>)"
  have 3: "(shm_step p)\<^sup>*\<^sup>* s2 s3" unfolding s3_def by (rule stores_run) (simp add: s2_def)
  let ?st4 = "\<lparr>st_state = snd (snd ch), st_mutex = Unlocked\<rparr>"
  define s4 where "s4 = (go s3 p WUnlock ((w_shm s3)\<lparr>shm_WOffset := ?st4\<rparr>))\<lparr>w_written := w_written s3 @ [c]\<rparr>"
  have 4: "shm_step p s3 s4" unfolding s4_def
    by (rule shm_step.w_publish) (use assms in \<open>simp_all add: s3_def s2_def s1_def state_ops_eq\<close>)
  define s5 where "s5 = go s4 p Away ((w_shm s4)\<lparr>shm_WLock := Unlocked\<rparr>)"
  have 5: "shm_step p s4 s5" unfolding s5_def
    by (rule shm_step.w_unlock [of _ _ 0]) (use assms in \<open>simp_all add: s4_def s3_def s2_def s1_def\<close>)
  have "(shm_step p)\<^sup>*\<^sup>* s s5"
    using 1 2 3 4 5 by (meson converse_rtranclp_into_rtranclp rtranclp.rtrancl_into_rtrancl)
  then show ?thesis by (intro exI [of _ s5]) (simp add: s5_def s4_def s3_def s2_def s1_def)
qed


text \<open>A process that died with the write lock held.\<close>

lemma crashed_writer:
  obtains sb s where "shm_repr sb []" "shm_reach sb s" "w_pcs s = (\<lambda>q. if q = 0 then Crashed else Away)"
    "shm_WLock (w_shm s) = OwnerDead" "shm_Length (w_shm s) = 8192" "st_state (shm_ROffset (w_shm s)) = 0"
    "st_state (shm_WOffset (w_shm s)) = 0" "w_written s = []"
proof -
  let ?sys = "\<lparr>sys_open = True, sys_mmap = True, sys_truncate = True\<rparr>"
  obtain sb0 where sb0: "shm_repr sb0 []" "shm_Length sb0 = int (shmmbuf_align_bsize 5000 4096)"
    by (rule create_new [of "replicate 256 0" 5000 Map.empty "''log''" ?sys "(1, 2)" "Some 7"]) (simp_all add: shm_size_ok_def)
  define sb where "sb = sb0\<lparr>shm_WLock := Unlocked, shm_ROffset := \<lparr>st_state = 0, st_mutex = Unlocked\<rparr>,
    shm_WOffset := \<lparr>st_state = 0, st_mutex = Unlocked\<rparr>\<rparr>"
  have L: "shm_Length sb0 = 8192" using sb0(2) by (simp add: shmmbuf_align_bsize_def)
  have r: "shm_repr sb []"
    using sb0(1) L by (simp add: shm_repr_def sb_def shm_locks_ok_def recoverable_def rbst_repr_def geometry_def laid_out_def
        same_lap_def rpos_def wpos_def ring_of_def)
  define s1 where "s1 = go (shm_start sb) 0 (WTry [1]) sb"
  define s2 where "s2 = go s1 0 (WLocked [1]) (sb\<lparr>shm_WLock := Locked\<rparr>)"
  define s3 where "s3 = go s2 0 Crashed (shm_die (WLocked [1]) False False (sb\<lparr>shm_WLock := Locked\<rparr>))"
  have ok: "shm_chunk_ok [1]" by (simp add: shm_chunk_ok_def)
  have fits1: "write_size_ok 8192 [1]" using shm_write_size [of "[1]" 8192] by (simp add: asz_def)
  have "shm_step 0 (shm_start sb) s1" unfolding s1_def
    using shm_step.w_call [of "shm_start sb" 0 "[1]"] ok fits1 L by (simp add: shm_start_def sb_def)
  moreover have "shm_step 0 s1 s2" unfolding s2_def
    using shm_step.w_lock [of s1 0 "[1]" Locked] by (simp add: s1_def sb_def)
  moreover have "shm_step 0 s2 s3" unfolding s3_def
    using shm_step.crash [of s2 0 False False] by (simp add: s2_def)
  ultimately have "shm_reach sb s3" by (meson shm_reach.intros)
  moreover have "w_pcs s3 = (\<lambda>q. if q = 0 then Crashed else Away)" by (auto simp: s3_def s2_def s1_def shm_start_def)
  ultimately show thesis using r L
    by (intro that [of sb s3]) (simp_all add: s3_def s2_def s1_def shm_start_def shm_die_def dead_lock_def dead_state_def sb_def)
qed

lemma shm_crash_safe_witness:
  "\<exists>sb s. shm_repr sb [] \<and> shm_reach sb s \<and> w_pcs s 0 = Crashed \<and> shm_WLock (w_shm s) = OwnerDead \<and>
     w_written s = w_taken s @ shm_content (w_shm s)"
proof -
  obtain sb s where s: "shm_repr sb []" "shm_reach sb s" "w_pcs s = (\<lambda>q. if q = 0 then Crashed else Away)"
    "shm_WLock (w_shm s) = OwnerDead" by (rule crashed_writer)
  have "w_pcs s 0 = Crashed" using s(3) by simp
  then show ?thesis using shm_crash_safe [OF s(1,2)] s(1,2,4) by blast
qed


end
