(* ===== verification/Md5Sum.thy ===== *)
theory Md5Sum
  imports Prelude
begin

unbundle bit_operations_syntax

text \<open>
  \<open>source/common/md5sum.h\<close>: MD5 with a seed.  \<open>clog_logger_create\<close> derives the token of a shared-memory
  log from the digest of its name, seeded by the magic key of the configuration.

  A context is fed piece by piece.  The reference, \<open>md5_spec\<close>, pads a whole message and folds the
  compression function over its blocks.
\<close>

type_synonym word32 = "32 word"
type_synonym md5_state = "word32 \<times> word32 \<times> word32 \<times> word32"

section \<open>Compression\<close>

definition md5_F :: "word32 \<Rightarrow> word32 \<Rightarrow> word32 \<Rightarrow> word32" where
  "md5_F x y z = (x AND y) OR (NOT x AND z)"

definition md5_G :: "word32 \<Rightarrow> word32 \<Rightarrow> word32 \<Rightarrow> word32" where
  "md5_G x y z = (x AND z) OR (y AND NOT z)"

definition md5_H :: "word32 \<Rightarrow> word32 \<Rightarrow> word32 \<Rightarrow> word32" where
  "md5_H x y z = (x XOR y) XOR z"

definition md5_I :: "word32 \<Rightarrow> word32 \<Rightarrow> word32 \<Rightarrow> word32" where
  "md5_I x y z = y XOR (x OR NOT z)"

definition md5_LR :: "word32 \<Rightarrow> nat \<Rightarrow> word32" where
  "md5_LR x n = push_bit n x OR drop_bit (32 - n) x"

definition FF :: "word32 \<Rightarrow> word32 \<Rightarrow> word32 \<Rightarrow> word32 \<Rightarrow> word32 \<Rightarrow> nat \<Rightarrow> word32 \<Rightarrow> word32" where
  "FF a b c d x s ac = md5_LR (a + (md5_F b c d + x + ac)) s + b"

definition GG :: "word32 \<Rightarrow> word32 \<Rightarrow> word32 \<Rightarrow> word32 \<Rightarrow> word32 \<Rightarrow> nat \<Rightarrow> word32 \<Rightarrow> word32" where
  "GG a b c d x s ac = md5_LR (a + (md5_G b c d + x + ac)) s + b"

definition HH :: "word32 \<Rightarrow> word32 \<Rightarrow> word32 \<Rightarrow> word32 \<Rightarrow> word32 \<Rightarrow> nat \<Rightarrow> word32 \<Rightarrow> word32" where
  "HH a b c d x s ac = md5_LR (a + (md5_H b c d + x + ac)) s + b"

definition II :: "word32 \<Rightarrow> word32 \<Rightarrow> word32 \<Rightarrow> word32 \<Rightarrow> word32 \<Rightarrow> nat \<Rightarrow> word32 \<Rightarrow> word32" where
  "II a b c d x s ac = md5_LR (a + (md5_I b c d + x + ac)) s + b"

text \<open>\<open>__md5sum_encode__\<close> and \<open>__md5sum_decode__\<close>: words as bytes, the low byte first.\<close>

definition word_bytes :: "word32 \<Rightarrow> byte list" where
  "word_bytes w = [ucast w, ucast (drop_bit 8 w), ucast (drop_bit 16 w), ucast (drop_bit 24 w)]"

definition md5_encode :: "word32 list \<Rightarrow> byte list" where
  "md5_encode ws = concat (map word_bytes ws)"

fun md5_decode :: "byte list \<Rightarrow> word32 list" where
  "md5_decode (b0 # b1 # b2 # b3 # bs) =
     (ucast b0 OR push_bit 8 (ucast b1) OR push_bit 16 (ucast b2) OR push_bit 24 (ucast b3)) # md5_decode bs"
| "md5_decode _ = []"

definition md5_trans :: "md5_state \<Rightarrow> byte list \<Rightarrow> md5_state" where
  "md5_trans = (\<lambda>(s0, s1, s2, s3) block.
     let x = md5_decode block; a = s0; b = s1; c = s2; d = s3;
          a = FF a b c d (x ! 0) 7 0xd76aa478;
          d = FF d a b c (x ! 1) 12 0xe8c7b756;
          c = FF c d a b (x ! 2) 17 0x242070db;
          b = FF b c d a (x ! 3) 22 0xc1bdceee;
          a = FF a b c d (x ! 4) 7 0xf57c0faf;
          d = FF d a b c (x ! 5) 12 0x4787c62a;
          c = FF c d a b (x ! 6) 17 0xa8304613;
          b = FF b c d a (x ! 7) 22 0xfd469501;
          a = FF a b c d (x ! 8) 7 0x698098d8;
          d = FF d a b c (x ! 9) 12 0x8b44f7af;
          c = FF c d a b (x ! 10) 17 0xffff5bb1;
          b = FF b c d a (x ! 11) 22 0x895cd7be;
          a = FF a b c d (x ! 12) 7 0x6b901122;
          d = FF d a b c (x ! 13) 12 0xfd987193;
          c = FF c d a b (x ! 14) 17 0xa679438e;
          b = FF b c d a (x ! 15) 22 0x49b40821;
          a = GG a b c d (x ! 1) 5 0xf61e2562;
          d = GG d a b c (x ! 6) 9 0xc040b340;
          c = GG c d a b (x ! 11) 14 0x265e5a51;
          b = GG b c d a (x ! 0) 20 0xe9b6c7aa;
          a = GG a b c d (x ! 5) 5 0xd62f105d;
          d = GG d a b c (x ! 10) 9 0x2441453;
          c = GG c d a b (x ! 15) 14 0xd8a1e681;
          b = GG b c d a (x ! 4) 20 0xe7d3fbc8;
          a = GG a b c d (x ! 9) 5 0x21e1cde6;
          d = GG d a b c (x ! 14) 9 0xc33707d6;
          c = GG c d a b (x ! 3) 14 0xf4d50d87;
          b = GG b c d a (x ! 8) 20 0x455a14ed;
          a = GG a b c d (x ! 13) 5 0xa9e3e905;
          d = GG d a b c (x ! 2) 9 0xfcefa3f8;
          c = GG c d a b (x ! 7) 14 0x676f02d9;
          b = GG b c d a (x ! 12) 20 0x8d2a4c8a;
          a = HH a b c d (x ! 5) 4 0xfffa3942;
          d = HH d a b c (x ! 8) 11 0x8771f681;
          c = HH c d a b (x ! 11) 16 0x6d9d6122;
          b = HH b c d a (x ! 14) 23 0xfde5380c;
          a = HH a b c d (x ! 1) 4 0xa4beea44;
          d = HH d a b c (x ! 4) 11 0x4bdecfa9;
          c = HH c d a b (x ! 7) 16 0xf6bb4b60;
          b = HH b c d a (x ! 10) 23 0xbebfbc70;
          a = HH a b c d (x ! 13) 4 0x289b7ec6;
          d = HH d a b c (x ! 0) 11 0xeaa127fa;
          c = HH c d a b (x ! 3) 16 0xd4ef3085;
          b = HH b c d a (x ! 6) 23 0x4881d05;
          a = HH a b c d (x ! 9) 4 0xd9d4d039;
          d = HH d a b c (x ! 12) 11 0xe6db99e5;
          c = HH c d a b (x ! 15) 16 0x1fa27cf8;
          b = HH b c d a (x ! 2) 23 0xc4ac5665;
          a = II a b c d (x ! 0) 6 0xf4292244;
          d = II d a b c (x ! 7) 10 0x432aff97;
          c = II c d a b (x ! 14) 15 0xab9423a7;
          b = II b c d a (x ! 5) 21 0xfc93a039;
          a = II a b c d (x ! 12) 6 0x655b59c3;
          d = II d a b c (x ! 3) 10 0x8f0ccc92;
          c = II c d a b (x ! 10) 15 0xffeff47d;
          b = II b c d a (x ! 1) 21 0x85845dd1;
          a = II a b c d (x ! 8) 6 0x6fa87e4f;
          d = II d a b c (x ! 15) 10 0xfe2ce6e0;
          c = II c d a b (x ! 6) 15 0xa3014314;
          b = II b c d a (x ! 13) 21 0x4e0811a1;
          a = II a b c d (x ! 4) 6 0xf7537e82;
          d = II d a b c (x ! 11) 10 0xbd3af235;
          c = II c d a b (x ! 2) 15 0x2ad7d2bb;
          b = II b c d a (x ! 9) 21 0xeb86d391
     in (s0 + a, s1 + b, s2 + c, s3 + d))"

section \<open>Context\<close>

record md5sum_t =
  md_count0 :: word32
  md_count1 :: word32
  md_state :: md5_state
  md_buffer :: "byte list"
  md_digest :: "byte list"

definition md5sum_init :: "word32 \<Rightarrow> md5sum_t" where
  "md5sum_init sd = \<lparr>md_count0 = 0, md_count1 = 0,
     md_state = (0x67452301 + sd * 11, 0xEFCDAB89 + sd * 71, 0x98BADCFE + sd * 37, 0x10325476 + sd * 97),
     md_buffer = replicate 64 0, md_digest = replicate 16 0\<rparr>"

text \<open>
  The loop over whole blocks of the input from \<open>i\<close> on.  The test \<open>i + 64 <= inputlen\<close> is on 32 bits: for
  inputs of nearly 4 GB it wraps and the loop reads behind the input, which is \<open>None\<close>.
\<close>

function trans_loop :: "md5_state \<Rightarrow> byte list \<Rightarrow> nat \<Rightarrow> (md5_state \<times> nat) option" where
  "trans_loop st input i =
     (if int (i + 64) mod 4294967296 \<le> int (length input) then
        (if i + 64 \<le> length input then trans_loop (md5_trans st (get_bytes input i 64)) input (i + 64) else None)
      else Some (st, i))"
  by pat_completeness auto
termination by (relation "measure (\<lambda>(st, input, i). length input - i)") auto

declare trans_loop.simps [simp del]

definition md5sum_update :: "md5sum_t \<Rightarrow> byte list \<Rightarrow> md5sum_t option" where
  "md5sum_update ctx input =
     (let inputlen = word_of_nat (length input);
          index = unat (drop_bit 3 (md_count0 ctx) AND 0x3F);
          partlen = 64 - index;
          count0 = md_count0 ctx + push_bit 3 inputlen;
          carried = (if count0 < push_bit 3 inputlen then md_count1 ctx + 1 else md_count1 ctx);
          count1 = carried + drop_bit 29 inputlen;
          ctx1 = ctx\<lparr>md_count0 := count0, md_count1 := count1\<rparr>
      in if length input \<ge> partlen then
           (let buf = put_bytes (md_buffer ctx) index (take partlen input)
            in case trans_loop (md5_trans (md_state ctx) buf) input partlen of
                 None \<Rightarrow> None
               | Some (st, i) \<Rightarrow> Some (ctx1\<lparr>md_state := st, md_buffer := put_bytes buf 0 (drop i input)\<rparr>))
         else Some (ctx1\<lparr>md_buffer := put_bytes (md_buffer ctx) index input\<rparr>))"

definition md5_padding :: "byte list" where
  "md5_padding = 0x80 # replicate 63 0"

definition md5sum_done :: "md5sum_t \<Rightarrow> md5sum_t option" where
  "md5sum_done ctx =
     (let index = unat (drop_bit 3 (md_count0 ctx) AND 0x3F);
          padlen = (if index < 56 then 56 - index else 120 - index);
          bits = md5_encode [md_count0 ctx, md_count1 ctx]
      in case md5sum_update ctx (take padlen md5_padding) of
           None \<Rightarrow> None
         | Some ctx1 \<Rightarrow>
             (case md5sum_update ctx1 bits of
                None \<Rightarrow> None
              | Some ctx2 \<Rightarrow>
                  (case md_state ctx2 of (a, b, c, d) \<Rightarrow> Some (ctx2\<lparr>md_digest := md5_encode [a, b, c, d]\<rparr>))))"

definition hex_digit :: "string \<Rightarrow> nat \<Rightarrow> char" where
  "hex_digit digits n = digits ! (n mod 16)"

definition md5_format_lower :: "byte list \<Rightarrow> string" where
  "md5_format_lower digest =
     concat (map (\<lambda>b. [hex_digit ''0123456789abcdef'' (unat b div 16), hex_digit ''0123456789abcdef'' (unat b)]) digest)"

definition md5_format_upper :: "byte list \<Rightarrow> string" where
  "md5_format_upper digest =
     concat (map (\<lambda>b. [hex_digit ''0123456789ABCDEF'' (unat b div 16), hex_digit ''0123456789ABCDEF'' (unat b)]) digest)"

definition md5sum_bytes :: "byte list \<Rightarrow> word32 \<Rightarrow> string option" where
  "md5sum_bytes bbuf sd =
     (case md5sum_update (md5sum_init sd) bbuf of
        None \<Rightarrow> None
      | Some ctx \<Rightarrow> map_option (\<lambda>c. md5_format_lower (md_digest c)) (md5sum_done ctx))"

section \<open>The reference\<close>

function md5_blocks :: "md5_state \<Rightarrow> byte list \<Rightarrow> md5_state" where
  "md5_blocks st bs = (if 64 \<le> length bs then md5_blocks (md5_trans st (take 64 bs)) (drop 64 bs) else st)"
  by pat_completeness auto
termination by (relation "measure (\<lambda>(st, bs). length bs)") auto

declare md5_blocks.simps [simp del]

definition md5_pad :: "byte list \<Rightarrow> byte list" where
  "md5_pad msg = msg @ 0x80 # replicate ((119 - length msg mod 64) mod 64) 0 @ le_bytes 8 (8 * length msg)"

definition md5_spec :: "word32 \<Rightarrow> byte list \<Rightarrow> byte list" where
  "md5_spec sd msg =
     (case md5_blocks (md_state (md5sum_init sd)) (md5_pad msg) of (a, b, c, d) \<Rightarrow> md5_encode [a, b, c, d])"

lemma md5_blocks_short: "length bs < 64 \<Longrightarrow> md5_blocks st bs = st"
  by (subst md5_blocks.simps) simp

lemma md5_blocks_append:
  "length xs mod 64 = 0 \<Longrightarrow> md5_blocks st (xs @ ys) = md5_blocks (md5_blocks st xs) ys"
proof (induction st xs rule: md5_blocks.induct)
  case (1 st xs)
  show ?case
  proof (cases "64 \<le> length xs")
    case True
    then have "length (drop 64 xs) mod 64 = 0" using 1(2) by (simp add: mod_if [of "length xs"])
    then have "md5_blocks (md5_trans st (take 64 xs)) (drop 64 xs @ ys)
        = md5_blocks (md5_blocks (md5_trans st (take 64 xs)) (drop 64 xs)) ys" using "1.IH" [OF True] by simp
    then show ?thesis using True md5_blocks.simps [of st "xs @ ys"] md5_blocks.simps [of st xs] by simp
  next
    case False
    then have "xs = []" using 1(2) by simp
    then show ?thesis by (simp add: md5_blocks_short)
  qed
qed

lemma md5_blocks_one: "length x = 64 \<Longrightarrow> md5_blocks st (x @ r) = md5_blocks (md5_trans st x) r"
  using md5_blocks.simps [of st "x @ r"] by simp

lemma trans_loop_blocks:
  "length input < 4294967232 \<Longrightarrow> i \<le> length input \<Longrightarrow>
     trans_loop st input i = Some (md5_blocks st (drop i input), i + 64 * ((length input - i) div 64))"
proof (induction st input i rule: trans_loop.induct)
  case (1 st input i)
  have m: "int (i + 64) mod 4294967296 = int (i + 64)" using 1(2,3) by (intro mod_pos_pos_trivial) simp_all
  show ?case
  proof (cases "i + 64 \<le> length input")
    case True
    have "(length input - i) div 64 = Suc ((length input - (i + 64)) div 64)"
      using True by (simp add: div_if [of "length input - i"])
    moreover have "trans_loop st input i = trans_loop (md5_trans st (get_bytes input i 64)) input (i + 64)"
      using True m by (subst trans_loop.simps) simp
    moreover have "md5_blocks st (drop i input) = md5_blocks (md5_trans st (get_bytes input i 64)) (drop (i + 64) input)"
      using True by (subst md5_blocks.simps) (auto simp: get_bytes_def add.commute)
    ultimately show ?thesis using 1 True m by simp
  next
    case False
    then show ?thesis using m by (subst trans_loop.simps) (simp add: md5_blocks_short)
  qed
qed

section \<open>A context represents the bytes fed to it\<close>

definition md5_repr :: "md5sum_t \<Rightarrow> word32 \<Rightarrow> byte list \<Rightarrow> bool" where
  "md5_repr ctx sd m \<longleftrightarrow> length (md_buffer ctx) = 64 \<and>
     unat (md_count0 ctx) + 4294967296 * unat (md_count1 ctx) = 8 * length m mod 18446744073709551616 \<and>
     md_state ctx = md5_blocks (md_state (md5sum_init sd)) m \<and>
     take (length m mod 64) (md_buffer ctx) = drop (length m div 64 * 64) m"

text \<open>The bit count: two words with a carry add the length.\<close>

lemma count_index:
  assumes "unat c0 + 4294967296 * unat (c1 :: word32) = 8 * n mod 18446744073709551616"
  shows "unat (drop_bit 3 (c0 :: word32) AND 0x3F) = n mod 64"
proof -
  have l: "unat c0 < 4294967296" using unsigned_less [of c0] by simp
  then have "(unat c0 + 4294967296 * unat c1) mod 4294967296 = unat c0" by simp
  then have "8 * n mod 18446744073709551616 mod 4294967296 = unat c0" by (simp only: assms)
  then have "unat c0 = 8 * n mod 4294967296" by (simp add: mod_mod_cancel)
  moreover have "drop_bit 3 c0 AND 0x3F = take_bit 6 (drop_bit 3 c0)"
    using take_bit_eq_mask [of 6 "drop_bit 3 c0"] by (simp add: mask_eq_exp_minus_1)
  ultimately have "unat (drop_bit 3 c0 AND 0x3F) = 8 * n mod 4294967296 div 8 mod 64"
    by (simp add: take_bit_eq_mod drop_bit_eq_div unat_div unat_mod)
  also have "8 * n mod 4294967296 = 8 * (n mod 536870912)" using mult_mod_right [of 8 n 536870912] by simp
  finally show ?thesis by (simp add: mod_mod_cancel)
qed

lemma mod_add_block: "a < B \<Longrightarrow> (a + B * z) mod (B * C) = a + B * (z mod C)" for a B C z :: nat
  by (simp add: mod_mult2_eq)

lemma same_block:
  assumes "n mod 64 + k < (64 :: nat)"
  shows "(n + k) mod 64 = n mod 64 + k" "(n + k) div 64 = n div 64"
proof -
  obtain q r where n: "n = r + q * 64" "r < 64" by (rule that [of "n mod 64" "n div 64"]) simp_all
  then have "n + k = (r + k) + q * 64" "r + k < 64" using assms by simp_all
  then show "(n + k) mod 64 = n mod 64 + k" "(n + k) div 64 = n div 64" using n by (simp_all only: mod_mult_self1 div_mult_self1 mod_less div_less)
qed

lemma count_add:
  fixes c0 c1 :: word32
  assumes "unat c0 + 4294967296 * unat c1 = 8 * n mod 18446744073709551616" "k < 4294967296"
  defines "s \<equiv> push_bit 3 (word_of_nat k :: word32)"
  defines "c0' \<equiv> c0 + s"
  defines "c1' \<equiv> (if c0' < s then c1 + 1 else c1) + drop_bit 29 (word_of_nat k)"
  shows "unat c0' + 4294967296 * unat c1' = 8 * (n + k) mod 18446744073709551616"
proof -
  have l: "unat c0 < 4294967296" "unat c1 < 4294967296" using unsigned_less [of c0] unsigned_less [of c1] by simp_all
  have s: "unat s = 8 * k mod 4294967296"
    by (simp add: s_def push_bit_eq_mult unat_word_ariths unat_of_nat take_bit_eq_mod mod_mult_right_eq mult.commute)
  have h: "unat (drop_bit 29 (word_of_nat k :: word32)) = k div 536870912"
    using assms(2) by (simp only: unsigned_drop_bit_eq unsigned_of_nat drop_bit_eq_div) (simp add: unat_div unat_of_nat take_bit_nat_eq_self)
  have c0: "unat c0' = (unat c0 + unat s) mod 4294967296" by (simp add: c0'_def unat_word_ariths)
  have sl: "unat s < 4294967296" by (simp add: s)
  have cy: "c0' < s \<longleftrightarrow> 4294967296 \<le> unat c0 + unat s"
    unfolding word_less_nat_alt c0 using l(1) sl by (cases "4294967296 \<le> unat c0 + unat s") (simp_all add: mod_if [of "unat c0 + unat s"])
  define cr where "cr = (unat c0 + unat s) div 4294967296"
  have cr: "cr = (if c0' < s then 1 else 0)" unfolding cy cr_def using l(1) sl by (simp add: div_if [of "unat c0 + unat s"])
  have c1: "unat c1' = (unat c1 + cr + k div 536870912) mod 4294967296"
    by (simp add: c1'_def cr unat_word_ariths h mod_simps)
  have k: "8 * k = unat s + 4294967296 * (k div 536870912)"
    using div_mult_mod_eq [of "8 * k" 4294967296] div_mult_mult1 [of 8 k 536870912] by (simp add: s)
  have "8 * (n + k) mod 18446744073709551616 = (8 * n mod 18446744073709551616 + 8 * k) mod 18446744073709551616"
    by (simp add: mod_simps)
  also have "\<dots> = (unat c0 + unat s + 4294967296 * (unat c1 + k div 536870912)) mod 18446744073709551616"
    by (simp only: assms(1) [symmetric] k) (simp add: algebra_simps)
  also have "unat c0 + unat s = unat c0' + 4294967296 * cr" by (simp add: c0 cr_def)
  also have "unat c0' + 4294967296 * cr + 4294967296 * (unat c1 + k div 536870912)
      = unat c0' + 4294967296 * (unat c1 + cr + k div 536870912)" by simp
  also have "(unat c0' + 4294967296 * (unat c1 + cr + k div 536870912)) mod 18446744073709551616
      = unat c0' + 4294967296 * unat c1'"
    using mod_add_block [of "unat c0'" 4294967296 "unat c1 + cr + k div 536870912" 4294967296] by (simp add: c0 c1)
  finally show ?thesis by simp
qed

lemma md5_repr_init: "md5_repr (md5sum_init sd) sd []"
  by (simp add: md5_repr_def md5sum_init_def md5_blocks_short)

text \<open>Feeding bytes appends them to what the context represents.\<close>

lemma md5sum_update_repr:
  assumes "md5_repr ctx sd m" "length input < 4294967232"
  obtains ctx' where "md5sum_update ctx input = Some ctx'" "md5_repr ctx' sd (m @ input)"
    "md_digest ctx' = md_digest ctx"
proof -
  define j where "j = length m mod 64"
  define a b where "a = take (length m div 64 * 64) m" "b = drop (length m div 64 * 64) m"
  have m: "m = a @ b" "length a mod 64 = 0" "length b = j" "j < 64" by (auto simp: a_b_def j_def minus_div_mult_eq_mod)
  have buf: "length (md_buffer ctx) = 64" "take j (md_buffer ctx) = b"
    using assms(1) unfolding md5_repr_def j_def a_b_def by blast+
  have "md_state ctx = md5_blocks (md_state (md5sum_init sd)) (a @ b)"
    using assms(1) unfolding md5_repr_def m(1) [symmetric] by blast
  then have st: "md_state ctx = md5_blocks (md_state (md5sum_init sd)) a"
    using m(2-4) by (simp add: md5_blocks_append md5_blocks_short)
  have cnt: "unat (md_count0 ctx) + 4294967296 * unat (md_count1 ctx) = 8 * length m mod 18446744073709551616"
    using assms(1) by (simp add: md5_repr_def)
  have idx: "unat (drop_bit 3 (md_count0 ctx) AND 0x3F) = j" using count_index [OF cnt] by (simp add: j_def)
  have lm: "length m mod 64 = j" "length m div 64 * 64 = length a" by (simp_all add: j_def a_b_def(1))
  define p where "p = 64 - j"
  define c0 where "c0 = md_count0 ctx + push_bit 3 (word_of_nat (length input))"
  define c1 where "c1 = (if c0 < push_bit 3 (word_of_nat (length input)) then md_count1 ctx + 1 else md_count1 ctx)
    + drop_bit 29 (word_of_nat (length input))"
  define ctx1 where "ctx1 = ctx\<lparr>md_count0 := c0, md_count1 := c1\<rparr>"
  have cnt': "unat c0 + 4294967296 * unat c1 = 8 * length (m @ input) mod 18446744073709551616"
    unfolding c0_def c1_def length_append using assms(2) by (intro count_add [OF cnt]) simp
  have upd: "md5sum_update ctx input = (if p \<le> length input then
      (let buf = put_bytes (md_buffer ctx) j (take p input)
       in case trans_loop (md5_trans (md_state ctx) buf) input p of None \<Rightarrow> None
          | Some (st, i) \<Rightarrow> Some (ctx1\<lparr>md_state := st, md_buffer := put_bytes buf 0 (drop i input)\<rparr>))
    else Some (ctx1\<lparr>md_buffer := put_bytes (md_buffer ctx) j input\<rparr>))"
    unfolding md5sum_update_def Let_def idx c0_def c1_def p_def ctx1_def ..
  show thesis
  proof (cases "p \<le> length input")
    case False
    define buf' where "buf' = put_bytes (md_buffer ctx) j input"
    have sb: "(length m + length input) mod 64 = j + length input" "(length m + length input) div 64 = length m div 64"
      using False same_block [of "length m" "length input"] by (simp_all add: j_def p_def)
    have "md5_blocks (md_state (md5sum_init sd)) (m @ input) = md_state ctx"
      using False m(2-4) unfolding m(1) append_assoc by (simp add: md5_blocks_append md5_blocks_short st p_def)
    moreover have "length buf' = 64" "take (j + length input) buf' = b @ input"
      using False buf m(3,4) by (simp_all add: buf'_def put_bytes_def p_def)
    moreover have "drop (length a) (m @ input) = b @ input" by (simp add: m(1))
    ultimately have "md5_repr (ctx1\<lparr>md_buffer := buf'\<rparr>) sd (m @ input)"
      using cnt' by (simp add: md5_repr_def sb lm ctx1_def)
    then show thesis using False upd by (intro that [of "ctx1\<lparr>md_buffer := buf'\<rparr>"]) (simp_all add: buf'_def ctx1_def)
  next
    case True
    have p: "p \<le> length input" "j + p = 64" using True m(4) by (simp_all add: p_def)
    have b1: "put_bytes (md_buffer ctx) j (take p input) = b @ take p input"
      using buf p m(3) by (simp add: put_bytes_def)
    define st1 where "st1 = md5_trans (md_state ctx) (b @ take p input)"
    define r where "r = drop p input"
    define i where "i = p + 64 * (length r div 64)"
    have loop: "trans_loop st1 input p = Some (md5_blocks st1 r, i)"
      using trans_loop_blocks [OF assms(2) p(1)] by (simp add: r_def i_def)
    have di: "drop i input = drop (length r div 64 * 64) r" by (simp add: r_def i_def add.commute mult.commute)
    have mi: "m @ input = a @ (b @ take p input) @ r" by (simp add: m(1) r_def)
    have lb: "length (b @ take p input) = 64" using p m(3) by simp
    have "md5_blocks (md_state (md5sum_init sd)) (m @ input) = md5_blocks (md_state ctx) ((b @ take p input) @ r)"
      unfolding mi md5_blocks_append [OF m(2)] st ..
    also have "\<dots> = md5_blocks st1 r" unfolding md5_blocks_one [OF lb] st1_def ..
    finally have bl: "md5_blocks (md_state (md5sum_init sd)) (m @ input) = md5_blocks st1 r" .
    have len: "length (m @ input) = length a + 64 + length r" unfolding mi using lb by simp
    have aa: "length a div 64 * 64 = length a" using m(2) div_mult_mod_eq [of "length a" 64] by simp
    then have ad: "length a + 64 + length r = length r + (length a div 64 + 1) * 64" by simp
    have "length (m @ input) mod 64 = length r mod 64" "length (m @ input) div 64 * 64 = length a + 64 + length r div 64 * 64"
      unfolding len unfolding ad by (simp_all only: mod_mult_self1 div_mult_self1) (simp add: aa add_mult_distrib)
    moreover have "drop (length a + 64 + length r div 64 * 64) (m @ input) = drop (length r div 64 * 64) r"
      unfolding mi using lb by simp
    ultimately have "length (m @ input) mod 64 = length r mod 64" "drop (length (m @ input) div 64 * 64) (m @ input) = drop (length r div 64 * 64) r"
      by simp_all
    moreover have "length (drop (length r div 64 * 64) r) = length r mod 64" by (simp add: minus_div_mult_eq_mod)
    moreover define buf' where "buf' = put_bytes (b @ take p input) 0 (drop i input)"
    moreover have "length buf' = 64" "take (length r mod 64) buf' = drop (length r div 64 * 64) r"
      using lb by (simp_all add: buf'_def put_bytes_def di minus_div_mult_eq_mod less_imp_le)
    ultimately have "md5_repr (ctx1\<lparr>md_state := md5_blocks st1 r, md_buffer := buf'\<rparr>) sd (m @ input)"
      using cnt' bl by (simp add: md5_repr_def ctx1_def del: length_append)
    then show thesis using True upd
      by (intro that [of "ctx1\<lparr>md_state := md5_blocks st1 r, md_buffer := buf'\<rparr>"])
        (simp_all add: b1 st1_def [symmetric] loop buf'_def ctx1_def)
  qed
qed

lemma byte_of_word: "(ucast (drop_bit k (w :: word32)) :: byte) = word_of_nat (unat w div 2 ^ k mod 256)"
proof (rule unsigned_word_eqI [where 'a = nat])
  have "unat (ucast (drop_bit k w) :: byte) = unat (drop_bit k w) mod 256"
    by (simp only: unsigned_ucast_eq) (simp add: take_bit_eq_mod)
  also have "unat (drop_bit k w) = unat w div 2 ^ k" using unsigned_less [of w, where 'a = nat] by (simp only: unsigned_drop_bit_eq) (simp add: drop_bit_eq_div take_bit_nat_eq_self)
  finally show "unat (ucast (drop_bit k w) :: byte) = unat (word_of_nat (unat w div 2 ^ k mod 256) :: byte)"
    by (simp add: unat_of_nat)
qed

lemma word_bytes_le: "word_bytes w = le_bytes 4 (unat w)"
proof -
  have l4: "le_bytes 4 n = [word_of_nat (n mod 256), word_of_nat (n div 256 mod 256), word_of_nat (n div 65536 mod 256),
      word_of_nat (n div 16777216 mod 256)]" for n
  proof -
    have "le_bytes (Suc (Suc (Suc (Suc 0)))) n = [word_of_nat (n mod 256), word_of_nat (n div 256 mod 256),
        word_of_nat (n div 65536 mod 256), word_of_nat (n div 16777216 mod 256)]"
      by (simp add: div_mult2_eq [symmetric])
    moreover have "Suc (Suc (Suc (Suc 0))) = 4" by simp
    ultimately show ?thesis by (simp only:)
  qed
  show ?thesis
    using byte_of_word [of 0 w] byte_of_word [of 8 w] byte_of_word [of 16 w] byte_of_word [of 24 w]
    by (simp add: word_bytes_def l4)
qed

lemma le_bytes_append: "le_bytes (j + k) n = le_bytes j n @ le_bytes k (n div 256 ^ j)"
  by (induction j arbitrary: n) (simp_all add: div_mult2_eq)

lemma le_bytes_mod: "le_bytes k (n mod 256 ^ k) = le_bytes k n"
proof (induction k arbitrary: n)
  case (Suc k)
  have "n mod 256 ^ Suc k = n mod 256 + 256 * (n div 256 mod 256 ^ k)" by (simp add: mod_mult2_eq)
  then show ?case using Suc [of "n div 256"] by simp
qed simp

lemma md5_encode_count: "md5_encode [c0, c1] = le_bytes 8 (unat c0 + 4294967296 * unat c1)"
proof -
  have l: "unat c0 < 4294967296" using unsigned_less [of c0] by simp
  define v where "v = unat c0 + 4294967296 * unat c1"
  have v: "v mod 256 ^ 4 = unat c0" "v div 256 ^ 4 = unat c1" using l by (simp_all add: v_def)
  have "le_bytes (4 + 4) v = le_bytes 4 (v mod 256 ^ 4) @ le_bytes 4 (v div 256 ^ 4)" by (simp only: le_bytes_append le_bytes_mod)
  then show ?thesis unfolding v by (simp add: md5_encode_def word_bytes_le v_def)
qed

text \<open>Finishing pads what the context represents.\<close>

lemma md5sum_done_spec:
  assumes "md5_repr ctx sd m"
  obtains ctx' where "md5sum_done ctx = Some ctx'" "md_digest ctx' = md5_spec sd m"
proof -
  have cnt: "unat (md_count0 ctx) + 4294967296 * unat (md_count1 ctx) = 8 * length m mod 18446744073709551616"
    using assms by (simp add: md5_repr_def)
  define j where "j = length m mod 64"
  have j: "unat (drop_bit 3 (md_count0 ctx) AND 0x3F) = j" "j < 64" using count_index [OF cnt] by (simp_all add: j_def)
  define n where "n = (if j < 56 then 56 - j else 120 - j)"
  define z where "z = (119 - j) mod 64"
  have n: "n = Suc z" "n \<le> 64" using j(2) by (auto simp: n_def z_def mod_if)
  have pad: "take n md5_padding = 0x80 # replicate z 0" using n by (simp add: md5_padding_def min_def)
  have bits: "md5_encode [md_count0 ctx, md_count1 ctx] = le_bytes 8 (8 * length m)"
    using le_bytes_mod [of 8 "8 * length m"] by (simp add: md5_encode_count cnt)
  obtain c1 where c1: "md5sum_update ctx (take n md5_padding) = Some c1" "md5_repr c1 sd (m @ take n md5_padding)"
    using md5sum_update_repr [OF assms, of "take n md5_padding"] n(2) by (auto simp: md5_padding_def min_def)
  obtain c2 where c2: "md5sum_update c1 (le_bytes 8 (8 * length m)) = Some c2"
      "md5_repr c2 sd ((m @ take n md5_padding) @ le_bytes 8 (8 * length m))"
    using md5sum_update_repr [OF c1(2), of "le_bytes 8 (8 * length m)"] by auto
  obtain a b c d where st: "md_state c2 = (a, b, c, d)" by (cases "md_state c2") auto
  have pm: "(m @ take n md5_padding) @ le_bytes 8 (8 * length m) = md5_pad m"
    unfolding pad by (simp add: md5_pad_def j_def z_def)
  have e: "md5_blocks (md_state (md5sum_init sd)) (md5_pad m) = (a, b, c, d)"
    using c2(2) st unfolding pm md5_repr_def by simp
  have "md5_spec sd m = md5_encode [a, b, c, d]" by (simp only: md5_spec_def e prod.case)
  moreover have "md5sum_done ctx = Some (c2\<lparr>md_digest := md5_encode [a, b, c, d]\<rparr>)"
    unfolding md5sum_done_def Let_def j(1) n_def [symmetric] bits by (simp add: c1 c2 st)
  ultimately show thesis using that [of "c2\<lparr>md_digest := md5_encode [a, b, c, d]\<rparr>"] by simp
qed

section \<open>Files\<close>

text \<open>
  \<open>md5sum_file\<close> reads a stream in pieces of the size of the caller's buffer.  A stream is its bytes and the
  position, if any, where reading fails; \<open>fread\<close> returns the bytes up to there, and a short count means the
  end or the failure.  \<open>None\<close> as a result is a loop that does not end (an empty buffer) or reads behind
  a piece of more than 4 GB.  The buffer gets the 32 digits and a NUL.
\<close>

record stream =
  st_bytes :: "byte list"
  st_fail :: "nat option"

definition fread :: "stream \<Rightarrow> nat \<Rightarrow> nat \<Rightarrow> byte list" where
  "fread fp pos n =
     take n (drop pos (case st_fail fp of None \<Rightarrow> st_bytes fp | Some k \<Rightarrow> take k (st_bytes fp)))"

definition stream_failed :: "stream \<Rightarrow> bool" where
  "stream_failed fp \<longleftrightarrow> (case st_fail fp of None \<Rightarrow> False | Some k \<Rightarrow> k < length (st_bytes fp))"

partial_function (option) file_loop :: "nat \<Rightarrow> stream \<Rightarrow> nat \<Rightarrow> md5sum_t \<Rightarrow> md5sum_t option option" where
  "file_loop md5bufsize fp pos ctx =
     (let rd = fread fp pos md5bufsize in
      if length rd < md5bufsize then
        (if stream_failed fp then Some None
         else if rd \<noteq> [] then Option.bind (md5sum_update ctx rd) (\<lambda>c. Some (Some c))
         else Some (Some ctx))
      else Option.bind (md5sum_update ctx rd) (\<lambda>c. file_loop md5bufsize fp (pos + length rd) c))"

definition md5sum_file :: "stream option \<Rightarrow> word32 \<Rightarrow> nat \<Rightarrow> (int \<times> string \<times> byte list) option" where
  "md5sum_file fp sd md5bufsize =
     (case fp of
        None \<Rightarrow> Some (-1, [], [])
      | Some f \<Rightarrow>
          Option.bind (file_loop md5bufsize f 0 (md5sum_init sd)) (\<lambda>r. case r of
              None \<Rightarrow> Some (-1, [], [])
            | Some ctx \<Rightarrow> Option.bind (md5sum_done ctx) (\<lambda>c. Some (0, md5_format_lower (md_digest c), md_digest c))))"

lemma file_loop_reads:
  assumes "0 < n" "n < 4294967232" "\<not> stream_failed fp"
  shows "md5_repr ctx sd (take pos (st_bytes fp)) \<Longrightarrow> pos \<le> length (st_bytes fp) \<Longrightarrow>
    \<exists>c. file_loop n fp pos ctx = Some (Some c) \<and> md5_repr c sd (st_bytes fp)"
proof (induction "length (st_bytes fp) - pos" arbitrary: pos ctx rule: less_induct)
  case less
  have rd: "fread fp pos n = take n (drop pos (st_bytes fp))"
    using assms(3) by (auto simp: fread_def stream_failed_def split: option.splits)
  define rd where "rd = take n (drop pos (st_bytes fp))"
  have "length rd < 4294967232" using assms(2) by (simp add: rd_def)
  moreover have "take pos (st_bytes fp) @ rd = take (pos + length rd) (st_bytes fp)"
    unfolding take_add by (simp add: rd_def min_def)
  ultimately obtain c where c: "md5sum_update ctx rd = Some c" "md5_repr c sd (take (pos + length rd) (st_bytes fp))"
    using md5sum_update_repr [OF less.prems(1), of rd] by metis
  show ?case
  proof (cases "length rd < n")
    case True
    then have "pos + length rd = length (st_bytes fp)" using less.prems(2) by (auto simp: rd_def)
    then show ?thesis using True c less.prems assms(3) rd
      by (subst file_loop.simps) (auto simp: rd_def [symmetric] Let_def)
  next
    case False
    then have "length rd = n" by (simp add: rd_def)
    then have "pos + n \<le> length (st_bytes fp)" using less.prems(2) assms(1) by (simp add: rd_def)
    then have "\<exists>c'. file_loop n fp (pos + n) c = Some (Some c') \<and> md5_repr c' sd (st_bytes fp)"
      using less.hyps [of "pos + n" c] c(2) assms(1) \<open>length rd = n\<close> by simp
    then show ?thesis using False c(1) rd \<open>length rd = n\<close>
      by (subst file_loop.simps) (auto simp: rd_def [symmetric] Let_def)
  qed
qed

lemma file_loop_fails:
  assumes "0 < n" "n < 4294967232" "st_fail fp = Some k" "k < length (st_bytes fp)"
  shows "md5_repr ctx sd (take pos (st_bytes fp)) \<Longrightarrow> pos \<le> k \<Longrightarrow> file_loop n fp pos ctx = Some None"
proof (induction "k - pos" arbitrary: pos ctx rule: less_induct)
  case less
  define rd where "rd = take n (drop pos (take k (st_bytes fp)))"
  have rd: "fread fp pos n = rd" using assms(3) by (simp add: fread_def rd_def)
  have f: "stream_failed fp" using assms(3,4) by (simp add: stream_failed_def)
  show ?case
  proof (cases "length rd < n")
    case True
    then show ?thesis using rd f by (subst file_loop.simps) (simp add: Let_def)
  next
    case False
    then have l: "length rd = n" by (simp add: rd_def)
    then have p: "pos + n \<le> k" using less.prems(2) assms(1,4) by (simp add: rd_def)
    then have "rd = take n (drop pos (st_bytes fp))" using assms(4) by (simp add: rd_def drop_take min_def)
    then obtain c where c: "md5sum_update ctx rd = Some c" "md5_repr c sd (take (pos + n) (st_bytes fp))"
      using md5sum_update_repr [OF less.prems(1), of rd] assms(2) l by (auto simp: take_add)
    have "file_loop n fp (pos + n) c = Some None" using less.hyps [of "pos + n" c] c(2) p assms(1) by simp
    then show ?thesis using False c(1) rd l by (subst file_loop.simps) (simp add: Let_def)
  qed
qed

section \<open>Correctness\<close>

text \<open>A list of pieces fed one after the other.\<close>

fun feed :: "md5sum_t \<Rightarrow> byte list list \<Rightarrow> md5sum_t option" where
  "feed ctx [] = Some ctx"
| "feed ctx (p # ps) = (case md5sum_update ctx p of None \<Rightarrow> None | Some c \<Rightarrow> feed c ps)"

lemma feed_repr:
  "md5_repr ctx sd m \<Longrightarrow> list_all (\<lambda>p. length p < 4294967232) ps \<Longrightarrow>
     \<exists>c. feed ctx ps = Some c \<and> md5_repr c sd (m @ concat ps)"
proof (induction ps arbitrary: ctx m)
  case (Cons p ps)
  obtain c where "md5sum_update ctx p = Some c" "md5_repr c sd (m @ p)"
    using md5sum_update_repr [OF Cons.prems(1), of p] Cons.prems(2) by auto
  then show ?case using Cons.IH [of c "m @ p"] Cons.prems(2) by simp
qed simp

text \<open>
  The reference is the MD5 of RFC 1321 on its test vector for the text \<open>abc\<close>.  The machine words of the rounds are
  kept below \<open>2 ^ 32\<close> during the evaluation by \<open>reduced\<close>, the identity.
\<close>

definition reduced :: "word32 \<Rightarrow> word32" where "reduced w = word_of_int (uint w)"

lemma reduced_id: "reduced w = w"
  by (simp add: reduced_def)

lemma reduced_steps:
  "md5_LR x n = (let y = reduced x in reduced (push_bit n y) OR drop_bit (32 - n) y)"
  "FF a b c d x s ac = reduced (md5_LR (a + (md5_F b c d + x + ac)) s + b)"
  "GG a b c d x s ac = reduced (md5_LR (a + (md5_G b c d + x + ac)) s + b)"
  "HH a b c d x s ac = reduced (md5_LR (a + (md5_H b c d + x + ac)) s + b)"
  "II a b c d x s ac = reduced (md5_LR (a + (md5_I b c d + x + ac)) s + b)"
  by (simp_all add: reduced_id md5_LR_def FF_def GG_def HH_def II_def)

lemma decode_abc:
  "md5_decode (97 # 98 # 99 # 128 # replicate 52 0 @ [24, 0, 0, 0, 0, 0, 0, 0])
     = [0x80636261, 0, 0, 0, 0, 0, 0, 0, 0, 0, 0, 0, 0, 0, 24, 0]"
  by code_simp

lemma trans_abc:
  "md5_trans (0x67452301, 0xEFCDAB89, 0x98BADCFE, 0x10325476)
     (97 # 98 # 99 # 128 # replicate 52 0 @ [24, 0, 0, 0, 0, 0, 0, 0])
     = (0x98500190, 0xB04FD23C, 0x7D3F96D6, 0x727FE128)"
  unfolding md5_trans_def prod.case decode_abc
  by (simp add: reduced_steps reduced_def md5_F_def md5_G_def md5_H_def md5_I_def Let_def cong: let_weak_cong)

lemma md5_abc: "md5_format_lower (md5_spec 0 [97, 98, 99]) = ''900150983cd24fb0d6963f7d28e17f72''"
proof -
  have p: "md5_pad [97, 98, 99] = 97 # 98 # 99 # 128 # replicate 52 0 @ [24, 0, 0, 0, 0, 0, 0, 0]"
    by code_simp
  have i: "md_state (md5sum_init 0) = (0x67452301, 0xEFCDAB89, 0x98BADCFE, 0x10325476)"
    by (simp add: md5sum_init_def)
  have "md5_blocks (md_state (md5sum_init 0)) (md5_pad [97, 98, 99])
      = (0x98500190, 0xB04FD23C, 0x7D3F96D6, 0x727FE128)"
    unfolding p i by (subst md5_blocks.simps) (simp add: md5_blocks_short trans_abc)
  then have "md5_spec 0 [97, 98, 99] = md5_encode [0x98500190, 0xB04FD23C, 0x7D3F96D6, 0x727FE128]"
    by (simp add: md5_spec_def)
  moreover have "md5_format_lower (md5_encode [0x98500190, 0xB04FD23C, 0x7D3F96D6, 0x727FE128])
      = ''900150983cd24fb0d6963f7d28e17f72''"
    by code_simp
  ultimately show ?thesis by simp
qed

text \<open>
  C30.  However a message is cut into pieces of less than 4 GB, feeding them to a context and finishing gives
  the digest that MD5 defines for the whole message (with the initial state moved by the seed); and
  \<open>md5sum_bytes\<close> of the message prints that digest.  On \<open>abc\<close> the definition gives the digest of RFC 1321.
\<close>

theorem md5sum_pieces:
  assumes "list_all (\<lambda>p. length p < 4294967232) ps"
  shows "(\<exists>c d. feed (md5sum_init sd) ps = Some c \<and> md5sum_done c = Some d \<and> md_digest d = md5_spec sd (concat ps))
    \<and> (length (concat ps) < 4294967232 \<longrightarrow> md5sum_bytes (concat ps) sd = Some (md5_format_lower (md5_spec sd (concat ps))))
    \<and> md5_format_lower (md5_spec 0 [97, 98, 99]) = ''900150983cd24fb0d6963f7d28e17f72''"
proof (intro conjI impI)
  obtain c where c: "feed (md5sum_init sd) ps = Some c" "md5_repr c sd (concat ps)"
    using feed_repr [OF md5_repr_init assms] by auto
  obtain d where "md5sum_done c = Some d" "md_digest d = md5_spec sd (concat ps)" by (rule md5sum_done_spec [OF c(2)])
  then show "\<exists>c d. feed (md5sum_init sd) ps = Some c \<and> md5sum_done c = Some d \<and> md_digest d = md5_spec sd (concat ps)"
    using c(1) by blast
  assume l: "length (concat ps) < 4294967232"
  obtain c' where c': "md5sum_update (md5sum_init sd) (concat ps) = Some c'" "md5_repr c' sd (concat ps)"
    using md5sum_update_repr [OF md5_repr_init l, of sd] by auto
  obtain d' where "md5sum_done c' = Some d'" "md_digest d' = md5_spec sd (concat ps)" by (rule md5sum_done_spec [OF c'(2)])
  then show "md5sum_bytes (concat ps) sd = Some (md5_format_lower (md5_spec sd (concat ps)))"
    by (simp add: md5sum_bytes_def c'(1))
qed (rule md5_abc)

theorem md5sum_pieces_witness:
  "(\<exists>c d. feed (md5sum_init 7) [[1, 2], replicate 70 3] = Some c \<and> md5sum_done c = Some d
      \<and> md_digest d = md5_spec 7 (1 # 2 # replicate 70 3))
   \<and> md5sum_bytes (1 # 2 # replicate 70 3) 7 = Some (md5_format_lower (md5_spec 7 (1 # 2 # replicate 70 3)))"
  using md5sum_pieces [of "[[1, 2], replicate 70 3]" 7] by simp

lemma md5sum_file_bytes:
  assumes "0 < n" "n < 4294967232" "length (st_bytes fp) < 4294967232"
  shows "\<not> stream_failed fp \<Longrightarrow>
      md5sum_file (Some fp) sd n = Some (0, md5_format_lower (md5_spec sd (st_bytes fp)), md5_spec sd (st_bytes fp))"
    "stream_failed fp \<Longrightarrow> md5sum_file (Some fp) sd n = Some (-1, [], [])"
proof -
  assume "\<not> stream_failed fp"
  then obtain c where c: "file_loop n fp 0 (md5sum_init sd) = Some (Some c)" "md5_repr c sd (st_bytes fp)"
    using file_loop_reads [OF assms(1,2), of fp "md5sum_init sd" sd 0] by (auto simp: md5_repr_init)
  obtain d where "md5sum_done c = Some d" "md_digest d = md5_spec sd (st_bytes fp)" by (rule md5sum_done_spec [OF c(2)])
  then show "md5sum_file (Some fp) sd n = Some (0, md5_format_lower (md5_spec sd (st_bytes fp)), md5_spec sd (st_bytes fp))"
    by (simp add: md5sum_file_def c(1))
next
  assume "stream_failed fp"
  then obtain k where "st_fail fp = Some k" "k < length (st_bytes fp)" by (auto simp: stream_failed_def split: option.splits)
  then show "md5sum_file (Some fp) sd n = Some (-1, [], [])"
    using file_loop_fails [OF assms(1,2), of fp k "md5sum_init sd" sd 0] by (simp add: md5sum_file_def md5_repr_init)
qed

end
