(* ===== verification/ShmLog.thy ===== *)
theory ShmLog
  imports ShmOpen LogCreate Md5Sum
begin

text \<open>
  \<open>source/clogger/shmmaplog.c\<close>: the appender of a logger that writes to the shared ring.  Its name and token come from
  the configuration as \<open>clog_logger_create\<close> computes them: the token is the start of the MD5 digest of the file name, seeded
  with the magic key.  Linux branch.
\<close>

record shmmaplog_t =
  sl_shmname :: string
  sl_shmbuf :: shmmap_buffer

text \<open>\<open>/\<close> and \<open>\\<close> become \<open>-\<close>; the name is cut to its buffer of 256 bytes.\<close>

definition shm_name :: "string \<Rightarrow> string" where
  "shm_name filename = snprintf_chkd 256 (cstr_replace_chr (cstr_replace_chr filename (CHR ''/'') (CHR ''-'')) (CHR 0x5C) (CHR ''-''))"

text \<open>The union of eight bytes and a number.\<close>

definition token_value :: "byte list \<Rightarrow> ub8w" where
  "token_value token = word_of_nat (le_value (take 8 token))"

definition shmmaplog_init ::
  "shm_system \<Rightarrow> ub8w list \<Rightarrow> int \<times> int \<Rightarrow> (string \<rightharpoonup> shm_object) \<Rightarrow> string option \<Rightarrow> string \<Rightarrow> nat \<Rightarrow> byte list \<Rightarrow>
    (int \<times> shmmaplog_t option \<times> (string \<rightharpoonup> shm_object)) option" where
  "shmmaplog_init sys garbage now shms prefix1 filename maxsizebytes token =
     do {
       (err, buf, shms') \<leftarrow> shmmap_buffer_create sys garbage now shms (shm_name filename) maxsizebytes (Some (token_value token)) None None;
       Some (case buf of
           None \<Rightarrow> (-1, None, shms')
         | Some sb \<Rightarrow> if err \<noteq> 0 then (-1, None, shms') else (0, Some \<lparr>sl_shmname = shm_name filename, sl_shmbuf = sb\<rparr>, shms'))
     }"

text \<open>The names of the objects unmapped.\<close>

definition shmmaplog_uninit :: "shmmaplog_t option \<Rightarrow> string list" where
  "shmmaplog_uninit shmlog = (case shmlog of None \<Rightarrow> [] | Some sl \<Rightarrow> [sl_shmname sl])"

definition shmmaplog_write :: "shmmaplog_t \<Rightarrow> byte list \<Rightarrow> int \<Rightarrow> pmutex \<Rightarrow> (int \<times> shmmaplog_t) option" where
  "shmmaplog_write shmlog msg now_nsec later =
     do {
       (wok, sb) \<leftarrow> shmmap_buffer_write (sl_shmbuf shmlog) msg;
       if wok = SHMMBUF_WRITE_SUCCESS then do {
         (err, sb') \<leftarrow> shmmap_buffer_post sb SHMMBUF_TIMEOUT_NOWAIT now_nsec later;
         Some (wok, shmlog\<lparr>sl_shmbuf := sb'\<rparr>)
       }
       else Some (wok, shmlog\<lparr>sl_shmbuf := sb\<rparr>)
     }"

text \<open>The digest \<open>clog_logger_create\<close> passes as the token.\<close>

definition name_bytes :: "string \<Rightarrow> byte list" where
  "name_bytes s = map of_char s"

definition shmlog_digest :: "int \<Rightarrow> string \<Rightarrow> byte list option" where
  "shmlog_digest magickey shmlogfile =
     do {
       ctx \<leftarrow> md5sum_update (md5sum_init (word_of_int magickey)) (name_bytes shmlogfile);
       ctx' \<leftarrow> md5sum_done ctx;
       Some (md_digest ctx')
     }"

definition open_shmlog ::
  "shm_system \<Rightarrow> ub8w list \<Rightarrow> int \<times> int \<Rightarrow> (string \<rightharpoonup> shm_object) \<Rightarrow> string option \<Rightarrow> string \<Rightarrow> int \<Rightarrow> int \<Rightarrow>
    (int \<times> shmmaplog_t option \<times> (string \<rightharpoonup> shm_object)) option" where
  "open_shmlog sys garbage now shms prefix1 shmlogfile magickey bytes1 =
     do {
       digest \<leftarrow> shmlog_digest magickey shmlogfile;
       shmmaplog_init sys garbage now shms prefix1 shmlogfile (nat (bytes1 mod 18446744073709551616)) digest
     }"

section \<open>Opening\<close>

lemma shm_name_chars: "CHR ''/'' \<notin> set (shm_name f)" "CHR 0x5C \<notin> set (shm_name f)" "length (shm_name f) \<le> 255"
proof -
  have "set (shm_name f) \<subseteq> set (cstr_replace_chr (cstr_replace_chr f (CHR ''/'') (CHR ''-'')) (CHR 0x5C) (CHR ''-''))"
    by (simp add: shm_name_def snprintf_chkd_def set_take_subset)
  then show "CHR ''/'' \<notin> set (shm_name f)" "CHR 0x5C \<notin> set (shm_name f)" by (auto simp: cstr_replace_chr_def split: if_splits)
  show "length (shm_name f) \<le> 255" by (simp add: shm_name_def snprintf_chkd_def)
qed

definition shmlog_token :: "int \<Rightarrow> string \<Rightarrow> ub8w" where
  "shmlog_token magickey file = token_value (md5_spec (word_of_int magickey) (name_bytes file))"

lemma shmlog_digest_spec:
  "length file < 4294967232 \<Longrightarrow> shmlog_digest magickey file = Some (md5_spec (word_of_int magickey) (name_bytes file))"
proof -
  assume "length file < 4294967232"
  then obtain c where c: "md5sum_update (md5sum_init (word_of_int magickey)) (name_bytes file) = Some c"
      "md5_repr c (word_of_int magickey) (name_bytes file)"
    using md5sum_update_repr [OF md5_repr_init, of "name_bytes file" "word_of_int magickey"] by (auto simp: name_bytes_def)
  obtain d where "md5sum_done c = Some d" "md_digest d = md5_spec (word_of_int magickey) (name_bytes file)" by (rule md5sum_done_spec [OF c(2)])
  then show ?thesis using c(1) by (simp add: shmlog_digest_def)
qed

definition sys_fine :: shm_system where
  "sys_fine = \<lparr>sys_open = True, sys_mmap = True, sys_truncate = True\<rparr>"

text \<open>
  C36.  Which loggers share a ring.  When the system calls succeed and no object of the name exists, a logger gets a new,
  empty ring, under a name without slashes.  A second logger, in any process, whose file gives the same name and asks
  for the same size gets the same ring if its token agrees (always the case for the same file name and the same
  magic key), and -1 otherwise (unless the first token is the magic number drawn): in particular two files whose names
  differ only in \<open>/\<close>, \<open>\\<close> and \<open>-\<close> collide, and the second logger is refused unless the digests happen to agree.
\<close>

theorem shmlog_sharing:
  assumes "length garbage = 256" "shms (shm_name file) = None" "0 < bytes1" "bytes1 \<le> 1073741824"
    "length file < 4294967232" "length file2 < 4294967232" "shm_name file2 = shm_name file"
  shows "\<exists>sl shms'. open_shmlog sys_fine garbage now shms path file key bytes1 = Some (0, Some sl, shms') \<and>
     shm_repr (sl_shmbuf sl) [] \<and> CHR ''/'' \<notin> set (sl_shmname sl) \<and>
     open_shmlog sys_fine garbage2 now2 shms' path2 file2 key2 bytes1 =
       Some (if shmlog_token key2 file2 = shmlog_token key file \<or> shm_magic (sl_shmbuf sl) = shmlog_token key file
             then (0, Some sl, shms') else (-1, None, shms'))"
proof -
  define n where "n = nat bytes1"
  have n: "shm_size_ok n" "nat (bytes1 mod 18446744073709551616) = n" "n \<le> 1073741824" using assms(3,4) by (simp_all add: shm_size_ok_def n_def)
  have sf: "sys_open sys_fine" "sys_truncate sys_fine" "sys_mmap sys_fine" by (simp_all add: sys_fine_def)
  let ?tk = "shmlog_token key file"
  obtain sb where c: "shmmap_buffer_create sys_fine garbage now shms (shm_name file) n (Some ?tk) None None
      = Some (0, Some sb, shms(shm_name file \<mapsto> Mapped sb))" and r: "shm_repr sb []"
    by (rule create_new [of garbage n shms "shm_name file" sys_fine now "Some ?tk"]) (use assms n sf in simp_all)
  let ?sl = "\<lparr>sl_shmname = shm_name file, sl_shmbuf = sb\<rparr>" and ?shms = "shms(shm_name file \<mapsto> Mapped sb)"
  have 1: "open_shmlog sys_fine garbage now shms path file key bytes1 = Some (0, Some ?sl, ?shms)"
    using c by (simp add: open_shmlog_def shmlog_digest_spec [OF assms(5)] shmmaplog_init_def n(2) shmlog_token_def)
  note o = reopen_result [OF c assms(2) n(3) n(3) assms(1) sf, of garbage2 now2 "Some (shmlog_token key2 file2)"]
  have "open_shmlog sys_fine garbage2 now2 ?shms path2 file2 key2 bytes1 =
       Some (if shmlog_token key2 file2 = ?tk \<or> shm_magic sb = ?tk then (0, Some ?sl, ?shms) else (-1, None, ?shms))"
    using o by (simp add: open_shmlog_def shmlog_digest_spec [OF assms(6)] shmmaplog_init_def n(2) assms(7) shmlog_token_def create_codes)
  then show ?thesis
    using 1 r shm_name_chars(1) [of "file"] by - (rule exI [of _ ?sl], rule exI [of _ ?shms], simp)
qed

lemma shmlog_sharing_witness:
  "\<exists>sl shms'. open_shmlog sys_fine (replicate 256 0) (1, 2) Map.empty None ''app/log'' 350137278 2048000 = Some (0, Some sl, shms') \<and>
     open_shmlog sys_fine [] (3, 4) shms' None ''app/log'' 350137278 2048000 = Some (0, Some sl, shms')"
  using shmlog_sharing [of "replicate 256 0" Map.empty "''app/log''" 2048000 "''app/log''" "(1, 2)" None 350137278 "[]" "(3, 4)" None 350137278]
  by simp metis

section \<open>Writing\<close>



end
