(* ===== verification/ThreadPool.thy ===== *)
theory ThreadPool
  imports Fifo_Spec
begin

text \<open>
  \<open>source/common/threadpool.c\<close>: a fixed number of workers take tasks from a ring of slots under one mutex.  First the
  operations as functions on the pool, then the pool with its workers, callers and destroyer as a step relation: each
  critical section of the mutex is one step.  Addresses (functions, arguments) are numbers, system calls report through
  parameters.  The platform branches are those of Linux.
\<close>

section \<open>The pool\<close>

definition POOL_MAX_THREADS :: int where "POOL_MAX_THREADS = 16384"
definition POOL_MAX_QUEUES :: int where "POOL_MAX_QUEUES = 131072"
definition POOL_DEFAULT_THREADS :: int where "POOL_DEFAULT_THREADS = 16"
definition POOL_DEFAULT_QUEUES :: int where "POOL_DEFAULT_QUEUES = 256"
definition POOL_TASK_ARG_SIZE_MAX :: nat where "POOL_TASK_ARG_SIZE_MAX = 16384"
definition POOL_CPU_ID_MAX :: int where "POOL_CPU_ID_MAX = 255"

lemmas pool_consts = POOL_MAX_THREADS_def POOL_MAX_QUEUES_def POOL_DEFAULT_THREADS_def POOL_DEFAULT_QUEUES_def
  POOL_TASK_ARG_SIZE_MAX_def POOL_CPU_ID_MAX_def

datatype threadpool_error =
    threadpool_success
  | threadpool_invalid
  | threadpool_lock_failure
  | threadpool_queue_full
  | threadpool_shutdown
  | threadpool_run_failure
  | threadpool_out_memory
  | threadpool_task_arg_overflow

fun error_code :: "threadpool_error \<Rightarrow> int" where
  "error_code threadpool_success = 0"
| "error_code threadpool_invalid = -1"
| "error_code threadpool_lock_failure = -2"
| "error_code threadpool_queue_full = -3"
| "error_code threadpool_shutdown = -4"
| "error_code threadpool_run_failure = -5"
| "error_code threadpool_out_memory = -6"
| "error_code threadpool_task_arg_overflow = -7"

record threadpool_task_t =
  task_function :: nat
  task_flags :: nat
  task_argument :: nat
  arg_size :: int
  task_arg :: "byte list"

record threadpool_t =
  tp_head :: nat
  tp_tail :: nat
  tp_count :: int
  tp_shutdown :: bool
  tp_started :: int
  tp_thread_count :: nat
  tp_queue_size :: nat
  tp_task_arg_size :: nat
  tp_queues :: "threadpool_task_t list"

section \<open>Creation\<close>

text \<open>How the start of one worker went: not created, created but its affinity could not be read, or well.\<close>

datatype thread_start = NotCreated | NoAffinity | Running

text \<open>
  \<open>TpUndefined\<close>: the pool is destroyed with workers that were never created (their thread ids are uninitialised
  memory), or freed with a mutex that was not initialised.
\<close>

datatype tp_create = TpNull | TpPool threadpool_t | TpUndefined

record tp_system =
  tp_malloc :: bool
  tp_init :: bool
  tp_attr :: bool
  tp_starts :: "thread_start list"
  tp_attr_destroy :: bool

text \<open>
  The loop that starts the workers: \<open>Inl k\<close> if it stops after \<open>k\<close> of them were created, \<open>Inr\<close> the count of started
  ones.  A pool that fails at its last worker, after creating it, can be destroyed.
\<close>

fun start_threads :: "nat \<Rightarrow> thread_start list \<Rightarrow> nat \<Rightarrow> nat + nat" where
  "start_threads 0 outs started = Inr started"
| "start_threads (Suc n) [] started = Inl started"
| "start_threads (Suc n) (NotCreated # outs) started = Inl started"
| "start_threads (Suc n) (NoAffinity # outs) started = Inl (Suc started)"
| "start_threads (Suc n) (Running # outs) started = start_threads n outs (Suc started)"

definition threadpool_create :: "tp_system \<Rightarrow> threadpool_task_t list \<Rightarrow> int \<Rightarrow> int \<Rightarrow> nat \<Rightarrow> tp_create" where
  "threadpool_create sys memory thread_count queue_size task_arg_size =
     (if thread_count < 0 \<or> thread_count > POOL_MAX_THREADS then TpNull
      else let threads = nat (if thread_count = 0 then POOL_DEFAULT_THREADS else thread_count)
      in if queue_size < 0 \<or> queue_size > POOL_MAX_QUEUES then TpNull
      else let queues = nat (if queue_size = 0 then POOL_DEFAULT_QUEUES else queue_size)
      in if task_arg_size = 18446744073709551615 \<or> task_arg_size > POOL_TASK_ARG_SIZE_MAX then TpNull
      else if \<not> tp_malloc sys then TpNull
      else if \<not> tp_init sys then TpUndefined
      else if \<not> tp_attr sys then TpNull
      else case start_threads threads (tp_starts sys) 0 of
        Inl created \<Rightarrow> (if created = threads then TpNull else TpUndefined)
      | Inr started \<Rightarrow>
          if \<not> tp_attr_destroy sys then TpNull
          else TpPool \<lparr>tp_head = 0, tp_tail = 0, tp_count = 0, tp_shutdown = False, tp_started = int started,
            tp_thread_count = threads, tp_queue_size = queues, tp_task_arg_size = task_arg_size,
            tp_queues = take queues memory\<rparr>)"

section \<open>Adding and taking tasks\<close>

text \<open>\<open>pthread_mutex_lock\<close>, \<open>pthread_cond_signal\<close> and \<open>pthread_mutex_unlock\<close> succeed or not.\<close>

record tp_calls =
  lock_fine :: bool
  signal_fine :: bool
  unlock_fine :: bool

definition store_task :: "nat \<Rightarrow> nat \<Rightarrow> byte list \<Rightarrow> int \<Rightarrow> nat \<Rightarrow> threadpool_task_t \<Rightarrow> threadpool_task_t" where
  "store_task fn arg bytes size1 flags old =
     \<lparr>task_function = fn, task_flags = flags, task_argument = arg,
      arg_size = (if size1 > 0 then size1 else 0),
      task_arg = (if size1 > 0 then put_bytes (task_arg old) 0 (take (nat size1) bytes) else task_arg old)\<rparr>"

definition next_slot :: "threadpool_t \<Rightarrow> nat \<Rightarrow> nat" where
  "next_slot pool i = (if i + 1 = tp_queue_size pool then 0 else i + 1)"

text \<open>The critical section: the error, and whether a worker was signalled.\<close>

definition add_locked ::
  "tp_calls \<Rightarrow> threadpool_t \<Rightarrow> nat \<Rightarrow> nat \<Rightarrow> byte list \<Rightarrow> int \<Rightarrow> nat \<Rightarrow> threadpool_error \<times> bool \<times> threadpool_t" where
  "add_locked calls pool fn arg bytes size1 flags =
     (if tp_shutdown pool then (threadpool_shutdown, False, pool)
      else if tp_count pool = int (tp_queue_size pool) then (threadpool_queue_full, False, pool)
      else
        (let task = store_task fn arg bytes size1 flags (tp_queues pool ! tp_tail pool);
             pool' = pool\<lparr>tp_queues := (tp_queues pool)[tp_tail pool := task], tp_tail := next_slot pool (tp_tail pool),
               tp_count := tp_count pool + 1\<rparr>
         in if signal_fine calls then (threadpool_success, True, pool') else (threadpool_lock_failure, False, pool')))"

definition threadpool_add ::
  "tp_calls \<Rightarrow> threadpool_t option \<Rightarrow> nat option \<Rightarrow> nat \<Rightarrow> byte list \<Rightarrow> int \<Rightarrow> nat \<Rightarrow> threadpool_error \<times> bool \<times> threadpool_t option" where
  "threadpool_add calls pool function1 arg bytes size1 flags =
     (case (pool, function1) of
        (Some p, Some fn) \<Rightarrow>
          if size1 > int (tp_task_arg_size p) then (threadpool_task_arg_overflow, False, pool)
          else if \<not> lock_fine calls then (threadpool_lock_failure, False, pool)
          else (case add_locked calls p fn arg bytes size1 flags of (err, sig, p') \<Rightarrow>
            (if unlock_fine calls then err else threadpool_lock_failure, sig, Some p'))
      | _ \<Rightarrow> (threadpool_invalid, False, pool))"

definition threadpool_unused_queues :: "threadpool_t option \<Rightarrow> int" where
  "threadpool_unused_queues pool =
     (case pool of None \<Rightarrow> error_code threadpool_invalid
      | Some p \<Rightarrow> if tp_shutdown p then error_code threadpool_invalid else int (tp_queue_size p) - tp_count p)"

definition threadpool_get_threads_count :: "threadpool_t option \<Rightarrow> int" where
  "threadpool_get_threads_count pool = (case pool of None \<Rightarrow> 0 | Some p \<Rightarrow> int (tp_thread_count p))"

text \<open>A worker that holds the mutex: wait, leave the loop, or take a copy of the task at the head.\<close>

datatype tp_look = TpWait | TpBreak threadpool_t | TpGrab threadpool_task_t threadpool_t

definition worker_look :: "threadpool_t \<Rightarrow> tp_look" where
  "worker_look pool =
     (if tp_count pool = 0 \<and> \<not> tp_shutdown pool then TpWait
      else if tp_shutdown pool then TpBreak (pool\<lparr>tp_started := tp_started pool - 1\<rparr>)
      else TpGrab (tp_queues pool ! tp_head pool)
        (pool\<lparr>tp_head := next_slot pool (tp_head pool), tp_count := tp_count pool - 1\<rparr>))"

text \<open>\<open>threadpool_free\<close>: whether the memory is released.\<close>

definition threadpool_free :: "threadpool_t option \<Rightarrow> int \<times> bool" where
  "threadpool_free pool = (case pool of None \<Rightarrow> (-1, False) | Some p \<Rightarrow> if tp_started p > 0 then (-1, False) else (0, True))"

section \<open>Processors\<close>

definition clamp_affinity :: "int \<Rightarrow> int" where
  "clamp_affinity affinity_cpus =
     (if affinity_cpus = -1 then POOL_CPU_ID_MAX + 1
      else if affinity_cpus > POOL_CPU_ID_MAX then POOL_CPU_ID_MAX + 1 else affinity_cpus)"

text \<open>\<open>CPU_SET\<close> ignores a processor the set has no bit for; \<open>onln_cpus\<close> is the result of \<open>get_nprocs\<close>.\<close>

definition CPU_SETSIZE :: int where "CPU_SETSIZE = 1024"

definition thread_set_affinity_cpus :: "int \<Rightarrow> int \<Rightarrow> int \<Rightarrow> int \<times> int list" where
  "thread_set_affinity_cpus onln_cpus thrid affinity_cpus =
     (let a = clamp_affinity affinity_cpus;
          grps0 = (if a > 0 then onln_cpus sdiv a else 1);
          cpu_grps = (if grps0 < 1 then 1 else grps0);
          grp_id = thrid smod cpu_grps
      in (onln_cpus, filter (\<lambda>c. c < CPU_SETSIZE) [a * grp_id .. a * (grp_id + 1) - 1]))"

definition thread_check_affinity_cpus :: "int list option \<Rightarrow> int \<Rightarrow> int \<times> int list" where
  "thread_check_affinity_cpus cpuset cnt =
     (case cpuset of None \<Rightarrow> (-1, [])
      | Some cpus \<Rightarrow> (let l = take (nat cnt) (filter (\<lambda>j. j \<in> set cpus) [0 .. CPU_SETSIZE - 1]) in (int (length l), l)))"

section \<open>The ring of tasks\<close>

definition tp_inv :: "threadpool_t \<Rightarrow> bool" where
  "tp_inv pool \<longleftrightarrow> 0 < tp_queue_size pool \<and> length (tp_queues pool) = tp_queue_size pool \<and>
     tp_head pool < tp_queue_size pool \<and> 0 \<le> tp_count pool \<and> tp_count pool \<le> int (tp_queue_size pool) \<and>
     tp_tail pool = (tp_head pool + nat (tp_count pool)) mod tp_queue_size pool"

definition tp_slots :: "threadpool_t \<Rightarrow> nat list" where
  "tp_slots pool = map (\<lambda>i. (tp_head pool + i) mod tp_queue_size pool) [0..<nat (tp_count pool)]"

definition tp_content :: "threadpool_t \<Rightarrow> threadpool_task_t list" where
  "tp_content pool = map (\<lambda>i. tp_queues pool ! i) (tp_slots pool)"

lemma next_slot_mod: "i < tp_queue_size pool \<Longrightarrow> next_slot pool i = (i + 1) mod tp_queue_size pool"
  by (auto simp: next_slot_def)

lemma ring_slots_differ: "c < n \<Longrightarrow> h < n \<Longrightarrow> i < c \<Longrightarrow> (h + c) mod n \<noteq> (h + i) mod (n :: nat)"
  by (cases "h + c < n"; cases "h + i < n") (auto simp: mod_if split: if_splits)

lemma tail_free:
  assumes "tp_inv pool" "tp_count pool < int (tp_queue_size pool)"
  shows "tp_tail pool \<notin> set (tp_slots pool)" "tp_tail pool < tp_queue_size pool"
proof -
  let ?n = "tp_queue_size pool" and ?h = "tp_head pool" and ?c = "nat (tp_count pool)"
  have c: "?c < ?n" "?h < ?n" using assms by (auto simp: tp_inv_def)
  show "tp_tail pool < ?n" using assms by (simp add: tp_inv_def)
  show "tp_tail pool \<notin> set (tp_slots pool)"
  proof
    assume "tp_tail pool \<in> set (tp_slots pool)"
    then obtain i where i: "i < ?c" "(?h + ?c) mod ?n = (?h + i) mod ?n"
      using assms(1) by (auto simp: tp_slots_def tp_inv_def)
    then show False using ring_slots_differ [of ?c ?n ?h i] c by simp
  qed
qed

lemma add_content:
  assumes "tp_inv pool" "\<not> tp_shutdown pool" "tp_count pool < int (tp_queue_size pool)"
    "add_locked calls pool fn arg bytes size1 flags = (err, sig, pool')"
  shows "tp_inv pool'" "tp_content pool' = tp_content pool @ [store_task fn arg bytes size1 flags (tp_queues pool ! tp_tail pool)]"
    "tp_queue_size pool' = tp_queue_size pool" "\<not> tp_shutdown pool'" "sig = signal_fine calls" "tp_started pool' = tp_started pool"
    "tp_thread_count pool' = tp_thread_count pool" "tp_count pool' = tp_count pool + 1"
proof -
  let ?n = "tp_queue_size pool" and ?h = "tp_head pool" and ?c = "nat (tp_count pool)" and ?t = "tp_tail pool"
  let ?task = "store_task fn arg bytes size1 flags (tp_queues pool ! ?t)"
  define p1 where "p1 = pool\<lparr>tp_queues := (tp_queues pool)[?t := ?task], tp_tail := next_slot pool ?t, tp_count := tp_count pool + 1\<rparr>"
  have p1: "pool' = p1" and "sig = signal_fine calls" using assms(2-4) by (auto simp: add_locked_def Let_def p1_def split: if_splits)
  then show "sig = signal_fine calls" "tp_queue_size pool' = ?n" "\<not> tp_shutdown pool'" "tp_started pool' = tp_started pool"
    "tp_thread_count pool' = tp_thread_count pool" "tp_count pool' = tp_count pool + 1"
    using assms(2) by (simp_all add: p1_def)
  have i: "0 < ?n" "length (tp_queues pool) = ?n" "?h < ?n" "0 \<le> tp_count pool" "?t = (?h + ?c) mod ?n"
    using assms(1) by (simp_all add: tp_inv_def)
  note tf = tail_free [OF assms(1,3)]
  have c: "nat (tp_count pool + 1) = Suc ?c" using i(4) by simp
  have "next_slot pool ?t = (?h + Suc ?c) mod ?n" using next_slot_mod [OF tf(2)] i(5) by (simp add: mod_simps)
  then show "tp_inv pool'" using i assms(3) c unfolding p1 tp_inv_def p1_def by simp
  have "tp_slots p1 = tp_slots pool @ [?t]" using i(5) c by (simp add: tp_slots_def p1_def)
  moreover have "map (\<lambda>i. (tp_queues pool)[?t := ?task] ! i) (tp_slots pool) = tp_content pool"
    using tf(1) unfolding tp_content_def by (intro map_cong refl) (metis nth_list_update_neq)
  ultimately show "tp_content pool' = tp_content pool @ [?task]"
    using tf(2) i(2) unfolding p1 by (simp add: tp_content_def p1_def)
qed

lemma grab_content:
  assumes "tp_inv pool" "worker_look pool = TpGrab task pool'"
  shows "tp_inv pool'" "tp_content pool = task # tp_content pool'" "\<not> tp_shutdown pool"
    "tp_queue_size pool' = tp_queue_size pool" "\<not> tp_shutdown pool'" "tp_started pool' = tp_started pool"
    "tp_thread_count pool' = tp_thread_count pool"
proof -
  let ?n = "tp_queue_size pool" and ?h = "tp_head pool" and ?c = "nat (tp_count pool)"
  have w: "tp_count pool \<noteq> 0" "\<not> tp_shutdown pool" "task = tp_queues pool ! ?h"
    "pool' = pool\<lparr>tp_head := next_slot pool ?h, tp_count := tp_count pool - 1\<rparr>"
    using assms(2) by (auto simp: worker_look_def split: if_splits)
  show "\<not> tp_shutdown pool" "tp_queue_size pool' = ?n" "\<not> tp_shutdown pool'" "tp_started pool' = tp_started pool"
    "tp_thread_count pool' = tp_thread_count pool" using w by simp_all
  have i: "0 < ?n" "length (tp_queues pool) = ?n" "?h < ?n" "0 \<le> tp_count pool" "tp_tail pool = (?h + ?c) mod ?n"
    using assms(1) by (simp_all add: tp_inv_def)
  obtain m where m: "?c = Suc m" using w(1) i(4) by (cases ?c) auto
  have c: "nat (tp_count pool - 1) = m" using m by simp
  have hn: "next_slot pool ?h = (?h + 1) mod ?n" using next_slot_mod i(3) by simp
  have s: "((?h + 1) mod ?n + j) mod ?n = (?h + Suc j) mod ?n" for j by (simp add: mod_simps)
  show "tp_inv pool'" using i w(1,4) assms(1) c m s [of m] unfolding tp_inv_def by (simp add: hn)
  have "tp_slots pool = ?h # tp_slots pool'"
    using i(3) m c s unfolding w(4) tp_slots_def by (simp add: hn upt_conv_Cons map_Suc_upt [symmetric] del: upt_Suc)
  then show "tp_content pool = task # tp_content pool'" using w(3,4) by (simp add: tp_content_def)
qed

text \<open>A pool that is not shutting down is a queue with the capacity of its ring.\<close>

definition tp_open :: "threadpool_t \<Rightarrow> bool" where
  "tp_open pool \<longleftrightarrow> tp_inv pool \<and> \<not> tp_shutdown pool"

type_synonym tp_request = "nat \<times> nat \<times> byte list \<times> int \<times> nat"

definition all_fine :: tp_calls where
  "all_fine = \<lparr>lock_fine = True, signal_fine = True, unlock_fine = True\<rparr>"

definition tp_enq :: "tp_request \<Rightarrow> threadpool_t \<Rightarrow> bool \<times> threadpool_t" where
  "tp_enq e pool = (case e of (fn, arg, bytes, size1, flags) \<Rightarrow>
     (case threadpool_add all_fine (Some pool) (Some fn) arg bytes size1 flags of
        (err, sig, Some p') \<Rightarrow> (err = threadpool_success, p') | (err, sig, None) \<Rightarrow> (False, pool)))"

definition tp_stored :: "tp_request \<Rightarrow> threadpool_t \<Rightarrow> threadpool_task_t" where
  "tp_stored e pool = (case e of (fn, arg, bytes, size1, flags) \<Rightarrow>
     store_task fn arg bytes size1 flags (tp_queues pool ! tp_tail pool))"

definition tp_deq :: "threadpool_t \<Rightarrow> threadpool_task_t option \<times> threadpool_t" where
  "tp_deq pool = (case worker_look pool of TpGrab task p' \<Rightarrow> (Some task, p') | _ \<Rightarrow> (None, pool))"

definition request_fits :: "tp_request \<Rightarrow> threadpool_t \<Rightarrow> bool" where
  "request_fits e pool \<longleftrightarrow> (case e of (fn, arg, bytes, size1, flags) \<Rightarrow> size1 \<le> int (tp_task_arg_size pool))"

lemma tp_content_length: "tp_inv pool \<Longrightarrow> length (tp_content pool) = nat (tp_count pool)"
  by (simp add: tp_content_def tp_slots_def)

lemma tp_enq_cases:
  assumes "tp_open pool" "request_fits (fn, arg, bytes, size1, flags) pool"
  obtains "tp_count pool < int (tp_queue_size pool)" "fst (tp_enq (fn, arg, bytes, size1, flags) pool)"
      "add_locked all_fine pool fn arg bytes size1 flags = (threadpool_success, True, snd (tp_enq (fn, arg, bytes, size1, flags) pool))"
    | "tp_count pool = int (tp_queue_size pool)" "tp_enq (fn, arg, bytes, size1, flags) pool = (False, pool)"
proof (cases "tp_count pool = int (tp_queue_size pool)")
  case True
  then show thesis using assms that(2)
    by (simp add: tp_enq_def threadpool_add_def add_locked_def request_fits_def all_fine_def tp_open_def not_less)
next
  case False
  then have "tp_count pool < int (tp_queue_size pool)" using assms(1) by (simp add: tp_open_def tp_inv_def)
  then show thesis using False assms that(1)
    by (simp add: tp_enq_def threadpool_add_def add_locked_def request_fits_def all_fine_def tp_open_def not_less Let_def)
qed

interpretation tpq: reliable_fifo tp_open tp_content tp_enq tp_deq tp_stored request_fits tp_queue_size
proof unfold_locales
  fix q :: threadpool_t and e :: tp_request
  obtain fn arg bytes size1 flags where e: "e = (fn, arg, bytes, size1, flags)" by (metis prod_cases5)
  show "tp_queue_size (snd (tp_enq e q)) = tp_queue_size q"
    by (auto simp: e tp_enq_def threadpool_add_def add_locked_def Let_def split: prod.splits option.splits if_splits)
  show "tp_queue_size (snd (tp_deq q)) = tp_queue_size q"
    by (auto simp: tp_deq_def worker_look_def)
  assume q: "tp_open q"
  then have i: "tp_inv q" "\<not> tp_shutdown q" by (simp_all add: tp_open_def)
  show "tp_open (snd (tp_deq q))" using q grab_content(1,5) [OF i(1)]
    by (auto simp: tp_deq_def tp_open_def split: tp_look.split)
  show "tp_content q = (case fst (tp_deq q) of None \<Rightarrow> [] | Some a \<Rightarrow> [a]) @ tp_content (snd (tp_deq q))"
    using grab_content(2) [OF i(1)] by (auto simp: tp_deq_def split: tp_look.split)
  show "(fst (tp_deq q) = None) = (tp_content q = [])"
    using i tp_content_length [OF i(1)] by (auto simp: tp_deq_def worker_look_def tp_inv_def split: if_splits)
  assume ok: "request_fits e q"
  show "tp_open (snd (tp_enq e q))"
    by (rule tp_enq_cases [OF q ok [unfolded e]]) (use q add_content(1,4) [OF i] in \<open>auto simp: e tp_open_def\<close>)
  show "tp_content (snd (tp_enq e q)) = (if fst (tp_enq e q) then tp_content q @ [tp_stored e q] else tp_content q)"
    by (rule tp_enq_cases [OF q ok [unfolded e]]) (use add_content(2) [OF i] in \<open>auto simp: e tp_stored_def\<close>)
  show "fst (tp_enq e q) = (length (tp_content q) < tp_queue_size q)"
    by (rule tp_enq_cases [OF q ok [unfolded e]]) (use tp_content_length [OF i(1)] i in \<open>auto simp: e tp_inv_def\<close>)
qed

section \<open>Workers, callers and the destroyer\<close>

datatype tp_worker = AtLock | Waiting | Busy threadpool_task_t | Exited

text \<open>\<open>Joining k\<close> waits for worker \<open>k\<close>; \<open>Destroyed r\<close> returned \<open>r\<close>.\<close>

datatype tp_destroyer = NoDestroy | Joining nat | Destroyed int

record tp_world =
  tw_pool :: threadpool_t
  tw_pc :: "nat \<Rightarrow> tp_worker"
  tw_destroy :: tp_destroyer
  tw_freed :: bool
  tw_accepted :: "threadpool_task_t list"
  tw_run :: "threadpool_task_t list"

text \<open>The start of \<open>threadpool_destroy\<close>, up to the release of the mutex, and its end after the joins.\<close>

definition destroy_locked :: "threadpool_t \<Rightarrow> threadpool_error \<times> threadpool_t" where
  "destroy_locked pool =
     (if tp_shutdown pool then (threadpool_shutdown, pool) else (threadpool_success, pool\<lparr>tp_shutdown := True\<rparr>))"

text \<open>It unlocks the mutex again, which it no longer holds; \<open>unlocked\<close> is the result of that call.\<close>

definition destroy_joined :: "bool \<Rightarrow> threadpool_t \<Rightarrow> threadpool_error \<times> bool" where
  "destroy_joined unlocked pool =
     (if unlocked then (threadpool_success, snd (threadpool_free (Some pool))) else (threadpool_lock_failure, False))"

definition woken :: "tp_worker \<Rightarrow> tp_worker" where
  "woken pc = (if pc = Waiting then AtLock else pc)"

inductive tp_step :: "tp_world \<Rightarrow> tp_world \<Rightarrow> bool" where
  add_quiet: "\<not> tw_freed s \<Longrightarrow> threadpool_add all_fine (Some (tw_pool s)) (Some fn) arg bytes size1 flags = (err, sig, Some p') \<Longrightarrow>
    \<not> sig \<or> (\<forall>w < tp_thread_count (tw_pool s). tw_pc s w \<noteq> Waiting) \<Longrightarrow>
    tp_step s (s\<lparr>tw_pool := p', tw_accepted := tw_accepted s @
      (if err = threadpool_success then [tp_stored (fn, arg, bytes, size1, flags) (tw_pool s)] else [])\<rparr>)"
| add_signal: "\<not> tw_freed s \<Longrightarrow> threadpool_add all_fine (Some (tw_pool s)) (Some fn) arg bytes size1 flags = (err, True, Some p') \<Longrightarrow>
    w < tp_thread_count (tw_pool s) \<Longrightarrow> tw_pc s w = Waiting \<Longrightarrow>
    tp_step s (s\<lparr>tw_pool := p', tw_pc := (tw_pc s)(w := AtLock), tw_accepted := tw_accepted s @
      [tp_stored (fn, arg, bytes, size1, flags) (tw_pool s)]\<rparr>)"
| wait: "w < tp_thread_count (tw_pool s) \<Longrightarrow> tw_pc s w = AtLock \<Longrightarrow> worker_look (tw_pool s) = TpWait \<Longrightarrow>
    tp_step s (s\<lparr>tw_pc := (tw_pc s)(w := Waiting)\<rparr>)"
| spurious: "w < tp_thread_count (tw_pool s) \<Longrightarrow> tw_pc s w = Waiting \<Longrightarrow> tp_step s (s\<lparr>tw_pc := (tw_pc s)(w := AtLock)\<rparr>)"
| grab: "w < tp_thread_count (tw_pool s) \<Longrightarrow> tw_pc s w = AtLock \<Longrightarrow> worker_look (tw_pool s) = TpGrab task p' \<Longrightarrow>
    tp_step s (s\<lparr>tw_pool := p', tw_pc := (tw_pc s)(w := Busy task), tw_run := tw_run s @ [task]\<rparr>)"
| finish: "w < tp_thread_count (tw_pool s) \<Longrightarrow> tw_pc s w = Busy task \<Longrightarrow> tp_step s (s\<lparr>tw_pc := (tw_pc s)(w := AtLock)\<rparr>)"
| leave: "w < tp_thread_count (tw_pool s) \<Longrightarrow> tw_pc s w = AtLock \<Longrightarrow> worker_look (tw_pool s) = TpBreak p' \<Longrightarrow>
    tp_step s (s\<lparr>tw_pool := p', tw_pc := (tw_pc s)(w := Exited)\<rparr>)"
| destroy: "tw_destroy s = NoDestroy \<Longrightarrow> destroy_locked (tw_pool s) = (threadpool_success, p') \<Longrightarrow>
    tp_step s (s\<lparr>tw_pool := p', tw_pc := woken \<circ> tw_pc s, tw_destroy := Joining 0\<rparr>)"
| join: "tw_destroy s = Joining k \<Longrightarrow> k < tp_thread_count (tw_pool s) \<Longrightarrow> tw_pc s k = Exited \<Longrightarrow>
    tp_step s (s\<lparr>tw_destroy := Joining (Suc k)\<rparr>)"
| destroyed: "tw_destroy s = Joining (tp_thread_count (tw_pool s)) \<Longrightarrow> destroy_joined unlocked (tw_pool s) = (err, freed) \<Longrightarrow>
    tp_step s (s\<lparr>tw_destroy := Destroyed (error_code err), tw_freed := freed\<rparr>)"

definition tp_start :: "threadpool_t \<Rightarrow> tp_world" where
  "tp_start pool = \<lparr>tw_pool = pool, tw_pc = (\<lambda>w. AtLock), tw_destroy = NoDestroy, tw_freed = False, tw_accepted = [], tw_run = []\<rparr>"

definition alive :: "tp_world \<Rightarrow> nat set" where
  "alive s = {w. w < tp_thread_count (tw_pool s) \<and> tw_pc s w \<noteq> Exited}"

definition destroy_ok :: "tp_world \<Rightarrow> bool" where
  "destroy_ok s \<longleftrightarrow> (case tw_destroy s of NoDestroy \<Rightarrow> \<not> tw_freed s
     | Joining k \<Rightarrow> tp_shutdown (tw_pool s) \<and> \<not> tw_freed s \<and> k \<le> tp_thread_count (tw_pool s) \<and> (\<forall>w < k. tw_pc s w = Exited)
     | Destroyed r \<Rightarrow> tp_shutdown (tw_pool s) \<and> alive s = {} \<and> (r = 0 \<longleftrightarrow> tw_freed s))"

definition tp_sound :: "tp_world \<Rightarrow> bool" where
  "tp_sound s \<longleftrightarrow> tp_inv (tw_pool s) \<and> tw_accepted s = tw_run s @ tp_content (tw_pool s) \<and>
     tp_started (tw_pool s) = int (card (alive s)) \<and> 0 < tp_thread_count (tw_pool s) \<and>
     (tp_shutdown (tw_pool s) \<longrightarrow> (\<forall>w < tp_thread_count (tw_pool s). tw_pc s w \<noteq> Waiting)) \<and>
     ((\<exists>w < tp_thread_count (tw_pool s). tw_pc s w = Exited) \<longrightarrow> tp_shutdown (tw_pool s)) \<and>
     ((\<forall>w < tp_thread_count (tw_pool s). tw_pc s w = Waiting) \<longrightarrow> tp_count (tw_pool s) = 0) \<and> destroy_ok s"

lemma alive_finite [simp]: "finite (alive s)"
  by (simp add: alive_def)

lemma alive_cong:
  "tp_thread_count (tw_pool s') = tp_thread_count (tw_pool s) \<Longrightarrow> (\<And>w. tw_pc s' w = Exited \<longleftrightarrow> tw_pc s w = Exited) \<Longrightarrow> alive s' = alive s"
  by (auto simp: alive_def)

lemma add_cases:
  assumes "threadpool_add all_fine (Some p) (Some fn) arg bytes size1 flags = (err, sig, Some p')"
  obtains "err \<noteq> threadpool_success" "\<not> sig" "p' = p"
    | "err = threadpool_success" "sig" "\<not> tp_shutdown p" "tp_count p \<noteq> int (tp_queue_size p)"
      "add_locked all_fine p fn arg bytes size1 flags = (err, sig, p')"
  using assms
  by (auto simp: threadpool_add_def add_locked_def all_fine_def Let_def split: if_splits)

lemma sound_add:
  assumes "tp_sound s" "\<not> tp_shutdown (tw_pool s)" "tp_count (tw_pool s) \<noteq> int (tp_queue_size (tw_pool s))"
    "add_locked all_fine (tw_pool s) fn arg bytes size1 flags = (err, sig, p')"
    "\<And>w. pcs w = Exited \<longleftrightarrow> tw_pc s w = Exited" "\<exists>w < tp_thread_count (tw_pool s). pcs w \<noteq> Waiting"
  shows "tp_sound (s\<lparr>tw_pool := p', tw_pc := pcs, tw_accepted := tw_accepted s @ [tp_stored (fn, arg, bytes, size1, flags) (tw_pool s)]\<rparr>)"
proof -
  have i: "tp_inv (tw_pool s)" "tp_count (tw_pool s) < int (tp_queue_size (tw_pool s))"
    using assms(1,3) by (auto simp: tp_sound_def tp_inv_def)
  note a = add_content [OF i(1) assms(2) i(2) assms(4)]
  have al: "alive (s\<lparr>tw_pool := p', tw_pc := pcs, tw_accepted := x\<rparr>) = alive s" for x
    by (rule alive_cong) (use a assms(5) in simp_all)
  have "destroy_ok (s\<lparr>tw_pool := p', tw_pc := pcs, tw_accepted := x\<rparr>)" for x
    using assms(1,2) unfolding tp_sound_def destroy_ok_def by (cases "tw_destroy s") simp_all
  then show ?thesis using assms(1,2,5,6) a al unfolding tp_sound_def by (auto simp: tp_stored_def)
qed

lemma sound_worker:
  assumes "tp_sound s" "w < tp_thread_count (tw_pool s)" "tw_pc s w \<noteq> Exited" "x \<noteq> Exited"
    "x = Waiting \<longrightarrow> \<not> tp_shutdown (tw_pool s) \<and> tp_count (tw_pool s) = 0"
  shows "tp_sound (s\<lparr>tw_pc := (tw_pc s)(w := x)\<rparr>)"
proof -
  have al: "alive (s\<lparr>tw_pc := (tw_pc s)(w := x)\<rparr>) = alive s" by (rule alive_cong) (use assms(3,4) in auto)
  have "destroy_ok (s\<lparr>tw_pc := (tw_pc s)(w := x)\<rparr>)"
    using assms(1,3) al unfolding tp_sound_def destroy_ok_def by (cases "tw_destroy s") auto
  then show ?thesis using assms al unfolding tp_sound_def by auto
qed

lemma look_cases:
  "worker_look p = TpWait \<Longrightarrow> tp_count p = 0 \<and> \<not> tp_shutdown p"
  "worker_look p = TpBreak p' \<Longrightarrow> tp_shutdown p \<and> p' = p\<lparr>tp_started := tp_started p - 1\<rparr>"
  "worker_look p = TpGrab t p' \<Longrightarrow> tp_count p \<noteq> 0 \<and> \<not> tp_shutdown p"
  by (auto simp: worker_look_def split: if_splits)

lemma step_sound:
  assumes "tp_step s s'" "tp_sound s"
  shows "tp_sound s'"
  using assms(1)
proof cases
  case (add_quiet fn arg bytes size1 flags err sig p')
  show ?thesis
  proof (rule add_cases [OF add_quiet(3)])
    assume "err \<noteq> threadpool_success" "\<not> sig" "p' = tw_pool s"
    then have "s' = s" using add_quiet(1) by simp
    then show ?thesis using assms(2) by simp
  next
    assume a: "err = threadpool_success" "sig" "\<not> tp_shutdown (tw_pool s)" "tp_count (tw_pool s) \<noteq> int (tp_queue_size (tw_pool s))"
      "add_locked all_fine (tw_pool s) fn arg bytes size1 flags = (err, sig, p')"
    have "\<exists>w < tp_thread_count (tw_pool s). tw_pc s w \<noteq> Waiting" using add_quiet(4) a(2) assms(2) by (auto simp: tp_sound_def)
    then show ?thesis using sound_add [OF assms(2) a(3-5), of "tw_pc s"] add_quiet(1) a(1) by simp
  qed
next
  case (add_signal fn arg bytes size1 flags err p' w)
  show ?thesis
  proof (rule add_cases [OF add_signal(3)])
    assume a: "err = threadpool_success" "\<not> tp_shutdown (tw_pool s)" "tp_count (tw_pool s) \<noteq> int (tp_queue_size (tw_pool s))"
      "add_locked all_fine (tw_pool s) fn arg bytes size1 flags = (err, True, p')"
    have "\<exists>v < tp_thread_count (tw_pool s). ((tw_pc s)(w := AtLock)) v \<noteq> Waiting" using add_signal(4) by (intro exI [of _ w]) simp
    then show ?thesis using sound_add [OF assms(2) a(2-4), of "(tw_pc s)(w := AtLock)"] add_signal(1,5) by simp
  qed simp
next
  case (wait w)
  then show ?thesis using sound_worker [OF assms(2), of w Waiting] look_cases(1) by auto
next
  case (spurious w)
  then show ?thesis using sound_worker [OF assms(2), of w AtLock] by auto
next
  case (finish w task)
  then show ?thesis using sound_worker [OF assms(2), of w AtLock] by auto
next
  case (grab w task p')
  have i: "tp_inv (tw_pool s)" using assms(2) by (simp add: tp_sound_def)
  note g = grab_content [OF i grab(4)]
  have al: "alive s' = alive s" by (rule alive_cong) (use grab g in auto)
  have "destroy_ok s'" using assms(2) g grab unfolding tp_sound_def destroy_ok_def by (cases "tw_destroy s") auto
  moreover have "\<exists>v < tp_thread_count p'. tw_pc s' v \<noteq> Waiting" using grab g by (intro exI [of _ w]) simp
  ultimately show ?thesis using assms(2) g grab al unfolding tp_sound_def by auto
next
  case (leave w p')
  have b: "tp_shutdown (tw_pool s)" "p' = (tw_pool s)\<lparr>tp_started := tp_started (tw_pool s) - 1\<rparr>"
    using look_cases(2) [OF leave(4)] by simp_all
  have al: "alive s' = alive s - {w}" using leave b by (auto simp: alive_def)
  have "w \<in> alive s" using leave by (simp add: alive_def)
  then have cd: "int (card (alive s')) = int (card (alive s)) - 1" using al card_Suc_Diff1 [OF alive_finite \<open>w \<in> alive s\<close>] by simp
  have "tw_destroy s = Destroyed r \<Longrightarrow> False" for r using assms(2) \<open>w \<in> alive s\<close> by (simp add: tp_sound_def destroy_ok_def)
  then have "destroy_ok s'" using assms(2) b leave unfolding tp_sound_def destroy_ok_def by (cases "tw_destroy s") auto
  moreover have "tp_inv p'" "tp_content p' = tp_content (tw_pool s)"
    using assms(2) b by (simp_all add: tp_sound_def tp_inv_def tp_content_def tp_slots_def)
  moreover have "\<exists>v < tp_thread_count p'. tw_pc s' v \<noteq> Waiting" using leave b by (intro exI [of _ w]) simp
  ultimately show ?thesis using assms(2) b leave cd unfolding tp_sound_def by auto
next
  case (destroy p')
  have b: "\<not> tp_shutdown (tw_pool s)" "p' = (tw_pool s)\<lparr>tp_shutdown := True\<rparr>"
    using destroy(3) by (auto simp: destroy_locked_def split: if_splits)
  have al: "alive s' = alive s" by (rule alive_cong) (use destroy b in \<open>auto simp: woken_def\<close>)
  have "tp_inv p'" "tp_content p' = tp_content (tw_pool s)"
    using assms(2) b by (simp_all add: tp_sound_def tp_inv_def tp_content_def tp_slots_def)
  moreover have "destroy_ok s'" using assms(2) destroy b by (auto simp: destroy_ok_def tp_sound_def)
  moreover have "woken (tw_pc s v) \<noteq> Waiting" for v by (simp add: woken_def)
  ultimately show ?thesis using assms(2) al b destroy unfolding tp_sound_def by auto
next
  case (join k)
  have al: "alive s' = alive s" by (rule alive_cong) (use join in auto)
  have "destroy_ok s'" using assms(2) join by (auto simp: tp_sound_def destroy_ok_def less_Suc_eq)
  then show ?thesis using assms(2) join al unfolding tp_sound_def by auto
next
  case (destroyed unlocked err freed)
  have al: "alive s' = alive s" by (rule alive_cong) (use destroyed in auto)
  have d: "tp_shutdown (tw_pool s)" "\<forall>w < tp_thread_count (tw_pool s). tw_pc s w = Exited"
    using assms(2) destroyed by (simp_all add: tp_sound_def destroy_ok_def)
  then have e: "alive s = {}" by (auto simp: alive_def)
  then have "tp_started (tw_pool s) = 0" using assms(2) by (simp add: tp_sound_def)
  then have "destroy_ok s'" using destroyed d al e
    by (auto simp: destroy_ok_def destroy_joined_def threadpool_free_def split: if_splits)
  then show ?thesis using assms(2) destroyed al unfolding tp_sound_def by auto
qed

lemma created_pool:
  assumes "threadpool_create sys memory threads queues argsize = TpPool pool" "131072 \<le> length memory"
  shows "tp_sound (tp_start pool)" "tp_content pool = []" "\<not> tp_shutdown pool"
proof -
  have st: "start_threads n outs k = Inr m \<Longrightarrow> m = k + n" for n outs k m
    by (induction n outs k rule: start_threads.induct) auto
  define n where "n = nat (if threads = 0 then POOL_DEFAULT_THREADS else threads)"
  define q where "q = nat (if queues = 0 then POOL_DEFAULT_QUEUES else queues)"
  have g: "\<not> threads < 0" "\<not> queues < 0" "\<not> queues > 131072"
    using assms(1) by (auto simp: threadpool_create_def pool_consts split: if_splits)
  then have n: "0 < n" "0 < q" "q \<le> 131072" by (auto simp: n_def q_def pool_consts)
  obtain m where m: "start_threads n (tp_starts sys) 0 = Inr m" and
    p: "pool = \<lparr>tp_head = 0, tp_tail = 0, tp_count = 0, tp_shutdown = False, tp_started = int m,
            tp_thread_count = n, tp_queue_size = q, tp_task_arg_size = argsize, tp_queues = take q memory\<rparr>"
    using assms(1) unfolding threadpool_create_def Let_def n_def [symmetric] q_def [symmetric] by (auto split: if_splits sum.splits)
  have "m = n" using st [OF m] by simp
  note p = p [unfolded this]
  have "alive (tp_start pool) = {..<n}" by (auto simp: alive_def tp_start_def p)
  then show "tp_sound (tp_start pool)" using n assms(2)
    by (auto simp: tp_sound_def tp_start_def p tp_inv_def tp_content_def tp_slots_def destroy_ok_def)
  show "tp_content pool = []" "\<not> tp_shutdown pool" by (simp_all add: p tp_content_def tp_slots_def)
qed

definition tp_reach :: "threadpool_t \<Rightarrow> tp_world \<Rightarrow> bool" where
  "tp_reach pool s \<longleftrightarrow> tp_step\<^sup>*\<^sup>* (tp_start pool) s"

lemma steps_sound: "tp_step\<^sup>*\<^sup>* s s' \<Longrightarrow> tp_sound s \<Longrightarrow> tp_sound s'"
  by (induction rule: rtranclp_induct) (auto intro: step_sound)

section \<open>What a pool guarantees\<close>

text \<open>
  C38.  Tasks run once, in order.  For a pool that was created, in every state its workers, callers and the destroyer can
  reach, the tasks whose \<open>threadpool_add\<close> returned 0 are, in the order of the adds, those the workers have taken followed
  by those still in the ring: no task is lost, invented or taken twice, whichever worker takes it and however the ring
  wraps.  The count of started workers is that of the ones still running, and after a \<open>threadpool_destroy\<close> that returned 0
  the pool is freed and no worker is left.
\<close>

theorem threadpool_conserves:
  assumes "threadpool_create sys memory threads queues argsize = TpPool pool" "131072 \<le> length memory" "tp_reach pool s"
  shows "tw_accepted s = tw_run s @ tp_content (tw_pool s) \<and> length (tp_content (tw_pool s)) \<le> tp_queue_size (tw_pool s) \<and>
    tp_started (tw_pool s) = int (card (alive s)) \<and> (tw_destroy s = Destroyed 0 \<longrightarrow> tw_freed s \<and> alive s = {})"
proof -
  have "tp_sound s" using steps_sound created_pool(1) [OF assms(1,2)] assms(3) by (simp add: tp_reach_def)
  then show ?thesis using tp_content_length [of "tw_pool s"] by (auto simp: tp_sound_def tp_inv_def destroy_ok_def)
qed

lemma sample_pool:
  obtains pool where "threadpool_create \<lparr>tp_malloc = True, tp_init = True, tp_attr = True, tp_starts = [Running], tp_attr_destroy = True\<rparr>
      (replicate 131072 \<lparr>task_function = 0, task_flags = 0, task_argument = 0, arg_size = 0, task_arg = []\<rparr>) 1 2 0 = TpPool pool"
    "tp_thread_count pool = 1" "tp_queue_size pool = 2" "tp_count pool = 0" "tp_task_arg_size pool = 0" "\<not> tp_shutdown pool"
proof -
  let ?task = "\<lparr>task_function = 0, task_flags = 0, task_argument = 0, arg_size = 0, task_arg = []\<rparr>"
  let ?p = "\<lparr>tp_head = 0, tp_tail = 0, tp_count = 0, tp_shutdown = False, tp_started = 1,
            tp_thread_count = 1, tp_queue_size = 2, tp_task_arg_size = 0, tp_queues = take 2 (replicate 131072 ?task)\<rparr>"
  have "start_threads 1 [Running] 0 = Inr 1" by simp
  then show thesis by (intro that [of ?p]) (simp_all add: threadpool_create_def pool_consts)
qed

lemma sample_added:
  assumes "tp_thread_count pool = 1" "tp_queue_size pool = 2" "tp_count pool = 0" "tp_task_arg_size pool = 0" "\<not> tp_shutdown pool"
  obtains p' :: threadpool_t and t where "tp_reach pool ((tp_start pool)\<lparr>tw_pool := p', tw_accepted := [t]\<rparr>)" "tp_count p' = 1" "tp_thread_count p' = 1"
    "\<not> tp_shutdown p'"
proof -
  let ?t = "tp_stored (7, 8, [], 0, 9) pool"
  obtain p' where a: "threadpool_add all_fine (Some pool) (Some 7) 8 [] 0 9 = (threadpool_success, True, Some p')"
    "tp_count p' = 1" "tp_thread_count p' = 1" "\<not> tp_shutdown p'"
    using assms by (simp add: threadpool_add_def add_locked_def all_fine_def Let_def)
  have "tp_step (tp_start pool) ((tp_start pool)\<lparr>tw_pool := p', tw_accepted := [?t]\<rparr>)"
    using tp_step.add_quiet [of "tp_start pool" 7 8 "[]" 0 9 threadpool_success True p'] a by (simp add: tp_start_def)
  then show thesis using a(2-) by (intro that [of ?t p']) (auto simp: tp_reach_def)
qed

lemma threadpool_conserves_witness:
  "\<exists>pool (p' :: threadpool_t) t. threadpool_create \<lparr>tp_malloc = True, tp_init = True, tp_attr = True, tp_starts = [Running], tp_attr_destroy = True\<rparr>
      (replicate 131072 \<lparr>task_function = 0, task_flags = 0, task_argument = 0, arg_size = 0, task_arg = []\<rparr>) 1 2 0 = TpPool pool
    \<and> tp_reach pool ((tp_start pool)\<lparr>tw_pool := p', tw_accepted := [t]\<rparr>) \<and> tp_content p' = [t]"
proof -
  obtain pool where p: "threadpool_create \<lparr>tp_malloc = True, tp_init = True, tp_attr = True, tp_starts = [Running], tp_attr_destroy = True\<rparr>
      (replicate 131072 \<lparr>task_function = 0, task_flags = 0, task_argument = 0, arg_size = 0, task_arg = []\<rparr>) 1 2 0 = TpPool pool"
    "tp_thread_count pool = 1" "tp_queue_size pool = 2" "tp_count pool = 0" "tp_task_arg_size pool = 0" "\<not> tp_shutdown pool"
    by (rule sample_pool)
  obtain p' :: threadpool_t and t where r: "tp_reach pool ((tp_start pool)\<lparr>tw_pool := p', tw_accepted := [t]\<rparr>)"
    by (rule sample_added [OF p(2-6)])
  have "tp_content p' = [t]" using threadpool_conserves [OF p(1) _ r] by (simp add: tp_start_def)
  then show ?thesis using p(1) r by blast
qed



text \<open>Shutting down.\<close>

lemma shutdown_step: "tp_step s s' \<Longrightarrow> tp_shutdown (tw_pool s) \<Longrightarrow>
  tp_shutdown (tw_pool s') \<and> tw_run s' = tw_run s \<and> tw_accepted s' = tw_accepted s"
  by (cases rule: tp_step.cases, assumption)
    (auto simp: threadpool_add_def add_locked_def worker_look_def destroy_locked_def split: if_splits)

lemma exit_all:
  assumes "tp_sound s" "tw_destroy s = Joining k"
  shows "\<exists>s'. tp_step\<^sup>*\<^sup>* s s' \<and> alive s' = {} \<and> tw_destroy s' = Joining k"
  using assms
proof (induction "card (alive s)" arbitrary: s)
  case 0
  then have "alive s = {}" by simp
  then show ?case using 0 by blast
next
  case (Suc n)
  then obtain w where w: "w \<in> alive s" by (metis card.empty ex_in_conv nat.distinct(1))
  have sh: "tp_shutdown (tw_pool s)" using Suc.prems by (simp add: tp_sound_def destroy_ok_def)
  have lt: "w < tp_thread_count (tw_pool s)" "tw_pc s w \<noteq> Exited" using w by (simp_all add: alive_def)
  have nw: "tw_pc s w \<noteq> Waiting" using Suc.prems(1) sh lt by (simp add: tp_sound_def)
  define s1 where "s1 = s\<lparr>tw_pc := (tw_pc s)(w := AtLock)\<rparr>"
  have 1: "tp_step\<^sup>*\<^sup>* s s1"
  proof (cases "tw_pc s w")
    case AtLock
    then have "s1 = s" by (simp add: s1_def fun_upd_idem)
    then show ?thesis by simp
  next
    case (Busy task)
    then show ?thesis using tp_step.finish [OF lt(1)] by (simp add: s1_def r_into_rtranclp)
  qed (use nw lt in simp_all)
  define s2 where "s2 = s1\<lparr>tw_pool := (tw_pool s1)\<lparr>tp_started := tp_started (tw_pool s1) - 1\<rparr>, tw_pc := (tw_pc s1)(w := Exited)\<rparr>"
  have 2: "tp_step s1 s2" unfolding s2_def by (rule tp_step.leave) (use lt sh in \<open>simp_all add: s1_def worker_look_def\<close>)
  have "alive s2 = alive s - {w}" using lt by (auto simp: alive_def s2_def s1_def)
  then have "n = card (alive s2)" using Suc.hyps(2) w by simp
  moreover have "tp_sound s2" using steps_sound [OF 1 Suc.prems(1)] step_sound [OF 2] by simp
  moreover have "tw_destroy s2 = Joining k" using Suc.prems(2) by (simp add: s2_def s1_def)
  ultimately obtain s' where "tp_step\<^sup>*\<^sup>* s2 s'" "alive s' = {}" "tw_destroy s' = Joining k" using Suc.hyps(1) [of s2] by blast
  then show ?case using 1 2 by (meson converse_rtranclp_into_rtranclp rtranclp_trans)
qed

lemma join_all:
  assumes "alive s = {}" "tw_destroy s = Joining k" "k \<le> tp_thread_count (tw_pool s)"
  shows "tp_step\<^sup>*\<^sup>* s (s\<lparr>tw_destroy := Joining (tp_thread_count (tw_pool s))\<rparr>)"
  using assms
proof (induction "tp_thread_count (tw_pool s) - k" arbitrary: s k)
  case 0
  then have "s\<lparr>tw_destroy := Joining (tp_thread_count (tw_pool s))\<rparr> = s" by simp
  then show ?case by (metis rtranclp.rtrancl_refl)
next
  case (Suc n)
  have k: "k < tp_thread_count (tw_pool s)" using Suc.hyps(2) by simp
  then have "tw_pc s k = Exited" using Suc.prems(1) by (auto simp: alive_def)
  then have 1: "tp_step s (s\<lparr>tw_destroy := Joining (Suc k)\<rparr>)" using tp_step.join [OF Suc.prems(2) k] by simp
  have "tp_step\<^sup>*\<^sup>* (s\<lparr>tw_destroy := Joining (Suc k)\<rparr>)
     ((s\<lparr>tw_destroy := Joining (Suc k)\<rparr>)\<lparr>tw_destroy := Joining (tp_thread_count (tw_pool (s\<lparr>tw_destroy := Joining (Suc k)\<rparr>)))\<rparr>)"
    by (rule Suc.hyps(1)) (use Suc Suc_leI [OF k] in \<open>simp_all add: alive_def\<close>)
  then show ?case using 1 by (simp add: converse_rtranclp_into_rtranclp)
qed



text \<open>What the caller of \<open>threadpool_add\<close> learns: a failed signal is reported as an error, though the task is in the ring.\<close>

lemma threadpool_add_signal_failure:
  assumes "tp_open pool" "tp_count pool < int (tp_queue_size pool)" "size1 \<le> int (tp_task_arg_size pool)"
  shows "\<exists>p'. threadpool_add \<lparr>lock_fine = True, signal_fine = False, unlock_fine = True\<rparr> (Some pool) (Some fn) arg bytes size1 flags
      = (threadpool_lock_failure, False, Some p') \<and> tp_content p' = tp_content pool @ [tp_stored (fn, arg, bytes, size1, flags) pool]"
proof -
  let ?calls = "\<lparr>lock_fine = True, signal_fine = False, unlock_fine = True\<rparr>"
  have o: "tp_inv pool" "\<not> tp_shutdown pool" using assms(1) by (simp_all add: tp_open_def)
  obtain err sig p' where a: "add_locked ?calls pool fn arg bytes size1 flags = (err, sig, p')" by (metis prod_cases3)
  then have "err = threadpool_lock_failure" "\<not> sig" using o assms(2) by (auto simp: add_locked_def Let_def split: if_splits)
  then show ?thesis using add_content(2) [OF o assms(2) a] a assms(3)
    by (auto simp: threadpool_add_def tp_stored_def not_less)
qed

section \<open>Affinity\<close>

lemma group_bounds:
  fixes a k g n c :: int
  assumes "0 < a" "0 \<le> k" "k + 1 \<le> g" "a * g \<le> n" "c \<in> set [a * k .. a * (k + 1) - 1]"
  shows "0 \<le> c \<and> c < n"
proof -
  have "a * (k + 1) \<le> a * g" using assms(1,3) by (intro mult_left_mono) simp_all
  moreover have "0 \<le> a * k" using assms(1,2) by simp
  ultimately show ?thesis using assms(4,5) by auto
qed

text \<open>
  C0.  A worker is bound to one group of processors.  With an affinity between 1 and the number of processors (and at most
  255), each worker gets exactly that many consecutive processors, all of them existing, and workers whose numbers agree modulo
  the number of groups get the same group.
\<close>

theorem affinity_groups:
  assumes "0 < a" "a \<le> 255" "a \<le> onln" "onln \<le> 1024" "0 \<le> thrid"
  shows "thread_set_affinity_cpus onln thrid a =
      (onln, map (\<lambda>j. a * (thrid mod (onln div a)) + int j) [0..<nat a])
    \<and> (\<forall>c \<in> set (snd (thread_set_affinity_cpus onln thrid a)). 0 \<le> c \<and> c < onln)"
proof -
  define g k where "g = onln div a" and "k = thrid mod g"
  have g: "1 \<le> g" using assms by (simp add: g_def pos_imp_zdiv_pos_iff int_one_le_iff_zero_less)
  have k: "0 \<le> k" "k + 1 \<le> g" using g pos_mod_bound [of g thrid] pos_mod_sign [of g thrid] unfolding k_def by linarith+
  have "onln - onln mod a = a * g" unfolding g_def by (rule minus_mod_eq_mult_div)
  then have m: "a * g \<le> onln" using assms(1) pos_mod_sign [of a onln] by linarith
  note b = group_bounds [OF assms(1) k m]
  have l: "[a * k .. a * (k + 1) - 1] = map (\<lambda>j. a * k + int j) [0..<nat a]"
    using assms(1) by (intro nth_equalityI) (simp_all add: nth_upto distrib_left)
  have "c < CPU_SETSIZE" if "c \<in> set [a * k .. a * (k + 1) - 1]" for c
    using b [OF that] assms(4) by (simp only: CPU_SETSIZE_def) linarith
  then have "filter (\<lambda>c. c < CPU_SETSIZE) [a * k .. a * (k + 1) - 1] = [a * k .. a * (k + 1) - 1]" by (intro filter_True) blast
  moreover have "onln sdiv a = g" "thrid smod g = k" using assms g by (simp_all add: g_def k_def)
  ultimately have "thread_set_affinity_cpus onln thrid a = (onln, [a * k .. a * (k + 1) - 1])"
    using assms g by (simp add: thread_set_affinity_cpus_def clamp_affinity_def POOL_CPU_ID_MAX_def Let_def)
  then show ?thesis unfolding k_def [symmetric, unfolded g_def] using b by (simp only: l [symmetric] prod.inject snd_conv) blast
qed

lemma affinity_groups_witness: "thread_set_affinity_cpus 8 5 2 = (8, [2, 3])"
proof -
  have "nat 2 = Suc (Suc 0)" by simp
  then show ?thesis using affinity_groups [of 2 8 5] by (simp add: upt_rec)
qed

end
