(* ===== verification/Spec2Isabelle.thy ===== *)
theory Spec2Isabelle
  imports RingBuf_Conc CStrScan CDate CStrBuf LogThread RtClock MemBuff RegexRun LogNames LoggerConf LogCreate
    ShmCrash ShmLog ThreadPool
begin

text \<open>
  A verification development for \<^bold>\<open>libclogger\<close>, a C logging library (\<open>src/source\<close>).

  \<^bold>\<open>The program.\<close>  A configuration file (\<open>source/common/readconf.c\<close>) is loaded into a
  configuration (\<open>source/clogger/loggerconf.c\<close>), from which \<open>clog_logger_create\<close> builds a logger: its flags, a
  rolling file whose name comes from a pattern with symbols replaced by regular-expression search
  (\<open>source/common/smallregex.c\<close>), a pool of text buffers in a ring (\<open>source/common/ringbuf.h\<close>), and a
  lock-guarded byte ring for messages (\<open>source/common/ringbufst.h\<close>).  Application threads call
  \<open>clog_logger_log_format\<close> or \<open>clog_logger_log_message\<close> (\<open>source/clogger/clogger.c\<close>).  A message is formatted
  (date from the shared clock \<open>source/common/rtclock.c\<close>, level, ident, line, thread, text) in a buffer of
  the pool, its size is computed, and it is copied as one chunk into the byte ring; a semaphore is posted.
  One logging thread per logger takes the chunks out of the ring and gives each message to the
  appenders: stdout, syslog, a shared-memory log, or a rolling file (\<open>source/clogger/rollingfile.c\<close>).
  The shared-memory log (\<open>source/clogger/shmmaplog.c\<close>) is a ring in an object of \<open>shm_open\<close> that other processes
  map and read (\<open>source/common/shmmbuf.h\<close>); a token, made from the MD5 digest (\<open>source/common/md5sum.h\<close>) of its name,
  and a magic number drawn from ISAAC (\<open>source/common/randctx.h\<close>) protect it.
  Below these lie the string library (\<open>source/common/cstrbuf.h\<close>), the block pool
  (\<open>source/common/membuff.c\<close>), bit searches (\<open>source/common/ffs64.h\<close>) and a thread pool (\<open>source/common/threadpool.c\<close>).

  \<^bold>\<open>Theories and code.\<close>  Definitions carry the names of the C functions, types and macros they
  translate; \<open>_loop\<close> definitions are the loops of the function they are named after.

  \<^item> \<open>Prelude\<close>: C integers (\<open>int\<close> with explicit truncation, \<open>size_t\<close> as \<open>nat\<close> with explicit wrap-around),
    alignment macros of \<open>memapi.h\<close>, blocks of bytes and little-endian words.
  \<^item> \<open>Fifo_Spec\<close>: the contracts of a bounded queue, as locales.  \<open>RingBuf\<close> (all of \<open>ringbuf.h\<close>,
    sequential) and \<open>RingBufSt\<close>/\<open>RingBufSt_Fifo\<close> (all of \<open>ringbufst.h\<close>) interpret them on the code's
    operations; \<open>RingBuf_Conc\<close> has the atomic steps of concurrent \<open>ringbuf_push\<close> and \<open>ringbuf_pop\<close>.
  \<^item> \<open>CStr\<close>, \<open>CStrScan\<close>, \<open>CNum\<close>, \<open>CDate\<close>: the \<open>cstr_\<close> functions of \<open>cstrbuf.h\<close> (trimming; searching,
    splitting, comparing, replacing; numbers; dates and timestamps).  \<open>CStrBuf\<close>: the growing string
    \<open>cstrbuf\<close>, with its contract as a locale.
  \<^item> \<open>RollingFile\<close>: \<open>rollingfile.c\<close> on the POSIX file calls of \<open>fileut.h\<close>; regular files are a map
    from path names to contents.
  \<^item> \<open>LogFormat\<close>: names of levels, layouts, date formats; \<open>clog_format_datetime\<close>.  \<open>LogMessage\<close>: the size and
    the layout of a chunk (\<open>write_message_cb\<close>).  \<open>Logger\<close>: delivery (\<open>read_message_cb\<close>), the drain loop,
    commit with its wait, the two logging functions.  \<open>LogThread\<close>: logging thread, producers and
    \<open>clog_logger_destroy\<close> as one transition system.
  \<^item> \<open>RtClock\<close>: the calendar and time-zone functions of \<open>timeut.h\<close>, the shared clock of \<open>rtclock.c\<close> and
    \<open>rtclock_i.h\<close> with its tick, and the stamp ids of \<open>loggermgr.c\<close>.
  \<^item> \<open>Ffs64\<close>: the bit searches of \<open>ffs64.h\<close>.  \<open>Alloc_Spec\<close> is the contract of a block allocator, as a locale;
    \<open>MemBuff\<close> (\<open>membuff.c\<close>) interprets it.
  \<^item> \<open>SmallRegex\<close>: compilation and validation of patterns and the matching machine of \<open>smallregex.c\<close>, one
    definition per step of its loop; \<open>RegexRun\<close>: the runs of the machine.
  \<^item> \<open>ReadConf\<close>: lines, sections and values of \<open>readconf.c\<close>.  \<open>LoggerConf\<close>: \<open>loggerconf.c\<close>.  \<open>LogNames\<close>:
    \<open>clog_replace_string\<close>.  \<open>LogCreate\<close>: \<open>clog_logger_create\<close> and the accessors of a logger.
  \<^item> \<open>RandCtx\<close>: \<open>randctx.h\<close>; its two ISAAC generators interpret one locale.  \<open>Md5Sum\<close>: \<open>md5sum.h\<close>.
  \<^item> \<open>ShmBuf\<close>: the state and the operations of \<open>shmmbuf.h\<close>, with robust process-shared mutexes.  \<open>ShmRing\<close>: a ring at rest is a
    ring of \<open>ringbufst.h\<close>, whose lemmas and queue contract it takes over.  \<open>ShmOpen\<close>: creation, opening, token, semaphore.
    \<open>ShmRegion\<close>: which bytes of the ring are in use.  \<open>ShmCrash\<close>: the calls of many processes as steps, with the death of a process
    at any step.  \<open>ShmLog\<close>: \<open>shmmaplog.c\<close>.
  \<^item> \<open>ThreadPool\<close>: \<open>threadpool.c\<close>; its ring of tasks interprets the contract of a queue, and the workers, the callers and the
    destroyer are one step relation.

  \<^bold>\<open>What the lemmas show.\<close>  Rings: a representation relation (\<open>ringbuf_inv\<close>, \<open>rbst_repr\<close>) between
  memory and the stored elements, preserved by every operation, gives FIFO order, capacity, and the
  outcome of every call; for concurrent use, an inductive invariant gives mutual exclusion, linearizability
  and wait-freedom.  Strings: equivalence with list functions, round trips, bounds of the buffers.
  Rolling file: a functional refinement of a list of file generations.  Logger: a chunk gives back the
  message put in; a commit returns within its time; no message is lost or reordered between an accepted
  commit and the appenders; the log files hold what the specification computes.  Allocator: a first-fit
  refinement of a set of used blocks.  Clock: agreement with the proleptic calendar, monotone stamps.  Regex:
  compiled patterns are valid, the machine stays in its tables but for the stack, patterns without
  operators search like \<open>strstr\<close>.  Configuration: reading back what was printed, lookup as in a map, typing
  of the loaded configuration and of the created logger, the path of its log file.  Shared ring: an inductive invariant over
  the steps of all processes gives that nothing is lost or corrupted when processes die, and that the others go on.  Thread
  pool: every accepted task runs once and in order, no wake-up is lost, destruction ends.  Digest and random
  numbers: agreement with a reference and with each other.  Where the code
  does not do what it means to, the properties state what it does (messages cut to the limit are
  dropped; shutdown loses queued messages; a message behind a cleared tail is stranded).

  \<^bold>\<open>Loops and fuel.\<close>  Loops are structural recursions or \<open>function\<close>s with a measure; loops that may not
  return (\<open>cstr_replace_new\<close> on an empty pattern, \<open>ringbufst_read_copy\<close>, \<open>shmmap_buffer_read_copy\<close>, \<open>file_loop\<close>, \<open>commit_loop\<close>, \<open>drain\<close>, the machine \<open>vm_run\<close>,
  \<open>replace_symbol\<close>) are \<open>partial_function (option)\<close>; that they return is proved where they do, and inputs
  on which they run for ever are shown to give \<open>None\<close>.  No fuel is used.

  \<^bold>\<open>Assumptions of the model.\<close>  LP64 data model, GCC builtins, the Linux build.  \<open>malloc\<close> succeeds.  The
  clock, the results of \<open>write\<close>, the text of \<open>vsnprintf\<close>, \<open>shmmaplog_init\<close>, \<open>shmmaplog_write\<close> and the floating
  point of size values in \<open>loggerconf.c\<close> (\<open>atof\<close>, \<open>pow\<close>) are arguments of the model; a configuration file is its text.  The
  calls on the byte ring are atomic steps in \<open>LogThread\<close>; the code guards each side by a lock, a
  failed \<open>trylock\<close> giving up.  Robust mutexes behave as POSIX says: the next to lock one whose owner died is told so; a
  process sees the stores of another in program order.

  \<^bold>\<open>Not modelled.\<close>  Windows code (with \<open>shmmbuf-win.h\<close>); the vendored pthreads port and \<open>uthash\<close>; \<open>loggermgr.c\<close> but for its stamp
  ids; \<open>ffs32.h\<close> (the 32-bit twin of \<open>ffs64.h\<close>); \<open>shmmap.h\<close> (an older copy of \<open>shmmbuf.h\<close> that no source file includes);
  \<open>ConfReadValueRef\<close> and the debug printer \<open>regex_print\<close>; system-call wrappers (\<open>shmipc.h\<close>, \<open>fileut.h\<close> apart from the calls
  the rolling file uses, \<open>emerglog.h\<close>); bindings and test programs.
\<close>

end
